(* ===== verification/Moneu_Prelude.thy ===== *)
theory Moneu_Prelude
  imports Main "HOL-Library.Word"
begin

text \<open>
  Shared vocabulary of the development: machine-integer type names, the fault
  type and result monad used for every throwing routine, bounds-checked reads
  of a byte buffer, the little-endian codecs that the C++ files each keep a
  static copy of, and the \<open>codec\<close> interface under which every
  \<open>Serialize\<close>/\<open>Deserialize\<close> pair is proved to round-trip.
\<close>

unbundle bit_operations_syntax

section \<open>Type names\<close>

type_synonym byte = "8 word"
type_synonym u16 = "16 word"
type_synonym u32 = "32 word"
type_synonym u64 = "64 word"

text \<open>
  \<open>bytes32\<close> is \<open>std::array<uint8_t, 32>\<close> and \<open>bytes64\<close> its 64-byte
  sibling; the fixed length is the predicates below.
\<close>

type_synonym bytes32 = "byte list"
type_synonym bytes64 = "byte list"

abbreviation is_bytes32 :: "byte list \<Rightarrow> bool" where
  "is_bytes32 b \<equiv> length b = 32"

abbreviation is_bytes64 :: "byte list \<Rightarrow> bool" where
  "is_bytes64 b \<equiv> length b = 64"

definition zero32 :: bytes32 where
  "zero32 = replicate 32 0"

definition zero64 :: bytes64 where
  "zero64 = replicate 64 0"

text \<open>
  The \<open>for (uint8_t b : x) if (b != 0) \<dots>\<close> scans that the C++ repeats
  wherever it asks whether a hash, key or root is unset.
\<close>

definition all_zero :: "byte list \<Rightarrow> bool" where
  "all_zero bs \<longleftrightarrow> list_all (\<lambda>b. b = 0) bs"

section \<open>Faults and results\<close>

text \<open>
  \<open>CryptoError\<close> and \<open>RuntimeError\<close> carry the message of the C++
  exception. \<open>OutOfBounds\<close> is not an exception of the program: it is what
  the model answers when the code would read past the end of a buffer, so that
  memory safety of a parser is the theorem that it never answers it.
\<close>

datatype fault = CryptoError string | RuntimeError string | OutOfBounds

type_synonym 'a result = "fault + 'a"

definition rbind :: "'a result \<Rightarrow> ('a \<Rightarrow> 'b result) \<Rightarrow> 'b result" where
  "rbind m f = (case m of Inl e \<Rightarrow> Inl e | Inr x \<Rightarrow> f x)"

definition guard_throw :: "bool \<Rightarrow> fault \<Rightarrow> 'a result \<Rightarrow> 'a result" where
  "guard_throw c e k = (if c then Inl e else k)"

named_theorems result_simps \<open>evaluation of the result monad\<close>
named_theorems codec_simps \<open>lengths and shapes of encoders\<close>
named_theorems oob_simps \<open>when a routine answers OutOfBounds\<close>
named_theorems safe_intros \<open>parsers never read out of bounds\<close>

lemma rbind_Inl [simp, result_simps]: "rbind (Inl e) f = Inl e"
  by (simp add: rbind_def)

lemma rbind_Inr [simp, result_simps]: "rbind (Inr x) f = f x"
  by (simp add: rbind_def)

lemma rbind_eq_Inr_iff: "rbind m f = Inr y \<longleftrightarrow> (\<exists>x. m = Inr x \<and> f x = Inr y)"
  by (cases m) (auto simp: rbind_def)

lemma rbind_eq_InrE:
  assumes "rbind m f = Inr y"
  obtains x where "m = Inr x" and "f x = Inr y"
  using assms by (auto simp: rbind_eq_Inr_iff)

lemma rbind_safe [safe_intros]:
  assumes "m \<noteq> Inl OutOfBounds" and "\<And>x. m = Inr x \<Longrightarrow> f x \<noteq> Inl OutOfBounds"
  shows "rbind m f \<noteq> Inl OutOfBounds"
  using assms by (cases m) auto

lemma guard_throw_eq_Inr_iff [simp]:
  "guard_throw c e k = Inr x \<longleftrightarrow> \<not> c \<and> k = Inr x"
  by (simp add: guard_throw_def)

lemma guard_throw_False [simp, result_simps]: "guard_throw False e k = k"
  by (simp add: guard_throw_def)

lemma guard_throw_True [simp, result_simps]: "guard_throw True e k = Inl e"
  by (simp add: guard_throw_def)

lemma guard_throw_safe [safe_intros]:
  assumes "e \<noteq> OutOfBounds" and "\<not> c \<Longrightarrow> k \<noteq> Inl OutOfBounds"
  shows "guard_throw c e k \<noteq> Inl OutOfBounds"
  using assms by (simp add: guard_throw_def)

lemma rbind_oob [oob_simps]:
  "rbind m f = Inl OutOfBounds \<longleftrightarrow> m = Inl OutOfBounds \<or> (\<exists>x. m = Inr x \<and> f x = Inl OutOfBounds)"
  by (cases m) auto

lemma guard_throw_oob [oob_simps]:
  "guard_throw c e k = Inl OutOfBounds \<longleftrightarrow> (if c then e = OutOfBounds else k = Inl OutOfBounds)"
  by (simp add: guard_throw_def)

lemma Inr_safe [safe_intros]: "Inr x \<noteq> Inl OutOfBounds"
  by simp

section \<open>Reading a buffer\<close>

text \<open>\<open>data[offset]\<close> and \<open>memcpy(dst, data + offset, n)\<close>.\<close>

definition rd8 :: "byte list \<Rightarrow> nat \<Rightarrow> byte result" where
  "rd8 data off = (if off < length data then Inr (data ! off) else Inl OutOfBounds)"

definition rd_bytes :: "nat \<Rightarrow> byte list \<Rightarrow> nat \<Rightarrow> byte list result" where
  "rd_bytes n data off =
     (if off + n \<le> length data then Inr (take n (drop off data)) else Inl OutOfBounds)"

lemma rd8_safe [safe_intros]: "off < length data \<Longrightarrow> rd8 data off \<noteq> Inl OutOfBounds"
  by (simp add: rd8_def)

lemma rd_bytes_safe [safe_intros]:
  "off + n \<le> length data \<Longrightarrow> rd_bytes n data off \<noteq> Inl OutOfBounds"
  by (simp add: rd_bytes_def)

lemma rd_bytes_eq_Inr_iff:
  "rd_bytes n data off = Inr bs \<longleftrightarrow> off + n \<le> length data \<and> bs = take n (drop off data)"
  by (auto simp: rd_bytes_def)

lemma rd_bytes_length: "rd_bytes n data off = Inr bs \<Longrightarrow> length bs = n"
  by (auto simp: rd_bytes_def split: if_splits)

lemma rd_bytes_mid:
  "off = length pre \<Longrightarrow> n = length bs \<Longrightarrow> rd_bytes n (pre @ bs @ post) off = Inr bs"
  by (simp add: rd_bytes_def)

lemma rd8_oob [oob_simps]: "rd8 data off = Inl OutOfBounds \<longleftrightarrow> length data \<le> off"
  by (auto simp: rd8_def)

lemma rd_bytes_oob [oob_simps]: "rd_bytes n data off = Inl OutOfBounds \<longleftrightarrow> length data < off + n"
  by (auto simp: rd_bytes_def)

section \<open>Words read as natural numbers\<close>

named_theorems unat_simps \<open>unat pushed through the word operations\<close>

lemma bit_unat: "bit (unat w) n = bit (w :: 'a::len word) n"
  by transfer (simp add: bit_simps)

lemma unat_ucast_take: "unat (ucast (x :: 'a::len word) :: 'b::len word) = take_bit LENGTH('b) (unat x)"
  by (rule bit_eqI) (auto simp: bit_simps)

lemma unat_ucast_mod [unat_simps]:
  "unat (ucast (x :: 'a::len word) :: 'b::len word) = unat x mod 2 ^ LENGTH('b)"
  by (simp only: unat_ucast_take take_bit_eq_mod)

lemma unat_ucast_up:
  "LENGTH('a) \<le> LENGTH('b) \<Longrightarrow> unat (ucast (x :: 'a::len word) :: 'b::len word) = unat x"
  by transfer (simp add: take_bit_take_bit min_absorb1)

lemma unat_drop_bit [unat_simps]: "unat (drop_bit k n) = unat (n :: 'a::len word) div 2 ^ k"
  by (simp only: unat_drop_bit_eq drop_bit_eq_div [where 'a = nat])

lemma unat_take_bit [unat_simps]: "unat (take_bit k n) = unat (n :: 'a::len word) mod 2 ^ k"
proof -
  have "unat (take_bit k n) = take_bit k (unat n)"
    by (rule bit_eqI) (auto simp: bit_simps)
  then show ?thesis by (simp only: take_bit_eq_mod [where 'a = nat])
qed

lemma unat_push_bit [unat_simps]:
  "unat (push_bit k n) = (unat (n :: 'a::len word) * 2 ^ k) mod 2 ^ LENGTH('a)"
proof -
  have "unat (push_bit k n) = take_bit LENGTH('a) (push_bit k (unat n))"
    by (rule bit_eqI) (auto simp: bit_simps)
  then show ?thesis by (simp only: take_bit_eq_mod [where 'a = nat] push_bit_eq_mult [where 'a = nat])
qed

lemma unat_and_mask [unat_simps]: "unat (n AND mask k) = unat (n :: 'a::len word) mod 2 ^ k"
  by (simp only: unat_take_bit flip: take_bit_eq_mask)

lemma unat_or: "unat (v OR w) = unat v OR unat (w :: 'a::len word)"
  by (rule bit_eqI) (simp add: bit_simps)

lemma unat_not: "unat (NOT (w :: 'a::len word)) = 2 ^ LENGTH('a) - 1 - unat w"
proof -
  have e: "NOT w = - 1 - w" by (simp add: not_eq_complement)
  have "unat (- 1 :: 'a word) = 2 ^ LENGTH('a) - 1"
    by (simp add: unsigned_minus_1_eq_mask mask_eq_exp_minus_1)
  moreover have "w \<le> - 1" by simp
  ultimately show ?thesis unfolding e by (subst unat_sub) simp_all
qed

lemma nat_bit_bound: "(a :: nat) < 2 ^ k \<Longrightarrow> bit a n \<Longrightarrow> n < k"
  by (metis bit_take_bit_iff take_bit_nat_eq_self)

lemma nat_disjoint_add: "(a :: nat) < 2 ^ k \<Longrightarrow> a + 2 ^ k * b = a OR push_bit k b"
proof -
  assume a: "a < 2 ^ k"
  have "a + push_bit k b = a OR push_bit k b"
    by (rule disjunctive_add) (use nat_bit_bound [OF a] in \<open>fastforce simp: bit_push_bit_iff\<close>)
  then show ?thesis by (simp add: push_bit_eq_mult mult.commute)
qed

lemma bit_nat_split:
  "(a :: nat) < 2 ^ k \<Longrightarrow> bit (a + 2 ^ k * b) n = (if n < k then bit a n else bit b (n - k))"
  using nat_bit_bound [of a k n] by (auto simp: nat_disjoint_add bit_simps)

lemma unat_or_shift:
  assumes "unat (a :: 'a::len word) < 2 ^ k" and "unat b * 2 ^ k < 2 ^ LENGTH('a)"
  shows "unat (a OR push_bit k b) = unat a + 2 ^ k * unat b"
proof -
  have "unat (push_bit k b) = push_bit k (unat b)"
    using assms(2) by (simp only: unat_push_bit push_bit_eq_mult [where 'a = nat] mod_less)
  then show ?thesis
    by (simp only: unat_or nat_disjoint_add [OF assms(1)])
qed

section \<open>Little-endian codecs\<close>

definition WriteLE32 :: "u32 \<Rightarrow> byte list" where
  "WriteLE32 value =
     [ucast (value AND 0xFF),
      ucast (drop_bit 8 value AND 0xFF),
      ucast (drop_bit 16 value AND 0xFF),
      ucast (drop_bit 24 value AND 0xFF)]"

definition WriteLE64 :: "u64 \<Rightarrow> byte list" where
  "WriteLE64 value =
     [ucast (value AND 0xFF),
      ucast (drop_bit 8 value AND 0xFF),
      ucast (drop_bit 16 value AND 0xFF),
      ucast (drop_bit 24 value AND 0xFF),
      ucast (drop_bit 32 value AND 0xFF),
      ucast (drop_bit 40 value AND 0xFF),
      ucast (drop_bit 48 value AND 0xFF),
      ucast (drop_bit 56 value AND 0xFF)]"

definition ReadLE32 :: "byte list \<Rightarrow> nat \<Rightarrow> (u32 \<times> nat) result" where
  "ReadLE32 data offset =
     rbind (rd8 data offset) (\<lambda>b0.
     rbind (rd8 data (offset + 1)) (\<lambda>b1.
     rbind (rd8 data (offset + 2)) (\<lambda>b2.
     rbind (rd8 data (offset + 3)) (\<lambda>b3.
       Inr (ucast b0 OR push_bit 8 (ucast b1) OR push_bit 16 (ucast b2)
              OR push_bit 24 (ucast b3), offset + 4)))))"

definition ReadLE64 :: "byte list \<Rightarrow> nat \<Rightarrow> (u64 \<times> nat) result" where
  "ReadLE64 data offset =
     rbind (rd8 data offset) (\<lambda>b0.
     rbind (rd8 data (offset + 1)) (\<lambda>b1.
     rbind (rd8 data (offset + 2)) (\<lambda>b2.
     rbind (rd8 data (offset + 3)) (\<lambda>b3.
     rbind (rd8 data (offset + 4)) (\<lambda>b4.
     rbind (rd8 data (offset + 5)) (\<lambda>b5.
     rbind (rd8 data (offset + 6)) (\<lambda>b6.
     rbind (rd8 data (offset + 7)) (\<lambda>b7.
       Inr (ucast b0 OR push_bit 8 (ucast b1) OR push_bit 16 (ucast b2)
              OR push_bit 24 (ucast b3) OR push_bit 32 (ucast b4) OR push_bit 40 (ucast b5)
              OR push_bit 48 (ucast b6) OR push_bit 56 (ucast b7), offset + 8)))))))))"

lemma length_WriteLE32 [simp, codec_simps]: "length (WriteLE32 v) = 4"
  by (simp add: WriteLE32_def)

lemma length_WriteLE64 [simp, codec_simps]: "length (WriteLE64 v) = 8"
  by (simp add: WriteLE64_def)

lemma FF_eq_mask: "(0xFF :: 'a::len word) = mask 8"
  by (simp add: mask_eq_exp_minus_1)

lemma byte_slice:
  "push_bit k (ucast (ucast (drop_bit k v AND 0xFF) :: byte)) = (v :: 'a::len word) AND push_bit k 0xFF"
  unfolding FF_eq_mask
  by (rule bit_word_eqI)
    (auto simp del: mask_numeral simp: bit_unsigned_iff bit_push_bit_iff bit_and_iff bit_drop_bit_eq
      bit_mask_iff)

lemma and_full32: "(v :: u32) AND 4294967295 = v"
proof -
  have "(4294967295 :: u32) = -1" by simp
  then show ?thesis by (simp only: bit.conj_one_right)
qed

lemma and_full64: "(v :: u64) AND 18446744073709551615 = v"
proof -
  have "(18446744073709551615 :: u64) = -1" by simp
  then show ?thesis by (simp only: bit.conj_one_right)
qed

lemma byte_slice_0:
  "ucast (ucast (v AND 0xFF) :: byte) = (v :: 'a::len word) AND 0xFF"
  using byte_slice [of 0 v] by simp

lemma le32_join_split:
  "ucast (ucast (v AND 0xFF) :: byte) OR push_bit 8 (ucast (ucast (drop_bit 8 v AND 0xFF) :: byte))
     OR push_bit 16 (ucast (ucast (drop_bit 16 v AND 0xFF) :: byte))
     OR push_bit 24 (ucast (ucast (drop_bit 24 v AND 0xFF) :: byte)) = (v :: u32)"
  unfolding byte_slice unfolding byte_slice_0 by (simp add: and_full32 flip: bit.conj_disj_distrib)

lemma le64_join_split:
  "ucast (ucast (v AND 0xFF) :: byte) OR push_bit 8 (ucast (ucast (drop_bit 8 v AND 0xFF) :: byte))
     OR push_bit 16 (ucast (ucast (drop_bit 16 v AND 0xFF) :: byte))
     OR push_bit 24 (ucast (ucast (drop_bit 24 v AND 0xFF) :: byte))
     OR push_bit 32 (ucast (ucast (drop_bit 32 v AND 0xFF) :: byte))
     OR push_bit 40 (ucast (ucast (drop_bit 40 v AND 0xFF) :: byte))
     OR push_bit 48 (ucast (ucast (drop_bit 48 v AND 0xFF) :: byte))
     OR push_bit 56 (ucast (ucast (drop_bit 56 v AND 0xFF) :: byte)) = (v :: u64)"
  unfolding byte_slice unfolding byte_slice_0 by (simp add: and_full64 flip: bit.conj_disj_distrib)

lemma rd8_mid:
  "off = length pre + i \<Longrightarrow> i < length bs \<Longrightarrow> rd8 (pre @ bs @ post) off = Inr (bs ! i)"
  by (simp add: rd8_def nth_append)

lemma ReadLE32_WriteLE32:
  "ReadLE32 (pre @ WriteLE32 v @ post) (length pre) = Inr (v, length pre + 4)"
proof -
  have r: "rd8 (pre @ WriteLE32 v @ post) (length pre + i) = Inr (WriteLE32 v ! i)" if "i < 4" for i
    using that by (simp add: rd8_mid)
  show ?thesis
    unfolding ReadLE32_def
    using r [of 0] r [of 1] r [of 2] r [of 3]
    by (simp add: le32_join_split WriteLE32_def)
qed

lemma ReadLE64_WriteLE64:
  "ReadLE64 (pre @ WriteLE64 v @ post) (length pre) = Inr (v, length pre + 8)"
proof -
  have r: "rd8 (pre @ WriteLE64 v @ post) (length pre + i) = Inr (WriteLE64 v ! i)" if "i < 8" for i
    using that by (simp add: rd8_mid)
  show ?thesis
    unfolding ReadLE64_def
    using r [of 0] r [of 1] r [of 2] r [of 3] r [of 4] r [of 5] r [of 6] r [of 7]
    by (simp add: le64_join_split WriteLE64_def)
qed

lemma ReadLE32_safe [safe_intros]:
  "off + 4 \<le> length data \<Longrightarrow> ReadLE32 data off \<noteq> Inl OutOfBounds"
  by (simp add: ReadLE32_def rd8_def)

lemma ReadLE64_safe [safe_intros]:
  "off + 8 \<le> length data \<Longrightarrow> ReadLE64 data off \<noteq> Inl OutOfBounds"
  by (simp add: ReadLE64_def rd8_def)

lemma ReadLE32_oob [oob_simps]: "ReadLE32 data off = Inl OutOfBounds \<longleftrightarrow> length data < off + 4"
  by (auto simp: ReadLE32_def rd8_def oob_simps)

lemma ReadLE64_oob [oob_simps]: "ReadLE64 data off = Inl OutOfBounds \<longleftrightarrow> length data < off + 8"
  by (auto simp: ReadLE64_def rd8_def oob_simps)

lemma ReadLE32_off: "ReadLE32 data off = Inr (v, off') \<Longrightarrow> off' = off + 4 \<and> off' \<le> length data"
  by (auto simp: ReadLE32_def rd8_def rbind_def split: if_splits)

lemma ReadLE64_off: "ReadLE64 data off = Inr (v, off') \<Longrightarrow> off' = off + 8 \<and> off' \<le> length data"
  by (auto simp: ReadLE64_def rd8_def rbind_def split: if_splits)

text \<open>
  \<open>at_off data off s\<close>: what is left of the buffer at the offset is \<open>s\<close>. Parser proofs
  walk the encoding with it, one field per step.
\<close>

definition at_off :: "byte list \<Rightarrow> nat \<Rightarrow> byte list \<Rightarrow> bool" where
  "at_off data off s \<longleftrightarrow> off \<le> length data \<and> drop off data = s"

lemma at_offI: "at_off (pre @ s) (length pre) s"
  by (simp add: at_off_def)

lemma at_off_0: "at_off s 0 s"
  by (simp add: at_off_def)

lemma at_off_length: "at_off data off s \<Longrightarrow> length data = off + length s"
  by (auto simp: at_off_def)

lemma at_off_append:
  assumes "at_off data off (a @ s)"
  shows "at_off data (off + length a) s"
proof -
  have "drop (off + length a) data = drop (length a) (drop off data)" by (simp add: add.commute)
  with assms at_off_length [OF assms] show ?thesis by (simp add: at_off_def)
qed

lemma at_off_step: "at_off data off (a @ s) \<Longrightarrow> length a = n \<Longrightarrow> at_off data (off + n) s"
  using at_off_append by blast

lemma at_off_split:
  assumes "at_off data off s"
  obtains pre where "data = pre @ s" and "off = length pre"
  using that [of "take off data"] assms by (auto simp: at_off_def)

lemma rd_bytes_at: "at_off data off (a @ s) \<Longrightarrow> length a = n \<Longrightarrow> rd_bytes n data off = Inr a"
  by (erule at_off_split) (simp add: rd_bytes_mid)

lemma rd8_here: "at_off data off (b # s) \<Longrightarrow> rd8 data off = Inr b"
  by (erule at_off_split) (simp add: rd8_def)

lemma at_off_Cons: "at_off data off (b # s) \<Longrightarrow> at_off data (off + 1) s"
  using at_off_step [of data off "[b]" s 1] by simp

lemma ReadLE32_at: "at_off data off (WriteLE32 v @ s) \<Longrightarrow> ReadLE32 data off = Inr (v, off + 4)"
  by (erule at_off_split) (simp add: ReadLE32_WriteLE32)

lemma ReadLE64_at: "at_off data off (WriteLE64 v @ s) \<Longrightarrow> ReadLE64 data off = Inr (v, off + 8)"
  by (erule at_off_split) (simp add: ReadLE64_WriteLE64)

section \<open>The serialisation contract\<close>

text \<open>
  The loops \<open>for (i < count) v.push_back(T::Deserialize(data, len, offset))\<close>.
\<close>

fun dec_n :: "(byte list \<Rightarrow> nat \<Rightarrow> ('a \<times> nat) result) \<Rightarrow> nat \<Rightarrow> byte list \<Rightarrow> nat
    \<Rightarrow> ('a list \<times> nat) result" where
  "dec_n d 0 data off = Inr ([], off)"
| "dec_n d (Suc n) data off =
     rbind (d data off) (\<lambda>(x, off1).
     rbind (dec_n d n data off1) (\<lambda>(xs, off2). Inr (x # xs, off2)))"

text \<open>
  A type is serialised by \<open>enc\<close> and parsed by \<open>dec\<close> at an offset that the
  parser advances. The provider promises that every well-formed value is read
  back from any position of any buffer, that the parser never reads outside the
  buffer, and that what it accepts is well-formed and lies inside the buffer.
\<close>

locale codec =
  fixes enc :: "'a \<Rightarrow> byte list"
    and dec :: "byte list \<Rightarrow> nat \<Rightarrow> ('a \<times> nat) result"
    and wf :: "'a \<Rightarrow> bool"
  assumes dec_enc:
      "wf x \<Longrightarrow> dec (pre @ enc x @ post) (length pre) = Inr (x, length pre + length (enc x))"
    and dec_safe: "off \<le> length data \<Longrightarrow> dec data off \<noteq> Inl OutOfBounds"
    and dec_bounds:
      "off \<le> length data \<Longrightarrow> dec data off = Inr (x, off') \<Longrightarrow>
         wf x \<and> off \<le> off' \<and> off' \<le> length data"
begin

lemma dec_n_enc:
  assumes "\<forall>x \<in> set xs. wf x"
  shows "dec_n dec (length xs) (pre @ concat (map enc xs) @ post) (length pre) =
    Inr (xs, length pre + length (concat (map enc xs)))"
  using assms
proof (induction xs arbitrary: pre)
  case (Cons x xs)
  have "dec (pre @ enc x @ concat (map enc xs) @ post) (length pre) =
      Inr (x, length pre + length (enc x))"
    using Cons.prems by (intro dec_enc) simp
  moreover have "dec_n dec (length xs) ((pre @ enc x) @ concat (map enc xs) @ post)
        (length (pre @ enc x)) =
      Inr (xs, length (pre @ enc x) + length (concat (map enc xs)))"
    using Cons.prems by (intro Cons.IH) simp
  ultimately show ?case by (simp add: add.assoc)
qed simp

lemma dec_at:
  "wf x \<Longrightarrow> at_off data off (enc x @ s) \<Longrightarrow> dec data off = Inr (x, off + length (enc x))"
  by (erule at_off_split) (simp add: dec_enc)

lemma dec_n_at:
  assumes "\<forall>x \<in> set xs. wf x" and "at_off data off (concat (map enc xs) @ s)" and "n = length xs"
  shows "dec_n dec n data off = Inr (xs, off + length (concat (map enc xs)))"
  using assms(2) by (rule at_off_split) (simp add: dec_n_enc [OF assms(1)] assms(3))

lemma dec_n_bounds:
  assumes "off \<le> length data" and "dec_n dec n data off = Inr (xs, off')"
  shows "length xs = n \<and> (\<forall>x \<in> set xs. wf x) \<and> off \<le> off' \<and> off' \<le> length data"
  using assms
proof (induction n arbitrary: off xs off')
  case (Suc n)
  from Suc.prems(2) obtain x off1 ys where
    d: "dec data off = Inr (x, off1)" and r: "dec_n dec n data off1 = Inr (ys, off')"
    and xs: "xs = x # ys"
    by (auto simp: rbind_eq_Inr_iff)
  from dec_bounds [OF Suc.prems(1) d] have "wf x" "off \<le> off1" "off1 \<le> length data" by auto
  with Suc.IH [OF _ r] xs show ?case by auto
qed simp

lemma dec_n_safe: "off \<le> length data \<Longrightarrow> dec_n dec n data off \<noteq> Inl OutOfBounds"
proof (induction n arbitrary: off)
  case (Suc n)
  show ?case
  proof (cases "dec data off")
    case (Inl e)
    with dec_safe [OF Suc.prems] show ?thesis by simp
  next
    case (Inr p)
    obtain x off1 where p: "p = (x, off1)" by (cases p)
    from dec_bounds [OF Suc.prems Inr [unfolded p]] have "off1 \<le> length data" by simp
    from Suc.IH [OF this] show ?thesis
      by (cases "dec_n dec n data off1") (auto simp: Inr p)
  qed
qed simp

lemma enc_inj:
  assumes "wf x" and "wf y" and "enc x = enc y"
  shows "x = y"
  using dec_enc [OF assms(1), of "[]" "[]"] dec_enc [OF assms(2), of "[]" "[]"] assms(3) by simp

lemma enc_prefix_free:
  assumes "wf x" and "wf y" and "enc x @ s = enc y @ t"
  shows "x = y \<and> s = t"
  using dec_enc [OF assms(1), of "[]" s] dec_enc [OF assms(2), of "[]" t] assms(3) by auto

lemma enc_list_inj:
  assumes "\<forall>x \<in> set xs. wf x" and "\<forall>y \<in> set ys. wf y" and "length xs = length ys"
    and "concat (map enc xs) @ s = concat (map enc ys) @ t"
  shows "xs = ys \<and> s = t"
  using dec_n_enc [OF assms(1), of "[]" s] dec_n_enc [OF assms(2), of "[]" t] assms(3,4) by auto

end

end
