(* ===== verification/Uint256_Spec.thy ===== *)
theory Uint256_Spec
  imports Moneu_Prelude
begin

text \<open>
  The contract of a 256-bit unsigned integer type, as the proof-of-work code
  relies on it: a carrier with an abstraction to natural numbers under which
  every operator is arithmetic modulo \<open>2 ^ 256\<close>. The lemmas are the
  arithmetic patterns of \<open>src/src/consensus/pow.cpp\<close> (work of a target, scaling
  a target by a ratio, the shift-and-shift-back overflow test), proved once from
  the contract.
\<close>

locale uint256 =
  fixes val :: "'u \<Rightarrow> nat"
    and wf :: "'u \<Rightarrow> bool"
    and of64 :: "u64 \<Rightarrow> 'u"
    and bnot :: "'u \<Rightarrow> 'u"
    and add :: "'u \<Rightarrow> 'u \<Rightarrow> 'u"
    and sub :: "'u \<Rightarrow> 'u \<Rightarrow> 'u"
    and mul :: "'u \<Rightarrow> 'u \<Rightarrow> 'u"
    and mul32 :: "'u \<Rightarrow> u32 \<Rightarrow> 'u"
    and divide :: "'u \<Rightarrow> 'u \<Rightarrow> 'u result"
    and shl :: "'u \<Rightarrow> nat \<Rightarrow> 'u"
    and shr :: "'u \<Rightarrow> nat \<Rightarrow> 'u"
    and cmp :: "'u \<Rightarrow> 'u \<Rightarrow> int"
  assumes val_lt: "wf a \<Longrightarrow> val a < 2 ^ 256"
    and val_inj: "wf a \<Longrightarrow> wf b \<Longrightarrow> val a = val b \<Longrightarrow> a = b"
    and of64_law: "wf (of64 x) \<and> val (of64 x) = unat x"
    and not_law: "wf a \<Longrightarrow> wf (bnot a) \<and> val (bnot a) = 2 ^ 256 - 1 - val a"
    and add_law: "wf a \<Longrightarrow> wf b \<Longrightarrow> wf (add a b) \<and> val (add a b) = (val a + val b) mod 2 ^ 256"
    and sub_law:
      "wf a \<Longrightarrow> wf b \<Longrightarrow> wf (sub a b) \<and> val (sub a b) = (val a + (2 ^ 256 - val b)) mod 2 ^ 256"
    and mul_law: "wf a \<Longrightarrow> wf b \<Longrightarrow> wf (mul a b) \<and> val (mul a b) = (val a * val b) mod 2 ^ 256"
    and mul32_law: "wf a \<Longrightarrow> wf (mul32 a n) \<and> val (mul32 a n) = (val a * unat n) mod 2 ^ 256"
    and div_law:
      "wf a \<Longrightarrow> wf b \<Longrightarrow> val b \<noteq> 0 \<Longrightarrow> \<exists>q. divide a b = Inr q \<and> wf q \<and> val q = val a div val b"
    and div_zero_law: "wf b \<Longrightarrow> val b = 0 \<Longrightarrow> \<exists>e. divide a b = Inl e"
    and shl_law: "wf a \<Longrightarrow> wf (shl a k) \<and> val (shl a k) = (val a * 2 ^ k) mod 2 ^ 256"
    and shr_law: "wf a \<Longrightarrow> wf (shr a k) \<and> val (shr a k) = val a div 2 ^ k"
    and cmp_law: "wf a \<Longrightarrow> wf b \<Longrightarrow> cmp a b = sgn (int (val a) - int (val b))"
begin

text \<open>\<open>(~t / (t + 1)) + 1\<close> is the expected number of hashes \<open>2 ^ 256 / (t + 1)\<close>.\<close>

lemma target_work:
  assumes t: "wf t" "0 < val t" "val t < 2 ^ 256 - 1"
  shows "\<exists>q. divide (bnot t) (add t (of64 1)) = Inr q \<and> wf (add q (of64 1)) \<and>
    val (add q (of64 1)) = 2 ^ 256 div (val t + 1)"
proof -
  have one: "wf (of64 1)" "val (of64 1) = 1" using of64_law [of 1] by auto
  have s: "wf (add t (of64 1))" "val (add t (of64 1)) = val t + 1"
    using add_law [OF t(1) one(1)] one(2) t(3) by auto
  from div_law [OF _ s(1), of "bnot t"] not_law [OF t(1)] s(2) obtain q where
    q: "divide (bnot t) (add t (of64 1)) = Inr q" "wf q"
      "val q = (2 ^ 256 - 1 - val t) div (val t + 1)" by auto
  have "2 ^ 256 = (2 ^ 256 - 1 - val t) + (val t + 1)" using t(3) by simp
  then have w: "2 ^ 256 div (val t + 1) = val q + 1"
    unfolding q(3) by (metis Suc_eq_plus1 add.commute div_add_self1 zero_less_Suc neq0_conv)
  have "2 ^ 256 div (val t + 1) \<le> 2 ^ 256 div 2"
    using t(2) by (intro div_le_mono2) auto
  then have "val q + 1 < 2 ^ 256" unfolding w by simp
  with add_law [OF q(2) one(1)] one(2) w q(1) show ?thesis by auto
qed

text \<open>Multiplying by a 32-bit factor and dividing back is exact when nothing wraps.\<close>

lemma scale_exact:
  assumes t: "wf t" and "val t * unat n < 2 ^ 256" and "d \<noteq> 0"
  shows "\<exists>q. divide (mul32 t n) (of64 d) = Inr q \<and> wf q \<and> val q = val t * unat n div unat d"
proof -
  have "val (of64 d) \<noteq> 0" using of64_law [of d] assms(3) by (simp add: unat_eq_0)
  from div_law [OF _ _ this, of "mul32 t n"] mul32_law [OF t, of n] of64_law [of d] assms(2)
  show ?thesis by auto
qed

lemma scale_total:
  assumes "wf t" and "d \<noteq> 0"
  shows "\<exists>q. divide (mul32 t n) (of64 d) = Inr q \<and> wf q"
proof -
  have "val (of64 d) \<noteq> 0" using of64_law [of d] assms(2) by (simp add: unat_eq_0)
  from div_law [OF _ _ this, of "mul32 t n"] mul32_law [OF assms(1), of n] of64_law [of d]
  show ?thesis by auto
qed

text \<open>Shifting left and back loses nothing exactly when the shift does not overflow.\<close>

lemma shift_back_iff:
  assumes "wf t" and "k < 256"
  shows "shr (shl t k) k = t \<longleftrightarrow> val t * 2 ^ k < 2 ^ 256"
proof -
  have w: "wf (shl t k)" "val (shl t k) = (val t * 2 ^ k) mod 2 ^ 256"
    "wf (shr (shl t k) k)" "val (shr (shl t k) k) = val (shl t k) div 2 ^ k"
    using shl_law [OF assms(1)] shr_law by auto
  have e: "(2 :: nat) ^ 256 = 2 ^ (256 - k) * 2 ^ k"
    using assms(2) by (simp only: flip: power_add) simp
  from e have v: "val (shr (shl t k) k) = val t mod 2 ^ (256 - k)"
    unfolding w(4,2) by (simp only: mult_mod_left [symmetric] nonzero_mult_div_cancel_right) simp
  have "val t * 2 ^ k < 2 ^ 256 \<longleftrightarrow> val t < 2 ^ (256 - k)"
    unfolding e by simp
  also have "\<dots> \<longleftrightarrow> val (shr (shl t k) k) = val t"
    unfolding v by (metis mod_less mod_less_divisor zero_less_numeral zero_less_power)
  finally show ?thesis using val_inj [OF w(3) assms(1)] by auto
qed

lemma cmp_pos: "wf a \<Longrightarrow> wf b \<Longrightarrow> cmp a b > 0 \<longleftrightarrow> val b < val a"
  by (simp add: cmp_law sgn_if)

text \<open>\<open>if (a > b) a = b;\<close>\<close>

lemma clamp_max:
  "wf a \<Longrightarrow> wf b \<Longrightarrow> wf (if cmp a b > 0 then b else a) \<and> val (if cmp a b > 0 then b else a) = min (val a) (val b)"
  by (simp add: cmp_pos)

end

end
