(* ===== verification/Arith_Uint256.thy ===== *)
theory Arith_Uint256
  imports Uint256_Spec
begin

text \<open>
  The 256-bit unsigned integer of \<open>src/src/crypto/arith_uint256.h\<close> and
  \<open>arith_uint256.cpp\<close>: eight 32-bit limbs, least significant first, with
  every operator written on the limbs as the C++ writes it. The abstraction
  \<open>uval\<close> reads the limbs as a natural number and each operator is shown to
  refine the arithmetic operation modulo \<open>2 ^ 256\<close>. The last part is the
  compact (\<open>nBits\<close>) encoding and the big-endian byte conversion.
\<close>

section \<open>Limbs\<close>

type_synonym base_uint = "u32 list"

definition WIDTH :: nat where
  "WIDTH = 8"

abbreviation is_uint :: "base_uint \<Rightarrow> bool" where
  "is_uint a \<equiv> length a = WIDTH"

primrec uval :: "u32 list \<Rightarrow> nat" where
  "uval [] = 0"
| "uval (x # xs) = unat x + 2 ^ 32 * uval xs"

definition uint_zero :: base_uint where
  "uint_zero = replicate WIDTH 0"

definition of_uint64 :: "u64 \<Rightarrow> base_uint" where
  "of_uint64 b = [ucast b, ucast (drop_bit 32 b)] @ replicate (WIDTH - 2) 0"

definition uint_not :: "base_uint \<Rightarrow> base_uint" where
  "uint_not pn = map (\<lambda>x. NOT x) pn"

fun uint_inc :: "base_uint \<Rightarrow> base_uint" where
  "uint_inc [] = []"
| "uint_inc (x # xs) = (if x + 1 = 0 then (x + 1) # uint_inc xs else (x + 1) # xs)"

fun uint_dec :: "base_uint \<Rightarrow> base_uint" where
  "uint_dec [] = []"
| "uint_dec (x # xs) = (if x - 1 = - 1 then (x - 1) # uint_dec xs else (x - 1) # xs)"

definition uint_neg :: "base_uint \<Rightarrow> base_uint" where
  "uint_neg pn = uint_inc (map (\<lambda>x. NOT x) pn)"

definition uint_xor :: "base_uint \<Rightarrow> base_uint \<Rightarrow> base_uint" where
  "uint_xor a b = map2 (\<lambda>x y. x XOR y) a b"

definition uint_and :: "base_uint \<Rightarrow> base_uint \<Rightarrow> base_uint" where
  "uint_and a b = map2 (\<lambda>x y. x AND y) a b"

definition uint_or :: "base_uint \<Rightarrow> base_uint \<Rightarrow> base_uint" where
  "uint_or a b = map2 (\<lambda>x y. x OR y) a b"

fun add_loop :: "u64 \<Rightarrow> base_uint \<Rightarrow> base_uint \<Rightarrow> base_uint" where
  "add_loop carry (p # ps) (b # bs) =
     (let n = carry + ucast p + ucast b
      in ucast (n AND 0xffffffff) # add_loop (drop_bit 32 n) ps bs)"
| "add_loop carry _ _ = []"

definition uint_add :: "base_uint \<Rightarrow> base_uint \<Rightarrow> base_uint" where
  "uint_add a b = add_loop 0 a b"

definition uint_sub :: "base_uint \<Rightarrow> base_uint \<Rightarrow> base_uint" where
  "uint_sub a b = uint_add a (uint_neg b)"

definition uint_add64 :: "base_uint \<Rightarrow> u64 \<Rightarrow> base_uint" where
  "uint_add64 a b64 = uint_add a (of_uint64 b64)"

definition uint_sub64 :: "base_uint \<Rightarrow> u64 \<Rightarrow> base_uint" where
  "uint_sub64 a b64 = uint_add a (uint_neg (of_uint64 b64))"

fun mul32_loop :: "u64 \<Rightarrow> u32 \<Rightarrow> base_uint \<Rightarrow> base_uint" where
  "mul32_loop carry b32 [] = []"
| "mul32_loop carry b32 (p # ps) =
     (let n = carry + ucast b32 * ucast p
      in ucast (n AND 0xffffffff) # mul32_loop (drop_bit 32 n) b32 ps)"

definition uint_mul32 :: "base_uint \<Rightarrow> u32 \<Rightarrow> base_uint" where
  "uint_mul32 a b32 = mul32_loop 0 b32 a"

text \<open>
  One pass of the inner loop of the long multiplication, on the limbs of the
  accumulator from position \<open>j\<close> on: the loop stops when the accumulator ends
  (\<open>i + j < WIDTH\<close>).
\<close>

fun mac_loop :: "u64 \<Rightarrow> u32 \<Rightarrow> base_uint \<Rightarrow> base_uint \<Rightarrow> base_uint" where
  "mac_loop carry pj (x # xs) (b # bs) =
     (let n = carry + ucast x + ucast pj * ucast b
      in ucast (n AND 0xffffffff) # mac_loop (drop_bit 32 n) pj xs bs)"
| "mac_loop carry pj xs bs = []"

definition mul_pass :: "base_uint \<Rightarrow> base_uint \<Rightarrow> nat \<Rightarrow> base_uint \<Rightarrow> base_uint" where
  "mul_pass pn b j a = take j a @ mac_loop 0 (pn ! j) (drop j a) b"

definition uint_mul :: "base_uint \<Rightarrow> base_uint \<Rightarrow> base_uint" where
  "uint_mul pn b = fold (mul_pass pn b) [0..<WIDTH] uint_zero"

definition shl_step :: "base_uint \<Rightarrow> nat \<Rightarrow> nat \<Rightarrow> nat \<Rightarrow> base_uint \<Rightarrow> base_uint" where
  "shl_step a k s i pn =
     (let pn = (if i + k + 1 < WIDTH \<and> s \<noteq> 0
                then pn[i + k + 1 := pn ! (i + k + 1) OR drop_bit (32 - s) (a ! i)] else pn)
      in if i + k < WIDTH then pn[i + k := pn ! (i + k) OR push_bit s (a ! i)] else pn)"

definition uint_shl :: "base_uint \<Rightarrow> nat \<Rightarrow> base_uint" where
  "uint_shl a shift = fold (shl_step a (shift div 32) (shift mod 32)) [0..<WIDTH] uint_zero"

definition shr_step :: "base_uint \<Rightarrow> nat \<Rightarrow> nat \<Rightarrow> nat \<Rightarrow> base_uint \<Rightarrow> base_uint" where
  "shr_step a k s i pn =
     (let pn = (if k + 1 \<le> i \<and> s \<noteq> 0
                then pn[i - k - 1 := pn ! (i - k - 1) OR push_bit (32 - s) (a ! i)] else pn)
      in if k \<le> i then pn[i - k := pn ! (i - k) OR drop_bit s (a ! i)] else pn)"

definition uint_shr :: "base_uint \<Rightarrow> nat \<Rightarrow> base_uint" where
  "uint_shr a shift = fold (shr_step a (shift div 32) (shift mod 32)) [0..<WIDTH] uint_zero"

primrec cmp_loop :: "nat \<Rightarrow> base_uint \<Rightarrow> base_uint \<Rightarrow> int" where
  "cmp_loop 0 pn b = 0"
| "cmp_loop (Suc i) pn b =
     (if pn ! i < b ! i then - 1 else if pn ! i > b ! i then 1 else cmp_loop i pn b)"

definition CompareTo :: "base_uint \<Rightarrow> base_uint \<Rightarrow> int" where
  "CompareTo pn b = cmp_loop WIDTH pn b"

definition EqualTo :: "base_uint \<Rightarrow> u64 \<Rightarrow> bool" where
  "EqualTo pn b \<longleftrightarrow>
     list_all (\<lambda>i. pn ! i = 0) [2..<WIDTH] \<and> pn ! 1 = ucast (drop_bit 32 b) \<and> pn ! 0 = ucast b"

primrec nbits_loop :: "nat \<Rightarrow> u32 \<Rightarrow> nat" where
  "nbits_loop 0 w = 1"
| "nbits_loop (Suc nbits) w =
     (if w AND push_bit (Suc nbits) 1 \<noteq> 0 then Suc nbits + 1 else nbits_loop nbits w)"

primrec bits_loop :: "nat \<Rightarrow> base_uint \<Rightarrow> nat" where
  "bits_loop 0 pn = 0"
| "bits_loop (Suc pos) pn =
     (if pn ! pos \<noteq> 0 then 32 * pos + nbits_loop 31 (pn ! pos) else bits_loop pos pn)"

definition uint_bits :: "base_uint \<Rightarrow> nat" where
  "uint_bits pn = bits_loop WIDTH pn"

text \<open>
  The restoring-division loop. The argument counts the iterations left, so the
  iteration at \<open>Suc shift\<close> is the one the C++ runs with that \<open>shift\<close>.
\<close>

primrec div_loop :: "nat \<Rightarrow> base_uint \<Rightarrow> base_uint \<Rightarrow> base_uint \<Rightarrow> base_uint \<times> base_uint" where
  "div_loop 0 num d q = (q, num)"
| "div_loop (Suc shift) num d q =
     (let ge = CompareTo num d \<ge> 0;
          num' = (if ge then uint_sub num d else num);
          q' = (if ge then q[shift div 32 := q ! (shift div 32) OR push_bit (shift mod 32) 1] else q)
      in div_loop shift num' (uint_shr d 1) q')"

definition uint_div :: "base_uint \<Rightarrow> base_uint \<Rightarrow> base_uint result" where
  "uint_div a b =
     (let num_bits = uint_bits a; div_bits = uint_bits b
      in if div_bits = 0 then Inl (RuntimeError ''Division by zero'')
         else if div_bits > num_bits then Inr uint_zero
         else (let shift = num_bits - div_bits
               in Inr (fst (div_loop (Suc shift) a (uint_shl b shift) uint_zero))))"

definition GetLow64 :: "base_uint \<Rightarrow> u64" where
  "GetLow64 pn = ucast (pn ! 0) OR push_bit 32 (ucast (pn ! 1))"

definition kHexDigits :: string where
  "kHexDigits = ''0123456789abcdef''"

definition GetHex :: "base_uint \<Rightarrow> string" where
  "GetHex pn =
     concat (map (\<lambda>i. map (\<lambda>nibble. kHexDigits ! unat (drop_bit nibble (pn ! i) AND 0xF))
                       [28, 24, 20, 16, 12, 8, 4, 0])
                 (rev [0..<WIDTH]))"

section \<open>Carry chains\<close>

lemma WIDTH_simps [simp]: "32 * WIDTH = 256" "0 < WIDTH" "Suc 0 < WIDTH" "WIDTH \<noteq> 0"
  by (simp_all add: WIDTH_def)

lemma unat32_lt: "unat (x :: u32) < 4294967296"
  using unsigned_less [of x] by simp

lemma uval_lt: "uval p < 2 ^ (32 * length p)"
proof (induction p)
  case (Cons x xs)
  have "unat x + 2 ^ 32 * uval xs < 2 ^ 32 * (uval xs + 1)"
    using unat32_lt [of x] by simp
  also have "\<dots> \<le> 2 ^ 32 * 2 ^ (32 * length xs)"
    using Cons.IH by (intro mult_left_mono) auto
  finally show ?case by (simp add: power_add)
qed simp

lemma uval_lt256: "is_uint p \<Longrightarrow> uval p < 2 ^ 256"
  using uval_lt [of p] by simp

lemma uval_append: "uval (xs @ ys) = uval xs + 2 ^ (32 * length xs) * uval ys"
  by (induction xs) (simp_all add: power_add algebra_simps)

lemma uval_replicate0 [simp]: "uval (replicate n 0) = 0"
  by (induction n) simp_all

lemma uval_zero [simp]: "uval uint_zero = 0"
  by (simp add: uint_zero_def)

lemma length_uint_zero [simp]: "length uint_zero = WIDTH"
  by (simp add: uint_zero_def)

lemma uval_inj: "length a = length b \<Longrightarrow> uval a = uval b \<Longrightarrow> a = b"
proof (induction a b rule: list_induct2)
  case (Cons x xs y ys)
  have "uval (x # xs) mod 2 ^ 32 = unat x" "uval (y # ys) mod 2 ^ 32 = unat y"
    using unat32_lt by simp_all
  with Cons.prems have "unat x = unat y" by simp
  with Cons show ?case by (simp add: word_unat_eq_iff)
qed simp

lemma uval_take_Suc:
  "n < length p \<Longrightarrow> uval (take (Suc n) p) = uval (take n p) + 2 ^ (32 * n) * unat (p ! n)"
  by (simp add: take_Suc_conv_app_nth uval_append min_def)

lemma limb_mod_step: "(lo :: nat) < B \<Longrightarrow> lo + B * (x mod M) = (lo + B * x) mod (B * M)"
proof -
  assume "lo < B"
  then have "(lo + B * x) mod (B * M) = B * ((lo + B * x) div B mod M) + (lo + B * x) mod B"
    by (simp only: mod_mult2_eq)
  with \<open>lo < B\<close> show ?thesis by simp
qed

lemma limb_lo: "unat (ucast (n AND 0xffffffff) :: u32) = unat (n :: u64) mod 2 ^ 32"
proof -
  have "(0xffffffff :: u64) = mask 32" by (simp add: mask_eq_exp_minus_1)
  then show ?thesis by (simp only: unat_ucast_mod unat_and_mask) simp
qed

lemma limb_hi: "unat (drop_bit 32 n) = unat (n :: u64) div 2 ^ 32"
  by (simp only: unat_drop_bit)

lemma limb_hi_lt: "unat (drop_bit 32 (n :: u64)) < 2 ^ 32"
proof -
  have "unat n < 2 ^ 64" by (rule order_less_le_trans [OF unsigned_less]) simp
  then show ?thesis by (simp only: limb_hi) (simp add: less_mult_imp_div_less)
qed

text \<open>
  The step that every carry chain of the file takes: the low limb is emitted
  and the high half is the next carry.
\<close>

lemma limb_chain:
  fixes n :: u64
  assumes "unat n = c + y" and "r = (unat (drop_bit 32 n) + x) mod M"
  shows "unat (ucast (n AND 0xffffffff) :: u32) + 2 ^ 32 * r = (c + y + 2 ^ 32 * x) mod (2 ^ 32 * M)"
proof -
  have "unat (ucast (n AND 0xffffffff) :: u32) + 2 ^ 32 * r =
      (unat n mod 2 ^ 32 + 2 ^ 32 * (unat n div 2 ^ 32 + x)) mod (2 ^ 32 * M)"
    unfolding assms(2) limb_lo limb_hi by (rule limb_mod_step) simp
  also have "unat n mod 2 ^ 32 + 2 ^ 32 * (unat n div 2 ^ 32 + x) = unat n + 2 ^ 32 * x"
    by (simp add: distrib_left)
  finally show ?thesis by (simp add: assms(1))
qed

lemma unat_up32 [simp]: "unat (ucast (x :: u32) :: u64) = unat x"
  by (rule unat_ucast_up) simp

lemma mac_exact:
  fixes c :: u64
  assumes "unat c < 2 ^ 32"
  shows "unat (c + ucast (a :: u32) + ucast (p :: u32) * ucast (b :: u32)) =
    unat c + (unat a + unat p * unat b)"
proof -
  have "unat p * unat b \<le> (2 ^ 32 - 1) * (2 ^ 32 - 1)"
    using unat32_lt [of p] unat32_lt [of b] by (intro mult_mono) auto
  then have "unat c + unat a + unat p * unat b < 2 ^ 64"
    using assms unat32_lt [of a] by simp
  then show ?thesis by (simp add: unat_word_ariths)
qed

lemma add_loop_length: "length a = length b \<Longrightarrow> length (add_loop c a b) = length a"
  by (induction a b arbitrary: c rule: list_induct2) (simp_all add: Let_def)

lemma add_loop_uval:
  assumes "length a = length b" and "unat c \<le> 1"
  shows "uval (add_loop c a b) = (unat c + (uval a + uval b)) mod 2 ^ (32 * length a)"
  using assms
proof (induction a b arbitrary: c rule: list_induct2)
  case (Cons p ps b bs)
  let ?n = "c + ucast p + ucast b :: u64"
  have n: "unat ?n = unat c + (unat p + unat b)"
    using mac_exact [of c p 1 b] Cons.prems by simp
  then have "unat (drop_bit 32 ?n) \<le> 1"
    using Cons.prems unat32_lt [of p] unat32_lt [of b] by (simp only: limb_hi) simp
  note limb_chain [OF n Cons.IH [OF this]]
  then show ?case by (simp add: Let_def power_add algebra_simps)
qed simp

lemma uint_add_length [simp]: "length a = length b \<Longrightarrow> length (uint_add a b) = length a"
  by (simp add: uint_add_def add_loop_length)

lemma uint_add_uval:
  "length a = length b \<Longrightarrow> uval (uint_add a b) = (uval a + uval b) mod 2 ^ (32 * length a)"
  using add_loop_uval [of a b 0] by (simp add: uint_add_def)

lemma mul32_loop_length [simp]: "length (mul32_loop c b a) = length a"
  by (induction a arbitrary: c) (simp_all add: Let_def)

lemma mul32_loop_uval:
  "unat c < 2 ^ 32 \<Longrightarrow> uval (mul32_loop c b a) = (unat c + unat b * uval a) mod 2 ^ (32 * length a)"
proof (induction a arbitrary: c)
  case (Cons p ps)
  let ?n = "c + ucast b * ucast p :: u64"
  have n: "unat ?n = unat c + unat b * unat p"
    using mac_exact [of c 0 b p] Cons.prems by simp
  note limb_chain [OF n Cons.IH [OF limb_hi_lt]]
  then show ?case by (simp add: Let_def power_add algebra_simps)
qed simp

lemma mac_loop_length: "length a \<le> length b \<Longrightarrow> length (mac_loop c p a b) = length a"
  by (induction c p a b rule: mac_loop.induct) (simp_all add: Let_def)

lemma mac_loop_uval:
  assumes "length a \<le> length b" and "unat c < 2 ^ 32"
  shows "uval (mac_loop c p a b) = (unat c + (uval a + unat p * uval b)) mod 2 ^ (32 * length a)"
  using assms
proof (induction a arbitrary: b c)
  case (Cons x xs)
  then obtain y ys where b: "b = y # ys" "length xs \<le> length ys" by (cases b) auto
  let ?n = "c + ucast x + ucast p * ucast y :: u64"
  have n: "unat ?n = unat c + (unat x + unat p * unat y)"
    using mac_exact Cons.prems by simp
  note limb_chain [OF n Cons.IH [OF b(2) limb_hi_lt]]
  then show ?case by (simp add: Let_def b power_add algebra_simps)
qed simp

section \<open>Complement, increment and subtraction\<close>

lemma uint_not_length [simp]: "length (uint_not a) = length a"
  by (simp add: uint_not_def)

lemma uint_not_uval_add: "uval (uint_not a) + uval a + 1 = 2 ^ (32 * length a)"
proof (induction a)
  case (Cons x xs)
  have "unat (NOT x) + unat x + 1 = 2 ^ 32"
    using unat32_lt [of x] by (simp add: unat_not)
  moreover have "uval (uint_not xs) + uval xs + 1 = 2 ^ (32 * length xs)"
    by (rule Cons.IH)
  then have "2 ^ 32 * uval (uint_not xs) + 2 ^ 32 * uval xs + 2 ^ 32 = 2 ^ 32 * 2 ^ (32 * length xs)"
    by (metis distrib_left mult.right_neutral)
  ultimately show ?case by (simp add: uint_not_def power_add)
qed (simp add: uint_not_def)

lemma uint_not_uval: "uval (uint_not a) = 2 ^ (32 * length a) - 1 - uval a"
  using uint_not_uval_add [of a] by simp

lemma uint_inc_length [simp]: "length (uint_inc a) = length a"
  by (induction a rule: uint_inc.induct) simp_all

lemma unat_Suc_cases:
  "(x :: u32) + 1 = 0 \<and> unat x + 1 = 2 ^ 32 \<or> x + 1 \<noteq> 0 \<and> unat (x + 1) = unat x + 1"
proof (cases "unat x + 1 = 2 ^ 32")
  case True
  then have "unat (x + 1) = 0" by (simp add: unat_word_ariths)
  with True show ?thesis by (simp only: unat_eq_0) simp
next
  case False
  then have "unat x + 1 < 2 ^ 32" using unat32_lt [of x] by simp
  then have "unat (x + 1) = unat x + 1" by (simp add: unat_word_ariths)
  moreover from this have "x + 1 \<noteq> 0" by (metis add_is_0 one_neq_zero unat_0)
  ultimately show ?thesis by simp
qed

lemma uint_inc_uval: "uval (uint_inc a) = (uval a + 1) mod 2 ^ (32 * length a)"
proof (induction a)
  case (Cons x xs)
  consider (wrap) "x + 1 = 0" "unat x + 1 = 2 ^ 32" | (step) "x + 1 \<noteq> 0" "unat (x + 1) = unat x + 1"
    using unat_Suc_cases [of x] by auto
  then show ?case
  proof cases
    case wrap
    have "uval (x # xs) + 1 = 0 + 2 ^ 32 * (uval xs + 1)"
      using wrap(2) by simp
    moreover have "uval (uint_inc (x # xs)) = 0 + 2 ^ 32 * ((uval xs + 1) mod 2 ^ (32 * length xs))"
      using wrap(1) Cons.IH by simp
    moreover have "0 + 2 ^ 32 * ((uval xs + 1) mod 2 ^ (32 * length xs)) =
        (0 + 2 ^ 32 * (uval xs + 1)) mod (2 ^ 32 * 2 ^ (32 * length xs))"
      by (rule limb_mod_step) simp
    ultimately show ?thesis by (simp only: length_Cons mult_Suc_right power_add)
  next
    case step
    have "uval (uint_inc (x # xs)) = uval (x # xs) + 1"
      using step by simp
    with uval_lt [of "uint_inc (x # xs)"] show ?thesis by (simp only: uint_inc_length mod_less)
  qed
qed simp

lemma uint_dec_length [simp]: "length (uint_dec a) = length a"
  by (induction a rule: uint_dec.induct) simp_all

lemma uint_inc_dec: "uint_inc (uint_dec a) = a"
  by (induction a) auto

lemma uint_dec_inc: "uint_dec (uint_inc a) = a"
  by (induction a) (auto simp: add_eq_0_iff2)

lemma uint_neg_eq: "uint_neg a = uint_inc (uint_not a)"
  by (simp add: uint_neg_def uint_not_def)

lemma uint_neg_length [simp]: "length (uint_neg a) = length a"
  by (simp add: uint_neg_eq)

lemma uint_neg_uval: "uval (uint_neg a) = (2 ^ (32 * length a) - uval a) mod 2 ^ (32 * length a)"
  using uval_lt [of a] by (simp add: uint_neg_eq uint_inc_uval uint_not_uval Suc_diff_Suc)

lemma uint_sub_length [simp]: "length a = length b \<Longrightarrow> length (uint_sub a b) = length a"
  by (simp add: uint_sub_def)

lemma uint_sub_uval:
  assumes "length a = length b"
  shows "uval (uint_sub a b) = (uval a + (2 ^ (32 * length a) - uval b)) mod 2 ^ (32 * length a)"
  using assms by (simp add: uint_sub_def uint_add_uval uint_neg_uval mod_add_right_eq)

lemma uint_sub_uval_le:
  assumes "length a = length b" and "uval b \<le> uval a"
  shows "uval (uint_sub a b) = uval a - uval b"
proof -
  have "uval a + (2 ^ (32 * length a) - uval b) = (uval a - uval b) + 2 ^ (32 * length a)"
    using assms uval_lt [of b] by simp
  moreover have "uval a - uval b < 2 ^ (32 * length a)"
    using uval_lt [of a] by simp
  ultimately show ?thesis
    unfolding uint_sub_uval [OF assms(1)] by (simp only: mod_add_self2 mod_less)
qed

lemma of_uint64_length [simp]: "length (of_uint64 b) = WIDTH"
  by (simp add: of_uint64_def WIDTH_def)

lemma of_uint64_uval: "uval (of_uint64 b) = unat b"
  using limb_hi_lt [of b]
  by (simp add: of_uint64_def uval_append unat_ucast_mod unat_drop_bit)

section \<open>Multiplication\<close>

lemma uint_mul32_length [simp]: "length (uint_mul32 a b) = length a"
  by (simp add: uint_mul32_def)

lemma uint_mul32_uval: "uval (uint_mul32 a b) = (uval a * unat b) mod 2 ^ (32 * length a)"
  using mul32_loop_uval [of 0 b a] by (simp add: uint_mul32_def mult.commute)

lemma mul_pass_length: "length a \<le> length b \<Longrightarrow> length (mul_pass pn b j a) = length a"
  by (simp add: mul_pass_def mac_loop_length)

lemma mul_pass_uval:
  assumes "length a \<le> length b" and "j < length a"
  shows "uval (mul_pass pn b j a) =
    (uval a + 2 ^ (32 * j) * unat (pn ! j) * uval b) mod 2 ^ (32 * length a)"
proof -
  let ?L = "2 ^ (32 * j) :: nat"
  have lo: "uval (take j a) < ?L"
    using uval_lt [of "take j a"] assms(2) by (simp add: min_def)
  have M: "?L * 2 ^ (32 * (length a - j)) = (2 :: nat) ^ (32 * length a)"
    using assms(2) by (simp flip: power_add add_mult_distrib2)
  have "uval (mul_pass pn b j a) = uval (take j a) + ?L *
      ((uval (drop j a) + unat (pn ! j) * uval b) mod 2 ^ (32 * (length a - j)))"
    using assms mac_loop_uval [of "drop j a" b 0 "pn ! j"]
    by (simp add: mul_pass_def uval_append min_def)
  also have "\<dots> = (uval (take j a) + ?L * (uval (drop j a) + unat (pn ! j) * uval b))
      mod 2 ^ (32 * length a)"
    by (simp only: limb_mod_step [OF lo] M)
  also have "uval (take j a) + ?L * (uval (drop j a) + unat (pn ! j) * uval b) =
      uval (take j a @ drop j a) + ?L * unat (pn ! j) * uval b"
    using assms(2) by (simp only: uval_append) (simp add: min_def distrib_left)
  finally show ?thesis by simp
qed

lemma mul_fold:
  assumes "length b = WIDTH" and "length pn = WIDTH" and "n \<le> WIDTH"
  shows "length (fold (mul_pass pn b) [0..<n] uint_zero) = WIDTH \<and>
    uval (fold (mul_pass pn b) [0..<n] uint_zero) = (uval (take n pn) * uval b) mod 2 ^ 256"
  using assms(3)
proof (induction n)
  case (Suc n)
  let ?a = "fold (mul_pass pn b) [0..<n] uint_zero"
  have a: "length ?a = WIDTH" "uval ?a = (uval (take n pn) * uval b) mod 2 ^ 256"
    using Suc by auto
  have "uval (mul_pass pn b n ?a) = (uval ?a + 2 ^ (32 * n) * unat (pn ! n) * uval b) mod 2 ^ 256"
    using mul_pass_uval [of ?a b n pn] a(1) assms(1) Suc.prems by simp
  also have "\<dots> = (uval (take n pn) * uval b + 2 ^ (32 * n) * unat (pn ! n) * uval b) mod 2 ^ 256"
    by (simp only: a(2) mod_add_left_eq)
  also have "\<dots> = (uval (take (Suc n) pn) * uval b) mod 2 ^ 256"
    using Suc.prems assms(2) by (simp add: uval_take_Suc distrib_right)
  finally show ?case using a(1) assms(1) by (simp add: mul_pass_length)
qed simp

lemma uint_mul_length [simp]: "is_uint a \<Longrightarrow> is_uint b \<Longrightarrow> length (uint_mul a b) = WIDTH"
  using mul_fold [of b a WIDTH] by (simp add: uint_mul_def)

lemma uint_mul_uval:
  "is_uint a \<Longrightarrow> is_uint b \<Longrightarrow> uval (uint_mul a b) = (uval a * uval b) mod 2 ^ 256"
  using mul_fold [of b a WIDTH] by (simp add: uint_mul_def)

section \<open>Comparison\<close>

lemma sgn_diff_nat_less: "x < y \<Longrightarrow> sgn (int x - int y) = - 1" "x < y \<Longrightarrow> sgn (int y - int x) = 1"
  by simp_all

lemma cmp_loop_sgn:
  assumes "length a = length b" and "n \<le> length a"
  shows "cmp_loop n a b = sgn (int (uval (take n a)) - int (uval (take n b)))"
  using assms(2)
proof (induction n)
  case (Suc n)
  let ?x = "uval (take n a)" and ?y = "uval (take n b)" and ?B = "2 ^ (32 * n) :: nat"
  have lt: "?x < ?B" "?y < ?B"
    using uval_lt [of "take n a"] uval_lt [of "take n b"] Suc.prems assms(1) by (simp_all add: min_def)
  have e: "uval (take (Suc n) a) = ?x + ?B * unat (a ! n)"
      "uval (take (Suc n) b) = ?y + ?B * unat (b ! n)"
    using Suc.prems assms(1) by (simp_all add: uval_take_Suc)
  have less: "u + ?B * p < v + ?B * q" if "u < ?B" "p < q" for u v p q :: nat
  proof -
    have "u + ?B * p < ?B * (p + 1)" using that(1) by simp
    also have "\<dots> \<le> ?B * q" using that(2) by (intro mult_left_mono) auto
    finally show ?thesis by simp
  qed
  consider "a ! n < b ! n" | "b ! n < a ! n" | "a ! n = b ! n" by fastforce
  then show ?case
  proof cases
    case 1
    then have "unat (a ! n) < unat (b ! n)" by (simp add: word_less_nat_alt)
    from less [OF lt(1) this, of ?y] 1 show ?thesis unfolding e by (simp only: sgn_diff_nat_less) simp
  next
    case 2
    then have "unat (b ! n) < unat (a ! n)" by (simp add: word_less_nat_alt)
    from less [OF lt(2) this, of ?x] 2 show ?thesis unfolding e by (simp only: sgn_diff_nat_less) simp
  next
    case 3
    with Suc show ?thesis unfolding e by simp
  qed
qed simp

lemma CompareTo_sgn:
  "is_uint a \<Longrightarrow> is_uint b \<Longrightarrow> CompareTo a b = sgn (int (uval a) - int (uval b))"
  using cmp_loop_sgn [of a b WIDTH] by (simp add: CompareTo_def)

lemma CompareTo_ge: "is_uint a \<Longrightarrow> is_uint b \<Longrightarrow> CompareTo a b \<ge> 0 \<longleftrightarrow> uval b \<le> uval a"
  by (simp add: CompareTo_sgn sgn_if)

lemma CompareTo_gt: "is_uint a \<Longrightarrow> is_uint b \<Longrightarrow> CompareTo a b > 0 \<longleftrightarrow> uval b < uval a"
  by (simp add: CompareTo_sgn sgn_if)

lemma CompareTo_lt: "is_uint a \<Longrightarrow> is_uint b \<Longrightarrow> CompareTo a b < 0 \<longleftrightarrow> uval a < uval b"
  by (simp add: CompareTo_sgn sgn_if)

lemma CompareTo_le: "is_uint a \<Longrightarrow> is_uint b \<Longrightarrow> CompareTo a b \<le> 0 \<longleftrightarrow> uval a \<le> uval b"
  by (simp add: CompareTo_sgn sgn_if)

section \<open>Shifts\<close>

lemma bit_uval:
  "bit (uval p) n \<longleftrightarrow> n < 32 * length p \<and> bit (p ! (n div 32)) (n mod 32)"
proof (induction p arbitrary: n)
  case (Cons x xs)
  have x: "unat x < 2 ^ 32" using unat32_lt by simp
  show ?case
  proof (cases "n < 32")
    case True
    then show ?thesis using bit_nat_split [OF x, of "uval xs" n] by (simp add: bit_unat)
  next
    case False
    then obtain m where m: "n = 32 + m" using le_Suc_ex not_less by blast
    moreover have "(32 + m) div 32 = Suc (m div 32)" by simp
    ultimately show ?thesis using bit_nat_split [OF x, of "uval xs" n] Cons.IH [of m] by simp
  qed
qed simp

lemma bit_uval_limb_iff:
  "t < 32 \<Longrightarrow> bit (uval p) (32 * m + t) \<longleftrightarrow> m < length p \<and> bit (p ! m) t"
  unfolding bit_uval by (intro conj_cong) (linarith, simp)

lemma bit_uval_limb: "m < length p \<Longrightarrow> t < 32 \<Longrightarrow> bit (uval p) (32 * m + t) \<longleftrightarrow> bit (p ! m) t"
  by (simp add: bit_uval_limb_iff)

lemma shl_fold:
  assumes "s < 32" and "n \<le> WIDTH"
  shows "length (fold (shl_step a k s) [0..<n] uint_zero) = WIDTH \<and>
    (\<forall>m < WIDTH. fold (shl_step a k s) [0..<n] uint_zero ! m =
      (if k \<le> m \<and> m - k < n then push_bit s (a ! (m - k)) else 0) OR
      (if k + 1 \<le> m \<and> s \<noteq> 0 \<and> m - k - 1 < n then drop_bit (32 - s) (a ! (m - k - 1)) else 0))"
  using assms(2)
proof (induction n)
  case 0
  then show ?case by (simp add: uint_zero_def)
next
  case (Suc n)
  let ?r = "fold (shl_step a k s) [0..<n] uint_zero"
  have r: "length ?r = WIDTH" and
    nth: "\<And>m. m < WIDTH \<Longrightarrow> ?r ! m =
      (if k \<le> m \<and> m - k < n then push_bit s (a ! (m - k)) else 0) OR
      (if k + 1 \<le> m \<and> s \<noteq> 0 \<and> m - k - 1 < n then drop_bit (32 - s) (a ! (m - k - 1)) else 0)"
    using Suc by auto
  have "shl_step a k s n ?r ! m =
      (if k \<le> m \<and> m - k < Suc n then push_bit s (a ! (m - k)) else 0) OR
      (if k + 1 \<le> m \<and> s \<noteq> 0 \<and> m - k - 1 < Suc n then drop_bit (32 - s) (a ! (m - k - 1)) else 0)"
    if m: "m < WIDTH" for m
  proof -
    consider "m = n + k" | "m = n + k + 1" | "m \<noteq> n + k" "m \<noteq> n + k + 1" by blast
    then show ?thesis
    proof cases
      case 1
      with m r nth [OF m] show ?thesis by (auto simp: shl_step_def Let_def or.commute)
    next
      case 2
      with m r nth [OF m] show ?thesis by (auto simp: shl_step_def Let_def)
    next
      case 3
      then have "k \<le> m \<and> m - k < Suc n \<longleftrightarrow> k \<le> m \<and> m - k < n"
        "k + 1 \<le> m \<and> m - k - 1 < Suc n \<longleftrightarrow> k + 1 \<le> m \<and> m - k - 1 < n" by auto
      moreover have "shl_step a k s n ?r ! m = ?r ! m" using 3 by (simp add: shl_step_def Let_def)
      ultimately show ?thesis unfolding nth [OF m] by presburger
    qed
  qed
  moreover have "length (shl_step a k s n ?r) = WIDTH" using r by (simp add: shl_step_def Let_def)
  ultimately show ?case by simp
qed

lemma uint_shl_length [simp]: "length (uint_shl a shift) = WIDTH"
  using shl_fold [of "shift mod 32" WIDTH] by (simp add: uint_shl_def)

lemma bit_uint_shl_limb:
  assumes "is_uint a" and "m < WIDTH" and "t < 32" and "s < 32"
  shows "bit (uval (uint_shl a (32 * k + s))) (32 * m + t) \<longleftrightarrow>
    32 * k + s \<le> 32 * m + t \<and> bit (uval a) (32 * m + t - (32 * k + s))"
proof -
  have nth: "uint_shl a (32 * k + s) ! m =
      (if k \<le> m then push_bit s (a ! (m - k)) else 0) OR
      (if k + 1 \<le> m \<and> s \<noteq> 0 then drop_bit (32 - s) (a ! (m - k - 1)) else 0)"
    using shl_fold [OF assms(4), of WIDTH a k] assms(2,4) by (auto simp: uint_shl_def)
  have lhs: "bit (uval (uint_shl a (32 * k + s))) (32 * m + t) \<longleftrightarrow>
      k \<le> m \<and> s \<le> t \<and> bit (a ! (m - k)) (t - s) \<or>
      k + 1 \<le> m \<and> s \<noteq> 0 \<and> bit (a ! (m - k - 1)) (32 - s + t)"
    using assms(2,3)
    by (simp add: bit_uval_limb nth bit_or_iff bit_push_bit_iff bit_drop_bit_eq) auto
  show ?thesis
  proof (cases "s \<le> t")
    case True
    then have "\<not> bit (a ! (m - k - 1)) (32 - s + t)"
      using assms(4) bit_imp_le_length [of "a ! (m - k - 1)" "32 - s + t"] by auto
    moreover have "k \<le> m \<Longrightarrow> bit (uval a) (32 * m + t - (32 * k + s)) \<longleftrightarrow> bit (a ! (m - k)) (t - s)"
    proof -
      assume k: "k \<le> m"
      then have "32 * m + t - (32 * k + s) = 32 * (m - k) + (t - s)"
        using True by (simp add: diff_mult_distrib2)
      then show ?thesis using assms k by (simp only: bit_uval_limb_iff less_imp_diff_less) simp
    qed
    moreover have "32 * k + s \<le> 32 * m + t \<longleftrightarrow> k \<le> m" using True assms(3) by linarith
    ultimately show ?thesis
      using True by (auto simp: lhs)
  next
    case False
    then have e: "k + 1 \<le> m \<Longrightarrow> 32 * m + t - (32 * k + s) = 32 * (m - k - 1) + (32 - s + t)"
      using assms(4) by (simp add: diff_mult_distrib2)
    have "32 * k + s \<le> 32 * m + t \<longleftrightarrow> k + 1 \<le> m" using False assms(4) by linarith
    moreover have "k + 1 \<le> m \<Longrightarrow>
        bit (uval a) (32 * (m - k - 1) + (32 - s + t)) \<longleftrightarrow> bit (a ! (m - k - 1)) (32 - s + t)"
      using False assms by (intro bit_uval_limb) auto
    ultimately show ?thesis using False by (auto simp: lhs e)
  qed
qed

lemma uint_shl_uval: "is_uint a \<Longrightarrow> uval (uint_shl a shift) = (uval a * 2 ^ shift) mod 2 ^ 256"
proof -
  assume a: "is_uint a"
  have "uval (uint_shl a shift) = take_bit 256 (push_bit shift (uval a))"
  proof (rule bit_eqI)
    fix n
    show "bit (uval (uint_shl a shift)) n \<longleftrightarrow> bit (take_bit 256 (push_bit shift (uval a))) n"
    proof (cases "n < 256")
      case True
      then have "n div 32 < WIDTH" by (simp add: WIDTH_def)
      from bit_uint_shl_limb [OF a this, of "n mod 32" "shift mod 32" "shift div 32"] True
      show ?thesis by (simp add: bit_take_bit_iff bit_push_bit_iff)
    next
      case False
      then show ?thesis by (simp add: bit_uval bit_take_bit_iff)
    qed
  qed
  then show ?thesis by (simp only: take_bit_eq_mod push_bit_eq_mult)
qed

lemma shr_fold:
  assumes "s < 32" and "n \<le> WIDTH"
  shows "length (fold (shr_step a k s) [0..<n] uint_zero) = WIDTH \<and>
    (\<forall>m < WIDTH. fold (shr_step a k s) [0..<n] uint_zero ! m =
      (if m + k < n then drop_bit s (a ! (m + k)) else 0) OR
      (if s \<noteq> 0 \<and> m + k + 1 < n then push_bit (32 - s) (a ! (m + k + 1)) else 0))"
  using assms(2)
proof (induction n)
  case 0
  then show ?case by (simp add: uint_zero_def)
next
  case (Suc n)
  let ?r = "fold (shr_step a k s) [0..<n] uint_zero"
  have r: "length ?r = WIDTH" and
    nth: "\<And>m. m < WIDTH \<Longrightarrow> ?r ! m =
      (if m + k < n then drop_bit s (a ! (m + k)) else 0) OR
      (if s \<noteq> 0 \<and> m + k + 1 < n then push_bit (32 - s) (a ! (m + k + 1)) else 0)"
    using Suc by auto
  have "shr_step a k s n ?r ! m =
      (if m + k < Suc n then drop_bit s (a ! (m + k)) else 0) OR
      (if s \<noteq> 0 \<and> m + k + 1 < Suc n then push_bit (32 - s) (a ! (m + k + 1)) else 0)"
    if m: "m < WIDTH" for m
  proof -
    consider "n = m + k" | "n = m + k + 1" | "n \<noteq> m + k" "n \<noteq> m + k + 1" by blast
    then show ?thesis
    proof cases
      case 1
      with m r nth [OF m] show ?thesis by (auto simp: shr_step_def Let_def nth_list_update)
    next
      case 2
      with m r nth [OF m] show ?thesis by (auto simp: shr_step_def Let_def nth_list_update)
    next
      case 3
      then have "k \<le> n \<Longrightarrow> n - k \<noteq> m" "k + 1 \<le> n \<Longrightarrow> n - k - 1 \<noteq> m"
        "m + k < Suc n \<longleftrightarrow> m + k < n" "m + k + 1 < Suc n \<longleftrightarrow> m + k + 1 < n" by auto
      moreover from this have "shr_step a k s n ?r ! m = ?r ! m" by (simp add: shr_step_def Let_def)
      ultimately show ?thesis unfolding nth [OF m] by presburger
    qed
  qed
  moreover have "length (shr_step a k s n ?r) = WIDTH" using r by (simp add: shr_step_def Let_def)
  ultimately show ?case by simp
qed

lemma uint_shr_length [simp]: "length (uint_shr a shift) = WIDTH"
  using shr_fold [of "shift mod 32" WIDTH] by (simp add: uint_shr_def)

lemma bit_uint_shr_limb:
  assumes "is_uint a" and "m < WIDTH" and "t < 32" and "s < 32"
  shows "bit (uval (uint_shr a (32 * k + s))) (32 * m + t) \<longleftrightarrow>
    bit (uval a) (32 * m + t + (32 * k + s))"
proof -
  have nth: "uint_shr a (32 * k + s) ! m =
      (if m + k < WIDTH then drop_bit s (a ! (m + k)) else 0) OR
      (if s \<noteq> 0 \<and> m + k + 1 < WIDTH then push_bit (32 - s) (a ! (m + k + 1)) else 0)"
    using shr_fold [OF assms(4), of WIDTH a k] assms(2,4) by (auto simp: uint_shr_def)
  have lhs: "bit (uval (uint_shr a (32 * k + s))) (32 * m + t) \<longleftrightarrow>
      m + k < WIDTH \<and> bit (a ! (m + k)) (s + t) \<or>
      s \<noteq> 0 \<and> m + k + 1 < WIDTH \<and> 32 - s \<le> t \<and> bit (a ! (m + k + 1)) (t - (32 - s))"
    using assms(2,3)
    by (simp add: bit_uval_limb nth bit_or_iff bit_push_bit_iff bit_drop_bit_eq)
  show ?thesis
  proof (cases "s + t < 32")
    case True
    have e: "32 * m + t + (32 * k + s) = 32 * (m + k) + (s + t)" by simp
    show ?thesis
      unfolding lhs e bit_uval_limb_iff [OF True] using True assms(1) by auto
  next
    case False
    have e: "32 * m + t + (32 * k + s) = 32 * (m + k + 1) + (t - (32 - s))"
      using False assms(4) by simp
    have "t - (32 - s) < 32" using assms(3) by simp
    moreover have "\<not> bit (a ! (m + k)) (s + t)"
      using False bit_imp_le_length [of "a ! (m + k)" "s + t"] by auto
    ultimately show ?thesis
      unfolding lhs e using False assms by (subst bit_uval_limb_iff) auto
  qed
qed

lemma uint_shr_uval: "is_uint a \<Longrightarrow> uval (uint_shr a shift) = uval a div 2 ^ shift"
proof -
  assume a: "is_uint a"
  have "uval (uint_shr a shift) = drop_bit shift (uval a)"
  proof (rule bit_eqI)
    fix n
    show "bit (uval (uint_shr a shift)) n \<longleftrightarrow> bit (drop_bit shift (uval a)) n"
    proof (cases "n < 256")
      case True
      then have "n div 32 < WIDTH" by (simp add: WIDTH_def)
      from bit_uint_shr_limb [OF a this, of "n mod 32" "shift mod 32" "shift div 32"] True
      show ?thesis by (simp add: bit_drop_bit_eq add.commute)
    next
      case False
      then show ?thesis using a by (simp add: bit_uval bit_drop_bit_eq)
    qed
  qed
  then show ?thesis by (simp only: drop_bit_eq_div)
qed

section \<open>Bit length and division\<close>

lemma and_push1_iff: "(w :: 'a::len word) AND push_bit n 1 \<noteq> 0 \<longleftrightarrow> bit w n"
  by (simp add: push_bit_of_1 and_exp_eq_0_iff_not_bit)

lemma nat_top_bit:
  assumes "(x :: nat) < 2 ^ Suc n"
  shows "bit x n \<longleftrightarrow> 2 ^ n \<le> x"
proof -
  have "x div 2 ^ n = (if 2 ^ n \<le> x then 1 else 0)"
    using assms by (auto intro: div_nat_eqI)
  then show ?thesis by (simp add: bit_iff_odd)
qed

lemma nbits_loop_spec:
  assumes "unat w < 2 ^ Suc n" and "w \<noteq> 0"
  shows "unat w < 2 ^ nbits_loop n w \<and> 2 ^ (nbits_loop n w - 1) \<le> unat w \<and> 0 < nbits_loop n w
    \<and> nbits_loop n w \<le> Suc n"
  using assms(1)
proof (induction n)
  case 0
  with assms(2) show ?case by (simp add: unat_gt_0 Suc_le_eq)
next
  case (Suc n)
  have b: "bit w (Suc n) \<longleftrightarrow> 2 ^ Suc n \<le> unat w"
    using nat_top_bit [OF Suc.prems] by (simp add: bit_unat)
  show ?case
  proof (cases "bit w (Suc n)")
    case True
    with b Suc.prems show ?thesis by (simp only: nbits_loop.simps and_push1_iff) simp
  next
    case False
    with b Suc.IH show ?thesis by (simp only: nbits_loop.simps and_push1_iff) simp
  qed
qed

definition is_bitlen :: "nat \<Rightarrow> nat \<Rightarrow> bool" where
  "is_bitlen x b \<longleftrightarrow> x < 2 ^ b \<and> (if x = 0 then b = 0 else 0 < b \<and> 2 ^ (b - 1) \<le> x)"

lemma bits_loop_spec: "n \<le> length p \<Longrightarrow> is_bitlen (uval (take n p)) (bits_loop n p) \<and> bits_loop n p \<le> 32 * n"
proof (induction n)
  case 0
  then show ?case by (simp add: is_bitlen_def)
next
  case (Suc n)
  let ?x = "uval (take n p)" and ?w = "p ! n"
  have v: "uval (take (Suc n) p) = ?x + 2 ^ (32 * n) * unat ?w"
    using Suc.prems by (simp add: uval_take_Suc)
  show ?case
  proof (cases "?w = 0")
    case True
    with Suc v show ?thesis by simp
  next
    case False
    let ?b = "nbits_loop 31 ?w"
    have b: "unat ?w < 2 ^ ?b" "2 ^ (?b - 1) \<le> unat ?w" "0 < ?b" "?b \<le> 32"
      using nbits_loop_spec [of ?w 31] False unat32_lt [of ?w] by simp_all
    have x: "?x < 2 ^ (32 * n)"
      using uval_lt [of "take n p"] Suc.prems by (simp add: min_def)
    have "?x + 2 ^ (32 * n) * unat ?w < 2 ^ (32 * n) * (unat ?w + 1)" using x by simp
    also have "\<dots> \<le> 2 ^ (32 * n) * 2 ^ ?b" using b(1) by (intro mult_left_mono) auto
    finally have up: "?x + 2 ^ (32 * n) * unat ?w < 2 ^ (32 * n + ?b)" by (simp only: power_add)
    have "2 ^ (32 * n + ?b - 1) = 2 ^ (32 * n) * (2 :: nat) ^ (?b - 1)"
      using b(3) by (simp flip: power_add)
    also have "\<dots> \<le> 2 ^ (32 * n) * unat ?w" using b(2) by simp
    finally have lo: "2 ^ (32 * n + ?b - 1) \<le> ?x + 2 ^ (32 * n) * unat ?w" by simp
    have "0 < 2 ^ (32 * n) * unat ?w" using False by (simp add: unat_gt_0)
    then have "uval (take (Suc n) p) \<noteq> 0" unfolding v by simp
    then show ?thesis
      using up lo b(3,4) False unfolding v by (simp add: is_bitlen_def)
  qed
qed

lemma uint_bits_spec: "is_uint p \<Longrightarrow> is_bitlen (uval p) (uint_bits p) \<and> uint_bits p \<le> 256"
  using bits_loop_spec [of WIDTH p] by (simp add: uint_bits_def)

lemma is_bitlen_mono: "is_bitlen x b \<Longrightarrow> is_bitlen y c \<Longrightarrow> b < c \<Longrightarrow> x < y"
proof -
  assume x: "is_bitlen x b" and y: "is_bitlen y c" and "b < c"
  have "x < 2 ^ b" using x by (simp add: is_bitlen_def)
  also have "\<dots> \<le> 2 ^ (c - 1)" using \<open>b < c\<close> by (intro power_increasing) auto
  also have "\<dots> \<le> y" using y \<open>b < c\<close> by (auto simp: is_bitlen_def split: if_splits)
  finally show ?thesis .
qed

lemma set_limb_bit_uval:
  assumes "is_uint q" and "sh < 256" and "2 ^ Suc sh dvd uval q"
  shows "uval (q[sh div 32 := q ! (sh div 32) OR push_bit (sh mod 32) 1]) = uval q + 2 ^ sh"
proof -
  let ?q = "q[sh div 32 := q ! (sh div 32) OR push_bit (sh mod 32) 1]"
  have i: "sh div 32 < length q" using assms(1,2) by (simp add: WIDTH_def)
  have nb: "\<not> bit (uval q) sh"
    using assms(3) by (auto simp: bit_iff_odd elim!: dvdE)
  have "uval ?q = uval q OR 2 ^ sh"
  proof (rule bit_eqI)
    fix n
    show "bit (uval ?q) n \<longleftrightarrow> bit (uval q OR 2 ^ sh) n"
    proof (cases "n div 32 = sh div 32")
      case True
      then have "n mod 32 = sh mod 32 \<longleftrightarrow> n = sh" by (metis div_mult_mod_eq)
      moreover have "n < 32 * length q" using True i by simp
      ultimately show ?thesis
        using i True by (auto simp: bit_uval bit_or_iff bit_push_bit_iff bit_exp_iff bit_1_iff)
    next
      case False
      then have "n \<noteq> sh" by auto
      with False show ?thesis by (simp add: bit_uval bit_or_iff bit_exp_iff)
    qed
  qed
  also have "\<dots> = uval q + 2 ^ sh"
    using nb by (intro disjunctive_add [symmetric]) (auto simp: bit_exp_iff)
  finally show ?thesis .
qed

lemma div_loop_spec:
  assumes "is_uint num" "is_uint d" "is_uint q" "is_uint b"
    and "n \<le> 256" and "n = 0 \<or> uval d = uval b * 2 ^ (n - 1)"
    and "uval num < uval b * 2 ^ n" and "2 ^ n dvd uval q"
    and "div_loop n num d q = (q', r)"
  shows "is_uint q' \<and> uval q' * uval b + uval r = uval q * uval b + uval num \<and> uval r < uval b"
  using assms
proof (induction n arbitrary: num d q)
  case (Suc n)
  have d: "uval d = uval b * 2 ^ n" using Suc.prems(6) by simp
  let ?ge = "CompareTo num d \<ge> 0"
  define num' where "num' = (if ?ge then uint_sub num d else num)"
  define q1 where
    "q1 = (if ?ge then q[n div 32 := q ! (n div 32) OR push_bit (n mod 32) 1] else q)"
  have ge: "?ge \<longleftrightarrow> uval d \<le> uval num" using Suc.prems(1,2) by (simp add: CompareTo_ge)
  have l: "is_uint num'" "is_uint q1" using Suc.prems(1-3) by (simp_all add: num'_def q1_def)
  have nv: "uval num' = (if ?ge then uval num - uval d else uval num)"
    using Suc.prems(1,2) ge by (simp add: num'_def uint_sub_uval_le)
  have qv: "uval q1 = (if ?ge then uval q + 2 ^ n else uval q)"
    using set_limb_bit_uval [OF Suc.prems(3), of n] Suc.prems(5,8) by (simp add: q1_def)
  have "uval num' < uval b * 2 ^ n"
    using Suc.prems(7) unfolding nv ge d by auto
  moreover have "2 ^ n dvd uval q1"
    using Suc.prems(8) unfolding qv by (auto simp: dvd_add power_Suc dest: dvd_mult_right)
  moreover have "n = 0 \<or> uval (uint_shr d 1) = uval b * 2 ^ (n - 1)"
    using Suc.prems(2) d by (cases n) (simp_all add: uint_shr_uval)
  moreover have "div_loop n num' (uint_shr d 1) q1 = (q', r)"
    using Suc.prems(9) by (simp add: num'_def q1_def Let_def)
  ultimately have "is_uint q' \<and> uval q' * uval b + uval r = uval q1 * uval b + uval num' \<and> uval r < uval b"
    using Suc.prems(4,5) l by (intro Suc.IH) auto
  moreover have "uval q1 * uval b + uval num' = uval q * uval b + uval num"
    using ge unfolding nv qv d by (auto simp: algebra_simps)
  ultimately show ?case by simp
qed simp

lemma uint_div_spec:
  assumes "is_uint a" and "is_uint b" and "uval b \<noteq> 0"
  shows "\<exists>q. uint_div a b = Inr q \<and> is_uint q \<and> uval q = uval a div uval b"
proof -
  have ba: "is_bitlen (uval a) (uint_bits a)" "uint_bits a \<le> 256"
    and bb: "is_bitlen (uval b) (uint_bits b)" "uint_bits b \<noteq> 0"
    using uint_bits_spec [OF assms(1)] uint_bits_spec [OF assms(2)] assms(3)
    by (auto simp: is_bitlen_def)
  show ?thesis
  proof (cases "uint_bits b > uint_bits a")
    case True
    with is_bitlen_mono [OF ba(1) bb(1)] bb(2) show ?thesis by (simp add: uint_div_def)
  next
    case False
    let ?s = "uint_bits a - uint_bits b"
    let ?d = "uint_shl b ?s"
    have "uval b * 2 ^ ?s < 2 ^ uint_bits b * 2 ^ ?s"
      using bb by (simp add: is_bitlen_def)
    also have "\<dots> = 2 ^ uint_bits a" using False by (simp flip: power_add)
    also have "\<dots> \<le> 2 ^ 256" using ba(2) by (intro power_increasing) auto
    finally have d: "uval ?d = uval b * 2 ^ ?s" using assms(2) by (simp add: uint_shl_uval)
    have "2 ^ (uint_bits b - 1) * 2 ^ Suc ?s \<le> uval b * 2 ^ Suc ?s"
      using bb assms(3) by (intro mult_right_mono) (auto simp: is_bitlen_def)
    moreover have "2 ^ (uint_bits b - 1) * 2 ^ Suc ?s = (2 :: nat) ^ uint_bits a"
    proof -
      have "uint_bits b - 1 + Suc ?s = uint_bits a" using False bb(2) by simp
      then show ?thesis by (simp only: flip: power_add)
    qed
    moreover have "uval a < 2 ^ uint_bits a" using ba(1) by (simp add: is_bitlen_def)
    ultimately have lt: "uval a < uval b * 2 ^ Suc ?s" by linarith
    obtain q r where qr: "div_loop (Suc ?s) a ?d uint_zero = (q, r)" by fastforce
    have "is_uint q \<and> uval q * uval b + uval r = uval uint_zero * uval b + uval a \<and> uval r < uval b"
      by (rule div_loop_spec [OF assms(1) _ _ assms(2) _ _ lt _ qr]) (use ba(2) bb(2) d in auto)
    then have q: "is_uint q" "uval a = uval r + uval q * uval b" "uval r < uval b" by auto
    moreover have "uval q = uval a div uval b" unfolding q(2) using q(3) by simp
    moreover have "uint_div a b = Inr q"
      using False bb(2) qr by (simp add: uint_div_def Let_def)
    ultimately show ?thesis by blast
  qed
qed

lemma uint_div_zero: "is_uint b \<Longrightarrow> uval b = 0 \<Longrightarrow> uint_div a b = Inl (RuntimeError ''Division by zero'')"
  using uint_bits_spec [of b] by (simp add: uint_div_def is_bitlen_def)

section \<open>The contract\<close>

text \<open>The limb operators provide the 256-bit contract.\<close>

interpretation limbs: uint256 uval "\<lambda>a. length a = WIDTH" of_uint64 uint_not uint_add uint_sub
  uint_mul uint_mul32 uint_div uint_shl uint_shr CompareTo
proof (unfold_locales, goal_cases)
  case (1 a)
  then show ?case by (rule uval_lt256)
qed (simp_all add: uval_inj of_uint64_uval uint_not_uval uint_add_uval uint_sub_uval
    uint_mul_uval uint_mul32_uval uint_div_spec uint_div_zero uint_shl_uval uint_shr_uval
    CompareTo_sgn)

end
