(* ===== verification/Arith_Compact.thy ===== *)
theory Arith_Compact
  imports Arith_Uint256
begin

text \<open>
  The conversions of \<open>src/src/crypto/arith_uint256.cpp\<close> between the limbs and
  their two external forms: the compact difficulty encoding (\<open>SetCompact\<close>,
  \<open>GetCompact\<close>) and big-endian 32-byte strings (\<open>ArithFromBytes32\<close>,
  \<open>ArithToBytes32\<close>). The lemmas give the value each conversion denotes, its
  loss of precision, its flags, and the round trips.
\<close>

section \<open>Big-endian bytes\<close>

definition be_limb :: "byte list \<Rightarrow> nat \<Rightarrow> u32" where
  "be_limb b base =
     push_bit 24 (ucast (b ! base)) OR push_bit 16 (ucast (b ! (base + 1)))
       OR push_bit 8 (ucast (b ! (base + 2))) OR ucast (b ! (base + 3))"

definition ArithFromBytes32 :: "bytes32 \<Rightarrow> base_uint" where
  "ArithFromBytes32 b = map (\<lambda>limb. be_limb b (32 - 4 * (limb + 1))) [0..<8]"

definition put_limb :: "base_uint \<Rightarrow> nat \<Rightarrow> bytes32 \<Rightarrow> bytes32" where
  "put_limb a limb out =
     (let base = 32 - 4 * (limb + 1)
      in out[base := ucast (drop_bit 24 (a ! limb)),
             base + 1 := ucast (drop_bit 16 (a ! limb)),
             base + 2 := ucast (drop_bit 8 (a ! limb)),
             base + 3 := ucast (a ! limb)])"

definition ArithToBytes32 :: "base_uint \<Rightarrow> bytes32" where
  "ArithToBytes32 a = fold (put_limb a) [0..<8] zero32"

definition be_val :: "byte list \<Rightarrow> nat" where
  "be_val bs = foldl (\<lambda>acc x. acc * 256 + unat x) 0 bs"

lemma foldl_be: "foldl (\<lambda>acc x. acc * 256 + unat x) n (bs :: byte list) = n * 256 ^ length bs + be_val bs"
proof (induction bs arbitrary: n)
  case (Cons x xs)
  have "foldl (\<lambda>acc x. acc * 256 + unat x) n (x # xs) = (n * 256 + unat x) * 256 ^ length xs + be_val xs"
    using Cons.IH [of "n * 256 + unat x"] by simp
  moreover have "be_val (x # xs) = unat x * 256 ^ length xs + be_val xs"
    using Cons.IH [of "unat x"] by (simp add: be_val_def)
  ultimately show ?case by (simp add: algebra_simps)
qed (simp add: be_val_def)

lemma be_val_Nil [simp]: "be_val [] = 0"
  by (simp add: be_val_def)

lemma be_val_Cons: "be_val (x # xs) = unat x * 256 ^ length xs + be_val xs"
  using foldl_be [of "unat x" xs] by (simp add: be_val_def)

lemma unat8_lt: "unat (x :: byte) < 256"
  using unsigned_less [of x] by simp

lemma be_val_lt: "be_val bs < 256 ^ length bs"
proof (induction bs)
  case (Cons x xs)
  have "unat x * 256 ^ length xs + be_val xs < (unat x + 1) * 256 ^ length xs"
    using Cons.IH by simp
  also have "\<dots> \<le> 256 * 256 ^ length xs"
    using unat8_lt [of x] by (intro mult_right_mono) auto
  finally show ?case by (simp add: be_val_Cons)
qed simp

lemma be_val_inj: "length a = length b \<Longrightarrow> be_val a = be_val b \<Longrightarrow> a = b"
proof (induction a b rule: list_induct2)
  case (Cons x xs y ys)
  have "be_val (x # xs) div 256 ^ length xs = unat x" "be_val (y # ys) div 256 ^ length ys = unat y"
    using be_val_lt [of xs] be_val_lt [of ys] by (simp_all add: be_val_Cons)
  with Cons.prems Cons.hyps have "unat x = unat y" by simp
  with Cons show ?case by (simp add: be_val_Cons word_unat_eq_iff)
qed simp

text \<open>\<open>memcmp\<close> on equally long byte strings is the order of the numbers they denote.\<close>

fun memcmp_lt :: "byte list \<Rightarrow> byte list \<Rightarrow> bool" where
  "memcmp_lt (x # xs) (y # ys) \<longleftrightarrow> x < y \<or> x = y \<and> memcmp_lt xs ys"
| "memcmp_lt _ _ \<longleftrightarrow> False"

lemma memcmp_lt_be_val: "length a = length b \<Longrightarrow> memcmp_lt a b \<longleftrightarrow> be_val a < be_val b"
proof (induction a b rule: list_induct2)
  case (Cons x xs y ys)
  let ?B = "256 ^ length ys :: nat"
  have less: "p * ?B + u < q * ?B + v" if "u < ?B" "p < q" for u v p q :: nat
  proof -
    have "p * ?B + u < (p + 1) * ?B" using that(1) by simp
    also have "\<dots> \<le> q * ?B" using that(2) by (intro mult_right_mono) auto
    finally show ?thesis by simp
  qed
  have lt: "be_val xs < ?B" "be_val ys < ?B"
    using be_val_lt [of xs] be_val_lt [of ys] Cons.hyps by simp_all
  consider "unat x < unat y" | "unat y < unat x" | "x = y"
    by (metis linorder_neqE_nat word_unat_eq_iff)
  then show ?case
  proof cases
    case 1
    with less [OF lt(1) 1, of "be_val ys"] Cons.hyps show ?thesis
      by (simp add: be_val_Cons word_less_nat_alt)
  next
    case 2
    with less [OF lt(2) 2, of "be_val xs"] Cons.hyps show ?thesis
      by (auto simp: be_val_Cons word_less_nat_alt)
  next
    case 3
    with Cons show ?thesis by (simp add: be_val_Cons)
  qed
qed simp

lemma be_limb_unat:
  "unat (be_limb b i) = unat (b ! i) * 256 ^ 3 + unat (b ! (i + 1)) * 256 ^ 2
     + unat (b ! (i + 2)) * 256 + unat (b ! (i + 3))"
proof -
  let ?c = "\<lambda>x :: byte. ucast x :: u32"
  have c: "unat (?c x) = unat x" for x by (rule unat_ucast_up) simp
  have b: "unat x < 256" for x :: byte by (rule unat8_lt)
  have 1: "unat (?c (b ! (i + 3)) OR push_bit 8 (?c (b ! (i + 2)))) =
      unat (b ! (i + 3)) + 2 ^ 8 * unat (b ! (i + 2))"
    using b [of "b ! (i + 3)"] b [of "b ! (i + 2)"] by (subst unat_or_shift) (simp_all add: c)
  have 2: "unat ((?c (b ! (i + 3)) OR push_bit 8 (?c (b ! (i + 2)))) OR push_bit 16 (?c (b ! (i + 1)))) =
      unat (b ! (i + 3)) + 2 ^ 8 * unat (b ! (i + 2)) + 2 ^ 16 * unat (b ! (i + 1))"
    using b [of "b ! (i + 3)"] b [of "b ! (i + 2)"] b [of "b ! (i + 1)"]
    by (subst unat_or_shift) (simp_all only: 1 c, simp_all)
  have "unat (((?c (b ! (i + 3)) OR push_bit 8 (?c (b ! (i + 2)))) OR push_bit 16 (?c (b ! (i + 1))))
        OR push_bit 24 (?c (b ! i))) =
      unat (b ! (i + 3)) + 2 ^ 8 * unat (b ! (i + 2)) + 2 ^ 16 * unat (b ! (i + 1)) + 2 ^ 24 * unat (b ! i)"
    using b [of "b ! (i + 3)"] b [of "b ! (i + 2)"] b [of "b ! (i + 1)"] b [of "b ! i"]
    by (subst unat_or_shift) (simp_all only: 2 c, simp_all)
  moreover have "be_limb b i = ((?c (b ! (i + 3)) OR push_bit 8 (?c (b ! (i + 2)))) OR
      push_bit 16 (?c (b ! (i + 1)))) OR push_bit 24 (?c (b ! i))"
    by (simp only: be_limb_def or.assoc or.commute or.left_commute)
  ultimately show ?thesis by simp
qed

lemma ArithFromBytes32_length [simp]: "length (ArithFromBytes32 b) = WIDTH"
  by (simp add: ArithFromBytes32_def WIDTH_def)

lemma from_bytes_prefix:
  assumes "is_bytes32 b" and "n \<le> 8"
  shows "uval (map (\<lambda>limb. be_limb b (32 - 4 * (limb + 1))) [0..<n]) = be_val (drop (32 - 4 * n) b)"
  using assms(2)
proof (induction n)
  case 0
  with assms(1) show ?case by simp
next
  case (Suc n)
  define i where "i = 32 - 4 * (n + 1)"
  have i: "i + 4 = 32 - 4 * n" "i + 3 < length b" using Suc.prems assms(1) by (simp_all add: i_def)
  have "drop i b = b ! i # b ! (i + 1) # b ! (i + 2) # b ! (i + 3) # drop (i + 4) b"
    using i(2) by (simp add: Cons_nth_drop_Suc numeral_eq_Suc)
  moreover have "length (drop (i + 4) b) = 4 * n" using i assms(1) Suc.prems by simp
  moreover have "(256 :: nat) ^ (4 * n) = 2 ^ (32 * n)" by (simp add: power_mult)
  ultimately have "be_val (drop i b) = unat (be_limb b i) * 2 ^ (32 * n) + be_val (drop (i + 4) b)"
    by (simp add: be_val_Cons be_limb_unat algebra_simps power_add)
  with Suc show ?case unfolding i(1) by (simp add: uval_append i_def)
qed

lemma ArithFromBytes32_uval: "is_bytes32 b \<Longrightarrow> uval (ArithFromBytes32 b) = be_val b"
  using from_bytes_prefix [of b 8] by (simp add: ArithFromBytes32_def)

lemma ArithFromBytes32_inj:
  assumes "is_bytes32 b" and "is_bytes32 c" and "ArithFromBytes32 b = ArithFromBytes32 c"
  shows "b = c"
  using assms ArithFromBytes32_uval [of b] ArithFromBytes32_uval [of c] by (intro be_val_inj) auto

lemma put_limb_length [simp]: "length (put_limb a l out) = length out"
  by (simp add: put_limb_def Let_def)

lemma put_limbs_length: "length (fold (put_limb a) ls out) = length out"
  by (induction ls arbitrary: out) simp_all

lemma ArithToBytes32_length [simp]: "length (ArithToBytes32 a) = 32"
  by (simp add: ArithToBytes32_def put_limbs_length zero32_def)

lemma list8_cases:
  assumes "length a = 8"
  obtains a0 a1 a2 a3 a4 a5 a6 a7 where "a = [a0, a1, a2, a3, a4, a5, a6, a7]"
  using assms by (auto simp: length_Suc_conv numeral_eq_Suc)

lemma be_limb_join:
  "push_bit 24 (ucast (ucast (drop_bit 24 v) :: byte)) OR push_bit 16 (ucast (ucast (drop_bit 16 v) :: byte))
     OR push_bit 8 (ucast (ucast (drop_bit 8 v) :: byte)) OR ucast (ucast v :: byte) = (v :: u32)"
proof -
  have m: "ucast (w :: u32) = (ucast (w AND 0xFF) :: byte)" for w
    by (rule bit_word_eqI) (simp only: bit_unsigned_iff bit_and_iff FF_eq_mask bit_mask_iff, auto)
  show ?thesis
    unfolding m [of v] m [of "drop_bit 8 v"] m [of "drop_bit 16 v"] m [of "drop_bit 24 v"]
    using le32_join_split [of v] by (simp only: or.commute or.left_commute or.assoc)
qed

lemma put_limb_same:
  "length out = 32 \<Longrightarrow> l < 8 \<Longrightarrow> be_limb (put_limb a l out) (32 - 4 * (l + 1)) = a ! l"
  by (simp add: be_limb_def put_limb_def Let_def be_limb_join)

lemma put_limb_nth_other:
  "k < 32 - 4 * (l + 1) \<or> 32 - 4 * (l + 1) + 4 \<le> k \<Longrightarrow> put_limb a l out ! k = out ! k"
  by (auto simp: put_limb_def Let_def)

lemma put_limb_other:
  assumes "l < 8" and "m < 8" and "l \<noteq> m"
  shows "be_limb (put_limb a l out) (32 - 4 * (m + 1)) = be_limb out (32 - 4 * (m + 1))"
proof -
  have "put_limb a l out ! (32 - 4 * (m + 1) + j) = out ! (32 - 4 * (m + 1) + j)" if "j < 4" for j
  proof (rule put_limb_nth_other, cases "l < m")
    case True
    then show "32 - 4 * (m + 1) + j < 32 - 4 * (l + 1) \<or> 32 - 4 * (l + 1) + 4 \<le> 32 - 4 * (m + 1) + j"
      using assms(2) that by (intro disjI1) presburger
  next
    case False
    then show "32 - 4 * (m + 1) + j < 32 - 4 * (l + 1) \<or> 32 - 4 * (l + 1) + 4 \<le> 32 - 4 * (m + 1) + j"
      using assms that by (intro disjI2) presburger
  qed
  from this [of 0] this [of 1] this [of 2] this [of 3] show ?thesis
    unfolding be_limb_def by simp
qed

lemma put_limbs_nth:
  "n \<le> 8 \<Longrightarrow> l < n \<Longrightarrow> length out = 32 \<Longrightarrow>
     be_limb (fold (put_limb a) [0..<n] out) (32 - 4 * (l + 1)) = a ! l"
proof (induction n)
  case (Suc n)
  let ?r = "fold (put_limb a) [0..<n] out"
  have e: "fold (put_limb a) [0..<Suc n] out = put_limb a n ?r" by simp
  have r: "length ?r = 32" using Suc.prems by (simp add: put_limbs_length)
  show ?case
  proof (cases "l = n")
    case True
    with Suc.prems r show ?thesis unfolding e by (simp only: put_limb_same Suc_le_eq)
  next
    case False
    have "be_limb (put_limb a n ?r) (32 - 4 * (l + 1)) = be_limb ?r (32 - 4 * (l + 1))"
      using False Suc.prems by (intro put_limb_other) auto
    also have "\<dots> = a ! l" using False Suc by auto
    finally show ?thesis unfolding e .
  qed
qed simp

lemma ArithFromTo: "is_uint a \<Longrightarrow> ArithFromBytes32 (ArithToBytes32 a) = a"
proof (rule nth_equalityI)
  fix i assume a: "is_uint a" and i: "i < length (ArithFromBytes32 (ArithToBytes32 a))"
  then have "i < 8" by (simp add: WIDTH_def)
  then show "ArithFromBytes32 (ArithToBytes32 a) ! i = a ! i"
    using put_limbs_nth [of 8 i zero32 a]
    unfolding ArithFromBytes32_def ArithToBytes32_def by (simp only: nth_map length_upt nth_upt zero32_def) simp
qed simp

lemma ArithToFrom: "is_bytes32 b \<Longrightarrow> ArithToBytes32 (ArithFromBytes32 b) = b"
  by (rule ArithFromBytes32_inj) (simp_all add: ArithFromTo)

lemma be_val_ArithToBytes32: "is_uint a \<Longrightarrow> be_val (ArithToBytes32 a) = uval a"
  using ArithFromBytes32_uval [of "ArithToBytes32 a"] by (simp add: ArithFromTo)

section \<open>Compact encoding\<close>

definition SetCompact :: "u32 \<Rightarrow> base_uint \<times> bool \<times> bool" where
  "SetCompact nCompact =
     (let nSize = unat (drop_bit 24 nCompact);
          nWord0 = nCompact AND 0x007fffff;
          nWord = (if nSize \<le> 3 then drop_bit (8 * (3 - nSize)) nWord0 else nWord0);
          v = (if nSize \<le> 3 then of_uint64 (ucast nWord)
               else uint_shl (of_uint64 (ucast nWord)) (8 * (nSize - 3)));
          pfNegative = (nWord \<noteq> 0 \<and> nCompact AND 0x00800000 \<noteq> 0);
          pfOverflow = (nWord \<noteq> 0 \<and> (nSize > 34 \<or> nWord > 0xff \<and> nSize > 33 \<or>
                                     nWord > 0xffff \<and> nSize > 32))
      in (v, pfNegative, pfOverflow))"

definition GetCompact :: "base_uint \<Rightarrow> bool \<Rightarrow> u32" where
  "GetCompact a fNegative =
     (let nSize = (uint_bits a + 7) div 8;
          nCompact = (if nSize \<le> 3 then ucast (push_bit (8 * (3 - nSize)) (GetLow64 a))
                      else ucast (GetLow64 (uint_shr a (8 * (nSize - 3)))));
          (nCompact, nSize) = (if nCompact AND 0x00800000 \<noteq> 0 then (drop_bit 8 nCompact, nSize + 1)
                               else (nCompact, nSize));
          nCompact = nCompact OR push_bit 24 (of_nat nSize)
      in nCompact OR (if fNegative \<and> nCompact AND 0x007fffff \<noteq> 0 then 0x00800000 else 0))"

text \<open>The size and mantissa fields of a compact word, as numbers.\<close>

definition cSize :: "u32 \<Rightarrow> nat" where
  "cSize c = unat c div 2 ^ 24"

definition cWord :: "u32 \<Rightarrow> nat" where
  "cWord c = unat c mod 2 ^ 23"

lemma unat_and_7fffff: "unat (c AND 0x007fffff :: u32) = cWord c"
proof -
  have "(0x007fffff :: u32) = mask 23" by (simp add: mask_eq_exp_minus_1)
  then show ?thesis unfolding cWord_def by (simp only: unat_and_mask)
qed

lemma cSize_lt: "cSize c < 256"
  using unat32_lt [of c] by (simp add: cSize_def less_mult_imp_div_less)

lemma cWord_lt: "cWord c < 2 ^ 23"
  by (simp add: cWord_def)

lemma sign_bit_iff: "(c :: u32) AND 0x00800000 \<noteq> 0 \<longleftrightarrow> bit c 23"
  using and_push1_iff [of c 23] by simp

lemma SetCompact_length [simp]: "length (fst (SetCompact c)) = WIDTH"
  by (simp add: SetCompact_def Let_def)

lemma unat_drop24: "unat (drop_bit 24 c) = cSize (c :: u32)"
  by (simp only: unat_drop_bit cSize_def)

lemma unat_drop_word: "unat (drop_bit k (c AND 0x007fffff :: u32)) = cWord c div 2 ^ k"
  by (simp only: unat_drop_bit unat_and_7fffff)

lemmas SetCompact_fields = SetCompact_def Let_def unat_drop24 unat_drop_word unat_and_7fffff
  of_uint64_uval uint_shl_uval

lemma SetCompact_small:
  "cSize c \<le> 3 \<Longrightarrow> uval (fst (SetCompact c)) = cWord c div 256 ^ (3 - cSize c)"
  by (simp add: SetCompact_fields power_mult del: drop_bit_and)

lemma SetCompact_large:
  "3 < cSize c \<Longrightarrow> uval (fst (SetCompact c)) = (cWord c * 256 ^ (cSize c - 3)) mod 2 ^ 256"
  by (simp add: SetCompact_fields power_mult)

lemma SetCompact_overflow:
  "snd (snd (SetCompact c)) \<longleftrightarrow>
     3 < cSize c \<and> cWord c \<noteq> 0 \<and>
     (34 < cSize c \<or> 255 < cWord c \<and> 33 < cSize c \<or> 65535 < cWord c \<and> 32 < cSize c)"
  by (auto simp: SetCompact_fields word_less_nat_alt simp flip: unat_eq_0)

lemma pow256: "(256 :: nat) ^ n = 2 ^ (8 * n)"
  by (simp add: power_mult)

lemma SetCompact_overflow_iff:
  "snd (snd (SetCompact c)) \<longleftrightarrow> 3 < cSize c \<and> 2 ^ 256 \<le> cWord c * 256 ^ (cSize c - 3)"
proof (cases "3 < cSize c \<and> cWord c \<noteq> 0")
  case True
  let ?s = "cSize c" and ?w = "cWord c"
  have w: "?w < 2 ^ 23" by (rule cWord_lt)
  consider "?s \<le> 32" | "?s = 33" | "?s = 34" | "34 < ?s" by linarith
  then show ?thesis
  proof cases
    case 1
    have "?w * 256 ^ (?s - 3) < 2 ^ 23 * 256 ^ 29"
      using w 1 by (intro mult_less_le_imp_less power_increasing) auto
    with 1 show ?thesis unfolding SetCompact_overflow by simp
  next
    case 2
    then show ?thesis unfolding SetCompact_overflow using True by auto
  next
    case 3
    then show ?thesis unfolding SetCompact_overflow using True by auto
  next
    case 4
    have "1 * 256 ^ 32 \<le> ?w * 256 ^ (?s - 3)"
      using True 4 by (intro mult_le_mono power_increasing) auto
    with 4 True show ?thesis unfolding SetCompact_overflow by simp
  qed
next
  case False
  then show ?thesis unfolding SetCompact_overflow by auto
qed

lemma SetCompact_exact:
  "\<not> snd (snd (SetCompact c)) \<Longrightarrow> 3 < cSize c \<Longrightarrow>
     uval (fst (SetCompact c)) = cWord c * 256 ^ (cSize c - 3)"
  by (simp add: SetCompact_large SetCompact_overflow_iff)

text \<open>
  What \<open>GetCompact\<close> computes, on numbers: \<open>n\<close> is the byte length of \<open>x\<close>, and the
  mantissa gives up a byte when its top bit would be read as the sign.
\<close>

definition is_bytelen :: "nat \<Rightarrow> nat \<Rightarrow> bool" where
  "is_bytelen x n \<longleftrightarrow> x < 256 ^ n \<and> (if x = 0 then n = 0 else 0 < n \<and> 256 ^ (n - 1) \<le> x)"

definition raw_mantissa :: "nat \<Rightarrow> nat \<Rightarrow> nat" where
  "raw_mantissa x n = (if n \<le> 3 then x * 256 ^ (3 - n) else x div 256 ^ (n - 3))"

definition compact_parts :: "nat \<Rightarrow> nat \<Rightarrow> nat \<times> nat" where
  "compact_parts x n =
     (let M = raw_mantissa x n in if 2 ^ 23 \<le> M then (M div 256, n + 1) else (M, n))"

lemma is_bytelen_bits: "is_bitlen x b \<Longrightarrow> is_bytelen x ((b + 7) div 8)"
proof -
  assume b: "is_bitlen x b"
  let ?n = "(b + 7) div 8"
  have "x < 2 ^ b" using b by (simp add: is_bitlen_def)
  also have "\<dots> \<le> 2 ^ (8 * ?n)" by (intro power_increasing) auto
  finally have up: "x < 256 ^ ?n" by (simp only: pow256)
  have "0 < ?n \<and> 256 ^ (?n - 1) \<le> x" if x: "x \<noteq> 0"
  proof -
    have "0 < b" "2 ^ (b - 1) \<le> x" using b x by (auto simp: is_bitlen_def)
    moreover have "(2 :: nat) ^ (8 * (?n - 1)) \<le> 2 ^ (b - 1)" by (intro power_increasing) auto
    ultimately have "2 ^ (8 * (?n - 1)) \<le> x" by linarith
    with \<open>0 < b\<close> show ?thesis by (simp add: pow256)
  qed
  moreover have "?n = 0" if "x = 0" using b that by (simp add: is_bitlen_def)
  ultimately show ?thesis using up by (auto simp: is_bytelen_def)
qed

lemma is_bytelen_unique: "is_bytelen x n \<Longrightarrow> is_bytelen x m \<Longrightarrow> n = m"
proof -
  have "\<not> n < m" if "is_bytelen x n" "is_bytelen x m" for n m
  proof
    assume "n < m"
    have "x < 256 ^ n" using that(1) by (simp add: is_bytelen_def)
    also have "(256 :: nat) ^ n \<le> 256 ^ (m - 1)" using \<open>n < m\<close> by (intro power_increasing) auto
    also have "\<dots> \<le> x" using that(2) \<open>n < m\<close> by (auto simp: is_bytelen_def split: if_splits)
    finally show False by simp
  qed
  then show "is_bytelen x n \<Longrightarrow> is_bytelen x m \<Longrightarrow> n = m" by (metis nat_neq_iff)
qed

lemma raw_mantissa_lt: "is_bytelen x n \<Longrightarrow> raw_mantissa x n < 2 ^ 24"
proof (cases "n \<le> 3")
  case True
  assume n: "is_bytelen x n"
  have "x * 256 ^ (3 - n) < 256 ^ n * 256 ^ (3 - n)" using n by (simp add: is_bytelen_def)
  also have "\<dots> = 256 ^ 3" using True by (simp flip: power_add)
  finally show ?thesis using True by (simp add: raw_mantissa_def)
next
  case False
  assume n: "is_bytelen x n"
  have "(256 :: nat) ^ n = 256 ^ (n - 3) * 2 ^ 24"
  proof -
    have "n = (n - 3) + 3" using False by simp
    then have "(256 :: nat) ^ n = 256 ^ (n - 3) * 256 ^ 3" by (metis power_add)
    then show ?thesis by simp
  qed
  with n have "x < 256 ^ (n - 3) * 2 ^ 24" by (simp add: is_bytelen_def)
  then show ?thesis using False by (simp add: raw_mantissa_def less_mult_imp_div_less mult.commute)
qed

lemma raw_mantissa_ge:
  assumes "is_bytelen x n" and "3 \<le> n"
  shows "2 ^ 16 \<le> raw_mantissa x n"
proof -
  have "256 ^ (n - 1) \<le> x" using assms by (auto simp: is_bytelen_def split: if_splits)
  moreover have "(256 :: nat) ^ (n - 1) = 2 ^ 16 * 256 ^ (n - 3)"
  proof -
    have "n - 1 = (n - 3) + 2" using assms(2) by simp
    then have "(256 :: nat) ^ (n - 1) = 256 ^ (n - 3) * 256 ^ 2" by (metis power_add)
    then show ?thesis by simp
  qed
  ultimately have "2 ^ 16 * 256 ^ (n - 3) \<le> x" by simp
  then have "2 ^ 16 \<le> x div 256 ^ (n - 3)" by (subst less_eq_div_iff_mult_less_eq) auto
  then show ?thesis using assms(2) by (cases "n = 3") (simp_all add: raw_mantissa_def)
qed

lemma GetLow64_unat:
  assumes "is_uint a"
  shows "unat (GetLow64 a) = uval a mod 2 ^ 64"
proof -
  obtain x y zs where a: "a = x # y # zs"
    using assms by (metis WIDTH_def length_Suc_conv numeral_eq_Suc pred_numeral_simps(3) BitM.simps(3)
        list8_cases)
  have "unat (GetLow64 a) = unat x + 2 ^ 32 * unat y"
    unfolding GetLow64_def a using unat32_lt [of x] unat32_lt [of y]
    by (simp only: nth_Cons_0 nth_Cons_Suc One_nat_def) (subst unat_or_shift, simp_all)
  moreover have "uval a = unat x + 2 ^ 32 * unat y + 2 ^ 64 * uval zs" by (simp add: a)
  moreover have "unat x + 2 ^ 32 * unat y < 2 ^ 64" using unat32_lt [of x] unat32_lt [of y] by simp
  ultimately show ?thesis by simp
qed

lemma GetCompact_raw:
  assumes "is_uint a" and "is_bytelen (uval a) n"
  shows "unat (if n \<le> 3 then ucast (push_bit (8 * (3 - n)) (GetLow64 a))
      else ucast (GetLow64 (uint_shr a (8 * (n - 3)))) :: u32) = raw_mantissa (uval a) n"
proof -
  have M: "raw_mantissa (uval a) n < 2 ^ 24" by (rule raw_mantissa_lt [OF assms(2)])
  show ?thesis
  proof (cases "n \<le> 3")
    case True
    have le: "uval a \<le> uval a * 256 ^ (3 - n)" by simp
    have lt: "uval a * 256 ^ (3 - n) < 2 ^ 24" using M True by (simp add: raw_mantissa_def)
    have "uval a < 2 ^ 64" using le_less_trans [OF le lt] by simp
    note this lt
    with True show ?thesis
      by (simp only: if_True if_P unat_ucast_mod unat_push_bit GetLow64_unat [OF assms(1)] raw_mantissa_def)
        (simp flip: pow256)
  next
    case False
    with M have "uval a div 256 ^ (n - 3) < 2 ^ 24" by (simp add: raw_mantissa_def)
    with False show ?thesis
      using GetLow64_unat [of "uint_shr a (8 * (n - 3))"]
      by (simp only: if_False unat_ucast_mod uint_shr_length uint_shr_uval [OF assms(1)] raw_mantissa_def)
        (simp flip: pow256)
  qed
qed

lemma compact_join:
  assumes "unat (w :: u32) < 2 ^ 23" and "z < 256"
  shows "cWord (w OR push_bit 24 (of_nat z)) = unat w \<and> cSize (w OR push_bit 24 (of_nat z)) = z
    \<and> \<not> bit (w OR push_bit 24 (of_nat z)) 23"
proof -
  have z: "unat (of_nat z :: u32) = z" using assms(2) by (simp add: unat_of_nat)
  have u: "unat (w OR push_bit 24 (of_nat z)) = unat w + 2 ^ 24 * z"
    using assms by (subst unat_or_shift) (simp_all add: z)
  have "\<not> bit w 23" using nat_bit_bound [OF assms(1), of 23] by (auto simp: bit_unat)
  moreover have "(unat w + 2 ^ 24 * z) mod 2 ^ 23 = unat w"
  proof -
    have "unat w + 2 ^ 24 * z = unat w + 2 ^ 23 * (2 * z)" by simp
    then show ?thesis using assms(1) by (simp only: mod_mult_self2 mod_less)
  qed
  ultimately show ?thesis
    using assms(1) unfolding cWord_def cSize_def u by (simp add: bit_or_iff bit_push_bit_iff)
qed

lemma GetCompact_parts:
  assumes "is_uint a" and "is_bytelen (uval a) n" and "c = GetCompact a False"
  shows "compact_parts (uval a) n = (cWord c, cSize c) \<and> \<not> bit c 23"
proof -
  let ?M = "raw_mantissa (uval a) n"
  define w :: u32 where "w = (if n \<le> 3 then ucast (push_bit (8 * (3 - n)) (GetLow64 a))
      else ucast (GetLow64 (uint_shr a (8 * (n - 3)))))"
  have w: "unat w = ?M" unfolding w_def by (rule GetCompact_raw [OF assms(1,2)])
  have M: "?M < 2 ^ 24" by (rule raw_mantissa_lt [OF assms(2)])
  have nb: "(uint_bits a + 7) div 8 = n"
    using is_bytelen_bits uint_bits_spec [OF assms(1)] is_bytelen_unique [OF assms(2)] by metis
  have n: "n < 255" using uint_bits_spec [OF assms(1)] nb by linarith
  have b23: "bit w 23 \<longleftrightarrow> 2 ^ 23 \<le> ?M"
    using nat_top_bit [of ?M 23] M w by (simp add: bit_unat [symmetric])
  have c: "c = (if bit w 23 then drop_bit 8 w OR push_bit 24 (of_nat (n + 1))
      else w OR push_bit 24 (of_nat n))"
    unfolding assms(3) GetCompact_def Let_def nb
    unfolding w_def [symmetric] sign_bit_iff by simp
  show ?thesis
  proof (cases "bit w 23")
    case True
    have d: "unat (drop_bit 8 w) = ?M div 256" by (simp only: unat_drop_bit w) simp
    then have "unat (drop_bit 8 w) < 2 ^ 23" using M by simp
    from compact_join [OF this, of "n + 1"] n True b23 show ?thesis
      unfolding c d by (simp add: compact_parts_def Let_def d del: of_nat_add of_nat_Suc)
  next
    case False
    then have "unat w < 2 ^ 23" using b23 w by simp
    from compact_join [OF this, of n] n False b23 w show ?thesis
      unfolding c by (simp add: compact_parts_def Let_def)
  qed
qed

text \<open>The number a pair of fields denotes; exact unless bytes fall off the low end.\<close>

lemma compact_parts_value:
  assumes "is_bytelen x n" and "compact_parts x n = (m, z)"
  shows "if z \<le> 3 then m div 256 ^ (3 - z) = x else m = x div 256 ^ (z - 3)"
proof (cases "2 ^ 23 \<le> raw_mantissa x n")
  case True
  then have m: "m = raw_mantissa x n div 256" "z = n + 1"
    using assms(2) by (simp_all add: compact_parts_def Let_def)
  consider "n \<le> 2" | "n = 3" | "3 < n" by linarith
  then show ?thesis
  proof cases
    case 1
    then have "256 ^ (3 - n) = (256 :: nat) * 256 ^ (3 - Suc n)" by (simp add: Suc_diff_Suc flip: power_Suc)
    with 1 m show ?thesis by (simp add: raw_mantissa_def)
  next
    case 2
    with m show ?thesis by (simp add: raw_mantissa_def)
  next
    case 3
    then have "n - 2 = Suc (n - 3)" by simp
    then have "256 ^ (n - 2) = 256 ^ (n - 3) * (256 :: nat)" by (simp only: power_Suc2)
    with 3 m show ?thesis by (simp add: raw_mantissa_def div_mult2_eq)
  qed
next
  case False
  then have "m = raw_mantissa x n" "z = n"
    using assms(2) by (auto simp: compact_parts_def Let_def)
  then show ?thesis by (simp add: raw_mantissa_def)
qed

lemma compact_parts_top:
  assumes "is_bytelen x n" and "compact_parts x n = (m, z)" and "3 < z"
  shows "2 ^ 15 \<le> m"
proof -
  have n: "3 \<le> n" using assms(2,3) by (auto simp: compact_parts_def Let_def split: if_splits)
  from raw_mantissa_ge [OF assms(1) n] assms(2) show ?thesis
    by (auto simp: compact_parts_def Let_def split: if_splits)
qed

text \<open>The encoding of a value that was itself decoded is stable.\<close>

lemma compact_parts_stable:
  assumes "is_bytelen x n" and "compact_parts x n = (m, z)" and "3 < z"
  shows "is_bytelen (m * 256 ^ (z - 3)) n \<and> compact_parts (m * 256 ^ (z - 3)) n = (m, z)"
proof (cases "2 ^ 23 \<le> raw_mantissa x n")
  case True
  then have m: "m = raw_mantissa x n div 256" "z = n + 1"
    using assms(2) by (auto simp: compact_parts_def Let_def)
  have b: "2 ^ 15 \<le> m" "m < 2 ^ 16" and n: "3 \<le> n"
    using True raw_mantissa_lt [OF assms(1)] m assms(3) by auto
  have e: "n - 1 = Suc (n - 2)" "n = Suc (Suc (n - 2))" "z - 3 = n - 2" using n m(2) by simp_all
  have "m * 256 ^ (n - 2) < 2 ^ 16 * 256 ^ (n - 2)" using b by simp
  also have "\<dots> = 256 ^ n" by (subst (2) e(2)) simp
  finally have up: "m * 256 ^ (n - 2) < 256 ^ n" .
  have "256 ^ (n - 1) \<le> m * 256 ^ (n - 2)" using b unfolding e(1) by simp
  then have l: "is_bytelen (m * 256 ^ (n - 2)) n" using up b n by (simp add: is_bytelen_def)
  have "raw_mantissa (m * 256 ^ (n - 2)) n = m * 256"
  proof (cases "n = 3")
    case False
    then have "n - 2 = Suc (n - 3)" using n by simp
    then have "m * 256 ^ (n - 2) = m * 256 * 256 ^ (n - 3)" by simp
    then have "m * 256 ^ (n - 2) div 256 ^ (n - 3) = m * 256" by (simp only:) simp
    then show ?thesis using n False by (simp add: raw_mantissa_def)
  qed (simp add: raw_mantissa_def)
  with l b m(2) e(3) show ?thesis by (simp add: compact_parts_def)
next
  case False
  then have m: "m = raw_mantissa x n" "z = n"
    using assms(2) by (auto simp: compact_parts_def Let_def)
  have b: "2 ^ 16 \<le> m" "m < 2 ^ 23" and n: "3 < n"
    using False raw_mantissa_ge [OF assms(1)] m assms(3) by auto
  have e: "n - 1 = Suc (Suc (n - 3))" "n = Suc (Suc (Suc (n - 3)))" using n by simp_all
  have "m * 256 ^ (n - 3) < 2 ^ 24 * 256 ^ (n - 3)" using b by simp
  also have "\<dots> = 256 ^ n" by (subst (2) e(2)) simp
  finally have up: "m * 256 ^ (n - 3) < 256 ^ n" .
  have "256 ^ (n - 1) \<le> m * 256 ^ (n - 3)" using b unfolding e(1) by simp
  then have "is_bytelen (m * 256 ^ (n - 3)) n" using up b n by (simp add: is_bytelen_def)
  moreover have "raw_mantissa (m * 256 ^ (n - 3)) n = m" using n by (simp add: raw_mantissa_def)
  ultimately show ?thesis using b m(2) by (simp add: compact_parts_def Let_def)
qed

lemma uint_bytelen: "is_uint a \<Longrightarrow> \<exists>n. is_bytelen (uval a) n"
  using is_bytelen_bits uint_bits_spec by blast

lemma SetCompact_sign: "\<not> bit c 23 \<Longrightarrow> \<not> fst (snd (SetCompact c))"
  unfolding SetCompact_def Let_def sign_bit_iff by simp

text \<open>
  Decoding an encoded number clears the bytes below the three-byte mantissa and
  nothing else; the flags are never raised.
\<close>

lemma SetCompact_GetCompact_value:
  assumes "is_uint a" and "c = GetCompact a False"
  shows "uval (fst (SetCompact c)) =
      (if cSize c \<le> 3 then uval a else uval a div 256 ^ (cSize c - 3) * 256 ^ (cSize c - 3))
    \<and> snd (SetCompact c) = (False, False)"
proof -
  obtain n where n: "is_bytelen (uval a) n" using uint_bytelen [OF assms(1)] by blast
  note p = GetCompact_parts [OF assms(1) n assms(2)]
  have v: "if cSize c \<le> 3 then cWord c div 256 ^ (3 - cSize c) = uval a
      else cWord c = uval a div 256 ^ (cSize c - 3)"
    by (rule compact_parts_value [OF n]) (use p in simp)
  have o: "\<not> snd (snd (SetCompact c))"
  proof
    assume "snd (snd (SetCompact c))"
    then have "3 < cSize c" "2 ^ 256 \<le> cWord c * 256 ^ (cSize c - 3)"
      by (simp_all add: SetCompact_overflow_iff)
    moreover have "cWord c * 256 ^ (cSize c - 3) \<le> uval a"
      using v \<open>3 < cSize c\<close> div_times_less_eq_dividend [of "uval a"] by simp
    ultimately show False using uval_lt256 [OF assms(1)] by linarith
  qed
  have s: "\<not> fst (snd (SetCompact c))" using p SetCompact_sign by blast
  have "uval (fst (SetCompact c)) =
      (if cSize c \<le> 3 then uval a else uval a div 256 ^ (cSize c - 3) * 256 ^ (cSize c - 3))"
  proof (cases "cSize c \<le> 3")
    case True
    with v SetCompact_small [of c] show ?thesis by simp
  next
    case False
    with v SetCompact_exact [OF o] show ?thesis by simp
  qed
  with o s show ?thesis by (cases "snd (SetCompact c)") auto
qed

text \<open>
  The relative loss of the encoding is below one part in \<open>2 ^ 15\<close>, it always rounds
  down, and a non-zero number never becomes zero.
\<close>

lemma GetCompact_loss:
  assumes "is_uint a" and "c = GetCompact a False"
  shows "uval (fst (SetCompact c)) \<le> uval a
    \<and> (uval a - uval (fst (SetCompact c))) * 2 ^ 15 \<le> uval a
    \<and> (uval a \<noteq> 0 \<longrightarrow> uval (fst (SetCompact c)) \<noteq> 0)"
proof (cases "cSize c \<le> 3")
  case True
  with SetCompact_GetCompact_value [OF assms] show ?thesis by simp
next
  case False
  define E where "E = (256 :: nat) ^ (cSize c - 3)"
  obtain n where n: "is_bytelen (uval a) n" using uint_bytelen [OF assms(1)] by blast
  have p: "compact_parts (uval a) n = (cWord c, cSize c)"
    using GetCompact_parts [OF assms(1) n assms(2)] by simp
  have v: "uval (fst (SetCompact c)) = uval a div E * E"
    using SetCompact_GetCompact_value [OF assms] False by (simp add: E_def)
  have "cWord c = uval a div E" using compact_parts_value [OF n p] False by (simp add: E_def)
  with compact_parts_top [OF n p] False have top: "2 ^ 15 \<le> uval a div E" by simp
  have "0 < E" by (simp add: E_def)
  then have d: "uval a - uval a div E * E < E"
    by (simp only: minus_div_mult_eq_mod) simp
  have "E * 2 ^ 15 \<le> uval a div E * E" using top by (simp add: mult.commute)
  moreover have "(uval a - uval a div E * E) * 2 ^ 15 \<le> E * 2 ^ 15" using d by simp
  ultimately have "(uval a - uval a div E * E) * 2 ^ 15 \<le> uval a"
    using div_times_less_eq_dividend [of "uval a" E] by linarith
  moreover have "uval a div E * E \<noteq> 0" using top \<open>0 < E\<close> by simp
  ultimately show ?thesis unfolding v by simp
qed

lemma GetCompact_stable:
  assumes "is_uint a" and "c = GetCompact a False"
  shows "GetCompact (fst (SetCompact c)) False = c"
proof (cases "cSize c \<le> 3")
  case True
  with SetCompact_GetCompact_value [OF assms] have "fst (SetCompact c) = a"
    using assms(1) by (intro uval_inj) auto
  with assms(2) show ?thesis by simp
next
  case False
  let ?b = "fst (SetCompact c)"
  obtain n where n: "is_bytelen (uval a) n" using uint_bytelen [OF assms(1)] by blast
  have p: "compact_parts (uval a) n = (cWord c, cSize c)" "\<not> bit c 23"
    using GetCompact_parts [OF assms(1) n assms(2)] by auto
  have "uval ?b = cWord c * 256 ^ (cSize c - 3)"
    using SetCompact_GetCompact_value [OF assms] SetCompact_exact [of c] False by simp
  with compact_parts_stable [OF n p(1)] False
  have b: "is_bytelen (uval ?b) n" "compact_parts (uval ?b) n = (cWord c, cSize c)" by simp_all
  define c' where "c' = GetCompact ?b False"
  have p': "cWord c' = cWord c" "cSize c' = cSize c" "\<not> bit c' 23"
    using GetCompact_parts [OF _ b(1) c'_def] b(2) by auto
  have split: "unat x = cWord x + 2 ^ 24 * cSize x" if "\<not> bit x 23" for x :: u32
  proof -
    have "bit (unat x mod 2 ^ 24) 23 \<longleftrightarrow> bit x 23"
      by (simp only: take_bit_eq_mod [symmetric] bit_take_bit_iff bit_unat) simp
    then have "unat x mod 2 ^ 24 < 2 ^ 23"
      using that nat_top_bit [of "unat x mod 2 ^ 24" 23] by simp
    moreover have "unat x mod 2 ^ 24 mod 2 ^ 23 = unat x mod 2 ^ 23" by (simp add: mod_mod_cancel)
    ultimately have "unat x mod 2 ^ 24 = cWord x" by (simp add: cWord_def)
    then show ?thesis unfolding cSize_def by (metis add.commute mult_div_mod_eq)
  qed
  have "unat c' = unat c" using p p' split by simp
  then show ?thesis unfolding c'_def by (simp add: word_unat_eq_iff)
qed

text \<open>
  C29. Encoding a 256-bit number as \<open>nBits\<close> and decoding it again never raises the
  sign or overflow flag, never rounds up, loses at most one part in \<open>2 ^ 15\<close>, keeps a
  non-zero number non-zero, and is stable: re-encoding the decoded number gives the
  same \<open>nBits\<close>.
\<close>

theorem compact_round_trip:
  assumes "is_uint a"
  defines "c \<equiv> GetCompact a False"
  shows "snd (SetCompact c) = (False, False)
    \<and> uval (fst (SetCompact c)) \<le> uval a
    \<and> (uval a - uval (fst (SetCompact c))) * 2 ^ 15 \<le> uval a
    \<and> (uval (fst (SetCompact c)) = 0 \<longleftrightarrow> uval a = 0)
    \<and> GetCompact (fst (SetCompact c)) False = c"
  using SetCompact_GetCompact_value [OF assms(1) c_def [THEN meta_eq_to_obj_eq]]
    GetCompact_loss [OF assms(1) c_def [THEN meta_eq_to_obj_eq]]
    GetCompact_stable [OF assms(1) c_def [THEN meta_eq_to_obj_eq]]
  by auto

theorem compact_round_trip_witness:
  "uval (fst (SetCompact (GetCompact (of_uint64 0x123456789) False))) \<le> 0x123456789"
  using compact_round_trip [of "of_uint64 0x123456789"] by (simp add: of_uint64_uval)

end
