(* ===== verification/Chain_Params.thy ===== *)
theory Chain_Params
  imports Moneu_Prelude
begin

text \<open>
  The consensus constants of \<open>src/src/chainparams.cpp\<close> and the functions over them:
  block subsidy and its emission schedule, the money range, checkpoints and hex
  parsing. Signed 64-bit constants are integers, unsigned ones words.
\<close>

section \<open>Constants\<close>

definition COIN :: int where
  "COIN = 100000000"

definition MAX_MONEY :: int where
  "MAX_MONEY = 30000000 * COIN"

definition INITIAL_SUBSIDY :: int where
  "INITIAL_SUBSIDY = 77 * COIN"

definition HALVING_INTERVAL :: u64 where
  "HALVING_INTERVAL = 194804"

definition LAST_SUBSIDY_HEIGHT :: u64 where
  "LAST_SUBSIDY_HEIGHT = 33 * HALVING_INTERVAL"

definition BLOCK_TIME_TARGET :: u64 where
  "BLOCK_TIME_TARGET = 600"

definition POW_LIMIT_COMPACT :: u32 where
  "POW_LIMIT_COMPACT = 0x1d00ffff"

definition DIFFICULTY_ADJUSTMENT_INTERVAL :: u32 where
  "DIFFICULTY_ADJUSTMENT_INTERVAL = 2016"

definition POW_TARGET_TIMESPAN :: u64 where
  "POW_TARGET_TIMESPAN = 2016 * 600"

definition POW_MIN_TIMESPAN_PERCENT :: u32 where
  "POW_MIN_TIMESPAN_PERCENT = 80"

definition POW_MAX_TIMESPAN_PERCENT :: u32 where
  "POW_MAX_TIMESPAN_PERCENT = 400"

definition ASERT_ANCHOR_HEIGHT :: u32 where
  "ASERT_ANCHOR_HEIGHT = 65713"

definition ASERT_HALF_LIFE :: int where
  "ASERT_HALF_LIFE = 2 * 24 * 60 * 60"

definition COINBASE_MATURITY :: u32 where
  "COINBASE_MATURITY = 50"

definition MAX_BLOCK_SIZE :: nat where
  "MAX_BLOCK_SIZE = 6 * 1024 * 1024"

definition MAX_OP_RETURN_SIZE :: nat where
  "MAX_OP_RETURN_SIZE = 300"

definition MIN_FEE_PER_BYTE :: int where
  "MIN_FEE_PER_BYTE = 1"

definition MIN_TX_FEE :: int where
  "MIN_TX_FEE = 1000"

definition DUST_THRESHOLD :: int where
  "DUST_THRESHOLD = 1000"

definition FEES_TO_MINER_HEIGHT :: u32 where
  "FEES_TO_MINER_HEIGHT = 55000"

definition NOISE_LEAF_COUNT :: u32 where
  "NOISE_LEAF_COUNT = 1048576"

definition NOISE_PROOFS_PER_INPUT :: u32 where
  "NOISE_PROOFS_PER_INPUT = 4"

definition MAINNET_MAGIC :: "byte list" where
  "MAINNET_MAGIC = [0xB6, 0xFD, 0xFA, 0x84]"

lemmas chain_constants = COIN_def MAX_MONEY_def INITIAL_SUBSIDY_def HALVING_INTERVAL_def
  LAST_SUBSIDY_HEIGHT_def BLOCK_TIME_TARGET_def POW_TARGET_TIMESPAN_def
  POW_MIN_TIMESPAN_PERCENT_def POW_MAX_TIMESPAN_PERCENT_def ASERT_ANCHOR_HEIGHT_def
  ASERT_HALF_LIFE_def COINBASE_MATURITY_def MAX_BLOCK_SIZE_def MAX_OP_RETURN_SIZE_def
  MIN_FEE_PER_BYTE_def MIN_TX_FEE_def DUST_THRESHOLD_def FEES_TO_MINER_HEIGHT_def
  NOISE_LEAF_COUNT_def NOISE_PROOFS_PER_INPUT_def

section \<open>Hex, magic and checkpoints\<close>

definition char_to_nibble :: "char \<Rightarrow> byte" where
  "char_to_nibble c =
     (let n = (of_char c :: nat)
      in if 48 \<le> n \<and> n \<le> 57 then of_nat (n - 48)
         else if 97 \<le> n \<and> n \<le> 102 then of_nat (n - 97 + 10)
         else if 65 \<le> n \<and> n \<le> 70 then of_nat (n - 65 + 10)
         else 0)"

definition HexToBytes32 :: "string \<Rightarrow> bytes32" where
  "HexToBytes32 hex =
     (if length hex \<noteq> 64 then zero32
      else map (\<lambda>i. push_bit 4 (char_to_nibble (hex ! (2 * i))) OR char_to_nibble (hex ! (2 * i + 1)))
             [0..<32])"

definition VerifyNetworkMagic :: "byte list option \<Rightarrow> bool" where
  "VerifyNetworkMagic magic =
     (case magic of None \<Rightarrow> False | Some m \<Rightarrow> take 4 m = MAINNET_MAGIC)"

definition MAINNET_CHECKPOINTS :: "(u64 \<times> string) list" where
  "MAINNET_CHECKPOINTS =
     [(0, ''00000000a03ce5faf3e74612dc86207af4b317a840cbeb0a2bb672475a04a9ea''),
      (1000, ''00000000e1ae20a687641859f30eb371c120d313c1b7461b6a98811d03293136''),
      (4500, ''0000000086a68638d2b5c4b8a85ccdd77625c9e4a1c5f02d5b8b6e2354ea02c9''),
      (10101, ''000000004cafc6ae22766e7c521692c4d3be10fe40773d7ee6780d40ba7f6428''),
      (24000, ''000000000e12a3ce7dbfa619de496777ac0cf9c26a360c0d50eafb41cee88d0c''),
      (43000, ''000000000255b50b1b459f4442a1c6555003194996d6dfc34b699e45b5dee08d'')]"

definition GetGenesisHash :: bytes32 where
  "GetGenesisHash = HexToBytes32 ''00000000a03ce5faf3e74612dc86207af4b317a840cbeb0a2bb672475a04a9ea''"

definition IsCheckpoint :: "u64 \<Rightarrow> bool" where
  "IsCheckpoint height = list_ex (\<lambda>(h, _). h = height) MAINNET_CHECKPOINTS"

fun checkpoint_scan :: "(u64 \<times> string) list \<Rightarrow> u64 \<Rightarrow> bytes32" where
  "checkpoint_scan [] height = zero32"
| "checkpoint_scan ((h, hx) # cs) height = (if h = height then HexToBytes32 hx else checkpoint_scan cs height)"

definition GetCheckpointHash :: "u64 \<Rightarrow> bytes32" where
  "GetCheckpointHash height = checkpoint_scan MAINNET_CHECKPOINTS height"

lemma HexToBytes32_length [simp]: "length (HexToBytes32 hex) = 32"
  by (simp add: HexToBytes32_def zero32_def)

lemma checkpoint_scan_length [simp]: "length (checkpoint_scan cs h) = 32"
  by (induction cs h rule: checkpoint_scan.induct) (simp_all add: zero32_def)

lemma GetCheckpointHash_length [simp]: "length (GetCheckpointHash h) = 32"
  by (simp add: GetCheckpointHash_def)

section \<open>Subsidy and money range\<close>

definition GetBlockSubsidy :: "u64 \<Rightarrow> u64" where
  "GetBlockSubsidy block_height =
     (let halvings = block_height div HALVING_INTERVAL
      in if 64 \<le> halvings then 0 else of_int (drop_bit (unat halvings) INITIAL_SUBSIDY))"

definition CheckMoneyRange :: "u64 \<Rightarrow> bool" where
  "CheckMoneyRange nMoneyTotal = (nMoneyTotal \<le> of_int MAX_MONEY)"

lemma GetBlockSubsidy_unat: "unat (GetBlockSubsidy h) = 7700000000 div 2 ^ (unat h div 194804)"
proof -
  define k where "k = unat h div 194804"
  have hk: "unat (h div HALVING_INTERVAL) = k"
    by (simp add: k_def HALVING_INTERVAL_def unat_div_distrib)
  have iff: "64 \<le> h div HALVING_INTERVAL \<longleftrightarrow> 64 \<le> k"
    unfolding word_le_nat_alt hk by simp
  show ?thesis
  proof (cases "64 \<le> k")
    case True
    have "(2 :: nat) ^ 33 \<le> 2 ^ k" using True by (intro power_increasing) auto
    then have "7700000000 div (2 :: nat) ^ k = 0" by (intro div_less) simp
    with True iff show ?thesis by (simp add: GetBlockSubsidy_def flip: k_def)
  next
    case False
    have "drop_bit k INITIAL_SUBSIDY = int (7700000000 div 2 ^ k)"
      by (simp add: INITIAL_SUBSIDY_def COIN_def drop_bit_eq_div zdiv_int)
    moreover have "7700000000 div 2 ^ k < (2 :: nat) ^ 64"
      by (rule le_less_trans [OF div_le_dividend]) simp
    ultimately show ?thesis
      using False iff by (simp add: GetBlockSubsidy_def hk unat_of_nat flip: k_def)
  qed
qed

lemma sum_eras:
  fixes f :: "nat \<Rightarrow> nat"
  shows "(\<Sum>h < m * i. f (h div i)) = i * (\<Sum>k < m. f k)"
proof -
  have "(\<Sum>h < m * i. f (h div i)) = (\<Sum>k < m. \<Sum>h = k * i..<k * i + i. f (h div i))"
    by (simp only: sum.nat_group)
  also have "\<dots> = (\<Sum>k < m. i * f k)"
  proof (rule sum.cong [OF refl])
    fix k
    have "h div i = k" if "h \<in> {k * i..<k * i + i}" for h
      using that by (intro div_nat_eqI) (auto simp: mult.commute)
    then have "(\<Sum>h = k * i..<k * i + i. f (h div i)) = (\<Sum>h = k * i..<k * i + i. f k)"
      by (intro sum.cong) auto
    then show "(\<Sum>h = k * i..<k * i + i. f (h div i)) = i * f k" by simp
  qed
  finally show ?thesis by (simp add: sum_distrib_left)
qed

text \<open>All coins created by the blocks below height \<open>n\<close>.\<close>

definition emission :: "nat \<Rightarrow> nat" where
  "emission n = (\<Sum>h < n. unat (GetBlockSubsidy (of_nat h)))"

lemma emission_eras:
  "n \<le> 2 ^ 64 \<Longrightarrow> emission n = (\<Sum>h < n. 7700000000 div 2 ^ (h div 194804))"
  unfolding emission_def by (intro sum.cong) (simp_all add: GetBlockSubsidy_unat unat_of_nat)

lemma subsidy_after_last: "33 * 194804 \<le> h \<Longrightarrow> 7700000000 div (2 :: nat) ^ (h div 194804) = 0"
proof -
  assume "33 * 194804 \<le> h"
  then have "33 \<le> h div 194804" by simp
  then have "(2 :: nat) ^ 33 \<le> 2 ^ (h div 194804)" by (intro power_increasing) auto
  then show ?thesis by (intro div_less) simp
qed

lemma emission_all:
  "33 * 194804 \<le> n \<Longrightarrow> (\<Sum>h < n. 7700000000 div (2 :: nat) ^ (h div 194804)) = 2999981597077940"
proof -
  assume n: "33 * 194804 \<le> n"
  have "(\<Sum>h < n. 7700000000 div (2 :: nat) ^ (h div 194804)) =
      (\<Sum>h < 33 * 194804. 7700000000 div 2 ^ (h div 194804))"
    using n subsidy_after_last by (intro sum.mono_neutral_right) auto
  also have "\<dots> = 194804 * (\<Sum>k < 33. 7700000000 div 2 ^ k)"
    by (rule sum_eras)
  also have "\<dots> = 2999981597077940"
    by (simp add: lessThan_nat_numeral lessThan_0)
  finally show ?thesis .
qed

lemma emission_bound: "n \<le> 2 ^ 64 \<Longrightarrow> emission n \<le> 2999981597077940"
proof -
  assume n: "n \<le> 2 ^ 64"
  have "emission n \<le> (\<Sum>h < n + 33 * 194804. 7700000000 div 2 ^ (h div 194804))"
    unfolding emission_eras [OF n] by (intro sum_mono2) auto
  then show ?thesis by (simp add: emission_all)
qed

text \<open>
  The subsidy schedule never creates more than \<open>MAX_MONEY\<close>: the subsidies of
  the blocks below any height sum to at most it, and once \<open>LAST_SUBSIDY_HEIGHT\<close> is
  reached the sum is final and no later block has a subsidy.
\<close>

theorem emission_capped:
  assumes "n \<le> 2 ^ 64"
  shows "int (emission n) \<le> MAX_MONEY
    \<and> (unat LAST_SUBSIDY_HEIGHT \<le> n \<longrightarrow> emission n = 2999981597077940)
    \<and> (GetBlockSubsidy h = 0 \<longleftrightarrow> LAST_SUBSIDY_HEIGHT \<le> h)"
proof -
  have L: "unat LAST_SUBSIDY_HEIGHT = 33 * 194804"
    by (simp add: LAST_SUBSIDY_HEIGHT_def HALVING_INTERVAL_def)
  have le: "emission n \<le> 2999981597077940" by (rule emission_bound [OF assms])
  have "GetBlockSubsidy h = 0 \<longleftrightarrow> unat (GetBlockSubsidy h) = 0" by (simp add: unat_eq_0)
  also have "\<dots> \<longleftrightarrow> 33 * 194804 \<le> unat h"
  proof
    show "33 * 194804 \<le> unat h" if "unat (GetBlockSubsidy h) = 0"
    proof (rule ccontr)
      assume "\<not> 33 * 194804 \<le> unat h"
      then have "unat h div 194804 \<le> 32" by simp
      then have "(2 :: nat) ^ (unat h div 194804) \<le> 2 ^ 32" by (intro power_increasing) auto
      then have "0 < 7700000000 div (2 :: nat) ^ (unat h div 194804)" by (simp add: div_greater_zero_iff)
      with that show False by (simp add: GetBlockSubsidy_unat)
    qed
  qed (simp add: GetBlockSubsidy_unat subsidy_after_last)
  finally have "GetBlockSubsidy h = 0 \<longleftrightarrow> LAST_SUBSIDY_HEIGHT \<le> h"
    by (simp add: word_le_nat_alt L)
  moreover have "int (emission n) \<le> MAX_MONEY" using le by (simp add: MAX_MONEY_def COIN_def)
  ultimately show ?thesis using emission_all [of n] by (simp add: L emission_eras [OF assms])
qed

theorem emission_capped_witness:
  "emission 6428532 = 2999981597077940 \<and> GetBlockSubsidy 6428531 \<noteq> 0 \<and> GetBlockSubsidy 6428532 = 0"
  using emission_capped [of 6428532 6428531] emission_capped [of 6428532 6428532]
  by (simp add: LAST_SUBSIDY_HEIGHT_def HALVING_INTERVAL_def)

end
