(* ===== verification/Pow.thy ===== *)
theory Pow
  imports Arith_Compact Chain_Params
begin

text \<open>
  Proof of work, \<open>src/src/consensus/pow.cpp\<close>: the hash check, the periodic
  retarget, the ASERT difficulty rule and chain work. Signed 64-bit quantities
  are integers: every intermediate value the C++ forms from in-range
  timestamps and heights fits, and the 64-bit polynomial of ASERT is kept at its
  machine width and shown not to wrap.
\<close>

section \<open>Definitions\<close>

definition uint_gt :: "base_uint \<Rightarrow> base_uint \<Rightarrow> bool" where
  "uint_gt a b \<longleftrightarrow> CompareTo a b > 0"

definition pow_limit :: base_uint where
  "pow_limit = fst (SetCompact POW_LIMIT_COMPACT)"

definition CheckProofOfWork :: "bytes32 \<Rightarrow> u32 \<Rightarrow> bool" where
  "CheckProofOfWork hash bits =
     (case SetCompact bits of (bnTarget, fNegative, fOverflow) \<Rightarrow>
        if fNegative \<or> EqualTo bnTarget 0 \<or> fOverflow \<or> uint_gt bnTarget pow_limit then False
        else if uint_gt (ArithFromBytes32 hash) bnTarget then False
        else True)"

text \<open>C++ integer division truncates towards zero.\<close>

definition trunc_div :: "int \<Rightarrow> int \<Rightarrow> int" where
  "trunc_div a b = sgn a * sgn b * (\<bar>a\<bar> div \<bar>b\<bar>)"

definition clamp_timespan :: "int \<Rightarrow> int" where
  "clamp_timespan actual =
     (let minTimespan = trunc_div (uint (POW_TARGET_TIMESPAN * ucast POW_MIN_TIMESPAN_PERCENT)) 100;
          maxTimespan = trunc_div (uint (POW_TARGET_TIMESPAN * ucast POW_MAX_TIMESPAN_PERCENT)) 100;
          a = (if actual < minTimespan then minTimespan else actual)
      in if a > maxTimespan then maxTimespan else a)"

definition CalculateNextWorkRequired :: "u32 \<Rightarrow> u64 \<Rightarrow> u64 \<Rightarrow> u32 result" where
  "CalculateNextWorkRequired lastBits lastBlockTime firstBlockTime =
     (let actualTimespan = clamp_timespan (sint lastBlockTime - sint firstBlockTime)
      in case SetCompact lastBits of (bnNew, negative, overflow) \<Rightarrow>
        if negative \<or> overflow \<or> EqualTo bnNew 0 then Inr POW_LIMIT_COMPACT
        else rbind (uint_div (uint_mul32 bnNew (of_int actualTimespan)) (of_uint64 POW_TARGET_TIMESPAN))
          (\<lambda>q. Inr (GetCompact (if uint_gt q pow_limit then pow_limit else q) False)))"

definition IsRetargetHeight :: "u64 \<Rightarrow> bool" where
  "IsRetargetHeight height =
     (if height = 0 then False else height mod ucast DIFFICULTY_ADJUSTMENT_INTERVAL = 0)"

definition kMaxOffset :: int where
  "kMaxOffset = push_bit 47 1 - 1"

definition asert_exponent :: "int \<Rightarrow> int \<Rightarrow> int \<Rightarrow> int \<Rightarrow> int" where
  "asert_exponent spacing timeDiff heightDiff halfLife =
     (let offset = timeDiff - spacing * (heightDiff + 1);
          offset = (if offset > kMaxOffset then kMaxOffset else offset);
          offset = (if offset < - kMaxOffset then - kMaxOffset else offset)
      in trunc_div (offset * 65536) halfLife)"

definition asert_factor :: "u16 \<Rightarrow> u32" where
  "asert_factor frac16 =
     (let frac = ucast frac16 :: u64
      in ucast (65536 + drop_bit 48 (195766423245049 * frac + 971821376 * frac * frac
                                       + 5127 * frac * frac * frac + push_bit 47 1)))"

definition asert_shift :: "base_uint \<Rightarrow> base_uint \<Rightarrow> int \<Rightarrow> base_uint" where
  "asert_shift nextTarget powLimit shifts =
     (if shifts \<le> 0
      then (if - shifts \<ge> 256 then uint_zero else uint_shr nextTarget (nat (- shifts)))
      else (if shifts \<ge> 256 then powLimit
            else (let shifted = uint_shl nextTarget (nat shifts)
                  in if uint_shr shifted (nat shifts) \<noteq> nextTarget then powLimit else shifted)))"

definition CalculateASERT ::
  "base_uint \<Rightarrow> int \<Rightarrow> int \<Rightarrow> int \<Rightarrow> base_uint \<Rightarrow> int \<Rightarrow> base_uint" where
  "CalculateASERT refTarget spacing timeDiff heightDiff powLimit halfLife =
     (if EqualTo refTarget 0 \<or> uint_gt refTarget powLimit \<or> heightDiff < 0 \<or> halfLife \<le> 0
         \<or> \<not> EqualTo (uint_shr powLimit 224) 0
      then powLimit
      else
        let exponent = asert_exponent spacing timeDiff heightDiff halfLife;
            frac = of_int exponent :: u16;
            shifts = drop_bit 16 exponent - 16;
            nextTarget = uint_mul32 refTarget (asert_factor frac);
            nextTarget = asert_shift nextTarget powLimit shifts
        in if EqualTo nextTarget 0 then of_uint64 1
           else if uint_gt nextTarget powLimit then powLimit
           else nextTarget)"

definition IsAsertHeight :: "u64 \<Rightarrow> bool" where
  "IsAsertHeight height \<longleftrightarrow> height > ucast ASERT_ANCHOR_HEIGHT"

definition CalculateASERTBits :: "u32 \<Rightarrow> u64 \<Rightarrow> u64 \<Rightarrow> u64 \<Rightarrow> u32" where
  "CalculateASERTBits anchorBits anchorParentTime parentTime parentHeight =
     (case SetCompact anchorBits of (refTarget, negative, overflow) \<Rightarrow>
        if negative \<or> overflow \<or> EqualTo refTarget 0 \<or> uint_gt refTarget pow_limit
        then POW_LIMIT_COMPACT
        else
          let timeDiff = sint parentTime - sint anchorParentTime;
              heightDiff = sint parentHeight - uint ASERT_ANCHOR_HEIGHT
          in GetCompact (CalculateASERT refTarget (uint BLOCK_TIME_TARGET) timeDiff heightDiff
                           pow_limit ASERT_HALF_LIFE) False)"

definition GetBlockProof :: "u32 \<Rightarrow> bytes32 result" where
  "GetBlockProof bits =
     (case SetCompact bits of (bnTarget, fNegative, fOverflow) \<Rightarrow>
        if fNegative \<or> fOverflow \<or> EqualTo bnTarget 0 then Inr zero32
        else rbind (uint_div (uint_not bnTarget) (uint_add bnTarget (of_uint64 1)))
          (\<lambda>q. Inr (ArithToBytes32 (uint_add q (of_uint64 1)))))"

definition AddChainWork :: "bytes32 \<Rightarrow> u32 \<Rightarrow> bytes32 result" where
  "AddChainWork parentWork bits =
     rbind (GetBlockProof bits)
       (\<lambda>p. Inr (ArithToBytes32 (uint_add (ArithFromBytes32 parentWork) (ArithFromBytes32 p))))"

definition CompareWork :: "bytes32 \<Rightarrow> bytes32 \<Rightarrow> int" where
  "CompareWork a b = (if memcmp_lt a b then - 1 else if memcmp_lt b a then 1 else 0)"

definition CompactToTarget :: "u32 \<Rightarrow> bytes32" where
  "CompactToTarget bits =
     (case SetCompact bits of (bnTarget, fNegative, fOverflow) \<Rightarrow>
        if fNegative \<or> fOverflow \<or> EqualTo bnTarget 0 then zero32 else ArithToBytes32 bnTarget)"

section \<open>Targets\<close>

text \<open>
  The number a compact word denotes when the code accepts it: neither negative
  nor overflowing, and not zero.
\<close>

definition valid_bits :: "u32 \<Rightarrow> bool" where
  "valid_bits bits \<longleftrightarrow> snd (SetCompact bits) = (False, False) \<and> uval (fst (SetCompact bits)) \<noteq> 0"

definition target_of :: "u32 \<Rightarrow> nat" where
  "target_of bits = uval (fst (SetCompact bits))"

definition pow_limit_val :: nat where
  "pow_limit_val = 0xffff * 2 ^ 208"

lemma uint_gt_iff: "is_uint a \<Longrightarrow> is_uint b \<Longrightarrow> uint_gt a b \<longleftrightarrow> uval b < uval a"
  by (simp add: uint_gt_def CompareTo_gt)

lemma EqualTo_iff: "is_uint a \<Longrightarrow> EqualTo a b \<longleftrightarrow> uval a = unat b"
proof -
  assume a: "is_uint a"
  then obtain a0 a1 a2 a3 a4 a5 a6 a7 where l: "a = [a0, a1, a2, a3, a4, a5, a6, a7]"
    using list8_cases by (metis WIDTH_def)
  have "EqualTo a b \<longleftrightarrow> a = of_uint64 b"
    by (auto simp: EqualTo_def l of_uint64_def WIDTH_def upt_rec [of _ 8] numeral_eq_Suc)
  also have "\<dots> \<longleftrightarrow> uval a = uval (of_uint64 b)" using a uval_inj [of a "of_uint64 b"] by auto
  finally show ?thesis by (simp add: of_uint64_uval)
qed

lemma pow_limit_length [simp]: "length pow_limit = WIDTH"
  by (simp add: pow_limit_def)

lemma POW_LIMIT_fields: "cSize POW_LIMIT_COMPACT = 29" "cWord POW_LIMIT_COMPACT = 0xffff"
  by (simp_all add: cSize_def cWord_def POW_LIMIT_COMPACT_def)

lemma pow_limit_uval: "uval pow_limit = pow_limit_val"
  by (simp add: pow_limit_def SetCompact_large POW_LIMIT_fields pow_limit_val_def)

lemma target_of_lt: "valid_bits bits \<Longrightarrow> target_of bits < 2 ^ 256 - 1"
proof (cases "cSize bits \<le> 3")
  case True
  have "cWord bits div 256 ^ (3 - cSize bits) \<le> cWord bits" by simp
  also have "\<dots> < 2 ^ 23" by (rule cWord_lt)
  finally have "target_of bits < 2 ^ 23" using SetCompact_small [OF True] by (simp add: target_of_def)
  then show ?thesis by simp
next
  case False
  assume v: "valid_bits bits"
  let ?w = "cWord bits" and ?s = "cSize bits"
  have t: "target_of bits = ?w * 256 ^ (?s - 3)" and o: "\<not> snd (snd (SetCompact bits))"
    using v False SetCompact_exact [of bits] by (auto simp: valid_bits_def target_of_def)
  have w: "?w < 2 ^ 23" "?w \<noteq> 0" using v False cWord_lt t by (auto simp: valid_bits_def target_of_def)
  consider "?s \<le> 32" | "?s = 33" "?w \<le> 65535" | "?s = 34" "?w \<le> 255"
    using o w False unfolding SetCompact_overflow by force
  then show ?thesis
  proof cases
    case 1
    have "?w * 256 ^ (?s - 3) < 2 ^ 23 * 256 ^ 29"
      using w 1 by (intro mult_less_le_imp_less power_increasing) auto
    then show ?thesis unfolding t by simp
  qed (auto simp: t)
qed

lemma SetCompact_cases:
  obtains t neg ovf where "SetCompact bits = (t, neg, ovf)" "is_uint t" "uval t = target_of bits"
    "\<not> neg \<and> \<not> ovf \<and> target_of bits \<noteq> 0 \<longleftrightarrow> valid_bits bits"
  using SetCompact_length [of bits]
  by (cases "SetCompact bits") (auto simp: valid_bits_def target_of_def)

lemma valid_pow_limit: "valid_bits POW_LIMIT_COMPACT"
  by (simp add: valid_bits_def SetCompact_def POW_LIMIT_COMPACT_def uint_shl_uval of_uint64_uval)

lemma target_of_pow_limit: "target_of POW_LIMIT_COMPACT = pow_limit_val"
  using pow_limit_uval by (simp add: target_of_def pow_limit_def)

lemma CheckProofOfWork_spec:
  assumes "is_bytes32 hash"
  shows "CheckProofOfWork hash bits \<longleftrightarrow>
    valid_bits bits \<and> target_of bits \<le> pow_limit_val \<and> be_val hash \<le> target_of bits"
proof -
  obtain t neg ovf where t: "SetCompact bits = (t, neg, ovf)" "is_uint t" "uval t = target_of bits"
    "\<not> neg \<and> \<not> ovf \<and> target_of bits \<noteq> 0 \<longleftrightarrow> valid_bits bits"
    by (rule SetCompact_cases)
  then show ?thesis
    using assms
    by (auto simp: CheckProofOfWork_def uint_gt_iff EqualTo_iff pow_limit_uval ArithFromBytes32_uval)
qed

text \<open>
  C28. The proof-of-work check accepts a header hash exactly when its compact
  target is a positive, non-overflowing number not above the network limit and
  the hash, read as a big-endian number, does not exceed it.
\<close>

theorem CheckProofOfWork_iff:
  assumes "is_bytes32 hash"
  shows "CheckProofOfWork hash bits \<longleftrightarrow>
    valid_bits bits \<and> target_of bits \<le> pow_limit_val \<and> be_val hash \<le> target_of bits"
  using assms by (rule CheckProofOfWork_spec)

theorem CheckProofOfWork_iff_witness:
  "CheckProofOfWork GetGenesisHash POW_LIMIT_COMPACT"
proof -
  have "be_val GetGenesisHash \<le> target_of POW_LIMIT_COMPACT"
    by (simp add: GetGenesisHash_def HexToBytes32_def char_to_nibble_def be_val_def upt_rec [of _ 32]
        target_of_def SetCompact_large POW_LIMIT_fields)
  then show ?thesis
    using CheckProofOfWork_iff [of GetGenesisHash POW_LIMIT_COMPACT] valid_pow_limit
    by (simp add: GetGenesisHash_def target_of_pow_limit)
qed

section \<open>Chain work\<close>

lemma zero32_length [simp]: "length zero32 = 32"
  by (simp add: zero32_def)

lemma be_val_zero32 [simp]: "be_val zero32 = 0"
proof -
  have "be_val (replicate n 0) = 0" for n by (induction n) (simp_all add: be_val_Cons)
  then show ?thesis by (simp add: zero32_def)
qed

lemma GetBlockProof_spec:
  "\<exists>p. GetBlockProof bits = Inr p \<and> is_bytes32 p \<and>
     be_val p = (if valid_bits bits then 2 ^ 256 div (target_of bits + 1) else 0)"
proof -
  obtain t neg ovf where t: "SetCompact bits = (t, neg, ovf)" "is_uint t" "uval t = target_of bits"
    "\<not> neg \<and> \<not> ovf \<and> target_of bits \<noteq> 0 \<longleftrightarrow> valid_bits bits"
    by (rule SetCompact_cases)
  show ?thesis
  proof (cases "valid_bits bits")
    case True
    have "0 < uval t" "uval t < 2 ^ 256 - 1" using t True target_of_lt [OF True] by auto
    from limbs.target_work [OF t(2) this] obtain q where
      "uint_div (uint_not t) (uint_add t (of_uint64 1)) = Inr q" "is_uint (uint_add q (of_uint64 1))"
      "uval (uint_add q (of_uint64 1)) = 2 ^ 256 div (uval t + 1)" by blast
    with t True show ?thesis
      by (auto simp: GetBlockProof_def EqualTo_iff be_val_ArithToBytes32)
  next
    case False
    with t show ?thesis by (auto simp: GetBlockProof_def EqualTo_iff)
  qed
qed

text \<open>
  C26. \<open>GetBlockProof\<close> never divides by zero and yields exactly the expected number
  of hashes for the target, \<open>2 ^ 256 / (target + 1)\<close>; \<open>AddChainWork\<close> adds it to the
  parent work, so with a valid target and no 256-bit wrap the work strictly grows,
  and \<open>CompareWork\<close> (a byte-wise \<open>memcmp\<close>) then orders the two chains numerically.
\<close>

theorem AddChainWork_grows:
  assumes "is_bytes32 parent" and "valid_bits bits"
    and "be_val parent + 2 ^ 256 div (target_of bits + 1) < 2 ^ 256"
  shows "\<exists>w. AddChainWork parent bits = Inr w \<and> is_bytes32 w \<and>
    be_val w = be_val parent + 2 ^ 256 div (target_of bits + 1) \<and>
    CompareWork w parent > 0 \<and> CompareWork parent w < 0"
proof -
  from GetBlockProof_spec [of bits] assms(2) obtain p where
    p: "GetBlockProof bits = Inr p" "is_bytes32 p" "be_val p = 2 ^ 256 div (target_of bits + 1)"
    by auto
  let ?w = "ArithToBytes32 (uint_add (ArithFromBytes32 parent) (ArithFromBytes32 p))"
  have w: "AddChainWork parent bits = Inr ?w" by (simp add: AddChainWork_def p)
  have v: "be_val ?w = be_val parent + 2 ^ 256 div (target_of bits + 1)"
    using assms p by (simp add: be_val_ArithToBytes32 uint_add_uval ArithFromBytes32_uval)
  have "0 < 2 ^ 256 div (target_of bits + 1)"
    using target_of_lt [OF assms(2)] by (simp add: div_greater_zero_iff)
  then have "be_val parent < be_val ?w" unfolding v by simp
  with assms(1) have "memcmp_lt parent ?w" "\<not> memcmp_lt ?w parent"
    by (simp_all add: memcmp_lt_be_val)
  then show ?thesis using w v by (auto simp: CompareWork_def)
qed

theorem AddChainWork_grows_witness:
  "\<exists>w. AddChainWork zero32 POW_LIMIT_COMPACT = Inr w \<and> be_val w = 2 ^ 256 div (0xffff * 2 ^ 208 + 1)
     \<and> CompareWork w zero32 > 0"
proof -
  have t: "target_of POW_LIMIT_COMPACT = 0xffff * 2 ^ 208"
    using pow_limit_uval by (simp add: target_of_def pow_limit_def pow_limit_val_def)
  show ?thesis
    using AddChainWork_grows [of zero32 POW_LIMIT_COMPACT] valid_pow_limit unfolding t by auto
qed

section \<open>Retargeting\<close>

lemma trunc_div_pos: "0 \<le> a \<Longrightarrow> 0 < b \<Longrightarrow> trunc_div a b = a div b"
  by (cases "a = 0") (simp_all add: trunc_div_def)

lemma clamp_timespan_eq: "clamp_timespan a = min 4838400 (max 967680 a)"
proof -
  have "uint (POW_TARGET_TIMESPAN * ucast POW_MIN_TIMESPAN_PERCENT) = 96768000"
    "uint (POW_TARGET_TIMESPAN * ucast POW_MAX_TIMESPAN_PERCENT) = 483840000"
    by (simp_all add: chain_constants)
  then show ?thesis unfolding clamp_timespan_def by (simp add: trunc_div_pos Let_def)
qed

lemma clamp_timespan_range: "967680 \<le> clamp_timespan a" "clamp_timespan a \<le> 4838400"
  by (simp_all add: clamp_timespan_eq)

lemma clamp_timespan_unat: "unat (of_int (clamp_timespan a) :: u32) = nat (clamp_timespan a)"
proof -
  have "uint (of_int (clamp_timespan a) :: u32) = clamp_timespan a"
    using clamp_timespan_range [of a] by (simp add: uint_word_of_int)
  then show ?thesis by (metis unat_eq_nat_uint)
qed

lemma target_GetCompact:
  assumes "is_uint a"
  shows "target_of (GetCompact a False) \<le> uval a"
    "(uval a - target_of (GetCompact a False)) * 2 ^ 15 \<le> uval a"
    "uval a \<noteq> 0 \<Longrightarrow> valid_bits (GetCompact a False)"
  using GetCompact_loss [OF assms refl] SetCompact_GetCompact_value [OF assms refl]
  by (simp_all add: target_of_def valid_bits_def)

text \<open>The target the retarget rule aims at, before it is rounded to compact form.\<close>

definition retarget_val :: "nat \<Rightarrow> int \<Rightarrow> nat" where
  "retarget_val t actual = min pow_limit_val (t * nat (clamp_timespan actual) div 1209600)"

lemma CalculateNextWorkRequired_value:
  assumes "valid_bits lastBits" and "target_of lastBits \<le> pow_limit_val"
  shows "\<exists>q. CalculateNextWorkRequired lastBits lt ft = Inr (GetCompact q False) \<and> is_uint q \<and>
    uval q = retarget_val (target_of lastBits) (sint lt - sint ft)"
proof -
  obtain t neg ovf where t: "SetCompact lastBits = (t, neg, ovf)" "is_uint t"
    "uval t = target_of lastBits"
    "\<not> neg \<and> \<not> ovf \<and> target_of lastBits \<noteq> 0 \<longleftrightarrow> valid_bits lastBits"
    by (rule SetCompact_cases)
  let ?ts = "clamp_timespan (sint lt - sint ft)"
  let ?n = "of_int ?ts :: u32"
  have n: "unat ?n = nat ?ts" by (rule clamp_timespan_unat)
  have "uval t * unat ?n \<le> pow_limit_val * 4838400"
    using assms(2) t(3) clamp_timespan_range [of "sint lt - sint ft"]
    by (intro mult_le_mono) (auto simp: n)
  also have "\<dots> < 2 ^ 256" by (simp add: pow_limit_val_def)
  finally have "uval t * unat ?n < 2 ^ 256" .
  moreover have "POW_TARGET_TIMESPAN \<noteq> 0" by (simp add: POW_TARGET_TIMESPAN_def)
  ultimately obtain q where q: "uint_div (uint_mul32 t ?n) (of_uint64 POW_TARGET_TIMESPAN) = Inr q"
    "is_uint q" "uval q = uval t * nat ?ts div 1209600"
    using limbs.scale_exact [OF t(2), of ?n POW_TARGET_TIMESPAN]
    by (auto simp: n POW_TARGET_TIMESPAN_def)
  let ?r = "if uint_gt q pow_limit then pow_limit else q"
  have "is_uint ?r" "uval ?r = retarget_val (target_of lastBits) (sint lt - sint ft)"
    using q t(3) by (auto simp: retarget_val_def uint_gt_iff pow_limit_uval)
  moreover have "CalculateNextWorkRequired lastBits lt ft = Inr (GetCompact ?r False)"
    using t assms(1) q(1) by (auto simp: CalculateNextWorkRequired_def Let_def EqualTo_iff)
  ultimately show ?thesis by blast
qed

lemma retarget_val_bounds:
  assumes "t \<le> pow_limit_val"
  shows "retarget_val t a \<le> pow_limit_val" "retarget_val t a \<le> 4 * t" "4 * t div 5 \<le> retarget_val t a"
proof -
  let ?n = "nat (clamp_timespan a)"
  have n: "967680 \<le> ?n" "?n \<le> 4838400" using clamp_timespan_range [of a] by auto
  have "t * ?n div 1209600 \<le> t * 4838400 div 1209600" using n by (intro div_le_mono) auto
  also have "\<dots> = 4 * t" by simp
  finally show "retarget_val t a \<le> 4 * t" by (simp add: retarget_val_def)
  have "4 * t div 5 = t * 967680 div 1209600"
    using div_mult_mult1 [of 241920 "4 * t" 5] by (simp add: mult.commute)
  also have "\<dots> \<le> t * ?n div 1209600" using n by (intro div_le_mono) auto
  finally have "4 * t div 5 \<le> t * ?n div 1209600" .
  moreover have "4 * t div 5 \<le> pow_limit_val" using assms by simp
  ultimately show "4 * t div 5 \<le> retarget_val t a" by (simp add: retarget_val_def)
qed (simp add: retarget_val_def)

text \<open>
  The periodic retarget always produces a result (no division by zero), computes
  \<open>target * timespan / 1209600\<close> without 256-bit wrap-around for the timespan clamped
  to 80% .. 400% of two weeks, and so the new target is within the network limit,
  at most four times and at least four fifths of the old one up to the compact
  rounding, which only lowers it and by at most one part in \<open>2 ^ 15\<close>.
\<close>

theorem CalculateNextWorkRequired_bounds:
  fixes lt ft :: u64
  assumes "valid_bits lastBits" and "target_of lastBits \<le> pow_limit_val"
  defines "T \<equiv> retarget_val (target_of lastBits) (sint lt - sint ft)"
  shows "\<exists>c. CalculateNextWorkRequired lastBits lt ft = Inr c \<and>
    target_of c \<le> T \<and> (T - target_of c) * 2 ^ 15 \<le> T \<and> (T \<noteq> 0 \<longrightarrow> valid_bits c) \<and>
    T \<le> pow_limit_val \<and> T \<le> 4 * target_of lastBits \<and> 4 * target_of lastBits div 5 \<le> T"
proof -
  from CalculateNextWorkRequired_value [OF assms(1,2), of lt ft] obtain q where
    q: "CalculateNextWorkRequired lastBits lt ft = Inr (GetCompact q False)" "is_uint q" "uval q = T"
    by (auto simp: T_def)
  with target_GetCompact [OF q(2)] retarget_val_bounds [OF assms(2)] show ?thesis
    by (auto simp: T_def)
qed

theorem CalculateNextWorkRequired_bounds_witness:
  "\<exists>c. CalculateNextWorkRequired POW_LIMIT_COMPACT 2000000000 1999999000 = Inr c
     \<and> target_of c \<le> 4 * pow_limit_val \<and> 4 * pow_limit_val div 5 \<le> 2 * target_of c"
proof -
  have "retarget_val pow_limit_val 1000 = 4 * pow_limit_val div 5"
    by (simp add: retarget_val_def clamp_timespan_eq pow_limit_val_def)
  then show ?thesis
    using CalculateNextWorkRequired_bounds [OF valid_pow_limit, of 2000000000 1999999000]
    by (auto simp: target_of_pow_limit pow_limit_val_def)
qed

section \<open>ASERT\<close>

definition asert_poly :: "nat \<Rightarrow> nat" where
  "asert_poly f = 195766423245049 * f + 971821376 * f * f + 5127 * f * f * f + 2 ^ 47"

lemma asert_poly_mono: "f \<le> g \<Longrightarrow> asert_poly f \<le> asert_poly g"
  unfolding asert_poly_def by (intro add_mono mult_le_mono) auto

lemma asert_poly_lt: "f < 65536 \<Longrightarrow> asert_poly f < 2 ^ 64"
  using asert_poly_mono [of f 65535] by (simp add: asert_poly_def)

text \<open>The polynomial is evaluated in 64 bits without wrapping.\<close>

lemma asert_factor_unat:
  "unat (asert_factor w) = 65536 + asert_poly (unat w) div 2 ^ 48"
proof -
  have f: "unat w < 65536" using unsigned_less [of w] by simp
  have "asert_poly (unat w) div 2 ^ 48 < 2 ^ 16"
    using asert_poly_lt [OF f] by (intro less_mult_imp_div_less) simp
  have c: "(ucast w :: u64) = of_nat (unat w)" by (simp add: of_nat_unat)
  have "195766423245049 * ucast w + 971821376 * ucast w * ucast w + 5127 * ucast w * ucast w * ucast w
      + push_bit 47 1 = (of_nat (asert_poly (unat w)) :: u64)"
    unfolding c asert_poly_def by simp
  moreover have "unat (of_nat (asert_poly (unat w)) :: u64) = asert_poly (unat w)"
    using asert_poly_lt [OF f] by (simp add: unat_of_nat)
  ultimately have d: "unat (drop_bit 48 (195766423245049 * ucast w + 971821376 * ucast w * ucast w
      + 5127 * ucast w * ucast w * ucast w + push_bit 47 1) :: u64) = asert_poly (unat w) div 2 ^ 48"
    by (simp only: unat_drop_bit)
  have "unat (65536 + drop_bit 48 (195766423245049 * ucast w + 971821376 * ucast w * ucast w
      + 5127 * ucast w * ucast w * ucast w + push_bit 47 1) :: u64) =
      65536 + asert_poly (unat w) div 2 ^ 48"
    unfolding unat_word_ariths d using \<open>_ < 2 ^ 16\<close> by simp
  with \<open>_ < 2 ^ 16\<close> show ?thesis
    unfolding asert_factor_def Let_def unat_ucast_mod by simp
qed

lemma asert_factor_range: "65536 \<le> unat (asert_factor w)" "unat (asert_factor w) < 131072"
proof -
  have f: "unat w < 65536" using unsigned_less [of w] by simp
  have "asert_poly (unat w) div 2 ^ 48 < 2 ^ 16"
    using asert_poly_lt [OF f] by (intro less_mult_imp_div_less) simp
  then show "unat (asert_factor w) < 131072" by (simp add: asert_factor_unat)
qed (simp add: asert_factor_unat)

lemma asert_factor_mono: "unat v \<le> unat w \<Longrightarrow> unat (asert_factor v) \<le> unat (asert_factor w)"
  by (simp add: asert_factor_unat div_le_mono asert_poly_mono)

lemma asert_factor_0: "unat (asert_factor 0) = 65536"
  by (simp add: asert_factor_unat asert_poly_def)

text \<open>\<open>N * 2 ^ k\<close> rounded down, for a shift of either sign.\<close>

definition scale2 :: "nat \<Rightarrow> int \<Rightarrow> nat" where
  "scale2 N k = (if k \<le> 0 then N div 2 ^ nat (- k) else N * 2 ^ nat k)"

lemma scale2_mono:
  assumes "k \<le> l" and "M \<le> N * 2 ^ nat (l - k)"
  shows "scale2 M k \<le> scale2 N l"
proof (cases "k \<le> 0")
  case True
  show ?thesis
  proof (cases "l \<le> 0")
    case l: True
    have "nat (- k) = nat (l - k) + nat (- l)" using assms(1) l by simp
    then have "N * 2 ^ nat (l - k) div 2 ^ nat (- k) = N div 2 ^ nat (- l)"
      using div_mult_mult1 [of "2 ^ nat (l - k)" N "2 ^ nat (- l)"] by (simp add: power_add mult.commute)
    then show ?thesis using True l div_le_mono [OF assms(2), of "2 ^ nat (- k)"] by (simp add: scale2_def)
  next
    case l: False
    have "nat (l - k) = nat l + nat (- k)" using True l by simp
    then have "N * 2 ^ nat (l - k) div 2 ^ nat (- k) = N * 2 ^ nat l"
      by (simp add: power_add)
    then show ?thesis using True l div_le_mono [OF assms(2), of "2 ^ nat (- k)"] by (simp add: scale2_def)
  qed
next
  case False
  have "nat l = nat (l - k) + nat k" using assms(1) False by simp
  then have e: "N * 2 ^ nat l = N * 2 ^ nat (l - k) * 2 ^ nat k" by (simp add: power_add)
  have "M * 2 ^ nat k \<le> N * 2 ^ nat l" unfolding e using assms(2) by simp
  then show ?thesis using False assms(1) by (simp add: scale2_def)
qed

definition asert_scaled :: "nat \<Rightarrow> int \<Rightarrow> nat" where
  "asert_scaled t e = scale2 (t * unat (asert_factor (of_int e))) (e div 65536 - 16)"

lemma unat_frac: "unat (of_int e :: u16) = nat (e mod 65536)"
proof -
  have "uint (of_int e :: u16) = e mod 65536" by (simp add: uint_word_of_int)
  then show ?thesis by (metis unat_eq_nat_uint)
qed

lemma asert_scaled_mono:
  assumes "e \<le> e'"
  shows "asert_scaled t e \<le> asert_scaled t e'"
proof (cases "e div 65536 = e' div 65536")
  case True
  have "e mod 65536 \<le> e' mod 65536"
    using assms True by (metis div_mult_mod_eq add_le_cancel_left)
  then have "unat (asert_factor (of_int e)) \<le> unat (asert_factor (of_int e'))"
    by (intro asert_factor_mono) (simp add: unat_frac nat_mono)
  with True show ?thesis unfolding asert_scaled_def by (intro scale2_mono) simp_all
next
  case False
  then have lt: "e div 65536 < e' div 65536" using zdiv_mono1 [OF assms, of 65536] by simp
  have "unat (asert_factor (of_int e)) \<le> 65536 * 2" using asert_factor_range(2) [of "of_int e"] by simp
  also have "\<dots> \<le> unat (asert_factor (of_int e')) * 2 ^ nat (e' div 65536 - e div 65536)"
  proof (rule mult_le_mono [OF asert_factor_range(1)])
    have "(2 :: nat) ^ 1 \<le> 2 ^ nat (e' div 65536 - e div 65536)"
      using lt by (intro power_increasing) auto
    then show "(2 :: nat) \<le> 2 ^ nat (e' div 65536 - e div 65536)" by simp
  qed
  finally have "t * unat (asert_factor (of_int e)) \<le>
      t * unat (asert_factor (of_int e')) * 2 ^ nat (e' div 65536 - e div 65536)"
    by (simp add: mult.assoc)
  then show ?thesis unfolding asert_scaled_def using lt by (intro scale2_mono) simp_all
qed

lemma asert_shift_value:
  assumes N: "is_uint N" "0 < uval N" and P: "is_uint P" "uval P < 2 ^ 224"
  shows "is_uint (asert_shift N P k) \<and>
    min (uval P) (uval (asert_shift N P k)) = min (uval P) (scale2 (uval N) k)"
proof -
  consider (zero) "k \<le> - 256" | (right) "- 256 < k" "k \<le> 0" | (left) "0 < k" "k < 256" | (top) "256 \<le> k"
    by linarith
  then show ?thesis
  proof cases
    case zero
    have "(2 :: nat) ^ 256 \<le> 2 ^ nat (- k)" using zero by (intro power_increasing) auto
    with uval_lt256 [OF N(1)] have "uval N < 2 ^ nat (- k)" by linarith
    with zero show ?thesis by (simp add: asert_shift_def scale2_def)
  next
    case right
    with N(1) show ?thesis by (simp add: asert_shift_def scale2_def uint_shr_uval)
  next
    case left
    show ?thesis
    proof (cases "uval N * 2 ^ nat k < 2 ^ 256")
      case True
      with left limbs.shift_back_iff [OF N(1), of "nat k"] have "uint_shr (uint_shl N (nat k)) (nat k) = N"
        by simp
      with left True N(1) show ?thesis by (simp add: asert_shift_def scale2_def Let_def uint_shl_uval)
    next
      case False
      with left limbs.shift_back_iff [OF N(1), of "nat k"] have "uint_shr (uint_shl N (nat k)) (nat k) \<noteq> N"
        by simp
      moreover have "uval P \<le> uval N * 2 ^ nat k" using False P(2) by simp
      ultimately show ?thesis using left P(1) by (simp add: asert_shift_def scale2_def Let_def)
    qed
  next
    case top
    have "(2 :: nat) ^ 224 \<le> 2 ^ nat k" using top by (intro power_increasing) auto
    moreover have "2 ^ nat k \<le> uval N * 2 ^ nat k" using N(2) by simp
    ultimately have "uval P \<le> uval N * 2 ^ nat k" using P(2) by linarith
    with top P(1) show ?thesis by (simp add: asert_shift_def scale2_def)
  qed
qed

lemma CalculateASERT_value:
  assumes T: "is_uint T" "0 < uval T" "uval T \<le> uval P" and P: "is_uint P" "uval P < 2 ^ 224"
    and "0 \<le> heightDiff" and "0 < halfLife"
  shows "is_uint (CalculateASERT T spacing timeDiff heightDiff P halfLife) \<and>
    uval (CalculateASERT T spacing timeDiff heightDiff P halfLife) =
      max 1 (min (uval P) (asert_scaled (uval T) (asert_exponent spacing timeDiff heightDiff halfLife)))"
proof -
  define e where "e = asert_exponent spacing timeDiff heightDiff halfLife"
  define N where "N = uint_mul32 T (asert_factor (of_int e))"
  define s where "s = asert_shift N P (drop_bit 16 e - 16)"
  have k: "drop_bit 16 e - 16 = e div 65536 - 16" by (simp add: drop_bit_eq_div)
  have "uval T * unat (asert_factor (of_int e)) < 2 ^ 224 * 131072"
    using T P(2) asert_factor_range(2) [of "of_int e"] by (intro mult_strict_mono) auto
  then have N: "is_uint N" "uval N = uval T * unat (asert_factor (of_int e))"
    using T(1) by (simp_all add: N_def uint_mul32_uval)
  have "0 < uval N" using N(2) T(2) asert_factor_range(1) [of "of_int e"] by simp
  from asert_shift_value [OF N(1) this P, of "drop_bit 16 e - 16", folded s_def]
  have s: "is_uint s" "min (uval P) (uval s) = min (uval P) (asert_scaled (uval T) e)"
    by (auto simp: asert_scaled_def N(2) k)
  have "uval (uint_shr P 224) = 0" using P by (simp add: uint_shr_uval)
  then have "CalculateASERT T spacing timeDiff heightDiff P halfLife =
      (if EqualTo s 0 then of_uint64 1 else if uint_gt s P then P else s)"
    unfolding CalculateASERT_def Let_def e_def [symmetric] N_def [symmetric] s_def [symmetric]
    using assms(6,7) T P by (simp add: EqualTo_iff uint_gt_iff)
  then have "is_uint (CalculateASERT T spacing timeDiff heightDiff P halfLife) \<and>
      uval (CalculateASERT T spacing timeDiff heightDiff P halfLife) = max 1 (min (uval P) (uval s))"
    using s(1) P(1) T by (auto simp: EqualTo_iff uint_gt_iff of_uint64_uval)
  then show ?thesis using s(2) by (simp add: e_def)
qed

lemma trunc_div_mono: "a \<le> b \<Longrightarrow> 0 < d \<Longrightarrow> trunc_div a d \<le> trunc_div b d"
proof -
  assume ab: "a \<le> b" and d: "0 < d"
  consider "0 \<le> a" | "a < 0" "0 \<le> b" | "b < 0" using ab by linarith
  then show ?thesis
  proof cases
    case 1
    with ab d show ?thesis by (simp add: trunc_div_pos zdiv_mono1)
  next
    case 2
    have "trunc_div a d = - (- a div d)" using 2 d by (simp add: trunc_div_def)
    moreover have "0 \<le> - a div d" using 2 d by (simp add: pos_imp_zdiv_nonneg_iff)
    moreover have "0 \<le> trunc_div b d" using 2 d by (simp add: trunc_div_pos pos_imp_zdiv_nonneg_iff)
    ultimately show ?thesis by simp
  next
    case 3
    with ab d show ?thesis by (simp add: trunc_div_def zdiv_mono1)
  qed
qed

lemma asert_exponent_mono:
  "t \<le> t' \<Longrightarrow> 0 < halfLife \<Longrightarrow> asert_exponent sp t h halfLife \<le> asert_exponent sp t' h halfLife"
  unfolding asert_exponent_def Let_def kMaxOffset_def
  by (intro trunc_div_mono mult_right_mono) auto

lemma asert_exponent_on_schedule: "asert_exponent sp (sp * (h + 1)) h halfLife = 0"
  by (simp add: asert_exponent_def trunc_div_def kMaxOffset_def)

lemma asert_scaled_0: "asert_scaled t 0 = t"
  by (simp add: asert_scaled_def scale2_def asert_factor_0)



end
