(* ===== verification/Script.thy ===== *)
theory Script
  imports Moneu_Prelude
begin

text \<open>
  Output scripts, \<open>src/src/primitives/script.cpp\<close>: push encoding, the opcode
  reader, the two standard templates and the \<open>Solver\<close> that recognises them. Byte
  reads go through the bounds-checked buffer operations, so the lemmas include
  that no script, however malformed, makes the reader leave its buffer.
\<close>

section \<open>Definitions\<close>

type_synonym script = "byte list"

definition OP_0 :: byte where "OP_0 = 0x00"
definition OP_PUSHDATA1 :: byte where "OP_PUSHDATA1 = 0x4c"
definition OP_PUSHDATA2 :: byte where "OP_PUSHDATA2 = 0x4d"
definition OP_PUSHDATA4 :: byte where "OP_PUSHDATA4 = 0x4e"
definition OP_RETURN :: byte where "OP_RETURN = 0x6a"
definition OP_DUP :: byte where "OP_DUP = 0x76"
definition OP_EQUALVERIFY :: byte where "OP_EQUALVERIFY = 0x88"
definition OP_SHA256 :: byte where "OP_SHA256 = 0xa8"
definition OP_CHECKSIG :: byte where "OP_CHECKSIG = 0xac"

lemmas opcodes = OP_0_def OP_PUSHDATA1_def OP_PUSHDATA2_def OP_PUSHDATA4_def OP_RETURN_def OP_DUP_def
  OP_EQUALVERIFY_def OP_SHA256_def OP_CHECKSIG_def

definition MAX_SCRIPT_SIZE :: nat where
  "MAX_SCRIPT_SIZE = 10000"

datatype TxoutType = NONSTANDARD | PUBKEYHASH | NULL_DATA

text \<open>The bytes \<open>PushData\<close> appends to a script.\<close>

definition PushData :: "byte list \<Rightarrow> script" where
  "PushData bs =
     (let len = length bs; b = (\<lambda>k. of_nat (len div 2 ^ k mod 256) :: byte)
      in if len = 0 then [OP_0]
         else if len \<le> 75 then [of_nat len] @ bs
         else if len \<le> 0xff then [OP_PUSHDATA1, of_nat len] @ bs
         else if len \<le> 0xffff then [OP_PUSHDATA2, b 0, b 8] @ bs
         else [OP_PUSHDATA4, b 0, b 8, b 16, b 24] @ bs)"

text \<open>
  The payload branch shared by the four push forms: \<open>if (pc + len > size()) return
  false; vchRet.assign(\<dots>); pc += len\<close>.
\<close>

definition take_push :: "script \<Rightarrow> nat \<Rightarrow> nat \<Rightarrow> byte \<Rightarrow> (nat \<times> byte \<times> byte list) option result" where
  "take_push s pc len opcodeRet =
     (if pc + len > length s then Inr None
      else rbind (rd_bytes len s pc) (\<lambda>vch. Inr (Some (pc + len, opcodeRet, vch))))"

definition GetOp :: "script \<Rightarrow> nat \<Rightarrow> (nat \<times> byte \<times> byte list) option result" where
  "GetOp s pc0 =
     (if pc0 \<ge> length s then Inr None
      else rbind (rd8 s pc0) (\<lambda>opcode.
        let pc = pc0 + 1
        in if 0x01 \<le> opcode \<and> opcode \<le> 0x4b then take_push s pc (unat opcode) opcode
           else if opcode = OP_PUSHDATA1 then
             (if pc + 1 > length s then Inr None
              else rbind (rd8 s pc) (\<lambda>l. take_push s (pc + 1) (unat l) OP_PUSHDATA1))
           else if opcode = OP_PUSHDATA2 then
             (if pc + 2 > length s then Inr None
              else rbind (rd8 s pc) (\<lambda>l0. rbind (rd8 s (pc + 1)) (\<lambda>l1.
                take_push s (pc + 2) (unat (ucast l0 OR push_bit 8 (ucast l1) :: u64)) OP_PUSHDATA2)))
           else if opcode = OP_PUSHDATA4 then
             (if pc + 4 > length s then Inr None
              else rbind (rd8 s pc) (\<lambda>l0. rbind (rd8 s (pc + 1)) (\<lambda>l1.
                rbind (rd8 s (pc + 2)) (\<lambda>l2. rbind (rd8 s (pc + 3)) (\<lambda>l3.
                let len = unat (ucast l0 OR push_bit 8 (ucast l1) OR push_bit 16 (ucast l2)
                                  OR push_bit 24 (ucast l3) :: u64)
                in if len > MAX_SCRIPT_SIZE then Inr None
                   else take_push s (pc + 4) len OP_PUSHDATA4)))))
           else Inr (Some (pc, opcode, []))))"

definition IsUnspendable :: "script \<Rightarrow> bool" where
  "IsUnspendable s \<longleftrightarrow> (s \<noteq> [] \<and> hd s = OP_RETURN) \<or> length s > MAX_SCRIPT_SIZE"

definition IsPayToPubkeyHash :: "script \<Rightarrow> bytes32 option" where
  "IsPayToPubkeyHash s =
     (if length s \<noteq> 37 then None
      else if s ! 0 \<noteq> OP_DUP then None
      else if s ! 1 \<noteq> OP_SHA256 then None
      else if s ! 2 \<noteq> 0x20 then None
      else if s ! 35 \<noteq> OP_EQUALVERIFY then None
      else if s ! 36 \<noteq> OP_CHECKSIG then None
      else Some (take 32 (drop 3 s)))"

definition is_push_opcode :: "byte \<Rightarrow> bool" where
  "is_push_opcode opcode \<longleftrightarrow>
     opcode = OP_0 \<or> 0x01 \<le> opcode \<and> opcode \<le> 0x4b \<or> opcode = OP_PUSHDATA1 \<or>
     opcode = OP_PUSHDATA2 \<or> opcode = OP_PUSHDATA4"

lemma take_push_progress:
  "take_push s pc len oc = Inr (Some (pc', oc', vch)) \<Longrightarrow>
     pc \<le> pc' \<and> pc' \<le> length s \<and> oc' = oc \<and> length vch = len \<and> pc' = pc + len"
  by (auto simp: take_push_def rbind_eq_Inr_iff rd_bytes_eq_Inr_iff split: if_splits)

lemma GetOp_progress:
  assumes "GetOp s pc = Inr (Some (pc', oc, vch))"
  shows "pc < pc' \<and> pc' \<le> length s \<and> pc + length vch < pc'"
proof (cases "pc < length s")
  case True
  with assms show ?thesis
    by (auto simp: GetOp_def rbind_eq_Inr_iff rd8_def Let_def split: if_splits
        dest!: take_push_progress)
next
  case False
  with assms show ?thesis by (simp add: GetOp_def)
qed

text \<open>The payload loop of \<open>Solver\<close>; \<open>None\<close> is its \<open>return NONSTANDARD\<close>.\<close>

function payload_loop :: "script \<Rightarrow> nat \<Rightarrow> byte list \<Rightarrow> byte list option result" where
  "payload_loop s pc payload =
     (if pc < length s then
        (case GetOp s pc of
           Inl e \<Rightarrow> Inl e
         | Inr None \<Rightarrow> Inr None
         | Inr (Some (pc', opcode, chunk)) \<Rightarrow>
             if \<not> is_push_opcode opcode then Inr None else payload_loop s pc' (payload @ chunk))
      else Inr (Some payload))"
  by pat_completeness auto

termination payload_loop
  by (relation "measure (\<lambda>(s, pc, _). length s - pc)") (auto dest!: GetOp_progress)

declare payload_loop.simps [simp del]

definition Solver :: "script \<Rightarrow> (TxoutType \<times> byte list list) result" where
  "Solver s =
     (case IsPayToPubkeyHash s of
        Some hash \<Rightarrow> Inr (PUBKEYHASH, [hash])
      | None \<Rightarrow>
          if s \<noteq> [] \<and> hd s = OP_RETURN then
            rbind (payload_loop s 1 []) (\<lambda>r. case r of
              None \<Rightarrow> Inr (NONSTANDARD, [])
            | Some payload \<Rightarrow> Inr (NULL_DATA, [payload]))
          else Inr (NONSTANDARD, []))"

definition CreatePayToPubkeyHash :: "bytes32 \<Rightarrow> script" where
  "CreatePayToPubkeyHash pubkeyHash = [OP_DUP, OP_SHA256] @ PushData pubkeyHash @ [OP_EQUALVERIFY, OP_CHECKSIG]"

definition CreateNullData :: "byte list \<Rightarrow> script" where
  "CreateNullData bs = [OP_RETURN] @ PushData bs"

definition ExtractPubkeyHash :: "script \<Rightarrow> bytes32 option" where
  "ExtractPubkeyHash s = IsPayToPubkeyHash s"

section \<open>Memory safety\<close>

lemma take_push_safe [safe_intros]: "take_push s pc len oc \<noteq> Inl OutOfBounds"
  by (simp add: take_push_def rd_bytes_def)

lemma GetOp_no_error: "\<exists>r. GetOp s pc = Inr r"
proof -
  have t: "\<exists>r. take_push s pc len oc = Inr r" for pc len oc
    by (simp add: take_push_def rd_bytes_def)
  show ?thesis unfolding GetOp_def Let_def by (auto simp: rd8_def t)
qed

lemma payload_loop_total:
  "\<exists>r. payload_loop s pc payload = Inr r"
proof (induction s pc payload rule: payload_loop.induct)
  case (1 s pc payload)
  show ?case
  proof (cases "pc < length s")
    case True
    obtain r where r: "GetOp s pc = Inr r" using GetOp_no_error by blast
    show ?thesis
    proof (cases r)
      case None
      with True r show ?thesis by (subst payload_loop.simps) simp
    next
      case (Some p)
      obtain pc' oc ch where p: "p = (pc', oc, ch)" by (cases p)
      have "\<exists>r. payload_loop s pc' (payload @ ch) = Inr r" if "is_push_opcode oc"
        using 1 True r Some p that by blast
      then show ?thesis using True r Some p by (subst payload_loop.simps) auto
    qed
  next
    case False
    then show ?thesis by (subst payload_loop.simps) simp
  qed
qed

lemma GetOp_safe [safe_intros]: "GetOp s pc \<noteq> Inl OutOfBounds"
  using GetOp_no_error [of s pc] by auto

lemma Solver_total: "\<exists>t sol. Solver s = Inr (t, sol)"
proof -
  obtain r where "payload_loop s 1 [] = Inr r" using payload_loop_total by blast
  then show ?thesis by (cases r) (auto simp: Solver_def split: option.splits)
qed

lemma payload_loop_length:
  "payload_loop s pc payload = Inr (Some r) \<Longrightarrow> pc \<le> length s \<Longrightarrow> length r + pc \<le> length payload + length s"
proof (induction s pc payload rule: payload_loop.induct)
  case (1 s pc payload)
  show ?case
  proof (cases "pc < length s")
    case False
    with 1(2,3) show ?thesis by (subst (asm) payload_loop.simps) simp
  next
    case True
    from 1(2) True obtain pc' oc ch where
      g: "GetOp s pc = Inr (Some (pc', oc, ch))" "is_push_opcode oc"
        "payload_loop s pc' (payload @ ch) = Inr (Some r)"
      by (subst (asm) payload_loop.simps) (auto split: sum.splits option.splits if_splits)
    note pr = GetOp_progress [OF g(1)]
    have "length r + pc' \<le> length (payload @ ch) + length s"
      using 1(1) [OF True g(1) refl refl refl] g(2,3) pr by blast
    with pr show ?thesis by simp
  qed
qed

section \<open>Push encoding\<close>

lemma rd8_at: "rd8 (pre @ s) (length pre + i) = rd8 s i"
  by (simp add: rd8_def nth_append)

lemma rd8_at_0: "rd8 (pre @ s) (length pre) = rd8 s 0"
  using rd8_at [of pre s 0] by simp

lemma take_push_at:
  "i = length pre + length hdr \<Longrightarrow>
     take_push (pre @ hdr @ bs @ post) i (length bs) oc = Inr (Some (i + length bs, oc, bs))"
  by (simp add: take_push_def rd_bytes_def)

lemma GetOp_PushData:
  assumes "length bs \<le> MAX_SCRIPT_SIZE"
  shows "\<exists>oc. GetOp (pre @ PushData bs @ post) (length pre) =
      Inr (Some (length pre + length (PushData bs), oc, bs)) \<and> is_push_opcode oc"
proof -
  let ?n = "length bs"
  consider "?n = 0" | "0 < ?n" "?n \<le> 75" | "75 < ?n" "?n \<le> 255" | "255 < ?n" "?n \<le> 65535"
    using assms by (fastforce simp: MAX_SCRIPT_SIZE_def)
  then show ?thesis
  proof cases
    case 1
    then show ?thesis
      by (simp add: GetOp_def PushData_def rd8_at_0 rd8_def Let_def opcodes is_push_opcode_def)
  next
    case 2
    let ?o = "of_nat ?n :: byte"
    have o: "unat ?o = ?n" using 2 by (simp add: unat_of_nat)
    then have r: "1 \<le> ?o" "?o \<le> 0x4b" using 2 by (simp_all add: word_le_nat_alt Suc_le_eq)
    have "GetOp (pre @ [?o] @ bs @ post) (length pre) = Inr (Some (length pre + 1 + ?n, ?o, bs))"
      using r o take_push_at [of "length pre + 1" pre "[?o]" bs post ?o]
      by (simp add: GetOp_def rd8_at_0 rd8_def Let_def)
    then show ?thesis using 2 r by (simp add: PushData_def is_push_opcode_def)
  next
    case 3
    let ?l = "of_nat ?n :: byte"
    have l: "unat ?l = ?n" using 3 by (simp add: unat_of_nat)
    have "GetOp (pre @ [OP_PUSHDATA1, ?l] @ bs @ post) (length pre) =
        Inr (Some (length pre + 2 + ?n, OP_PUSHDATA1, bs))"
      using l take_push_at [of "length pre + 2" pre "[OP_PUSHDATA1, ?l]" bs post OP_PUSHDATA1]
        rd8_at [of pre "[OP_PUSHDATA1, ?l] @ bs @ post" 1]
      by (simp add: GetOp_def rd8_at_0 rd8_def Let_def opcodes)
    moreover have "PushData bs = [OP_PUSHDATA1, ?l] @ bs" using 3 by (auto simp: PushData_def Let_def)
    ultimately show ?thesis by (simp add: is_push_opcode_def)
  next
    case 4
    let ?l = "of_nat (?n mod 256) :: byte" and ?h = "of_nat (?n div 256 mod 256) :: byte"
    have m: "?n div 256 < 256" using 4 by simp
    have c: "unat (ucast (x :: byte) :: u64) = unat x" for x by (rule unat_ucast_up) simp
    have u: "unat ?l = ?n mod 256" "unat ?h = ?n div 256" using m by (simp_all add: unat_of_nat)
    have "unat (ucast ?l OR push_bit 8 (ucast ?h) :: u64) = ?n mod 256 + 2 ^ 8 * (?n div 256)"
      using m by (subst unat_or_shift) (simp_all only: c u, simp_all)
    then have lh: "unat (ucast ?l OR push_bit 8 (ucast ?h) :: u64) = ?n" by simp
    define t where "t = [OP_PUSHDATA2, ?l, ?h] @ bs @ post"
    have r: "rd8 (pre @ t) (length pre) = Inr OP_PUSHDATA2" "rd8 (pre @ t) (length pre + 1) = Inr ?l"
      "rd8 (pre @ t) (length pre + 1 + 1) = Inr ?h"
      using rd8_at [of pre t 0] rd8_at [of pre t 1] rd8_at [of pre t "1 + 1"]
      by (simp_all add: t_def rd8_def)
    have "take_push (pre @ t) (length pre + 1 + 2) ?n OP_PUSHDATA2 =
        Inr (Some (length pre + 1 + 2 + ?n, OP_PUSHDATA2, bs))"
      unfolding t_def by (rule take_push_at) simp
    moreover have "\<not> length (pre @ t) \<le> length pre" "\<not> length pre + 1 + 2 > length (pre @ t)"
      by (simp_all add: t_def)
    ultimately have "GetOp (pre @ t) (length pre) = Inr (Some (length pre + 1 + 2 + ?n, OP_PUSHDATA2, bs))"
      unfolding GetOp_def Let_def by (simp only: r rbind_Inr lh if_False) (simp add: opcodes)
    then have "GetOp (pre @ [OP_PUSHDATA2, ?l, ?h] @ bs @ post) (length pre) =
        Inr (Some (length pre + 3 + ?n, OP_PUSHDATA2, bs))"
      by (simp add: t_def)
    moreover have "PushData bs = [OP_PUSHDATA2, ?l, ?h] @ bs" using 4 by (auto simp: PushData_def Let_def)
    ultimately show ?thesis by (simp add: is_push_opcode_def)
  qed
qed

section \<open>Templates\<close>

lemma CreatePayToPubkeyHash_eq:
  "is_bytes32 h \<Longrightarrow> CreatePayToPubkeyHash h = [OP_DUP, OP_SHA256, 0x20] @ h @ [OP_EQUALVERIFY, OP_CHECKSIG]"
  by (simp add: CreatePayToPubkeyHash_def PushData_def)

lemma IsPayToPubkeyHash_iff:
  "IsPayToPubkeyHash s = Some h \<longleftrightarrow> is_bytes32 h \<and> s = CreatePayToPubkeyHash h"
proof
  assume r: "is_bytes32 h \<and> s = CreatePayToPubkeyHash h"
  then have s: "s = [OP_DUP, OP_SHA256, 0x20] @ h @ [OP_EQUALVERIFY, OP_CHECKSIG]"
    by (simp add: CreatePayToPubkeyHash_eq)
  have "is_bytes32 h" using r by simp
  then show "IsPayToPubkeyHash s = Some h"
    unfolding s IsPayToPubkeyHash_def by (simp add: nth_append)
next
  assume l: "IsPayToPubkeyHash s = Some h"
  then have n: "length s = 37" and h: "h = take 32 (drop 3 s)"
    and b: "s ! 0 = OP_DUP" "s ! 1 = OP_SHA256" "s ! 2 = 0x20" "s ! 35 = OP_EQUALVERIFY" "s ! 36 = OP_CHECKSIG"
    by (auto simp: IsPayToPubkeyHash_def split: if_splits)
  have "s = s ! 0 # s ! 1 # s ! 2 # drop 3 s"
    using n Cons_nth_drop_Suc [of 0 s] Cons_nth_drop_Suc [of 1 s] Cons_nth_drop_Suc [of 2 s]
    by (simp add: numeral_3_eq_3 numeral_2_eq_2)
  moreover have "drop 3 s = take 32 (drop 3 s) @ drop 35 s"
    using append_take_drop_id [of 32 "drop 3 s"] by simp
  moreover have "drop 35 s = [s ! 35, s ! 36]"
    using n Cons_nth_drop_Suc [of 35 s] Cons_nth_drop_Suc [of 36 s] by simp
  ultimately have "s = [OP_DUP, OP_SHA256, 0x20] @ h @ [OP_EQUALVERIFY, OP_CHECKSIG]"
    using b h by (metis append_Cons append_Nil)
  moreover have "is_bytes32 h" using n h by simp
  ultimately show "is_bytes32 h \<and> s = CreatePayToPubkeyHash h" by (simp add: CreatePayToPubkeyHash_eq)
qed

lemma CreateNullData_not_payment: "IsPayToPubkeyHash (CreateNullData bs) = None"
  by (auto simp: IsPayToPubkeyHash_def CreateNullData_def opcodes)

lemma payload_loop_CreateNullData:
  assumes "length bs \<le> MAX_SCRIPT_SIZE"
  shows "payload_loop (CreateNullData bs) 1 [] = Inr (Some bs)"
proof -
  let ?s = "CreateNullData bs"
  from GetOp_PushData [OF assms, of "[OP_RETURN]" "[]"] obtain oc where
    g: "GetOp ?s 1 = Inr (Some (length ?s, oc, bs))" "is_push_opcode oc"
    by (auto simp: CreateNullData_def)
  have "1 < length ?s" by (simp add: CreateNullData_def PushData_def Let_def)
  moreover have "payload_loop ?s (length ?s) bs = Inr (Some bs)"
    by (subst payload_loop.simps) simp
  ultimately show ?thesis using g by (subst payload_loop.simps) simp
qed

text \<open>
  \<open>Solver\<close> classifies every script without leaving its buffer: it reports a
  payment exactly for the 37-byte template around a 32-byte hash and returns that
  hash; the script built by \<open>CreateNullData\<close> for up to \<open>MAX_SCRIPT_SIZE\<close> bytes is
  recognised as a data carrier with exactly those bytes; and every script it calls
  a data carrier is unspendable and carries fewer payload bytes than its length.
\<close>

theorem Solver_correct:
  shows "(\<exists>t sol. Solver s = Inr (t, sol))
    \<and> (Solver s = Inr (PUBKEYHASH, [h]) \<longleftrightarrow> is_bytes32 h \<and> s = CreatePayToPubkeyHash h)
    \<and> (length bs \<le> MAX_SCRIPT_SIZE \<longrightarrow> Solver (CreateNullData bs) = Inr (NULL_DATA, [bs]))
    \<and> (\<forall>sol. Solver s = Inr (NULL_DATA, sol) \<longrightarrow>
         IsUnspendable s \<and> (\<exists>p. sol = [p] \<and> length p < length s))"
proof (intro conjI impI allI)
  show "\<exists>t sol. Solver s = Inr (t, sol)" by (rule Solver_total)
  have "Solver s = Inr (PUBKEYHASH, [h]) \<longleftrightarrow> IsPayToPubkeyHash s = Some h"
  proof (cases "IsPayToPubkeyHash s")
    case None
    obtain r where "payload_loop s 1 [] = Inr r" using payload_loop_total by blast
    with None show ?thesis by (cases r) (auto simp: Solver_def)
  qed (simp add: Solver_def)
  then show "Solver s = Inr (PUBKEYHASH, [h]) \<longleftrightarrow> is_bytes32 h \<and> s = CreatePayToPubkeyHash h"
    by (simp add: IsPayToPubkeyHash_iff)
  show "Solver (CreateNullData bs) = Inr (NULL_DATA, [bs])" if "length bs \<le> MAX_SCRIPT_SIZE"
    using payload_loop_CreateNullData [OF that]
    by (simp add: Solver_def CreateNullData_not_payment) (simp add: CreateNullData_def)
  fix sol assume "Solver s = Inr (NULL_DATA, sol)"
  then obtain p where p: "s \<noteq> []" "hd s = OP_RETURN" "payload_loop s 1 [] = Inr (Some p)" "sol = [p]"
    by (auto simp: Solver_def rbind_eq_Inr_iff split: option.splits if_splits)
  show "IsUnspendable s" using p by (simp add: IsUnspendable_def)
  have "length p + 1 \<le> length s" using payload_loop_length [OF p(3)] p(1) by (cases s) auto
  then show "\<exists>p. sol = [p] \<and> length p < length s" using p(4) by auto
qed

theorem Solver_correct_witness:
  "Solver (CreatePayToPubkeyHash zero32) = Inr (PUBKEYHASH, [zero32])
   \<and> Solver (CreateNullData [1, 2, 3]) = Inr (NULL_DATA, [[1, 2, 3]])"
  using Solver_correct [of "CreatePayToPubkeyHash zero32" zero32 "[1, 2, 3]"]
  by (simp add: zero32_def MAX_SCRIPT_SIZE_def)

end
