(* ===== verification/Sha256.thy ===== *)
theory Sha256
  imports Moneu_Prelude
begin

text \<open>
  SHA-256 as \<open>src/src/crypto/sha2.c\<close> computes it: the unrolled transform that the
  build selects, the rolled one of the \<open>#else\<close> branch, and the streaming context
  (\<open>Init\<close>, \<open>Update\<close>, \<open>Final\<close>, \<open>Raw\<close>) on a little-endian host. The transforms are
  shown equal to each other and to the textbook compression function, and the
  streaming interface to hashing the padded message, whatever way it is cut into
  updates.
\<close>

section \<open>Transform\<close>

definition SHR32 :: "nat \<Rightarrow> u32 \<Rightarrow> u32" where
  "SHR32 b x = drop_bit b x"

definition ROTR32 :: "nat \<Rightarrow> u32 \<Rightarrow> u32" where
  "ROTR32 b x = drop_bit b x OR push_bit (32 - b) x"

definition Ch :: "u32 \<Rightarrow> u32 \<Rightarrow> u32 \<Rightarrow> u32" where
  "Ch x y z = (x AND y) XOR (NOT x AND z)"

definition Maj :: "u32 \<Rightarrow> u32 \<Rightarrow> u32 \<Rightarrow> u32" where
  "Maj x y z = (x AND y) XOR (x AND z) XOR (y AND z)"

definition Sigma0_256 :: "u32 \<Rightarrow> u32" where
  "Sigma0_256 x = ROTR32 2 x XOR ROTR32 13 x XOR ROTR32 22 x"

definition Sigma1_256 :: "u32 \<Rightarrow> u32" where
  "Sigma1_256 x = ROTR32 6 x XOR ROTR32 11 x XOR ROTR32 25 x"

definition sigma0_256 :: "u32 \<Rightarrow> u32" where
  "sigma0_256 x = ROTR32 7 x XOR ROTR32 18 x XOR SHR32 3 x"

definition sigma1_256 :: "u32 \<Rightarrow> u32" where
  "sigma1_256 x = ROTR32 17 x XOR ROTR32 19 x XOR SHR32 10 x"

text \<open>One row per line of the C table.\<close>

definition K256 :: "u32 list" where
  "K256 = concat [
    [0x428a2f98, 0x71374491, 0xb5c0fbcf, 0xe9b5dba5],
    [0x3956c25b, 0x59f111f1, 0x923f82a4, 0xab1c5ed5],
    [0xd807aa98, 0x12835b01, 0x243185be, 0x550c7dc3],
    [0x72be5d74, 0x80deb1fe, 0x9bdc06a7, 0xc19bf174],
    [0xe49b69c1, 0xefbe4786, 0x0fc19dc6, 0x240ca1cc],
    [0x2de92c6f, 0x4a7484aa, 0x5cb0a9dc, 0x76f988da],
    [0x983e5152, 0xa831c66d, 0xb00327c8, 0xbf597fc7],
    [0xc6e00bf3, 0xd5a79147, 0x06ca6351, 0x14292967],
    [0x27b70a85, 0x2e1b2138, 0x4d2c6dfc, 0x53380d13],
    [0x650a7354, 0x766a0abb, 0x81c2c92e, 0x92722c85],
    [0xa2bfe8a1, 0xa81a664b, 0xc24b8b70, 0xc76c51a3],
    [0xd192e819, 0xd6990624, 0xf40e3585, 0x106aa070],
    [0x19a4c116, 0x1e376c08, 0x2748774c, 0x34b0bcb5],
    [0x391c0cb3, 0x4ed8aa4a, 0x5b9cca4f, 0x682e6ff3],
    [0x748f82ee, 0x78a5636f, 0x84c87814, 0x8cc70208],
    [0x90befffa, 0xa4506ceb, 0xbef9a3f7, 0xc67178f2]]"

definition sha256_initial_hash_value :: "u32 list" where
  "sha256_initial_hash_value = [0x6a09e667, 0xbb67ae85, 0x3c6ef372, 0xa54ff53a, 0x510e527f, 0x9b05688c, 0x1f83d9ab, 0x5be0cd19]"

type_synonym regs = "u32 \<times> u32 \<times> u32 \<times> u32 \<times> u32 \<times> u32 \<times> u32 \<times> u32"

text \<open>The loop counter and the sixteen-word ring \<open>W256\<close>.\<close>

type_synonym ring = "nat \<times> u32 list"

definition ROUND256_0_TO_15 ::
  "u32 list \<Rightarrow> ring \<Rightarrow> u32 \<Rightarrow> u32 \<Rightarrow> u32 \<Rightarrow> u32 \<Rightarrow> u32 \<Rightarrow> u32 \<Rightarrow> u32 \<Rightarrow> u32 \<Rightarrow> ring \<times> u32 \<times> u32" where
  "ROUND256_0_TO_15 data st a b c d e f g h =
     (case st of (j, W) \<Rightarrow>
        let w = data ! j;
            T1 = h + Sigma1_256 e + Ch e f g + K256 ! j + w
        in ((j + 1, W[j := w]), d + T1, T1 + Sigma0_256 a + Maj a b c))"

definition ROUND256 ::
  "ring \<Rightarrow> u32 \<Rightarrow> u32 \<Rightarrow> u32 \<Rightarrow> u32 \<Rightarrow> u32 \<Rightarrow> u32 \<Rightarrow> u32 \<Rightarrow> u32 \<Rightarrow> ring \<times> u32 \<times> u32" where
  "ROUND256 st a b c d e f g h =
     (case st of (j, W) \<Rightarrow>
        let s0 = sigma0_256 (W ! ((j + 1) mod 16));
            s1 = sigma1_256 (W ! ((j + 14) mod 16));
            w = W ! (j mod 16) + (s1 + W ! ((j + 9) mod 16) + s0);
            T1 = h + Sigma1_256 e + Ch e f g + K256 ! j + w
        in ((j + 1, W[j mod 16 := w]), d + T1, T1 + Sigma0_256 a + Maj a b c))"

text \<open>
  Eight macro calls with the registers renamed round-robin, as the body of either
  unrolled loop has them.
\<close>

definition eight_rounds ::
  "(ring \<Rightarrow> u32 \<Rightarrow> u32 \<Rightarrow> u32 \<Rightarrow> u32 \<Rightarrow> u32 \<Rightarrow> u32 \<Rightarrow> u32 \<Rightarrow> u32 \<Rightarrow> ring \<times> u32 \<times> u32)
     \<Rightarrow> ring \<times> regs \<Rightarrow> ring \<times> regs" where
  "eight_rounds R x =
     (case x of (st, a, b, c, d, e, f, g, h) \<Rightarrow>
        let (st, d, h) = R st a b c d e f g h;
            (st, c, g) = R st h a b c d e f g;
            (st, b, f) = R st g h a b c d e f;
            (st, a, e) = R st f g h a b c d e;
            (st, h, d) = R st e f g h a b c d;
            (st, g, c) = R st d e f g h a b c;
            (st, f, b) = R st c d e f g h a b;
            (st, e, a) = R st b c d e f g h a
        in (st, a, b, c, d, e, f, g, h))"

definition regs_of :: "u32 list \<Rightarrow> regs" where
  "regs_of s = (s ! 0, s ! 1, s ! 2, s ! 3, s ! 4, s ! 5, s ! 6, s ! 7)"

definition add_regs :: "u32 list \<Rightarrow> regs \<Rightarrow> u32 list" where
  "add_regs s r = (case r of (a, b, c, d, e, f, g, h) \<Rightarrow>
     [s ! 0 + a, s ! 1 + b, s ! 2 + c, s ! 3 + d, s ! 4 + e, s ! 5 + f, s ! 6 + g, s ! 7 + h])"

text \<open>
  Both \<open>do \<dots> while\<close> loops advance \<open>j\<close> by eight, so the first body runs twice
  (\<open>j < 16\<close>) and the second six times (\<open>j < 64\<close>).
\<close>

definition sha256_Transform :: "u32 list \<Rightarrow> u32 list \<Rightarrow> u32 list" where
  "sha256_Transform state_in data =
     (let x = ((0, replicate 16 0), regs_of state_in);
          x = (eight_rounds (ROUND256_0_TO_15 data) ^^ 2) x;
          x = (eight_rounds ROUND256 ^^ 6) x
      in add_regs state_in (snd x))"

text \<open>The \<open>#else\<close> branch: one loop body per round, all registers shifted.\<close>

definition sha_step :: "u32 \<Rightarrow> u32 \<Rightarrow> regs \<Rightarrow> regs" where
  "sha_step k w r = (case r of (a, b, c, d, e, f, g, h) \<Rightarrow>
     let T1 = h + Sigma1_256 e + Ch e f g + k + w;
         T2 = Sigma0_256 a + Maj a b c
     in (T1 + T2, a, b, c, d + T1, e, f, g))"

definition rolled_first :: "u32 list \<Rightarrow> nat \<Rightarrow> u32 list \<times> regs \<Rightarrow> u32 list \<times> regs" where
  "rolled_first data j x = (case x of (W, r) \<Rightarrow>
     (W[j := data ! j], sha_step (K256 ! j) (data ! j) r))"

definition rolled_next :: "nat \<Rightarrow> u32 list \<times> regs \<Rightarrow> u32 list \<times> regs" where
  "rolled_next j x = (case x of (W, r) \<Rightarrow>
     let s0 = sigma0_256 (W ! ((j + 1) mod 16));
         s1 = sigma1_256 (W ! ((j + 14) mod 16));
         w = W ! (j mod 16) + (s1 + W ! ((j + 9) mod 16) + s0)
     in (W[j mod 16 := w], sha_step (K256 ! j) w r))"

definition sha256_Transform_rolled :: "u32 list \<Rightarrow> u32 list \<Rightarrow> u32 list" where
  "sha256_Transform_rolled state_in data =
     (let x = (replicate 16 0, regs_of state_in);
          x = fold (rolled_first data) [0..<16] x;
          x = fold rolled_next [16..<64] x
      in add_regs state_in (snd x))"

section \<open>Streaming context\<close>

record sha256_ctx =
  ctx_state :: "u32 list"
  ctx_bitcount :: u64
  ctx_buffer :: "byte list"

definition REVERSE32 :: "u32 \<Rightarrow> u32" where
  "REVERSE32 w =
     (let tmp = drop_bit 16 w OR push_bit 16 w
      in drop_bit 8 (tmp AND 0xff00ff00) OR push_bit 8 (tmp AND 0x00ff00ff))"

text \<open>
  The buffer is an array of sixteen 32-bit words that the code also addresses as 64
  bytes; on the little-endian host word \<open>j\<close> is made of bytes \<open>4j .. 4j+3\<close>.
\<close>

definition le_word :: "byte list \<Rightarrow> nat \<Rightarrow> u32" where
  "le_word buf j = ucast (buf ! (4 * j)) OR push_bit 8 (ucast (buf ! (4 * j + 1)))
     OR push_bit 16 (ucast (buf ! (4 * j + 2))) OR push_bit 24 (ucast (buf ! (4 * j + 3)))"

definition host_words :: "nat \<Rightarrow> byte list \<Rightarrow> u32 list" where
  "host_words n buf = map (\<lambda>j. REVERSE32 (le_word buf j)) [0..<n]"

definition le_bytes :: "u32 list \<Rightarrow> byte list" where
  "le_bytes ws = concat (map WriteLE32 ws)"

text \<open>\<open>memcpy(buffer + pos, src, len)\<close>\<close>

definition put_bytes :: "nat \<Rightarrow> byte list \<Rightarrow> byte list \<Rightarrow> byte list" where
  "put_bytes pos src buf = take pos buf @ src @ drop (pos + length src) buf"

definition sha256_Init :: sha256_ctx where
  "sha256_Init = \<lparr>ctx_state = sha256_initial_hash_value, ctx_bitcount = 0, ctx_buffer = replicate 64 0\<rparr>"

text \<open>Convert the full buffer to host order in place and transform.\<close>

definition absorb :: "sha256_ctx \<Rightarrow> sha256_ctx" where
  "absorb c =
     (let ws = host_words 16 (ctx_buffer c)
      in c\<lparr>ctx_state := sha256_Transform (ctx_state c) ws, ctx_buffer := le_bytes ws\<rparr>)"

fun update_blocks :: "sha256_ctx \<Rightarrow> byte list \<Rightarrow> sha256_ctx" where
  "update_blocks c data =
     (if length data \<ge> 64 then
        (let c = absorb (c\<lparr>ctx_buffer := put_bytes 0 (take 64 data) (ctx_buffer c)\<rparr>)
         in update_blocks (c\<lparr>ctx_bitcount := ctx_bitcount c + push_bit 3 64\<rparr>) (drop 64 data))
      else if length data > 0 then
        c\<lparr>ctx_buffer := put_bytes 0 data (ctx_buffer c),
          ctx_bitcount := ctx_bitcount c + push_bit 3 (of_nat (length data))\<rparr>
      else c)"

declare update_blocks.simps [simp del]

definition usedspace :: "sha256_ctx \<Rightarrow> nat" where
  "usedspace c = unat (drop_bit 3 (ctx_bitcount c) mod 64)"

definition sha256_Update :: "sha256_ctx \<Rightarrow> byte list \<Rightarrow> sha256_ctx" where
  "sha256_Update c data =
     (if length data = 0 then c
      else if usedspace c > 0 then
        (let freespace = 64 - usedspace c
         in if length data \<ge> freespace then
              (let c = c\<lparr>ctx_buffer := put_bytes (usedspace c) (take freespace data) (ctx_buffer c),
                         ctx_bitcount := ctx_bitcount c + push_bit 3 (of_nat freespace)\<rparr>
               in update_blocks (absorb c) (drop freespace data))
            else c\<lparr>ctx_buffer := put_bytes (usedspace c) data (ctx_buffer c),
                   ctx_bitcount := ctx_bitcount c + push_bit 3 (of_nat (length data))\<rparr>)
      else update_blocks c data)"

definition sha256_Final :: "sha256_ctx \<Rightarrow> byte list" where
  "sha256_Final c =
     (let used = usedspace c;
          c = c\<lparr>ctx_buffer := (ctx_buffer c)[used := 0x80]\<rparr>;
          used = used + 1;
          (c, used) = (if used > 56
             then (absorb (c\<lparr>ctx_buffer := put_bytes used (replicate (64 - used) 0) (ctx_buffer c)\<rparr>), 0)
             else (c, used));
          buf = put_bytes used (replicate (56 - used) 0) (ctx_buffer c);
          ws = host_words 14 buf @ [ucast (drop_bit 32 (ctx_bitcount c)), ucast (ctx_bitcount c AND 0xffffffff)];
          state = map REVERSE32 (sha256_Transform (ctx_state c) ws)
      in le_bytes state)"

definition sha256_Raw :: "byte list \<Rightarrow> byte list" where
  "sha256_Raw data = sha256_Final (sha256_Update sha256_Init data)"

section \<open>The transforms agree\<close>

definition first_step :: "u32 list \<Rightarrow> ring \<times> regs \<Rightarrow> ring \<times> regs" where
  "first_step data x = (case x of ((j, W), r) \<Rightarrow>
     (case rolled_first data j (W, r) of (W', r') \<Rightarrow> ((j + 1, W'), r')))"

definition next_step :: "ring \<times> regs \<Rightarrow> ring \<times> regs" where
  "next_step x = (case x of ((j, W), r) \<Rightarrow>
     (case rolled_next j (W, r) of (W', r') \<Rightarrow> ((j + 1, W'), r')))"

text \<open>A macro call is one rolled round when the registers it writes are renamed.\<close>

definition is_round ::
  "(ring \<Rightarrow> u32 \<Rightarrow> u32 \<Rightarrow> u32 \<Rightarrow> u32 \<Rightarrow> u32 \<Rightarrow> u32 \<Rightarrow> u32 \<Rightarrow> u32 \<Rightarrow> ring \<times> u32 \<times> u32)
     \<Rightarrow> (ring \<times> regs \<Rightarrow> ring \<times> regs) \<Rightarrow> bool" where
  "is_round R S \<longleftrightarrow> (\<forall>st a b c d e f g h st' d' h'. R st a b c d e f g h = (st', d', h') \<longrightarrow>
     S (st, a, b, c, d, e, f, g, h) = (st', h', a, b, c, d', e, f, g))"

lemma is_roundD:
  "is_round R S \<Longrightarrow> R st a b c d e f g h = (st', d', h') \<Longrightarrow>
     S (st, a, b, c, d, e, f, g, h) = (st', h', a, b, c, d', e, f, g)"
  unfolding is_round_def by blast

lemma is_round_first: "is_round (ROUND256_0_TO_15 data) (first_step data)"
  by (auto simp: is_round_def ROUND256_0_TO_15_def first_step_def rolled_first_def sha_step_def Let_def
      add.assoc split: prod.splits)

lemma is_round_next: "is_round ROUND256 next_step"
  by (auto simp: is_round_def ROUND256_def next_step_def rolled_next_def sha_step_def Let_def
      add.assoc split: prod.splits)

lemma eight_rounds_eq:
  assumes "is_round R S"
  shows "eight_rounds R x = (S ^^ 8) x"
proof -
  obtain st a r where "x = (st, a, r)" by (rule prod_cases3)
  moreover obtain b c d e f g h where "r = (b, c, d, e, f, g, h)" by (rule prod_cases7)
  ultimately have x: "x = (st, a, b, c, d, e, f, g, h)" by simp
  obtain s1 d1 h1 where 1: "R st a b c d e f g h = (s1, d1, h1)" by (rule prod_cases3)
  obtain s2 c2 g2 where 2: "R s1 h1 a b c d1 e f g = (s2, c2, g2)" by (rule prod_cases3)
  obtain s3 b3 f3 where 3: "R s2 g2 h1 a b c2 d1 e f = (s3, b3, f3)" by (rule prod_cases3)
  obtain s4 a4 e4 where 4: "R s3 f3 g2 h1 a b3 c2 d1 e = (s4, a4, e4)" by (rule prod_cases3)
  obtain s5 h5 d5 where 5: "R s4 e4 f3 g2 h1 a4 b3 c2 d1 = (s5, h5, d5)" by (rule prod_cases3)
  obtain s6 g6 c6 where 6: "R s5 d5 e4 f3 g2 h5 a4 b3 c2 = (s6, g6, c6)" by (rule prod_cases3)
  obtain s7 f7 b7 where 7: "R s6 c6 d5 e4 f3 g6 h5 a4 b3 = (s7, f7, b7)" by (rule prod_cases3)
  obtain s8 e8 a8 where 8: "R s7 b7 c6 d5 e4 f7 g6 h5 a4 = (s8, e8, a8)" by (rule prod_cases3)
  have "eight_rounds R x = (s8, a8, b7, c6, d5, e8, f7, g6, h5)"
    by (simp add: eight_rounds_def x 1 2 3 4 5 6 7 8)
  moreover have "(S ^^ 8) x = (s8, a8, b7, c6, d5, e8, f7, g6, h5)"
  proof -
    have eq: "(S ^^ 8) x = S (S (S (S (S (S (S (S x)))))))" by (simp add: numeral_eq_Suc)
    note D = is_roundD [OF assms]
    from eq show ?thesis
      by (simp only: x D [OF 1] D [OF 2] D [OF 3]
        D [OF 4] D [OF 5] D [OF 6] D [OF 7]
        D [OF 8])
  qed
  ultimately show ?thesis by simp
qed

lemma funpow_first:
  "(first_step data ^^ n) ((j, W), r) =
     (case fold (rolled_first data) [j..<j + n] (W, r) of (W', r') \<Rightarrow> ((j + n, W'), r'))"
proof (induction n)
  case (Suc n)
  then show ?case by (simp add: first_step_def split: prod.splits)
qed simp

lemma funpow_next:
  "(next_step ^^ n) ((j, W), r) =
     (case fold rolled_next [j..<j + n] (W, r) of (W', r') \<Rightarrow> ((j + n, W'), r'))"
proof (induction n)
  case (Suc n)
  then show ?case by (simp add: next_step_def split: prod.splits)
qed simp

lemma sha256_Transform_unrolled: "sha256_Transform s data = sha256_Transform_rolled s data"
proof -
  have first: "eight_rounds (ROUND256_0_TO_15 data) = first_step data ^^ 8"
    by (rule ext) (rule eight_rounds_eq [OF is_round_first])
  have nxt: "eight_rounds ROUND256 = next_step ^^ 8"
    by (rule ext) (rule eight_rounds_eq [OF is_round_next])
  have "(eight_rounds (ROUND256_0_TO_15 data) ^^ 2) ((0, replicate 16 0), regs_of s) =
      (first_step data ^^ 16) ((0, replicate 16 0), regs_of s)"
    unfolding first funpow_mult by simp
  also have "\<dots> = (case fold (rolled_first data) [0..<0 + 16] (replicate 16 0, regs_of s) of
      (W', r') \<Rightarrow> ((0 + 16, W'), r'))"
    by (rule funpow_first)
  finally have f: "(eight_rounds (ROUND256_0_TO_15 data) ^^ 2) ((0, replicate 16 0), regs_of s) =
      (case fold (rolled_first data) [0..<16] (replicate 16 0, regs_of s) of (W', r') \<Rightarrow> ((16, W'), r'))"
    by (simp only: add_0)
  have n: "(eight_rounds ROUND256 ^^ 6) ((16, W), r) =
      (case fold rolled_next [16..<64] (W, r) of (W', r') \<Rightarrow> ((64, W'), r'))" for W r
  proof -
    have "(eight_rounds ROUND256 ^^ 6) ((16, W), r) = (next_step ^^ 48) ((16, W), r)"
      unfolding nxt funpow_mult by simp
    also have "\<dots> = (case fold rolled_next [16..<16 + 48] (W, r) of (W', r') \<Rightarrow> ((16 + 48, W'), r'))"
      by (rule funpow_next)
    also have "(16 + 48 :: nat) = 64" by simp
    finally show ?thesis .
  qed
  show ?thesis
    unfolding sha256_Transform_def sha256_Transform_rolled_def Let_def f
    by (simp only: n split: prod.split) simp
qed

text \<open>The compression function of the standard, with the full message schedule.\<close>

fun sched :: "u32 list \<Rightarrow> nat \<Rightarrow> u32" where
  "sched M t =
     (if t < 16 then M ! t
      else sigma1_256 (sched M (t - 2)) + sched M (t - 7) + sigma0_256 (sched M (t - 15)) + sched M (t - 16))"

declare sched.simps [simp del]

definition sha_compress :: "u32 list \<Rightarrow> u32 list \<Rightarrow> u32 list" where
  "sha_compress s M = add_regs s (fold (\<lambda>t. sha_step (K256 ! t) (sched M t)) [0..<64] (regs_of s))"

lemma rolled_first_fold:
  assumes "n \<le> 16"
  shows "\<exists>W. fold (rolled_first M) [0..<n] (replicate 16 0, r) =
      (W, fold (\<lambda>t. sha_step (K256 ! t) (sched M t)) [0..<n] r) \<and> length W = 16 \<and> (\<forall>t < n. W ! t = sched M t)"
  using assms
proof (induction n)
  case (Suc n)
  then obtain W where W: "fold (rolled_first M) [0..<n] (replicate 16 0, r) =
      (W, fold (\<lambda>t. sha_step (K256 ! t) (sched M t)) [0..<n] r)" "length W = 16" "\<forall>t < n. W ! t = sched M t"
    by auto
  have "sched M n = M ! n" using Suc.prems by (subst sched.simps) simp
  then have "fold (rolled_first M) [0..<Suc n] (replicate 16 0, r) =
      (W[n := sched M n], fold (\<lambda>t. sha_step (K256 ! t) (sched M t)) [0..<Suc n] r)"
    using W(1) by (simp add: rolled_first_def [of M n])
  then show ?case using W(2,3) Suc.prems by (auto simp: less_Suc_eq nth_list_update)
qed simp

lemma mod16_neq: "t < j \<Longrightarrow> j < t + 16 \<Longrightarrow> t mod 16 \<noteq> j mod (16 :: nat)"
proof
  assume "t < j" "j < t + 16" "t mod 16 = j mod 16"
  then have "16 dvd j - t" using mod_eq_dvd_iff_nat [of t j 16] by simp
  with \<open>t < j\<close> \<open>j < t + 16\<close> show False by (auto dest: dvd_imp_le)
qed

lemma rolled_next_fold:
  assumes "length W = 16" and "\<forall>t < 16. W ! t = sched M t"
  shows "\<exists>V. fold rolled_next [16..<16 + n] (W, r) =
      (V, fold (\<lambda>t. sha_step (K256 ! t) (sched M t)) [16..<16 + n] r) \<and> length V = 16 \<and>
      (\<forall>t. n \<le> t \<and> t < 16 + n \<longrightarrow> V ! (t mod 16) = sched M t)"
proof (induction n)
  case (Suc n)
  then obtain V where V: "fold rolled_next [16..<16 + n] (W, r) =
      (V, fold (\<lambda>t. sha_step (K256 ! t) (sched M t)) [16..<16 + n] r)" "length V = 16"
    and ring: "\<And>t. n \<le> t \<Longrightarrow> t < 16 + n \<Longrightarrow> V ! (t mod 16) = sched M t"
    by auto
  define j where "j = 16 + n"
  have w: "V ! (j mod 16) + (sigma1_256 (V ! ((j + 14) mod 16)) + V ! ((j + 9) mod 16)
      + sigma0_256 (V ! ((j + 1) mod 16))) = sched M j"
  proof -
    have "(j + 14) mod 16 = (14 + n) mod 16" "(j + 9) mod 16 = (9 + n) mod 16"
      "(j + 1) mod 16 = (1 + n) mod 16" "j mod 16 = n mod 16"
      using mod_add_self1 [of 16 "14 + n"] mod_add_self1 [of 16 "9 + n"] mod_add_self1 [of 16 "1 + n"]
        mod_add_self1 [of 16 n]
      by (simp_all only: j_def add_ac)
    then show ?thesis
      using ring [of "14 + n"] ring [of "9 + n"] ring [of "1 + n"] ring [of n]
      by (subst sched.simps) (simp add: j_def add_ac)
  qed
  have "V[j mod 16 := sched M j] ! (t mod 16) = sched M t" if "Suc n \<le> t" "t < 16 + Suc n" for t
  proof (cases "t = j")
    case True
    then show ?thesis using V(2) by simp
  next
    case False
    then have "t mod 16 \<noteq> j mod 16" using mod16_neq [of t j] that by (simp add: j_def)
    then show ?thesis using ring [of t] that False by (simp add: j_def)
  qed
  moreover have "fold rolled_next [16..<16 + Suc n] (W, r) =
      (V[j mod 16 := sched M j], fold (\<lambda>t. sha_step (K256 ! t) (sched M t)) [16..<16 + Suc n] r)"
  proof -
    have u: "[16..<16 + Suc n] = [16..<j] @ [j]"
      unfolding j_def add_Suc_right by (rule upt_Suc_append) simp
    show ?thesis
      unfolding u fold_append comp_apply V(1) [folded j_def] using w
      by (simp add: rolled_next_def [of j] Let_def)
  qed
  ultimately show ?case using V(2) by simp
qed (use assms in auto)

lemma sha256_Transform_rolled_eq: "sha256_Transform_rolled s M = sha_compress s M"
proof -
  let ?f = "\<lambda>t. sha_step (K256 ! t) (sched M t)"
  obtain W where W: "fold (rolled_first M) [0..<16] (replicate 16 0, regs_of s) =
      (W, fold ?f [0..<16] (regs_of s))" "length W = 16" "\<forall>t < 16. W ! t = sched M t"
    using rolled_first_fold [of 16] by blast
  obtain V where "fold rolled_next [16..<16 + 48] (W, fold ?f [0..<16] (regs_of s)) =
      (V, fold ?f [16..<16 + 48] (fold ?f [0..<16] (regs_of s)))"
    using rolled_next_fold [OF W(2,3), of 48 "fold ?f [0..<16] (regs_of s)"] by blast
  moreover have e: "(16 + 48 :: nat) = 64" by simp
  ultimately have V: "fold rolled_next [16..<64] (W, fold ?f [0..<16] (regs_of s)) =
      (V, fold ?f [16..<64] (fold ?f [0..<16] (regs_of s)))" by metis
  have "[0..<64] = [0..<16] @ [16..<64]"
    using upt_add_eq_append [of 0 16 48] unfolding e by (simp only: le0 add_0 simp_thms)
  then show ?thesis
    unfolding sha256_Transform_rolled_def sha_compress_def Let_def W(1) V
    by (simp only: fold_append comp_apply snd_conv)
qed

lemma sha256_Transform_eq: "sha256_Transform s M = sha_compress s M"
  by (simp add: sha256_Transform_unrolled sha256_Transform_rolled_eq)

section \<open>Byte order\<close>

lemma rev_masks:
  "(0xff00ff00 :: u32) = push_bit 24 (mask 8) OR push_bit 8 (mask 8)"
  "(0x00ff00ff :: u32) = push_bit 16 (mask 8) OR mask 8"
  by (simp_all add: mask_eq_exp_minus_1)

lemma bit32_out: "32 \<le> n \<Longrightarrow> \<not> bit (w :: u32) n"
  using bit_imp_le_length [of w n] by auto

lemma bit8_out: "8 \<le> n \<Longrightarrow> \<not> bit (w :: byte) n"
  using bit_imp_le_length [of w n] by auto

lemma bit_REVERSE32:
  assumes "t < 8" and "q < 4"
  shows "bit (REVERSE32 w) (8 * q + t) = bit w (8 * (3 - q) + t)"
proof -
  have "q = 0 \<or> q = 1 \<or> q = 2 \<or> q = 3" using assms(2) by auto
  then show ?thesis
    unfolding REVERSE32_def Let_def rev_masks using assms(1)
    by (elim disjE)
      (auto simp del: push_bit_numeral push_bit_and drop_bit_and push_bit_or drop_bit_or mask_numeral
        simp: bit_or_iff bit_and_iff bit_drop_bit_eq bit_push_bit_iff bit_mask_iff bit32_out)
qed

lemma word32_eqI:
  assumes "\<And>q t. q < 4 \<Longrightarrow> t < 8 \<Longrightarrow> bit (v :: u32) (8 * q + t) = bit w (8 * q + t)"
  shows "v = w"
proof (rule bit_word_eqI)
  fix n assume "n < LENGTH(32)"
  then show "bit v n = bit w n" using assms [of "n div 8" "n mod 8"] by simp
qed

definition be_word :: "byte list \<Rightarrow> nat \<Rightarrow> u32" where
  "be_word buf j = push_bit 24 (ucast (buf ! (4 * j))) OR push_bit 16 (ucast (buf ! (4 * j + 1)))
     OR push_bit 8 (ucast (buf ! (4 * j + 2))) OR ucast (buf ! (4 * j + 3))"

definition be_bytes :: "u32 \<Rightarrow> byte list" where
  "be_bytes w = [ucast (drop_bit 24 w), ucast (drop_bit 16 w), ucast (drop_bit 8 w), ucast w]"

lemma bit_le_word:
  assumes "t < 8" and "q < 4"
  shows "bit (le_word buf j) (8 * q + t) = bit (buf ! (4 * j + q)) t"
proof -
  have "q = 0 \<or> q = 1 \<or> q = 2 \<or> q = 3" using assms(2) by auto
  then show ?thesis
    unfolding le_word_def using assms(1)
    by (elim disjE) (auto simp: bit_or_iff bit_push_bit_iff bit_unsigned_iff bit8_out numeral_3_eq_3)
qed

lemma bit_be_word:
  assumes "t < 8" and "q < 4"
  shows "bit (be_word buf j) (8 * q + t) = bit (buf ! (4 * j + (3 - q))) t"
proof -
  have "q = 0 \<or> q = 1 \<or> q = 2 \<or> q = 3" using assms(2) by auto
  then show ?thesis
    unfolding be_word_def using assms(1)
    by (elim disjE) (auto simp: bit_or_iff bit_push_bit_iff bit_unsigned_iff bit8_out)
qed

lemma REVERSE32_le_word: "REVERSE32 (le_word buf j) = be_word buf j"
  by (rule word32_eqI) (simp add: bit_REVERSE32 bit_le_word bit_be_word)

lemma WriteLE32_REVERSE32: "WriteLE32 (REVERSE32 w) = be_bytes w"
proof -
  have "ucast (drop_bit (8 * q) (REVERSE32 w) AND 0xFF) = (ucast (drop_bit (8 * (3 - q)) w) :: byte)"
    if "q < 4" for q
  proof (rule bit_word_eqI)
    fix n assume "n < LENGTH(8)"
    then show "bit (ucast (drop_bit (8 * q) (REVERSE32 w) AND 0xFF) :: byte) n =
        bit (ucast (drop_bit (8 * (3 - q)) w) :: byte) n"
      using bit_REVERSE32 [of n q w] that
      by (simp only: bit_unsigned_iff bit_and_iff bit_drop_bit_eq FF_eq_mask bit_mask_iff) simp
  qed
  from this [of 0] this [of 1] this [of 2] this [of 3] show ?thesis
    by (simp add: WriteLE32_def be_bytes_def)
qed

lemma be_word_be_bytes:
  assumes "\<And>i. i < 4 \<Longrightarrow> buf ! (4 * j + i) = be_bytes w ! i"
  shows "be_word buf j = w"
proof (rule word32_eqI)
  fix q t :: nat assume q: "q < 4" and t: "t < 8"
  have "q = 0 \<or> q = 1 \<or> q = 2 \<or> q = 3" using q by auto
  then have "bit (be_bytes w ! (3 - q)) t = bit w (8 * q + t)"
    using t by (elim disjE) (simp_all add: be_bytes_def bit_unsigned_iff bit_drop_bit_eq)
  then show "bit (be_word buf j) (8 * q + t) = bit w (8 * q + t)"
    using bit_be_word [OF t q] assms [of "3 - q"] by simp
qed

lemma host_words_eq: "host_words n buf = map (be_word buf) [0..<n]"
  by (simp add: host_words_def REVERSE32_le_word)

lemma host_words_cong: "take (4 * n) a = take (4 * n) b \<Longrightarrow> 4 * n \<le> length a \<Longrightarrow> 4 * n \<le> length b \<Longrightarrow>
    host_words n a = host_words n b"
proof -
  assume t: "take (4 * n) a = take (4 * n) b" and l: "4 * n \<le> length a" "4 * n \<le> length b"
  have "a ! (4 * j + i) = b ! (4 * j + i)" if "j < n" "i < 4" for i j
    using arg_cong [OF t, of "\<lambda>x. x ! (4 * j + i)"] that l by simp
  from this [of _ 0] this [of _ 1] this [of _ 2] this [of _ 3] show ?thesis
    unfolding host_words_eq be_word_def by simp
qed

lemma length_host_words [simp]: "length (host_words n buf) = n"
  by (simp add: host_words_def)

lemma length_le_bytes: "length (le_bytes ws) = 4 * length ws"
  by (induction ws) (simp_all add: le_bytes_def)

lemma length_transform [simp]: "length (sha256_Transform s ws) = 8"
  by (simp add: sha256_Transform_def add_regs_def split: prod.splits)

lemma length_put_bytes [simp]: "pos + length src \<le> length buf \<Longrightarrow> length (put_bytes pos src buf) = length buf"
  by (simp add: put_bytes_def)

section \<open>Streaming equals hashing the padded message\<close>

definition compress_block :: "u32 list \<Rightarrow> byte list \<Rightarrow> u32 list" where
  "compress_block s b = sha_compress s (map (be_word b) [0..<16])"

fun hash_blocks :: "u32 list \<Rightarrow> byte list \<Rightarrow> u32 list" where
  "hash_blocks s m =
     (if 64 \<le> length m then hash_blocks (compress_block s (take 64 m)) (drop 64 m) else s)"

declare hash_blocks.simps [simp del]

definition be_length :: "nat \<Rightarrow> byte list" where
  "be_length n = be_bytes (ucast (drop_bit 32 (of_nat (8 * n) :: u64))) @ be_bytes (ucast (of_nat (8 * n) :: u64))"

definition sha_pad :: "byte list \<Rightarrow> byte list" where
  "sha_pad m = m @ [0x80] @ replicate ((119 - length m mod 64) mod 64) 0 @ be_length (length m)"

definition sha256_spec :: "byte list \<Rightarrow> byte list" where
  "sha256_spec m = concat (map be_bytes (hash_blocks sha256_initial_hash_value (sha_pad m)))"

lemma hash_blocks_short: "length m < 64 \<Longrightarrow> hash_blocks s m = s"
  by (subst hash_blocks.simps) simp

lemma hash_blocks_block:
  "length b = 64 \<Longrightarrow> hash_blocks s (b @ m) = hash_blocks (compress_block s b) m"
  by (subst hash_blocks.simps) simp

lemma hash_blocks_append:
  "64 dvd length a \<Longrightarrow> hash_blocks s (a @ b) = hash_blocks (hash_blocks s a) b"
proof (induction s a rule: hash_blocks.induct)
  case (1 s a)
  show ?case
  proof (cases "64 \<le> length a")
    case True
    have "64 dvd length (drop 64 a)" using 1(2) by simp
    then have "hash_blocks (compress_block s (take 64 a)) (drop 64 a @ b) =
        hash_blocks (hash_blocks (compress_block s (take 64 a)) (drop 64 a)) b"
      using 1(1) [OF True] by simp
    moreover have "hash_blocks s (a @ b) = hash_blocks (compress_block s (take 64 a)) (drop 64 a @ b)"
      using True by (subst hash_blocks.simps) simp
    moreover have "hash_blocks s a = hash_blocks (compress_block s (take 64 a)) (drop 64 a)"
      using True by (subst hash_blocks.simps) simp
    ultimately show ?thesis by simp
  next
    case False
    then have "length a = 0" using 1(2) by (metis dvd_imp_le gr0I)
    then show ?thesis by (simp add: hash_blocks_short)
  qed
qed

definition rep :: "sha256_ctx \<Rightarrow> byte list \<Rightarrow> bool" where
  "rep c m \<longleftrightarrow> ctx_state c = hash_blocks sha256_initial_hash_value m
     \<and> ctx_bitcount c = of_nat (8 * length m) \<and> length (ctx_buffer c) = 64
     \<and> take (length m mod 64) (ctx_buffer c) = drop (64 * (length m div 64)) m"

lemma rep_Init: "rep sha256_Init []"
  by (simp add: rep_def sha256_Init_def hash_blocks_short)

lemma absorb_simps:
  "length (ctx_buffer c) = 64 \<Longrightarrow> ctx_state (absorb c) = compress_block (ctx_state c) (ctx_buffer c)"
  "ctx_bitcount (absorb c) = ctx_bitcount c"
  "length (ctx_buffer (absorb c)) = 64"
  by (simp_all add: absorb_def Let_def sha256_Transform_eq compress_block_def host_words_eq length_le_bytes)

lemma bitcount_add:
  "of_nat (8 * a) + push_bit 3 (of_nat b) = (of_nat (8 * (a + b)) :: u64)"
  by (simp add: push_bit_eq_mult algebra_simps)

lemma put_bytes_0: "length src \<le> length buf \<Longrightarrow> take (length src) (put_bytes 0 src buf) = src"
  by (simp add: put_bytes_def)

lemma rep_aligned_block:
  assumes "rep c m" and "64 dvd length m" and "length d = 64"
  shows "rep ((absorb (c\<lparr>ctx_buffer := put_bytes 0 d (ctx_buffer c)\<rparr>))
      \<lparr>ctx_bitcount := ctx_bitcount c + push_bit 3 64\<rparr>) (m @ d)"
proof -
  have b: "put_bytes 0 d (ctx_buffer c) = d" using assms by (simp add: rep_def put_bytes_def)
  have "64 dvd length (m @ d)" using assms(2,3) by simp
  then have "length (m @ d) mod 64 = 0" "64 * (length (m @ d) div 64) = length (m @ d)" by auto
  moreover have "ctx_bitcount c + push_bit 3 64 = of_nat (8 * length (m @ d))"
    using assms bitcount_add [of "length m" 64] by (simp add: rep_def)
  moreover have "hash_blocks sha256_initial_hash_value (m @ d) = compress_block (ctx_state c) d"
    using assms hash_blocks_append [OF assms(2)] hash_blocks_block [OF assms(3), of _ "[]"]
    by (simp add: rep_def hash_blocks_short)
  ultimately show ?thesis
    using assms(3) unfolding rep_def by (simp add: b absorb_simps)
qed

lemma rep_update_blocks:
  "rep c m \<Longrightarrow> 64 dvd length m \<Longrightarrow> rep (update_blocks c d) (m @ d)"
proof (induction c d arbitrary: m rule: update_blocks.induct)
  case (1 c d)
  consider "64 \<le> length d" | "length d < 64" "d \<noteq> []" | "d = []" by force
  then show ?case
  proof cases
    case 1
    define x where "x = absorb (c\<lparr>ctx_buffer := put_bytes 0 (take 64 d) (ctx_buffer c)\<rparr>)"
    define y where "y = x\<lparr>ctx_bitcount := ctx_bitcount x + push_bit 3 64\<rparr>"
    have "rep y (m @ take 64 d)"
      using rep_aligned_block [OF "1.prems", of "take 64 d"] 1 by (simp add: x_def y_def absorb_simps)
    moreover have "64 dvd length (m @ take 64 d)" using "1.prems"(2) 1 by simp
    ultimately have "rep (update_blocks y (drop 64 d)) ((m @ take 64 d) @ drop 64 d)"
      unfolding y_def by (rule "1.IH" [OF 1 x_def])
    moreover have "update_blocks c d = update_blocks y (drop 64 d)"
      using 1 by (subst update_blocks.simps) (simp add: Let_def y_def flip: x_def)
    ultimately show ?thesis by simp
  next
    case 2
    have k: "length m = 64 * (length m div 64)" using "1.prems"(2) by simp
    have "(length m + length d) mod 64 = length d" "(length m + length d) div 64 = length m div 64"
      using 2(1) "1.prems"(2) by (auto simp: mod_add_eq elim!: dvdE)
    moreover have "hash_blocks sha256_initial_hash_value (m @ d) = ctx_state c"
      using "1.prems" 2(1) by (simp add: hash_blocks_append hash_blocks_short rep_def)
    moreover have "drop (64 * (length m div 64)) (m @ d) = d" using k by simp
    ultimately show ?thesis
      using "1.prems"(1) 2 bitcount_add [of "length m" "length d"]
      by (subst update_blocks.simps) (simp add: rep_def put_bytes_0)
  next
    case 3
    with "1.prems" show ?thesis by (subst update_blocks.simps) simp
  qed
qed

lemma usedspace_rep: "rep c m \<Longrightarrow> length m < 2 ^ 61 \<Longrightarrow> usedspace c = length m mod 64"
proof -
  assume r: "rep c m" and l: "length m < 2 ^ 61"
  have "unat (of_nat (8 * length m) :: u64) = 8 * length m"
    using l by (subst unat_of_nat) simp
  then have "unat (drop_bit 3 (of_nat (8 * length m) :: u64)) = length m"
    by (simp only: unat_drop_bit) simp
  then show ?thesis using r unfolding usedspace_def rep_def by (simp only: unat_mod_distrib) simp
qed

lemma rep_fill:
  assumes "rep c m" and "length m mod 64 + length d \<le> 64" and "d \<noteq> []"
  defines "c' \<equiv> c\<lparr>ctx_buffer := put_bytes (length m mod 64) d (ctx_buffer c),
      ctx_bitcount := ctx_bitcount c + push_bit 3 (of_nat (length d))\<rparr>"
  shows "take (length m mod 64 + length d) (ctx_buffer c') = drop (64 * (length m div 64)) (m @ d)"
    and "ctx_bitcount c' = of_nat (8 * length (m @ d))" and "length (ctx_buffer c') = 64"
proof -
  have l: "length (ctx_buffer c) = 64" and t: "take (length m mod 64) (ctx_buffer c) = drop (64 * (length m div 64)) m"
    using assms(1) by (auto simp: rep_def)
  have m: "length m mod 64 < 64" by simp
  have "take (length m mod 64 + length d) (put_bytes (length m mod 64) d (ctx_buffer c)) =
      take (length m mod 64) (ctx_buffer c) @ d"
    using l m by (simp add: put_bytes_def)
  then show "take (length m mod 64 + length d) (ctx_buffer c') = drop (64 * (length m div 64)) (m @ d)"
    unfolding c'_def t by simp
  show "ctx_bitcount c' = of_nat (8 * length (m @ d))"
    using assms(1) bitcount_add [of "length m" "length d"] by (simp add: c'_def rep_def)
  show "length (ctx_buffer c') = 64" using l assms(2) by (simp add: c'_def)
qed

lemma aligned_prefix:
  "64 dvd length (take (64 * (length m div 64)) m)"
  "length (drop (64 * (length m div 64)) m) = length m mod 64"
proof -
  have "64 * (length m div 64) \<le> length m" by simp
  then show "64 dvd length (take (64 * (length m div 64)) m)" by (simp add: min_absorb2)
  show "length (drop (64 * (length m div 64)) m) = length m mod 64"
    by (simp add: minus_mult_div_eq_mod)
qed

lemma hash_blocks_tail:
  assumes "length m mod 64 + length x < 64"
  shows "hash_blocks s (m @ x) = hash_blocks s (take (64 * (length m div 64)) m)"
proof -
  let ?a = "take (64 * (length m div 64)) m" and ?b = "drop (64 * (length m div 64)) m"
  have "hash_blocks s (?a @ ?b @ x) = hash_blocks (hash_blocks s ?a) (?b @ x)"
    by (rule hash_blocks_append [OF aligned_prefix(1)])
  moreover have "length (?b @ x) < 64" using assms aligned_prefix(2) [of m] by simp
  ultimately show ?thesis by (simp add: hash_blocks_short flip: append_assoc)
qed

lemma rep_fill_full:
  assumes r: "rep c m" and t: "length t = 64 - length m mod 64"
  defines "c1 \<equiv> c\<lparr>ctx_buffer := put_bytes (length m mod 64) t (ctx_buffer c),
      ctx_bitcount := ctx_bitcount c + push_bit 3 (of_nat (length t))\<rparr>"
  shows "rep (absorb c1) (m @ t) \<and> 64 dvd length (m @ t)"
proof -
  let ?a = "take (64 * (length m div 64)) m" and ?b = "drop (64 * (length m div 64)) m"
  have lt: "length m mod 64 + length t \<le> 64" "t \<noteq> []" using t by auto
  note f = rep_fill [OF r lt, folded c1_def]
  have blk: "length (ctx_buffer c1) = 64" by (rule f(3))
  have "ctx_buffer c1 = ?b @ t" using f(1,3) t by simp
  then have am: "m @ t = ?a @ ctx_buffer c1" by simp
  have st: "ctx_state c1 = hash_blocks sha256_initial_hash_value ?a"
    using r hash_blocks_tail [of m "[]"] by (simp add: c1_def rep_def)
  have h: "hash_blocks sha256_initial_hash_value (m @ t) = compress_block (ctx_state c1) (ctx_buffer c1)"
    unfolding am st using hash_blocks_append [OF aligned_prefix(1)] hash_blocks_block [OF blk, of _ "[]"]
    by (simp add: hash_blocks_short)
  have al: "64 dvd length (m @ t)" unfolding am using aligned_prefix(1) [of m] blk by simp
  then have "length (m @ t) mod 64 = 0" "64 * (length (m @ t) div 64) = length (m @ t)"
    by (auto simp del: length_append)
  with h f(2) have "rep (absorb c1) (m @ t)"
    unfolding rep_def by (simp add: absorb_simps blk del: length_append) simp
  with al show ?thesis by simp
qed

lemma rep_fill_partial:
  assumes r: "rep c m" and d: "length m mod 64 + length d < 64" "d \<noteq> []"
  shows "rep (c\<lparr>ctx_buffer := put_bytes (length m mod 64) d (ctx_buffer c),
      ctx_bitcount := ctx_bitcount c + push_bit 3 (of_nat (length d))\<rparr>) (m @ d)"
proof -
  have "length m mod 64 + length d \<le> 64" using d by simp
  note f = rep_fill [OF r this d(2)]
  have "length (m @ d) = length m mod 64 + length d + 64 * (length m div 64)" by simp
  then have "length (m @ d) mod 64 = length m mod 64 + length d" "length (m @ d) div 64 = length m div 64"
    using d(1) by (simp_all only: mod_mult_self2 mod_less div_mult_self2 div_less)
  moreover have "hash_blocks sha256_initial_hash_value (m @ d) = hash_blocks sha256_initial_hash_value m"
    using hash_blocks_tail [OF d(1)] hash_blocks_tail [of m "[]"] by simp
  ultimately show ?thesis
    using f r by (simp add: rep_def del: length_append)
qed

lemma rep_Update:
  assumes r: "rep c m" and l: "length m < 2 ^ 61"
  shows "rep (sha256_Update c d) (m @ d)"
proof -
  define u where "u = length m mod 64"
  have u: "usedspace c = u" "u < 64" using usedspace_rep [OF r l] by (simp_all add: u_def)
  consider "d = []" | "d \<noteq> []" "u = 0" | "d \<noteq> []" "0 < u" "64 - u \<le> length d"
    | "d \<noteq> []" "0 < u" "length d < 64 - u" by fastforce
  then show ?thesis
  proof cases
    case 1
    with r show ?thesis by (simp add: sha256_Update_def)
  next
    case 2
    then have "64 dvd length m" by (simp add: u_def mod_0_imp_dvd)
    from rep_update_blocks [OF r this, of d] 2 u show ?thesis by (simp add: sha256_Update_def)
  next
    case 3
    let ?t = "take (64 - u) d"
    have lt: "length ?t = 64 - u" using 3 by simp
    from rep_fill_full [OF r lt [unfolded u_def], folded u_def]
    have "rep (update_blocks (absorb (c\<lparr>ctx_buffer := put_bytes u ?t (ctx_buffer c),
        ctx_bitcount := ctx_bitcount c + push_bit 3 (of_nat (length ?t))\<rparr>)) (drop (64 - u) d)) ((m @ ?t) @ drop (64 - u) d)"
      by (intro rep_update_blocks) auto
    with 3 u lt show ?thesis by (simp add: sha256_Update_def Let_def)
  next
    case 4
    with rep_fill_partial [OF r, of d, folded u_def] u show ?thesis
      by (simp add: sha256_Update_def Let_def)
  qed
qed

lemma host_words_with_length:
  assumes "length b = 56"
  shows "host_words 14 b @ [v, w] = map (be_word (b @ be_bytes v @ be_bytes w)) [0..<16]"
proof -
  let ?b = "b @ be_bytes v @ be_bytes w"
  have e: "length (be_bytes x) = 4" for x by (simp add: be_bytes_def)
  have "[0..<16] = [0..<14] @ [14, 15]" by (simp add: upt_rec)
  then have "map (be_word ?b) [0..<16] = host_words 14 ?b @ [be_word ?b 14, be_word ?b 15]"
    by (simp only: map_append host_words_eq) simp
  moreover have "be_word ?b 14 = v"
    by (rule be_word_be_bytes) (simp add: assms nth_append e)
  moreover have "be_word ?b 15 = w"
    by (rule be_word_be_bytes) (simp add: assms nth_append e)
  moreover have "host_words 14 ?b = host_words 14 b"
    using assms by (intro host_words_cong) (simp_all add: e)
  ultimately show ?thesis by simp
qed

lemma ucast_and_low: "ucast (x AND 0xffffffff :: u64) = (ucast x :: u32)"
proof -
  have "(0xffffffff :: u64) = mask 32" by (simp add: mask_eq_exp_minus_1)
  then show ?thesis
    by (intro bit_word_eqI) (simp only: bit_unsigned_iff bit_and_iff bit_mask_iff, auto)
qed

lemma final_digest:
  "le_bytes (map REVERSE32 s) = concat (map be_bytes s)"
  by (induction s) (simp_all add: le_bytes_def WriteLE32_REVERSE32)

lemma length_be_length [simp]: "length (be_length n) = 8"
  by (simp add: be_length_def be_bytes_def)

lemma put_zeros:
  assumes "used \<le> n" and "n \<le> length buf"
  shows "take n (put_bytes used (replicate (n - used) 0) buf) = take used buf @ replicate (n - used) 0"
    and "length (put_bytes used (replicate (n - used) 0) buf) = length buf"
  using assms by (auto simp: put_bytes_def min_def)

lemma take_set_used:
  "u < length buf \<Longrightarrow> take (Suc u) (buf[u := x]) = take u buf @ [x]"
  by (simp add: take_Suc_conv_app_nth)

text \<open>The last block of the padded message, once the preceding ones are absorbed.\<close>

lemma final_block:
  assumes "length b = 56" and "ctx_bitcount c = of_nat (8 * n)"
  shows "le_bytes (map REVERSE32 (sha256_Transform (ctx_state c) (host_words 14 b @
      [ucast (drop_bit 32 (ctx_bitcount c)), ucast (ctx_bitcount c AND 0xffffffff)]))) =
    concat (map be_bytes (hash_blocks (ctx_state c) (b @ be_length n)))"
proof -
  have "hash_blocks (ctx_state c) (b @ be_length n) = compress_block (ctx_state c) (b @ be_length n)"
    using hash_blocks_block [of "b @ be_length n" "ctx_state c" "[]"] assms(1)
    by (simp add: hash_blocks_short)
  then show ?thesis
    unfolding final_digest host_words_with_length [OF assms(1)]
    by (simp add: sha256_Transform_eq compress_block_def be_length_def assms(2) ucast_and_low)
qed

lemma sha256_Final_rep:
  assumes r: "rep c m" and l: "length m < 2 ^ 61"
  shows "sha256_Final c = sha256_spec m"
proof -
  define u where "u = length m mod 64"
  define a b where "a = take (64 * (length m div 64)) m" and "b = drop (64 * (length m div 64)) m"
  have u: "usedspace c = u" "u < 64" using usedspace_rep [OF r l] by (simp_all add: u_def)
  have ab: "64 dvd length a" "m = a @ b" "length b = u"
    using aligned_prefix [of m] by (simp_all add: a_def b_def u_def)
  have st: "ctx_state c = hash_blocks sha256_initial_hash_value a"
    using r hash_blocks_tail [of m "[]"] by (simp add: rep_def a_def)
  have buf: "length (ctx_buffer c) = 64" "take u (ctx_buffer c) = b" "ctx_bitcount c = of_nat (8 * length m)"
    using r by (simp_all add: rep_def u_def b_def)
  let ?buf = "(ctx_buffer c)[u := 0x80]"
  have tb: "take (Suc u) ?buf = b @ [0x80]" using u buf by (simp add: take_set_used)
  have spec: "sha256_spec m = concat (map be_bytes (hash_blocks (ctx_state c)
      (b @ [0x80] @ replicate ((119 - u) mod 64) 0 @ be_length (length m))))"
    unfolding sha256_spec_def sha_pad_def u_def [symmetric]
    using hash_blocks_append [OF ab(1)] ab(2) st by simp
  show ?thesis
  proof (cases "u + 1 > 56")
    case True
    define z where "z = put_bytes (u + 1) (replicate (64 - (u + 1)) 0) ?buf"
    have z: "z = b @ [0x80] @ replicate (63 - u) 0" "length z = 64"
      using put_zeros [of "u + 1" 64 ?buf] buf u tb by (simp_all add: z_def)
    define c1 where "c1 = absorb (c\<lparr>ctx_buffer := z\<rparr>)"
    have c1: "ctx_state c1 = compress_block (ctx_state c) z" "length (ctx_buffer c1) = 64"
      "ctx_bitcount c1 = of_nat (8 * length m)"
      using z buf by (simp_all add: c1_def absorb_simps)
    have z56: "take 56 (put_bytes 0 (replicate 56 0) (ctx_buffer c1)) = replicate 56 0"
      by (simp add: put_bytes_def)
    have "host_words 14 (put_bytes 0 (replicate 56 0) (ctx_buffer c1)) = host_words 14 (replicate 56 0)"
      by (rule host_words_cong) (use z56 c1(2) in \<open>simp_all add: put_bytes_def\<close>)
    then have "sha256_Final c = concat (map be_bytes (hash_blocks (ctx_state c1) (replicate 56 0 @ be_length (length m))))"
      using True u final_block [of "replicate 56 0" c1 "length m"] c1(3)
      by (simp add: sha256_Final_def Let_def z_def c1_def)
    moreover have "replicate ((119 - u) mod 64) 0 = replicate (63 - u) (0 :: byte) @ replicate 56 0"
      using True u by (simp flip: replicate_add)
    ultimately show ?thesis
      unfolding spec using hash_blocks_block [OF z(2)] z(1) c1(1) by simp
  next
    case False
    define z where "z = put_bytes (u + 1) (replicate (56 - (u + 1)) 0) ?buf"
    have z: "take 56 z = b @ [0x80] @ replicate (55 - u) 0" "length z = 64"
      using put_zeros [of "u + 1" 56 ?buf] buf False tb by (simp_all add: z_def)
    have "host_words 14 z = host_words 14 (take 56 z)"
      by (rule host_words_cong) (use z(2) in simp_all)
    then have "sha256_Final c = concat (map be_bytes (hash_blocks (ctx_state c) (take 56 z @ be_length (length m))))"
      using False u final_block [of "take 56 z" c "length m"] buf(3) z(2)
      by (simp add: sha256_Final_def Let_def z_def)
    moreover have "(119 - u) mod 64 = 55 - u" using False by (simp add: mod_if)
    ultimately show ?thesis unfolding spec using z(1) by simp
  qed
qed

lemma rep_Updates:
  "rep c m \<Longrightarrow> length (m @ concat ds) < 2 ^ 61 \<Longrightarrow>
     rep (fold (\<lambda>d c. sha256_Update c d) ds c) (m @ concat ds)"
proof (induction ds arbitrary: c m)
  case (Cons d ds)
  have "rep (sha256_Update c d) (m @ d)" using Cons.prems by (intro rep_Update) auto
  from Cons.IH [OF this] Cons.prems show ?case by simp
qed simp

lemma sha256_Raw_spec: "length m < 2 ^ 61 \<Longrightarrow> sha256_Raw m = sha256_spec m"
  using rep_Updates [OF rep_Init, of "[m]"] sha256_Final_rep by (simp add: sha256_Raw_def)

lemma length_concat_be_bytes [simp]: "length (concat (map be_bytes s)) = 4 * length s"
  by (induction s) (simp_all add: be_bytes_def)

lemma hash_blocks_length: "length s = 8 \<Longrightarrow> length (hash_blocks s m) = 8"
proof (induction s m rule: hash_blocks.induct)
  case (1 s m)
  have "length (compress_block s b) = 8" for b
    by (simp add: compress_block_def sha_compress_def add_regs_def split: prod.splits)
  with 1 show ?case by (subst hash_blocks.simps) simp
qed

lemma sha256_spec_length [simp]: "length (sha256_spec m) = 32"
  using hash_blocks_length [of sha256_initial_hash_value "sha_pad m"]
  by (simp add: sha256_spec_def sha256_initial_hash_value_def)

lemma sha256_Final_length [simp]: "length (sha256_Final c) = 32"
  by (simp add: sha256_Final_def Let_def length_le_bytes split: prod.splits)

lemma sha256_Raw_length [simp]: "length (sha256_Raw m) = 32"
  by (simp add: sha256_Raw_def)

text \<open>
  The unrolled SHA-256 transform that the build compiles and the rolled one it
  replaces both compute the compression function of the standard: the sixteen-word
  ring yields the full message schedule and the register renaming of the unrolled
  rounds is the rotation of the rolled ones.
\<close>

theorem sha256_Transform_correct:
  "sha256_Transform s M = sha_compress s M \<and> sha256_Transform_rolled s M = sha_compress s M"
  by (simp add: sha256_Transform_eq sha256_Transform_rolled_eq)

text \<open>
  C37. Hashing a message through any sequence of \<open>sha256_Update\<close> calls gives the
  digest of the concatenated message: the buffered context equals padding the
  whole message and compressing it block by block, for messages below \<open>2 ^ 61\<close>
  bytes (the range of the 64-bit bit counter).
\<close>

theorem sha256_streaming_correct:
  assumes "length (concat ds) < 2 ^ 61"
  shows "sha256_Final (fold (\<lambda>d c. sha256_Update c d) ds sha256_Init) = sha256_spec (concat ds)
    \<and> length (sha256_spec (concat ds)) = 32"
  using rep_Updates [OF rep_Init, of ds] sha256_Final_rep assms by simp

theorem sha256_streaming_correct_witness:
  "sha256_Final (sha256_Update (sha256_Update sha256_Init (replicate 60 7)) (replicate 70 9)) =
     sha256_spec (replicate 60 7 @ replicate 70 9)"
  using sha256_streaming_correct [of "[replicate 60 7, replicate 70 9]"] by simp

end
