(* ===== verification/Keys.thy ===== *)
theory Keys
  imports Sha256 Arith_Compact
begin

text \<open>
  Signature checking, \<open>src/src/primitives/keys.cpp\<close>: the canonical-scalar test, the
  bounded verification cache and \<open>SecretKey::Verify\<close>, and the hash that binds a
  public key to its noise root. \<open>ed25519_sign_open\<close> (vendored) is the parameter
  \<open>ed_open\<close>. The cache is sound up to SHA-256 collisions, stated as an explicit
  collision and never assumed away.
\<close>

section \<open>Canonical scalars\<close>

definition L_bytes :: "byte list" where
  "L_bytes =
     [0xed, 0xd3, 0xf5, 0x5c, 0x1a, 0x63, 0x12, 0x58, 0xd6, 0x9c, 0xf7, 0xa2, 0xde, 0xf9, 0xde, 0x14,
      0x00, 0x00, 0x00, 0x00, 0x00, 0x00, 0x00, 0x00, 0x00, 0x00, 0x00, 0x00, 0x00, 0x00, 0x00, 0x10]"

text \<open>
  One iteration of the constant-time comparison: the C++ \<open>int\<close>s are integers, the
  casts to \<open>uint8_t\<close> wrap.
\<close>

definition scalar_step :: "byte \<Rightarrow> byte \<Rightarrow> byte \<times> byte \<Rightarrow> byte \<times> byte" where
  "scalar_step s l x = (case x of (borrowed, stillEqual) \<Rightarrow>
     let diff = uint s - uint l;
         borrowed = borrowed OR (of_int (drop_bit 8 diff) AND stillEqual);
         y = uint (s XOR l) - 1
     in (borrowed, stillEqual AND of_int (drop_bit 8 y)))"

definition IsCanonicalSignatureScalar :: "bytes64 \<Rightarrow> bool" where
  "IsCanonicalSignatureScalar sig =
     (let S = drop 32 sig
      in fst (fold (\<lambda>i. scalar_step (S ! i) (L_bytes ! i)) (rev [0..<32]) (0, 1)) \<noteq> 0)"

section \<open>The verification cache\<close>

text \<open>
  \<open>std::map\<close> from 32-byte keys, in key order; \<open>erase(begin())\<close> drops the smallest.
\<close>

type_synonym sig_cache = "(bytes32 \<times> bool) list"

definition cache_Exists :: "sig_cache \<Rightarrow> bytes32 \<Rightarrow> bool" where
  "cache_Exists m k \<longleftrightarrow> map_of m k \<noteq> None"

definition cache_Get :: "sig_cache \<Rightarrow> bytes32 \<Rightarrow> bool result" where
  "cache_Get m k = (case map_of m k of
     Some v \<Rightarrow> Inr v | None \<Rightarrow> Inl (RuntimeError ''Key not found in cache''))"

fun map_assign :: "sig_cache \<Rightarrow> bytes32 \<Rightarrow> bool \<Rightarrow> sig_cache" where
  "map_assign [] k v = [(k, v)]"
| "map_assign ((k', v') # m) k v =
     (if k = k' then (k, v) # m
      else if memcmp_lt k k' then (k, v) # (k', v') # m
      else (k', v') # map_assign m k v)"

definition cache_Put :: "nat \<Rightarrow> sig_cache \<Rightarrow> bytes32 \<Rightarrow> bool \<Rightarrow> sig_cache" where
  "cache_Put maxSize m k v =
     (let m = (if length m \<ge> maxSize \<and> map_of m k = None then tl m else m) in map_assign m k v)"

definition VERIFY_SIG_CACHE_SIZE :: nat where
  "VERIFY_SIG_CACHE_SIZE = 250000"

datatype VerifySigCacheResult = MISS | HIT | NO_LOOKUP

record VerifySigResult =
  valid :: bool
  cacheResult :: VerifySigCacheResult

definition VerifySigCacheKey :: "bytes32 \<Rightarrow> bytes64 \<Rightarrow> byte list \<Rightarrow> bytes32" where
  "VerifySigCacheKey key signature data =
     sha256_Final (sha256_Update (sha256_Update (sha256_Update sha256_Init key) signature) data)"

text \<open>The process-wide cache and its counters.\<close>

record sig_state =
  gVerifySigCache :: sig_cache
  gVerifyCacheHit :: u64
  gVerifyCacheMiss :: u64

definition Verify ::
  "(byte list \<Rightarrow> bytes32 \<Rightarrow> bytes64 \<Rightarrow> bool) \<Rightarrow> sig_state \<Rightarrow> bytes32 \<Rightarrow> bytes64 \<Rightarrow> byte list
     \<Rightarrow> VerifySigResult \<times> sig_state" where
  "Verify ed_open st pubkey signature data =
     (if length signature \<noteq> 64 then (\<lparr>valid = False, cacheResult = NO_LOOKUP\<rparr>, st)
      else if \<not> IsCanonicalSignatureScalar signature then (\<lparr>valid = False, cacheResult = NO_LOOKUP\<rparr>, st)
      else
        let cacheKey = VerifySigCacheKey pubkey signature data
        in case map_of (gVerifySigCache st) cacheKey of
             Some v \<Rightarrow> (\<lparr>valid = v, cacheResult = HIT\<rparr>, st\<lparr>gVerifyCacheHit := gVerifyCacheHit st + 1\<rparr>)
           | None \<Rightarrow>
               let ok = ed_open data pubkey signature;
                   st = st\<lparr>gVerifyCacheMiss := gVerifyCacheMiss st + 1\<rparr>;
                   st = (if ok then st\<lparr>gVerifySigCache :=
                           cache_Put VERIFY_SIG_CACHE_SIZE (gVerifySigCache st) cacheKey ok\<rparr> else st)
               in (\<lparr>valid = ok, cacheResult = MISS\<rparr>, st))"

definition VerifySimple ::
  "(byte list \<Rightarrow> bytes32 \<Rightarrow> bytes64 \<Rightarrow> bool) \<Rightarrow> sig_state \<Rightarrow> bytes32 \<Rightarrow> bytes64 \<Rightarrow> byte list \<Rightarrow> bool" where
  "VerifySimple ed_open st pubkey signature data = valid (fst (Verify ed_open st pubkey signature data))"

definition ClearVerifySigCache :: "sig_state \<Rightarrow> sig_state" where
  "ClearVerifySigCache st = st\<lparr>gVerifySigCache := []\<rparr>"

definition FlushVerifySigCacheCounts :: "sig_state \<Rightarrow> (u64 \<times> u64) \<times> sig_state" where
  "FlushVerifySigCacheCounts st =
     ((gVerifyCacheHit st, gVerifyCacheMiss st), st\<lparr>gVerifyCacheHit := 0, gVerifyCacheMiss := 0\<rparr>)"

definition NoiseBoundHash :: "bytes32 \<Rightarrow> bytes32 \<Rightarrow> bytes32" where
  "NoiseBoundHash pubkey kps = sha256_Final (sha256_Update (sha256_Update sha256_Init pubkey) kps)"

section \<open>Keys\<close>

definition PublicKey_IsZero :: "bytes32 \<Rightarrow> bool" where
  "PublicKey_IsZero key \<longleftrightarrow> all_zero key"

definition PublicKey_IsValid :: "bytes32 \<Rightarrow> bool" where
  "PublicKey_IsValid key \<longleftrightarrow> \<not> PublicKey_IsZero key"

record SecretKey =
  mSecretKey :: bytes64
  mPublicKey :: bytes32

definition SecretKey_init :: SecretKey where
  "SecretKey_init = \<lparr>mSecretKey = zero64, mPublicKey = zero32\<rparr>"

definition GetSeed :: "SecretKey \<Rightarrow> bytes32" where
  "GetSeed sk = take 32 (mSecretKey sk)"

definition GetPublicKey :: "SecretKey \<Rightarrow> bytes32" where
  "GetPublicKey sk = mPublicKey sk"

definition SecretKey_IsZero :: "SecretKey \<Rightarrow> bool" where
  "SecretKey_IsZero sk \<longleftrightarrow> all_zero (mSecretKey sk)"

text \<open>\<open>ed25519_sign\<close> and \<open>ed25519_publickey\<close> are the vendored library's.\<close>

definition SecretKey_Sign :: "(byte list \<Rightarrow> bytes64 \<Rightarrow> bytes64) \<Rightarrow> SecretKey \<Rightarrow> byte list \<Rightarrow> bytes64 result" where
  "SecretKey_Sign ed_sign sk data =
     guard_throw (SecretKey_IsZero sk) (CryptoError ''Cannot sign with zero key'')
       (Inr (ed_sign data (mSecretKey sk)))"

definition FromSeed :: "(bytes32 \<Rightarrow> bytes32) \<Rightarrow> byte list \<Rightarrow> SecretKey result" where
  "FromSeed ed_publickey seed =
     guard_throw (length seed \<noteq> 32) (CryptoError ''Seed must be 32 bytes'') (
     let pk = ed_publickey seed in Inr \<lparr>mSecretKey = seed @ pk, mPublicKey = pk\<rparr>)"

section \<open>The scalar test decides \<open>S < L\<close>\<close>

text \<open>The value of a little-endian byte string.\<close>

definition le_val :: "byte list \<Rightarrow> nat" where
  "le_val bs = be_val (rev bs)"

lemma drop8_neg: "- 256 \<le> d \<Longrightarrow> d < 0 \<Longrightarrow> drop_bit 8 d = (- 1 :: int)"
  using int_div_pos_eq [of d 256 "- 1" "d + 256"] by (simp add: drop_bit_eq_div)

lemma drop8_nonneg: "0 \<le> d \<Longrightarrow> d < 256 \<Longrightarrow> drop_bit 8 d = (0 :: int)"
  by (simp add: drop_bit_eq_div)

lemma uint8_bounds: "0 \<le> uint (x :: byte)" "uint x < 256"
  using unsigned_less [of x, where ?'a = int] by simp_all

lemma scalar_step_done: "scalar_step s l (b, 0) = (b, 0)"
  by (simp add: scalar_step_def)

lemma scalar_step_cases:
  assumes "b = 0 \<or> b = 1"
  shows "scalar_step s l (b, 1) =
    (if s < l then (1, 0) else if s = l then (b, 1) else (b, 0))"
proof -
  note ub = uint8_bounds [of s] uint8_bounds [of l] uint8_bounds [of "s XOR l"]
  have "s = l" if "s XOR l = 0"
  proof -
    have "s = (s XOR l) XOR l" by (simp add: xor.assoc)
    with that show ?thesis by simp
  qed
  then have x: "uint (s XOR l) = 0 \<longleftrightarrow> s = l" by (auto simp: uint_0_iff)
  consider "s < l" | "s = l" | "l < s" by fastforce
  then show ?thesis
  proof cases
    case 1
    then have "uint s < uint l" "s \<noteq> l" by (auto simp: word_less_def)
    have "drop_bit 8 (uint s - uint l) = - 1"
      by (rule drop8_neg) (use ub \<open>uint s < uint l\<close> in linarith)+
    moreover have "drop_bit 8 (uint (s XOR l) - 1) = 0"
      by (rule drop8_nonneg) (use ub x \<open>s \<noteq> l\<close> in linarith)+
    ultimately have "drop_bit 8 (uint s - uint l) = - 1" "drop_bit 8 (uint (s XOR l) - 1) = 0" .
    with 1 assms show ?thesis by (auto simp: scalar_step_def Let_def)
  next
    case 2
    have "drop_bit 8 (- 1 :: int) = - 1" by (rule drop8_neg) simp_all
    with 2 show ?thesis by (simp add: scalar_step_def Let_def)
  next
    case 3
    then have "uint l < uint s" "s \<noteq> l" by (auto simp: word_less_def)
    have "drop_bit 8 (uint s - uint l) = 0"
      by (rule drop8_nonneg) (use ub \<open>uint l < uint s\<close> in linarith)+
    moreover have "drop_bit 8 (uint (s XOR l) - 1) = 0"
      by (rule drop8_nonneg) (use ub x \<open>s \<noteq> l\<close> in linarith)+
    ultimately have "drop_bit 8 (uint s - uint l) = 0" "drop_bit 8 (uint (s XOR l) - 1) = 0" .
    with 3 show ?thesis by (auto simp: scalar_step_def Let_def)
  qed
qed

text \<open>
  The loop runs from the most significant byte, so on the reversed strings it is a
  left-to-right lexicographic comparison.
\<close>

fun scalar_fold :: "byte list \<Rightarrow> byte list \<Rightarrow> byte \<times> byte \<Rightarrow> byte \<times> byte" where
  "scalar_fold (s # ss) (l # ls) x = scalar_fold ss ls (scalar_step s l x)"
| "scalar_fold _ _ x = x"

lemma scalar_fold_done: "scalar_fold ss ls (b, 0) = (b, 0)"
  by (induction ss ls "(b, 0 :: byte)" rule: scalar_fold.induct) (simp_all add: scalar_step_done)

lemma scalar_fold_lt:
  "length ss = length ls \<Longrightarrow> fst (scalar_fold ss ls (0, 1)) = (if memcmp_lt ss ls then 1 else 0)"
  by (induction ss ls rule: list_induct2) (auto simp: scalar_step_cases scalar_fold_done)

lemma scalar_fold_rev:
  assumes "length S = n" and "length L = n"
  shows "fold (\<lambda>i. scalar_step (S ! i) (L ! i)) (rev [0..<n]) x = scalar_fold (rev S) (rev L) x"
  using assms
proof (induction n arbitrary: S L x)
  case (Suc n)
  obtain S' s where S: "S = S' @ [s]" "length S' = n"
    using Suc.prems(1) by (auto simp: length_Suc_conv_rev)
  obtain L' l where L: "L = L' @ [l]" "length L' = n"
    using Suc.prems(2) by (auto simp: length_Suc_conv_rev)
  have "fold (\<lambda>i. scalar_step (S ! i) (L ! i)) (rev [0..<n]) y =
      fold (\<lambda>i. scalar_step (S' ! i) (L' ! i)) (rev [0..<n]) y" for y
    by (rule fold_cong) (auto simp: S L nth_append)
  with Suc.IH [OF S(2) L(2)] show ?case using S(2) L(2) by (simp add: S(1) L(1) nth_append)
qed simp

lemma canonical_le_val:
  assumes "is_bytes64 sig"
  shows "IsCanonicalSignatureScalar sig \<longleftrightarrow>
    le_val (drop 32 sig) < 2 ^ 252 + 27742317777372353535851937790883648493"
proof -
  have l: "length (drop 32 sig) = 32" "length L_bytes = 32" using assms by (simp_all add: L_bytes_def)
  then have r: "length (rev (drop 32 sig)) = length (rev L_bytes)" by simp
  have "IsCanonicalSignatureScalar sig \<longleftrightarrow> memcmp_lt (rev (drop 32 sig)) (rev L_bytes)"
    unfolding IsCanonicalSignatureScalar_def Let_def scalar_fold_rev [OF l] scalar_fold_lt [OF r]
    by simp
  also have "\<dots> \<longleftrightarrow> le_val (drop 32 sig) < le_val L_bytes"
    unfolding le_val_def by (rule memcmp_lt_be_val [OF r])
  also have "le_val L_bytes = 2 ^ 252 + 27742317777372353535851937790883648493"
    by (simp add: le_val_def L_bytes_def be_val_def)
  finally show ?thesis .
qed

lemma be_val_replicate_0: "be_val (replicate n 0) = 0"
  by (induction n) (simp_all add: be_val_Cons)

lemma canonical_zero64: "IsCanonicalSignatureScalar zero64"
proof -
  have "le_val (drop 32 zero64) = 0"
    by (simp only: zero64_def drop_replicate le_val_def rev_replicate be_val_replicate_0)
  moreover have "is_bytes64 zero64" by (simp only: zero64_def length_replicate)
  ultimately show ?thesis by (simp only: canonical_le_val)
qed

text \<open>
  The branch-free signature-scalar test accepts exactly the signatures whose
  second half, read little-endian, is below the Ed25519 group order
  \<open>2 ^ 252 + 27742317777372353535851937790883648493\<close>.
\<close>

theorem IsCanonicalSignatureScalar_iff:
  assumes "is_bytes64 sig"
  shows "IsCanonicalSignatureScalar sig \<longleftrightarrow>
    le_val (drop 32 sig) < 2 ^ 252 + 27742317777372353535851937790883648493"
  using assms by (rule canonical_le_val)

theorem IsCanonicalSignatureScalar_iff_witness:
  "IsCanonicalSignatureScalar (replicate 32 0 @ L_bytes[0 := 0xec]) \<and>
   \<not> IsCanonicalSignatureScalar (replicate 32 0 @ L_bytes)"
proof -
  have l: "is_bytes64 (replicate 32 0 @ L_bytes[0 := 0xec])" "is_bytes64 (replicate 32 0 @ L_bytes)"
    by (simp_all add: L_bytes_def)
  have "le_val (L_bytes[0 := 0xec]) < 2 ^ 252 + 27742317777372353535851937790883648493"
    by (simp add: le_val_def L_bytes_def be_val_def)
  moreover have "\<not> le_val L_bytes < 2 ^ 252 + 27742317777372353535851937790883648493"
    by (simp add: le_val_def L_bytes_def be_val_def)
  ultimately show ?thesis
    using IsCanonicalSignatureScalar_iff [OF l(1)] IsCanonicalSignatureScalar_iff [OF l(2)] by simp
qed

section \<open>Soundness of the verification cache\<close>

definition sha256_collision :: "byte list \<Rightarrow> byte list \<Rightarrow> bool" where
  "sha256_collision a b \<longleftrightarrow> a \<noteq> b \<and> sha256_spec a = sha256_spec b"

lemma VerifySigCacheKey_spec:
  assumes "length (pk @ s @ d) < 2 ^ 61"
  shows "VerifySigCacheKey pk s d = sha256_spec (pk @ s @ d)"
proof -
  have "rep (fold (\<lambda>d c. sha256_Update c d) [pk, s, d] sha256_Init) (pk @ s @ d)"
    using rep_Updates [OF rep_Init, of "[pk, s, d]"] assms by simp
  from sha256_Final_rep [OF this assms] show ?thesis by (simp add: VerifySigCacheKey_def)
qed

text \<open>
  What a call may be given: the C++ types fix the key and signature sizes, and a
  message is shorter than the range of the hash's bit counter.
\<close>

definition sig_call :: "bytes32 \<Rightarrow> bytes64 \<Rightarrow> byte list \<Rightarrow> bool" where
  "sig_call pk s d \<longleftrightarrow> is_bytes32 pk \<and> is_bytes64 s \<and> length d < 2 ^ 60"

lemma sig_call_key: "sig_call pk s d \<Longrightarrow> VerifySigCacheKey pk s d = sha256_spec (pk @ s @ d)"
  by (rule VerifySigCacheKey_spec) (simp add: sig_call_def)

lemma sig_call_inj:
  "sig_call pk s d \<Longrightarrow> sig_call pk' s' d' \<Longrightarrow> pk @ s @ d = pk' @ s' @ d' \<Longrightarrow>
     pk = pk' \<and> s = s' \<and> d = d'"
  by (simp add: sig_call_def)

text \<open>
  Every way the process can touch the cache, with the messages verified so far, each
  as the byte string its cache key hashes.
\<close>

inductive sig_reach :: "(byte list \<Rightarrow> bytes32 \<Rightarrow> bytes64 \<Rightarrow> bool) \<Rightarrow> byte list list \<Rightarrow> sig_state \<Rightarrow> bool"
  for ed_open where
  init: "sig_reach ed_open [] \<lparr>gVerifySigCache = [], gVerifyCacheHit = 0, gVerifyCacheMiss = 0\<rparr>"
| verify: "sig_reach ed_open seen st \<Longrightarrow> sig_call pk s d \<Longrightarrow>
    sig_reach ed_open ((pk @ s @ d) # seen) (snd (Verify ed_open st pk s d))"
| clear: "sig_reach ed_open seen st \<Longrightarrow> sig_reach ed_open seen (ClearVerifySigCache st)"
| flush: "sig_reach ed_open seen st \<Longrightarrow> sig_reach ed_open seen (snd (FlushVerifySigCacheCounts st))"

text \<open>Each cached verdict is positive and was computed for an earlier call with that key.\<close>

definition entry_ok ::
  "(byte list \<Rightarrow> bytes32 \<Rightarrow> bytes64 \<Rightarrow> bool) \<Rightarrow> byte list list \<Rightarrow> bytes32 \<times> bool \<Rightarrow> bool" where
  "entry_ok ed_open seen e \<longleftrightarrow> snd e \<and> (\<exists>pk s d. sig_call pk s d \<and> IsCanonicalSignatureScalar s \<and>
     ed_open d pk s \<and> pk @ s @ d \<in> set seen \<and> fst e = sha256_spec (pk @ s @ d))"

definition cache_inv ::
  "(byte list \<Rightarrow> bytes32 \<Rightarrow> bytes64 \<Rightarrow> bool) \<Rightarrow> byte list list \<Rightarrow> sig_cache \<Rightarrow> bool" where
  "cache_inv ed_open seen m \<longleftrightarrow>
     length m \<le> VERIFY_SIG_CACHE_SIZE \<and> (\<forall>e \<in> set m. entry_ok ed_open seen e)"

lemma cache_inv_mono: "cache_inv ed_open seen m \<Longrightarrow> cache_inv ed_open (x # seen) m"
  unfolding cache_inv_def entry_ok_def by fastforce

lemma set_map_assign: "set (map_assign m k v) \<subseteq> insert (k, v) (set m)"
  by (induction m k v rule: map_assign.induct) auto

lemma length_map_assign: "length (map_assign m k v) \<le> Suc (length m)"
  by (induction m k v rule: map_assign.induct) auto

lemma set_tl: "set (tl xs) \<subseteq> set xs"
  by (cases xs) auto

lemma cache_Put_inv:
  assumes "cache_inv ed_open seen m" and "map_of m k = None" and "entry_ok ed_open seen (k, v)"
  shows "cache_inv ed_open seen (cache_Put VERIFY_SIG_CACHE_SIZE m k v)"
proof -
  define m' where "m' = (if length m \<ge> VERIFY_SIG_CACHE_SIZE then tl m else m)"
  have p: "cache_Put VERIFY_SIG_CACHE_SIZE m k v = map_assign m' k v"
    using assms(2) by (simp add: cache_Put_def m'_def Let_def)
  have "set m' \<subseteq> set m" using set_tl [of m] by (auto simp: m'_def)
  moreover have "length m' < VERIFY_SIG_CACHE_SIZE"
    using assms(1) by (auto simp: m'_def cache_inv_def VERIFY_SIG_CACHE_SIZE_def)
  ultimately show ?thesis
    using assms(1,3) set_map_assign [of m' k v] length_map_assign [of m' k v]
    unfolding cache_inv_def p by fastforce
qed

lemma Verify_cache:
  assumes "cache_inv ed_open seen (gVerifySigCache st)" and "sig_call pk s d"
  shows "cache_inv ed_open ((pk @ s @ d) # seen) (gVerifySigCache (snd (Verify ed_open st pk s d)))"
proof (cases "IsCanonicalSignatureScalar s \<and> map_of (gVerifySigCache st) (VerifySigCacheKey pk s d) = None
    \<and> ed_open d pk s")
  case True
  then have "entry_ok ed_open ((pk @ s @ d) # seen) (VerifySigCacheKey pk s d, True)"
    using assms(2) by (auto simp: entry_ok_def sig_call_key)
  with cache_Put_inv [OF cache_inv_mono [OF assms(1)] _ this] True assms(2) show ?thesis
    by (simp add: Verify_def Let_def sig_call_def)
next
  case False
  with cache_inv_mono [OF assms(1)] show ?thesis by (auto simp: Verify_def Let_def split: option.splits)
qed

lemma sig_reach_inv: "sig_reach ed_open seen st \<Longrightarrow> cache_inv ed_open seen (gVerifySigCache st)"
proof (induction rule: sig_reach.induct)
  case init
  show ?case by (simp add: cache_inv_def)
next
  case (verify seen st pk s d)
  then show ?case by (simp add: Verify_cache)
next
  case (clear seen st)
  show ?case by (simp add: ClearVerifySigCache_def cache_inv_def)
next
  case (flush seen st)
  then show ?case by (simp add: FlushVerifySigCacheCounts_def)
qed

lemma Verify_valid_iff:
  "sig_call pk s d \<Longrightarrow> VerifySimple ed_open st pk s d \<longleftrightarrow> IsCanonicalSignatureScalar s \<and>
     (case map_of (gVerifySigCache st) (VerifySigCacheKey pk s d) of
        None \<Rightarrow> ed_open d pk s | Some v \<Rightarrow> v)"
  by (auto simp: VerifySimple_def Verify_def Let_def sig_call_def split: option.splits)

section \<open>The signature interface\<close>

text \<open>
  What the rest of the node relies on when it asks \<open>SecretKey::VerifySimple\<close>: true
  signatures pass, and a passing signature is canonical and true unless the hash
  function has been broken by an exhibited pair of messages.
\<close>

locale signature_check =
  fixes verify :: "bytes32 \<Rightarrow> bytes64 \<Rightarrow> byte list \<Rightarrow> bool"
    and ed_open :: "byte list \<Rightarrow> bytes32 \<Rightarrow> bytes64 \<Rightarrow> bool"
    and seen :: "byte list list"
  assumes verify_complete:
      "sig_call pk s d \<Longrightarrow> IsCanonicalSignatureScalar s \<Longrightarrow> ed_open d pk s \<Longrightarrow> verify pk s d"
    and verify_sound:
      "sig_call pk s d \<Longrightarrow> verify pk s d \<Longrightarrow> IsCanonicalSignatureScalar s \<and>
         (ed_open d pk s \<or> (\<exists>m \<in> set seen. sha256_collision (pk @ s @ d) m))"
begin

lemma verify_iff:
  assumes "sig_call pk s d" and "\<forall>m \<in> set seen. \<not> sha256_collision (pk @ s @ d) m"
  shows "verify pk s d \<longleftrightarrow> IsCanonicalSignatureScalar s \<and> ed_open d pk s"
  using assms verify_complete verify_sound by blast

end

lemma signature_check_cached:
  assumes "cache_inv ed_open seen (gVerifySigCache st)"
  shows "signature_check (VerifySimple ed_open st) ed_open seen"
proof
  fix pk s d
  assume c: "sig_call pk s d"
  have e: "entry_ok ed_open seen (VerifySigCacheKey pk s d, v)"
    if "map_of (gVerifySigCache st) (VerifySigCacheKey pk s d) = Some v" for v
    using assms map_of_SomeD [OF that] by (auto simp: cache_inv_def)
  show "VerifySimple ed_open st pk s d" if "IsCanonicalSignatureScalar s" and "ed_open d pk s"
    using that e by (auto simp: Verify_valid_iff [OF c] entry_ok_def split: option.splits)
  show "IsCanonicalSignatureScalar s \<and> (ed_open d pk s \<or> (\<exists>m \<in> set seen. sha256_collision (pk @ s @ d) m))"
    if v: "VerifySimple ed_open st pk s d"
  proof (cases "map_of (gVerifySigCache st) (VerifySigCacheKey pk s d)")
    case None
    with v show ?thesis by (simp add: Verify_valid_iff [OF c])
  next
    case (Some w)
    from e [OF Some] obtain pk' s' d' where c': "sig_call pk' s' d'" "ed_open d' pk' s'" "pk' @ s' @ d' \<in> set seen"
      and k: "sha256_spec (pk @ s @ d) = sha256_spec (pk' @ s' @ d')"
      by (auto simp: entry_ok_def sig_call_key [OF c])
    have "ed_open d pk s \<or> sha256_collision (pk @ s @ d) (pk' @ s' @ d')"
      using k sig_call_inj [OF c c'(1)] c'(2) by (auto simp: sha256_collision_def)
    with v c'(3) show ?thesis by (auto simp: Verify_valid_iff [OF c])
  qed
qed

text \<open>The contract holds of the cache-free verifier and, below, of every reachable cache.\<close>

interpretation fresh_cache: signature_check
  "VerifySimple ed_open \<lparr>gVerifySigCache = [], gVerifyCacheHit = h, gVerifyCacheMiss = m\<rparr>" ed_open "[]"
  for ed_open h m
  by (rule signature_check_cached) (simp add: cache_inv_def)

text \<open>
  C33. In every reachable state of the signature cache, whatever was verified, cleared
  or flushed before, the verdict on a signature is the one of the uncached check: a
  canonical signature that Ed25519 accepts is accepted, and an accepted one is
  canonical and accepted by Ed25519, or its message and one verified earlier are a
  SHA-256 collision.
  The cache never exceeds its 250000 entries.
\<close>

theorem Verify_cache_sound:
  assumes "sig_reach ed_open seen st" and "sig_call pk s d"
  shows "(IsCanonicalSignatureScalar s \<and> ed_open d pk s \<longrightarrow> VerifySimple ed_open st pk s d) \<and>
    (VerifySimple ed_open st pk s d \<longrightarrow> IsCanonicalSignatureScalar s \<and>
       (ed_open d pk s \<or> (\<exists>m \<in> set seen. sha256_collision (pk @ s @ d) m))) \<and>
    length (gVerifySigCache (snd (Verify ed_open st pk s d))) \<le> 250000"
proof -
  note inv = sig_reach_inv [OF assms(1)]
  note laws = signature_check_cached [OF inv]
  have "cache_inv ed_open ((pk @ s @ d) # seen) (gVerifySigCache (snd (Verify ed_open st pk s d)))"
    by (rule Verify_cache [OF inv assms(2)])
  then show ?thesis
    using signature_check.verify_complete [OF laws assms(2)]
      signature_check.verify_sound [OF laws assms(2)]
    by (simp add: cache_inv_def VERIFY_SIG_CACHE_SIZE_def)
qed

theorem Verify_cache_sound_witness:
  "let st = \<lparr>gVerifySigCache = [], gVerifyCacheHit = 0, gVerifyCacheMiss = 0\<rparr>;
       ed = (\<lambda>d pk s. d = [1, 2, 3])
   in VerifySimple ed (snd (Verify ed st zero32 zero64 [1, 2, 3])) zero32 zero64 [1, 2, 3]"
proof -
  let ?st = "\<lparr>gVerifySigCache = [], gVerifyCacheHit = 0, gVerifyCacheMiss = 0\<rparr> :: sig_state"
  let ?ed = "\<lambda>d (pk :: bytes32) (s :: bytes64). d = [1, 2, 3 :: byte]"
  have c: "sig_call zero32 zero64 [1, 2, 3]" by (simp add: sig_call_def zero32_def zero64_def)
  have "sig_reach ?ed [zero32 @ zero64 @ [1, 2, 3]] (snd (Verify ?ed ?st zero32 zero64 [1, 2, 3]))"
    by (intro sig_reach.intros c)
  moreover have "IsCanonicalSignatureScalar zero64" by (rule canonical_zero64)
  ultimately show ?thesis
    using Verify_cache_sound [of ?ed _ _ zero32 zero64 "[1, 2, 3]"] c by simp
qed

end
