(* ===== verification/Transaction.thy ===== *)
theory Transaction
  imports Keys Script Chain_Params
begin

text \<open>
  Transactions, \<open>src/src/primitives/transaction.cpp\<close>: inputs, outputs, their wire
  formats, the cached transaction hash, value sums, signature hashes and their
  verification, signing and the builder. \<open>int64_t\<close> amounts are integers with the range
  written out. Signature verification (\<open>SecretKey::VerifySimple\<close>) is an argument
  \<open>verify\<close>, used through the contract \<open>signature_check\<close>; Ed25519 signing is the
  argument \<open>ed_sign\<close>.
\<close>

section \<open>Data\<close>

definition INT64_MAX :: int where
  "INT64_MAX = 2 ^ 63 - 1"

definition MAX_TX_SIZE :: nat where
  "MAX_TX_SIZE = 100000"

definition MAX_INPUTS :: nat where
  "MAX_INPUTS = 1000"

definition MAX_OUTPUTS :: nat where
  "MAX_OUTPUTS = 1000"

definition CURRENT_VERSION :: u32 where
  "CURRENT_VERSION = 1"

record TxInput =
  mPrevTxHash :: bytes32
  mOutputIndex :: u32
  mPubkey :: bytes32
  mSignature :: bytes64
  mKps :: bytes32
  mNoiseProof :: "byte list"

record TxOutput =
  mValue :: int
  mScriptPubKey :: script

record Transaction =
  mVersion :: u32
  mInputs :: "TxInput list"
  mOutputs :: "TxOutput list"
  mLocktime :: u64
  mTxHash :: bytes32
  mHashCached :: bool

section \<open>Inputs\<close>

definition TxInput_init :: TxInput where
  "TxInput_init = \<lparr>mPrevTxHash = zero32, mOutputIndex = 0, mPubkey = zero32, mSignature = zero64,
     mKps = zero32, mNoiseProof = []\<rparr>"

definition mk_TxInput :: "bytes32 \<Rightarrow> u32 \<Rightarrow> bytes32 \<Rightarrow> bytes64 \<Rightarrow> TxInput" where
  "mk_TxInput prevTxHash outputIndex pubkey signature =
     \<lparr>mPrevTxHash = prevTxHash, mOutputIndex = outputIndex, mPubkey = pubkey, mSignature = signature,
      mKps = zero32, mNoiseProof = []\<rparr>"

definition TxInput_IsValid :: "TxInput \<Rightarrow> bool" where
  "TxInput_IsValid i =
     (if all_zero (mPrevTxHash i) \<and> mOutputIndex i = 0xFFFFFFFF then True
      else \<not> all_zero (mPubkey i))"

definition TxInput_GetSerializedSize :: "bool \<Rightarrow> TxInput \<Rightarrow> nat" where
  "TxInput_GetSerializedSize withNoiseProof i =
     (let base = 32 + 4 + 32 + 64 + 32
      in if withNoiseProof then base + (4 + length (mNoiseProof i)) else base)"

definition TxInput_Serialize :: "bool \<Rightarrow> TxInput \<Rightarrow> byte list" where
  "TxInput_Serialize withNoiseProof i =
     mPrevTxHash i @ WriteLE32 (mOutputIndex i) @ mPubkey i @ mSignature i @ mKps i @
     (if withNoiseProof then WriteLE32 (of_nat (length (mNoiseProof i))) @ mNoiseProof i else [])"

definition TxInput_Deserialize :: "byte list \<Rightarrow> nat \<Rightarrow> (TxInput \<times> nat) result" where
  "TxInput_Deserialize data offset =
     guard_throw (offset + 168 > length data) (CryptoError ''Insufficient data for TxInput'') (
     rbind (rd_bytes 32 data offset) (\<lambda>prevTxHash. let offset = offset + 32 in
     rbind (ReadLE32 data offset) (\<lambda>(outputIndex, offset).
     rbind (rd_bytes 32 data offset) (\<lambda>pubkey. let offset = offset + 32 in
     rbind (rd_bytes 64 data offset) (\<lambda>signature. let offset = offset + 64 in
     rbind (rd_bytes 32 data offset) (\<lambda>kps. let offset = offset + 32 in
     rbind (ReadLE32 data offset) (\<lambda>(proofLen, offset).
     guard_throw (unat proofLen > MAX_TX_SIZE) (CryptoError ''NoiseProof length implausible'') (
     guard_throw (offset + unat proofLen > length data)
       (CryptoError ''Insufficient data for TxInput noise proof'') (
     rbind (if proofLen > 0 then rd_bytes (unat proofLen) data offset else Inr []) (\<lambda>proof.
       Inr (\<lparr>mPrevTxHash = prevTxHash, mOutputIndex = outputIndex, mPubkey = pubkey,
             mSignature = signature, mKps = kps, mNoiseProof = proof\<rparr>,
            if proofLen > 0 then offset + unat proofLen else offset)))))))))))"

section \<open>Outputs\<close>

definition TxOutput_init :: TxOutput where
  "TxOutput_init = \<lparr>mValue = 0, mScriptPubKey = []\<rparr>"

definition mk_TxOutput :: "int \<Rightarrow> bytes32 \<Rightarrow> TxOutput" where
  "mk_TxOutput value pubkeyHash = \<lparr>mValue = value, mScriptPubKey = CreatePayToPubkeyHash pubkeyHash\<rparr>"

definition GetPubkeyHash :: "TxOutput \<Rightarrow> bytes32" where
  "GetPubkeyHash out = (case ExtractPubkeyHash (mScriptPubKey out) of Some hash \<Rightarrow> hash | None \<Rightarrow> zero32)"

definition SetPubkeyHash :: "bytes32 \<Rightarrow> TxOutput \<Rightarrow> TxOutput" where
  "SetPubkeyHash hash out = out\<lparr>mScriptPubKey := CreatePayToPubkeyHash hash\<rparr>"

definition TxOutput_IsValid :: "TxOutput \<Rightarrow> bool" where
  "TxOutput_IsValid out =
     (if mValue out < 0 then False
      else if mScriptPubKey out = [] then False
      else if length (mScriptPubKey out) > MAX_SCRIPT_SIZE then False
      else True)"

definition IsDust :: "TxOutput \<Rightarrow> bool" where
  "IsDust out =
     (if IsUnspendable (mScriptPubKey out) then False
      else mValue out < DUST_THRESHOLD \<and> mValue out > 0)"

definition WriteCompactSize :: "u64 \<Rightarrow> byte list" where
  "WriteCompactSize value =
     (if value < 253 then [ucast value]
      else if value \<le> 0xffff then [253, ucast (value AND 0xff), ucast (drop_bit 8 value AND 0xff)]
      else if value \<le> 0xffffffff then [254] @ WriteLE32 (ucast value)
      else [255] @ WriteLE64 value)"

definition CompactSizeLen :: "u64 \<Rightarrow> nat" where
  "CompactSizeLen value =
     (if value < 253 then 1 else if value \<le> 0xffff then 3 else if value \<le> 0xffffffff then 5 else 9)"

definition ReadCompactSize :: "byte list \<Rightarrow> nat \<Rightarrow> (u64 \<times> nat) result" where
  "ReadCompactSize data offset =
     guard_throw (offset + 1 > length data) (CryptoError ''Insufficient data for CompactSize'') (
     rbind (rd8 data offset) (\<lambda>first. let offset = offset + 1 in
     if first < 253 then Inr (ucast first, offset)
     else if first = 253 then
       guard_throw (offset + 2 > length data) (CryptoError ''Insufficient data for CompactSize'') (
       rbind (rd8 data offset) (\<lambda>b0. rbind (rd8 data (offset + 1)) (\<lambda>b1.
         Inr (ucast b0 OR push_bit 8 (ucast b1), offset + 2))))
     else if first = 254 then
       guard_throw (offset + 4 > length data) (CryptoError ''Insufficient data for CompactSize'') (
       rbind (ReadLE32 data offset) (\<lambda>(v, offset). Inr (ucast v, offset)))
     else
       guard_throw (offset + 8 > length data) (CryptoError ''Insufficient data for CompactSize'') (
       ReadLE64 data offset)))"

definition TxOutput_GetSerializedSize :: "TxOutput \<Rightarrow> nat" where
  "TxOutput_GetSerializedSize out =
     8 + CompactSizeLen (of_nat (length (mScriptPubKey out))) + length (mScriptPubKey out)"

definition TxOutput_Serialize :: "TxOutput \<Rightarrow> byte list" where
  "TxOutput_Serialize out =
     WriteLE64 (of_int (mValue out)) @ WriteCompactSize (of_nat (length (mScriptPubKey out))) @
     mScriptPubKey out"

definition TxOutput_Deserialize :: "byte list \<Rightarrow> nat \<Rightarrow> (TxOutput \<times> nat) result" where
  "TxOutput_Deserialize data offset =
     guard_throw (offset + 8 > length data) (CryptoError ''Insufficient data for TxOutput'') (
     rbind (ReadLE64 data offset) (\<lambda>(v, offset). let value = sint v in
     guard_throw (value < 0) (CryptoError ''Negative output value'') (
     rbind (ReadCompactSize data offset) (\<lambda>(scriptLen, offset).
     guard_throw (unat scriptLen > MAX_SCRIPT_SIZE)
       (CryptoError ''scriptPubKey exceeds maximum script size'') (
     guard_throw (offset + unat scriptLen > length data)
       (CryptoError ''Insufficient data for scriptPubKey'') (
     rbind (rd_bytes (unat scriptLen) data offset) (\<lambda>script.
       Inr (\<lparr>mValue = value, mScriptPubKey = script\<rparr>, offset + unat scriptLen))))))))"

section \<open>Transactions\<close>

definition Transaction_init :: "u32 \<Rightarrow> Transaction" where
  "Transaction_init version =
     \<lparr>mVersion = version, mInputs = [], mOutputs = [], mLocktime = 0, mTxHash = zero32, mHashCached = False\<rparr>"

definition Transaction_GetSerializedSize :: "bool \<Rightarrow> Transaction \<Rightarrow> nat" where
  "Transaction_GetSerializedSize withNoiseProof tx =
     4 + 4 + (\<Sum>i \<leftarrow> mInputs tx. TxInput_GetSerializedSize withNoiseProof i) + 4 +
     (\<Sum>out \<leftarrow> mOutputs tx. TxOutput_GetSerializedSize out) + 8"

definition Transaction_Serialize :: "bool \<Rightarrow> Transaction \<Rightarrow> byte list" where
  "Transaction_Serialize withNoiseProof tx =
     WriteLE32 (mVersion tx) @
     WriteLE32 (of_nat (length (mInputs tx))) @
     concat (map (TxInput_Serialize withNoiseProof) (mInputs tx)) @
     WriteLE32 (of_nat (length (mOutputs tx))) @
     concat (map TxOutput_Serialize (mOutputs tx)) @
     WriteLE64 (mLocktime tx)"

definition Transaction_Deserialize :: "byte list \<Rightarrow> Transaction result" where
  "Transaction_Deserialize data =
     guard_throw (length data < 20) (CryptoError ''Transaction data too short'') (
     rbind (ReadLE32 data 0) (\<lambda>(version, offset).
     rbind (ReadLE32 data offset) (\<lambda>(inputCount, offset).
     guard_throw (unat inputCount > MAX_INPUTS) (CryptoError ''Too many inputs'') (
     rbind (dec_n TxInput_Deserialize (unat inputCount) data offset) (\<lambda>(inputs, offset).
     guard_throw (offset + 4 > length data) (CryptoError ''Insufficient data for output count'') (
     rbind (ReadLE32 data offset) (\<lambda>(outputCount, offset).
     guard_throw (unat outputCount > MAX_OUTPUTS) (CryptoError ''Too many outputs'') (
     rbind (dec_n TxOutput_Deserialize (unat outputCount) data offset) (\<lambda>(outputs, offset).
     guard_throw (offset + 8 > length data) (CryptoError ''Insufficient data for locktime'') (
     rbind (ReadLE64 data offset) (\<lambda>(locktime, offset).
       Inr \<lparr>mVersion = version, mInputs = inputs, mOutputs = outputs, mLocktime = locktime,
            mTxHash = zero32, mHashCached = False\<rparr>)))))))))))"

text \<open>
  The hash is cached in \<open>mutable\<close> members; \<open>GetHash\<close> returns the transaction with its
  cache filled beside the hash.
\<close>

definition ComputeHash :: "Transaction \<Rightarrow> Transaction" where
  "ComputeHash tx =
     tx\<lparr>mTxHash := sha256_Final (sha256_Update sha256_Init (Transaction_Serialize False tx)),
        mHashCached := True\<rparr>"

definition GetHash_st :: "Transaction \<Rightarrow> bytes32 \<times> Transaction" where
  "GetHash_st tx =
     (let tx = (if \<not> mHashCached tx then ComputeHash tx else tx) in (mTxHash tx, tx))"

definition GetHash :: "Transaction \<Rightarrow> bytes32" where
  "GetHash tx = fst (GetHash_st tx)"

definition SetVersion :: "u32 \<Rightarrow> Transaction \<Rightarrow> Transaction" where
  "SetVersion version tx = tx\<lparr>mVersion := version, mHashCached := False\<rparr>"

definition SetLocktime :: "u64 \<Rightarrow> Transaction \<Rightarrow> Transaction" where
  "SetLocktime locktime tx = tx\<lparr>mLocktime := locktime, mHashCached := False\<rparr>"

definition AddInput :: "TxInput \<Rightarrow> Transaction \<Rightarrow> Transaction result" where
  "AddInput input tx =
     guard_throw (length (mInputs tx) \<ge> MAX_INPUTS) (CryptoError ''Too many inputs'')
       (Inr (tx\<lparr>mInputs := mInputs tx @ [input], mHashCached := False\<rparr>))"

definition AddOutput :: "TxOutput \<Rightarrow> Transaction \<Rightarrow> Transaction result" where
  "AddOutput out tx =
     guard_throw (length (mOutputs tx) \<ge> MAX_OUTPUTS) (CryptoError ''Too many outputs'')
       (Inr (tx\<lparr>mOutputs := mOutputs tx @ [out], mHashCached := False\<rparr>))"

definition ClearInputs :: "Transaction \<Rightarrow> Transaction" where
  "ClearInputs tx = tx\<lparr>mInputs := [], mHashCached := False\<rparr>"

definition ClearOutputs :: "Transaction \<Rightarrow> Transaction" where
  "ClearOutputs tx = tx\<lparr>mOutputs := [], mHashCached := False\<rparr>"

definition IsCoinbase :: "Transaction \<Rightarrow> bool" where
  "IsCoinbase tx = (case mInputs tx of
     [input] \<Rightarrow> all_zero (mPrevTxHash input) \<and> mOutputIndex input = 0xFFFFFFFF
   | _ \<Rightarrow> False)"

text \<open>The summing loops, with the message of the failing check.\<close>

fun sum_values :: "string \<Rightarrow> string \<Rightarrow> int \<Rightarrow> TxOutput list \<Rightarrow> int result" where
  "sum_values neg over tot [] = Inr tot"
| "sum_values neg over tot (out # outs) =
     guard_throw (mValue out < 0) (CryptoError neg) (
     guard_throw (tot > INT64_MAX - mValue out) (CryptoError over) (
     sum_values neg over (tot + mValue out) outs))"

definition GetValueOut :: "Transaction \<Rightarrow> int result" where
  "GetValueOut tx = sum_values ''Negative output value'' ''Output value overflow'' 0 (mOutputs tx)"

definition GetValueIn :: "Transaction \<Rightarrow> TxOutput list \<Rightarrow> int result" where
  "GetValueIn tx prevOutputs =
     (if IsCoinbase tx then Inr 0
      else guard_throw (length prevOutputs \<noteq> length (mInputs tx))
             (CryptoError ''GetValueIn: prevOutputs size must match inputs'')
             (sum_values ''Negative input value'' ''Input value overflow'' 0 prevOutputs))"

definition GetFee :: "Transaction \<Rightarrow> TxOutput list \<Rightarrow> int result" where
  "GetFee tx prevOutputs =
     (if IsCoinbase tx then Inr 0
      else rbind (GetValueIn tx prevOutputs) (\<lambda>vin. rbind (GetValueOut tx) (\<lambda>vout. Inr (vin - vout))))"

definition Transaction_IsValid :: "Transaction \<Rightarrow> bool result" where
  "Transaction_IsValid tx =
     (if mInputs tx = [] \<or> mOutputs tx = [] then Inr False
      else if length (mInputs tx) > MAX_INPUTS then Inr False
      else if length (mOutputs tx) > MAX_OUTPUTS then Inr False
      else if Transaction_GetSerializedSize True tx > MAX_TX_SIZE then Inr False
      else if \<not> list_all TxInput_IsValid (mInputs tx) then Inr False
      else if \<not> list_all (\<lambda>out. TxOutput_IsValid out \<and> \<not> (IsDust out \<and> \<not> IsCoinbase tx)) (mOutputs tx)
      then Inr False
      else rbind (GetValueOut tx) (\<lambda>v. if v < 0 then Inr False else Inr True))"

section \<open>Signatures\<close>

definition sig_input :: "TxInput \<Rightarrow> byte list" where
  "sig_input input = mPrevTxHash input @ WriteLE32 (mOutputIndex input) @ mPubkey input @ zero64 @ mKps input"

definition signature_preimage :: "Transaction \<Rightarrow> nat \<Rightarrow> byte list" where
  "signature_preimage tx inputIndex =
     WriteLE32 (mVersion tx) @
     WriteLE32 (of_nat (length (mInputs tx))) @
     concat (map sig_input (mInputs tx)) @
     WriteLE32 (of_nat (length (mOutputs tx))) @
     concat (map TxOutput_Serialize (mOutputs tx)) @
     WriteLE64 (mLocktime tx) @
     WriteLE32 (of_nat inputIndex)"

definition GetSignatureHash :: "Transaction \<Rightarrow> nat \<Rightarrow> bytes32 result" where
  "GetSignatureHash tx inputIndex =
     guard_throw (inputIndex \<ge> length (mInputs tx)) (CryptoError ''Invalid input index'')
       (Inr (sha256_Final (sha256_Update sha256_Init (signature_preimage tx inputIndex))))"

definition VerifySignature ::
  "(bytes32 \<Rightarrow> bytes64 \<Rightarrow> byte list \<Rightarrow> bool) \<Rightarrow> Transaction \<Rightarrow> nat \<Rightarrow> TxOutput \<Rightarrow> bool result" where
  "VerifySignature verify tx inputIndex prevOutput =
     guard_throw (inputIndex \<ge> length (mInputs tx)) (CryptoError ''Invalid input index'') (
     let input = mInputs tx ! inputIndex in
     rbind (GetSignatureHash tx inputIndex) (\<lambda>sigHash.
     let pubkeyHash = NoiseBoundHash (mPubkey input) (mKps input) in
     if pubkeyHash \<noteq> GetPubkeyHash prevOutput then Inr False
     else Inr (verify (mPubkey input) (mSignature input) sigHash)))"

fun verify_from ::
  "(bytes32 \<Rightarrow> bytes64 \<Rightarrow> byte list \<Rightarrow> bool) \<Rightarrow> Transaction \<Rightarrow> nat \<Rightarrow> TxOutput list \<Rightarrow> bool result" where
  "verify_from verify tx i [] = Inr True"
| "verify_from verify tx i (out # outs) =
     rbind (VerifySignature verify tx i out) (\<lambda>ok. if \<not> ok then Inr False else verify_from verify tx (i + 1) outs)"

definition VerifyAllSignatures ::
  "(bytes32 \<Rightarrow> bytes64 \<Rightarrow> byte list \<Rightarrow> bool) \<Rightarrow> Transaction \<Rightarrow> TxOutput list \<Rightarrow> bool result" where
  "VerifyAllSignatures verify tx prevOutputs =
     guard_throw (length prevOutputs \<noteq> length (mInputs tx))
       (CryptoError ''prevOutputs size must match inputs size'') (verify_from verify tx 0 prevOutputs)"

text \<open>\<open>Sign\<close> mutates the transaction; \<open>SignAll\<close> stops at the first exception.\<close>

definition Sign :: "(byte list \<Rightarrow> bytes64 \<Rightarrow> bytes64) \<Rightarrow> nat \<Rightarrow> SecretKey \<Rightarrow> Transaction \<Rightarrow> Transaction result" where
  "Sign ed_sign inputIndex key tx =
     guard_throw (inputIndex \<ge> length (mInputs tx)) (CryptoError ''Invalid input index'') (
     rbind (GetSignatureHash tx inputIndex) (\<lambda>sigHash.
     rbind (SecretKey_Sign ed_sign key sigHash) (\<lambda>signature.
       let input = mInputs tx ! inputIndex
       in Inr (tx\<lparr>mInputs := (mInputs tx)[inputIndex :=
                 input\<lparr>mSignature := signature, mPubkey := GetPublicKey key\<rparr>],
                 mHashCached := False\<rparr>))))"

fun sign_from :: "(byte list \<Rightarrow> bytes64 \<Rightarrow> bytes64) \<Rightarrow> nat \<Rightarrow> SecretKey list \<Rightarrow> Transaction \<Rightarrow> Transaction result" where
  "sign_from ed_sign i [] tx = Inr tx"
| "sign_from ed_sign i (key # keys) tx = rbind (Sign ed_sign i key tx) (sign_from ed_sign (i + 1) keys)"

definition SignAll :: "(byte list \<Rightarrow> bytes64 \<Rightarrow> bytes64) \<Rightarrow> SecretKey list \<Rightarrow> Transaction \<Rightarrow> Transaction result" where
  "SignAll ed_sign keys tx =
     guard_throw (length keys \<noteq> length (mInputs tx))
       (CryptoError ''Number of keys must match number of inputs'') (sign_from ed_sign 0 keys tx)"

section \<open>The builder\<close>

record TransactionBuilder =
  mTx :: Transaction
  mPrevOutputs :: "TxOutput list"

definition Builder_init :: "u32 \<Rightarrow> TransactionBuilder" where
  "Builder_init version = \<lparr>mTx = Transaction_init version, mPrevOutputs = []\<rparr>"

definition Builder_AddInput ::
  "bytes32 \<Rightarrow> u32 \<Rightarrow> bytes32 \<Rightarrow> bytes32 \<Rightarrow> TransactionBuilder \<Rightarrow> TransactionBuilder result" where
  "Builder_AddInput prevTxHash outputIndex pubkey kps b =
     (let input = (mk_TxInput prevTxHash outputIndex pubkey zero64)\<lparr>mKps := kps\<rparr>
      in rbind (AddInput input (mTx b)) (\<lambda>tx. Inr (b\<lparr>mTx := tx\<rparr>)))"

definition Builder_AddOutput :: "int \<Rightarrow> bytes32 \<Rightarrow> TransactionBuilder \<Rightarrow> TransactionBuilder result" where
  "Builder_AddOutput value pubkeyHash b =
     rbind (AddOutput (mk_TxOutput value pubkeyHash) (mTx b)) (\<lambda>tx. Inr (b\<lparr>mTx := tx\<rparr>))"

definition Builder_AddDataOutput :: "byte list \<Rightarrow> TransactionBuilder \<Rightarrow> TransactionBuilder result" where
  "Builder_AddDataOutput data b =
     rbind (AddOutput \<lparr>mValue = 0, mScriptPubKey = CreateNullData data\<rparr> (mTx b)) (\<lambda>tx. Inr (b\<lparr>mTx := tx\<rparr>))"

definition Builder_AddPayment ::
  "int \<Rightarrow> bytes32 \<Rightarrow> bytes32 \<Rightarrow> TransactionBuilder \<Rightarrow> TransactionBuilder result" where
  "Builder_AddPayment value recipient kps b = Builder_AddOutput value (NoiseBoundHash recipient kps) b"

definition Builder_SetLocktime :: "u64 \<Rightarrow> TransactionBuilder \<Rightarrow> TransactionBuilder" where
  "Builder_SetLocktime locktime b = b\<lparr>mTx := SetLocktime locktime (mTx b)\<rparr>"

definition Builder_SetPrevOutput :: "nat \<Rightarrow> TxOutput \<Rightarrow> TransactionBuilder \<Rightarrow> TransactionBuilder" where
  "Builder_SetPrevOutput inputIndex prevOutput b =
     (let outs = (if inputIndex \<ge> length (mPrevOutputs b)
                  then mPrevOutputs b @ replicate (inputIndex + 1 - length (mPrevOutputs b)) TxOutput_init
                  else mPrevOutputs b)
      in b\<lparr>mPrevOutputs := outs[inputIndex := prevOutput]\<rparr>)"

definition Build :: "TransactionBuilder \<Rightarrow> Transaction result" where
  "Build b = rbind (Transaction_IsValid (mTx b)) (\<lambda>ok.
     guard_throw (\<not> ok) (CryptoError ''Invalid transaction'') (Inr (mTx b)))"

definition BuildAndSign ::
  "(byte list \<Rightarrow> bytes64 \<Rightarrow> bytes64) \<Rightarrow> SecretKey list \<Rightarrow> TransactionBuilder \<Rightarrow> Transaction result" where
  "BuildAndSign ed_sign keys b =
     rbind (SignAll ed_sign keys (mTx b)) (\<lambda>tx.
     rbind (Transaction_IsValid tx) (\<lambda>ok.
     guard_throw (\<not> ok) (CryptoError ''Invalid transaction after signing'') (Inr tx)))"

section \<open>Wire formats\<close>

definition wf_TxInput :: "TxInput \<Rightarrow> bool" where
  "wf_TxInput i \<longleftrightarrow> is_bytes32 (mPrevTxHash i) \<and> is_bytes32 (mPubkey i) \<and> is_bytes64 (mSignature i) \<and>
     is_bytes32 (mKps i) \<and> length (mNoiseProof i) \<le> MAX_TX_SIZE"

definition wf_TxOutput :: "TxOutput \<Rightarrow> bool" where
  "wf_TxOutput out \<longleftrightarrow> 0 \<le> mValue out \<and> mValue out \<le> INT64_MAX \<and>
     length (mScriptPubKey out) \<le> MAX_SCRIPT_SIZE"

definition wf_Transaction :: "Transaction \<Rightarrow> bool" where
  "wf_Transaction tx \<longleftrightarrow> length (mInputs tx) \<le> MAX_INPUTS \<and> length (mOutputs tx) \<le> MAX_OUTPUTS \<and>
     (\<forall>i \<in> set (mInputs tx). wf_TxInput i) \<and> (\<forall>out \<in> set (mOutputs tx). wf_TxOutput out) \<and>
     is_bytes32 (mTxHash tx)"

lemma length_WriteCompactSize [simp, codec_simps]: "length (WriteCompactSize v) = CompactSizeLen v"
  by (simp add: WriteCompactSize_def CompactSizeLen_def)

lemma ucast_ucast_small:
  "unat (v :: 'a::len word) < 2 ^ LENGTH('b) \<Longrightarrow> ucast (ucast v :: 'b::len word) = v"
  by (simp add: word_unat_eq_iff unat_ucast_mod)

lemma le16_join_split:
  assumes "unat (v :: u64) < 65536"
  shows "ucast (ucast (v AND 0xff) :: byte) OR push_bit 8 (ucast (ucast (drop_bit 8 v AND 0xff) :: byte)) = v"
proof -
  have m: "(0xffff :: u64) = mask 16" by (simp add: mask_eq_exp_minus_1)
  have "v AND 0xffff = v"
    unfolding word_unat_eq_iff m unat_and_mask using assms by simp
  then show ?thesis
    unfolding byte_slice unfolding byte_slice_0 by (simp flip: bit.conj_disj_distrib)
qed

lemma ReadCompactSize_at:
  assumes "at_off data off (WriteCompactSize v @ s)"
  shows "ReadCompactSize data off = Inr (v, off + CompactSizeLen v)"
proof -
  note len = at_off_length [OF assms]
  consider "v < 253" | "253 \<le> v" "v \<le> 0xffff" | "0xffff < v" "v \<le> 0xffffffff" | "0xffffffff < v"
    by fastforce
  then show ?thesis
  proof cases
    case 1
    then have "unat v < 253" by (simp add: word_less_nat_alt)
    then have "ucast (ucast v :: byte) = v" "(ucast v :: byte) < 253"
      by (simp_all add: ucast_ucast_small word_less_nat_alt unat_ucast_mod)
    with 1 assms len show ?thesis
      by (simp add: ReadCompactSize_def WriteCompactSize_def CompactSizeLen_def rd8_here)
  next
    case 2
    let ?a = "ucast (v AND 0xff) :: byte" and ?b = "ucast (drop_bit 8 v AND 0xff) :: byte"
    have w: "WriteCompactSize v = [253, ?a, ?b]" "CompactSizeLen v = 3"
      using 2 by (simp_all add: WriteCompactSize_def CompactSizeLen_def not_less)
    note a = assms [unfolded w append_Cons append_Nil]
    note a1 = at_off_Cons [OF a] note a2 = at_off_Cons [OF a1]
    have "unat v < 65536" using 2 by (simp add: word_le_nat_alt)
    then show ?thesis
      using rd8_here [OF a] rd8_here [OF a1] rd8_here [OF a2] len w le16_join_split [of v]
      by (simp add: ReadCompactSize_def Let_def)
  next
    case 3
    have w: "WriteCompactSize v = 254 # WriteLE32 (ucast v)" "CompactSizeLen v = 5"
      using 3 by (auto simp: WriteCompactSize_def CompactSizeLen_def not_less word_le_nat_alt word_less_nat_alt)
    note a = assms [unfolded w append_Cons]
    have "ucast (ucast v :: u32) = v"
      using 3 by (intro ucast_ucast_small) (simp add: word_le_nat_alt)
    with rd8_here [OF a] ReadLE32_at [OF at_off_Cons [OF a]] len w show ?thesis
      by (simp add: ReadCompactSize_def Let_def)
  next
    case 4
    have w: "WriteCompactSize v = 255 # WriteLE64 v" "CompactSizeLen v = 9"
      using 4 by (auto simp: WriteCompactSize_def CompactSizeLen_def not_less word_le_nat_alt word_less_nat_alt)
    note a = assms [unfolded w append_Cons]
    from rd8_here [OF a] ReadLE64_at [OF at_off_Cons [OF a]] len w show ?thesis
      by (simp add: ReadCompactSize_def Let_def)
  qed
qed

lemma ReadCompactSize_safe: "ReadCompactSize data off \<noteq> Inl OutOfBounds"
  by (auto simp: ReadCompactSize_def Let_def oob_simps split: if_splits)

lemma ReadCompactSize_bounds:
  "ReadCompactSize data off = Inr (v, off') \<Longrightarrow> off < off' \<and> off' \<le> length data"
  unfolding ReadCompactSize_def
  by (auto simp: Let_def rbind_eq_Inr_iff rd8_def split: if_splits dest!: ReadLE32_off ReadLE64_off)

interpretation compact_size: codec WriteCompactSize ReadCompactSize "\<lambda>_. True"
proof unfold_locales
  show "ReadCompactSize (pre @ WriteCompactSize x @ post) (length pre) =
      Inr (x, length pre + length (WriteCompactSize x))" for x pre post
    by (simp add: ReadCompactSize_at [OF at_offI])
qed (use ReadCompactSize_safe ReadCompactSize_bounds in force)+

subsection \<open>Inputs\<close>

lemma length_TxInput_Serialize [codec_simps]:
  "wf_TxInput i \<Longrightarrow> length (TxInput_Serialize w i) = TxInput_GetSerializedSize w i"
  by (simp add: TxInput_Serialize_def TxInput_GetSerializedSize_def wf_TxInput_def Let_def)

lemma unat_of_nat_le: "n \<le> MAX_TX_SIZE \<Longrightarrow> unat (of_nat n :: u32) = n"
  by (simp add: unat_of_nat MAX_TX_SIZE_def)

lemma TxInput_Deserialize_at:
  assumes wf: "wf_TxInput i" and a: "at_off data off (TxInput_Serialize True i @ s)"
  shows "TxInput_Deserialize data off = Inr (i, off + length (TxInput_Serialize True i))"
proof -
  let ?n = "length (mNoiseProof i)"
  have l: "is_bytes32 (mPrevTxHash i)" "is_bytes32 (mPubkey i)" "is_bytes64 (mSignature i)"
    "is_bytes32 (mKps i)" "?n \<le> MAX_TX_SIZE" using wf by (auto simp: wf_TxInput_def)
  have n: "unat (of_nat ?n :: u32) = ?n" by (rule unat_of_nat_le [OF l(5)])
  then have z: "(0 < (of_nat ?n :: u32)) = (mNoiseProof i \<noteq> [])" by (simp add: word_less_nat_alt)
  note a0 = a [unfolded TxInput_Serialize_def if_True append_assoc]
  note a1 = at_off_step [OF a0 l(1)] note a2 = at_off_step [OF a1 length_WriteLE32]
  note a3 = at_off_step [OF a2 l(2)] note a4 = at_off_step [OF a3 l(3)]
  note a5 = at_off_step [OF a4 l(4)] note a6 = at_off_step [OF a5 length_WriteLE32]
  note len = at_off_length [OF a] length_TxInput_Serialize [OF wf, of True]
  show ?thesis
    unfolding TxInput_Deserialize_def
    using rd_bytes_at [OF a0 l(1)] ReadLE32_at [OF a1] rd_bytes_at [OF a2 l(2)]
      rd_bytes_at [OF a3 l(3)] rd_bytes_at [OF a4 l(4)] ReadLE32_at [OF a5]
      rd_bytes_at [OF a6 refl] len l(5)
    by (simp add: Let_def n z TxInput_GetSerializedSize_def)
qed

lemma TxInput_Deserialize_safe: "TxInput_Deserialize data off \<noteq> Inl OutOfBounds"
  by (auto simp: TxInput_Deserialize_def Let_def oob_simps split: if_splits dest!: ReadLE32_off)

lemma TxInput_Deserialize_bounds:
  assumes "TxInput_Deserialize data off = Inr (i, off')"
  shows "wf_TxInput i \<and> off < off' \<and> off' \<le> length data"
  using assms unfolding TxInput_Deserialize_def
  by (auto simp: Let_def rbind_eq_Inr_iff wf_TxInput_def split: if_splits
      dest!: ReadLE32_off rd_bytes_length)

interpretation tx_input: codec "TxInput_Serialize True" TxInput_Deserialize wf_TxInput
proof unfold_locales
  show "TxInput_Deserialize (pre @ TxInput_Serialize True x @ post) (length pre) =
      Inr (x, length pre + length (TxInput_Serialize True x))" if "wf_TxInput x" for x pre post
    by (rule TxInput_Deserialize_at [OF that at_offI])
qed (use TxInput_Deserialize_safe TxInput_Deserialize_bounds in force)+

subsection \<open>Outputs\<close>

lemma sint_of_int_u64: "- (2 ^ 63) \<le> v \<Longrightarrow> v < 2 ^ 63 \<Longrightarrow> sint (of_int v :: u64) = v"
  by (simp add: signed_of_int signed_take_bit_int_eq_self)

lemma sint_u64_le: "sint (w :: u64) \<le> INT64_MAX"
  using sint_lt [of w] by (simp add: INT64_MAX_def)

lemma length_TxOutput_Serialize [codec_simps, simp]:
  "length (TxOutput_Serialize out) = TxOutput_GetSerializedSize out"
  by (simp add: TxOutput_Serialize_def TxOutput_GetSerializedSize_def)

lemma TxOutput_Deserialize_at:
  assumes wf: "wf_TxOutput out" and a: "at_off data off (TxOutput_Serialize out @ s)"
  shows "TxOutput_Deserialize data off = Inr (out, off + length (TxOutput_Serialize out))"
proof -
  let ?n = "length (mScriptPubKey out)"
  have l: "0 \<le> mValue out" "mValue out \<le> INT64_MAX" "?n \<le> MAX_SCRIPT_SIZE"
    using wf by (auto simp: wf_TxOutput_def)
  have n: "unat (of_nat ?n :: u64) = ?n" using l(3) by (simp add: unat_of_nat MAX_SCRIPT_SIZE_def)
  have v: "sint (of_int (mValue out) :: u64) = mValue out"
    using l(1,2) by (intro sint_of_int_u64) (simp_all add: INT64_MAX_def)
  note a0 = a [unfolded TxOutput_Serialize_def append_assoc]
  note a1 = at_off_step [OF a0 length_WriteLE64] note a2 = at_off_step [OF a1 length_WriteCompactSize]
  show ?thesis
    unfolding TxOutput_Deserialize_def
    using ReadLE64_at [OF a0] ReadCompactSize_at [OF a1] rd_bytes_at [OF a2 refl]
      at_off_length [OF a] l v
    by (simp add: Let_def n TxOutput_GetSerializedSize_def)
qed

lemma TxOutput_Deserialize_safe: "TxOutput_Deserialize data off \<noteq> Inl OutOfBounds"
  by (auto simp: TxOutput_Deserialize_def Let_def oob_simps ReadCompactSize_safe split: if_splits
      dest!: ReadLE64_off ReadCompactSize_bounds)

lemma TxOutput_Deserialize_bounds:
  assumes "TxOutput_Deserialize data off = Inr (out, off')"
  shows "wf_TxOutput out \<and> off < off' \<and> off' \<le> length data"
  using assms unfolding TxOutput_Deserialize_def
  by (auto simp: Let_def rbind_eq_Inr_iff wf_TxOutput_def sint_u64_le split: if_splits
      dest!: ReadLE64_off rd_bytes_length ReadCompactSize_bounds)

interpretation tx_output: codec TxOutput_Serialize TxOutput_Deserialize wf_TxOutput
proof unfold_locales
  show "TxOutput_Deserialize (pre @ TxOutput_Serialize x @ post) (length pre) =
      Inr (x, length pre + length (TxOutput_Serialize x))" if "wf_TxOutput x" for x pre post
    by (rule TxOutput_Deserialize_at [OF that at_offI])
qed (use TxOutput_Deserialize_safe TxOutput_Deserialize_bounds in force)+

subsection \<open>Transactions\<close>

lemma length_Transaction_Serialize:
  assumes "\<forall>i \<in> set (mInputs tx). wf_TxInput i"
  shows "length (Transaction_Serialize w tx) = Transaction_GetSerializedSize w tx"
proof -
  have "(\<Sum>i \<leftarrow> mInputs tx. length (TxInput_Serialize w i)) =
      (\<Sum>i \<leftarrow> mInputs tx. TxInput_GetSerializedSize w i)"
    by (rule arg_cong [where f = sum_list]) (simp add: assms length_TxInput_Serialize)
  then show ?thesis
    by (simp add: Transaction_Serialize_def Transaction_GetSerializedSize_def length_concat comp_def)
qed

definition uncached :: "Transaction \<Rightarrow> Transaction" where
  "uncached tx = tx\<lparr>mTxHash := zero32, mHashCached := False\<rparr>"

lemma small_count: "n \<le> 1000 \<Longrightarrow> unat (of_nat n :: u32) = n"
  by (simp add: unat_of_nat)

lemma Transaction_Deserialize_Serialize:
  assumes wf: "wf_Transaction tx"
  shows "Transaction_Deserialize (Transaction_Serialize True tx @ post) = Inr (uncached tx)"
proof -
  have l: "length (mInputs tx) \<le> 1000" "length (mOutputs tx) \<le> 1000"
    and wi: "\<forall>i \<in> set (mInputs tx). wf_TxInput i" and wo: "\<forall>out \<in> set (mOutputs tx). wf_TxOutput out"
    using wf by (simp_all add: wf_Transaction_def MAX_INPUTS_def MAX_OUTPUTS_def)
  let ?d = "Transaction_Serialize True tx @ post"
  have a0: "at_off ?d 0 (WriteLE32 (mVersion tx) @ WriteLE32 (of_nat (length (mInputs tx))) @
     concat (map (TxInput_Serialize True) (mInputs tx)) @
     WriteLE32 (of_nat (length (mOutputs tx))) @ concat (map TxOutput_Serialize (mOutputs tx)) @
     WriteLE64 (mLocktime tx) @ post)"
    using at_off_0 [of ?d] by (simp add: Transaction_Serialize_def)
  note a1 = at_off_step [OF a0 length_WriteLE32] note a2 = at_off_step [OF a1 length_WriteLE32]
  note a3 = at_off_step [OF a2 refl] note a4 = at_off_step [OF a3 length_WriteLE32]
  note a5 = at_off_step [OF a4 refl] note a6 = at_off_step [OF a5 length_WriteLE64]
  note reads = ReadLE32_at [OF a0] ReadLE32_at [OF a1]
    tx_input.dec_n_at [OF wi a2 refl] ReadLE32_at [OF a3] tx_output.dec_n_at [OF wo a4 refl]
    ReadLE64_at [OF a5]
  have "length ?d \<ge> 20" by (simp add: Transaction_Serialize_def)
  then show ?thesis
    unfolding Transaction_Deserialize_def
    using reads at_off_length [OF a3] at_off_length [OF a5] l
    by (simp add: small_count MAX_INPUTS_def MAX_OUTPUTS_def uncached_def)
qed

lemma Transaction_Deserialize_safe: "Transaction_Deserialize data \<noteq> Inl OutOfBounds"
proof -
  have i: "off \<le> length data \<longrightarrow> off' \<le> length data"
    if "dec_n TxInput_Deserialize n data off = Inr (xs, off')" for n off off' xs
    using tx_input.dec_n_bounds that by blast
  have j: "off \<le> length data \<longrightarrow> off' \<le> length data"
    if "dec_n TxOutput_Deserialize n data off = Inr (xs, off')" for n off off' xs
    using tx_output.dec_n_bounds that by blast
  show ?thesis
    by (auto simp: Transaction_Deserialize_def oob_simps tx_input.dec_n_safe tx_output.dec_n_safe
        split: if_splits dest!: ReadLE32_off ReadLE64_off i j)
qed

lemma Transaction_Deserialize_wf:
  assumes "Transaction_Deserialize data = Inr tx"
  shows "wf_Transaction tx \<and> \<not> mHashCached tx"
  using assms unfolding Transaction_Deserialize_def
  by (auto simp: rbind_eq_Inr_iff wf_Transaction_def zero32_def not_less
      dest!: ReadLE32_off tx_input.dec_n_bounds [rotated] tx_output.dec_n_bounds [rotated])

text \<open>
  C35. A well-formed transaction survives the wire: parsing its serialisation, whatever
  bytes follow, gives the transaction back with an empty hash cache, and the
  serialisation has exactly the size that \<open>GetSerializedSize\<close> announces.
\<close>

theorem Transaction_round_trip:
  assumes "wf_Transaction tx"
  shows "Transaction_Deserialize (Transaction_Serialize True tx @ post) =
      Inr (tx\<lparr>mTxHash := zero32, mHashCached := False\<rparr>) \<and>
    length (Transaction_Serialize w tx) = Transaction_GetSerializedSize w tx"
  using Transaction_Deserialize_Serialize [OF assms] length_Transaction_Serialize assms
  by (simp add: uncached_def wf_Transaction_def)

definition sample_tx :: Transaction where
  "sample_tx = (Transaction_init 1)\<lparr>mInputs := [(mk_TxInput (replicate 32 7) 1 (replicate 32 9) zero64)
       \<lparr>mKps := replicate 32 3, mNoiseProof := [1, 2, 3]\<rparr>],
     mOutputs := [mk_TxOutput 5000 (replicate 32 4)], mLocktime := 12\<rparr>"

lemma sample_tx_wf: "wf_Transaction sample_tx"
  by (simp add: wf_Transaction_def sample_tx_def wf_TxInput_def wf_TxOutput_def Transaction_init_def
      mk_TxInput_def mk_TxOutput_def CreatePayToPubkeyHash_def PushData_def MAX_INPUTS_def MAX_OUTPUTS_def
      MAX_TX_SIZE_def MAX_SCRIPT_SIZE_def INT64_MAX_def zero32_def zero64_def)

theorem Transaction_round_trip_witness:
  "Transaction_Deserialize (Transaction_Serialize True sample_tx @ [1]) = Inr sample_tx"
  using Transaction_round_trip [OF sample_tx_wf, of "[1]"]
  by (simp add: sample_tx_def Transaction_init_def)

text \<open>
  C40. Parsing arbitrary bytes as a transaction never reads outside the buffer, and
  whatever it accepts is well-formed: bounded counts, sizes and scripts and amounts
  between zero and \<open>INT64_MAX\<close>.
\<close>

theorem Transaction_parse_safe:
  "Transaction_Deserialize data \<noteq> Inl OutOfBounds \<and>
   (\<forall>tx. Transaction_Deserialize data = Inr tx \<longrightarrow> wf_Transaction tx)"
  using Transaction_Deserialize_safe Transaction_Deserialize_wf by blast

theorem Transaction_parse_safe_witness:
  "wf_Transaction (uncached sample_tx) \<and> Transaction_Deserialize [1] \<noteq> Inl OutOfBounds"
  using Transaction_parse_safe [of "Transaction_Serialize True sample_tx @ []"]
    Transaction_parse_safe [of "[1]"] Transaction_Deserialize_Serialize [OF sample_tx_wf, of "[]"]
  by blast

section \<open>Value sums\<close>

lemma sum_values_eq:
  assumes "0 \<le> tot" and "tot \<le> INT64_MAX"
  shows "sum_values neg over tot outs = Inr v \<longleftrightarrow>
    (\<forall>out \<in> set outs. 0 \<le> mValue out) \<and> v = tot + (\<Sum>out \<leftarrow> outs. mValue out) \<and> v \<le> INT64_MAX"
  using assms
proof (induction outs arbitrary: tot)
  case (Cons out outs)
  have nn: "0 \<le> (\<Sum>x \<leftarrow> outs. mValue x)" if "\<forall>x \<in> set outs. 0 \<le> mValue x"
    using that by (intro sum_list_nonneg) auto
  show ?case
  proof (cases "0 \<le> mValue out \<and> tot + mValue out \<le> INT64_MAX")
    case True
    with Cons show ?thesis by (auto simp: algebra_simps)
  next
    case False
    with nn Cons.prems show ?thesis by (auto simp: not_less)
  qed
qed (auto)

lemma sum_values_error:
  "sum_values neg over tot outs = Inl e \<Longrightarrow> e = CryptoError neg \<or> e = CryptoError over"
  by (induction outs arbitrary: tot) (auto simp: guard_throw_def split: if_splits)

definition in_int64 :: "int \<Rightarrow> bool" where
  "in_int64 v \<longleftrightarrow> - (2 ^ 63) \<le> v \<and> v < 2 ^ 63"

lemma GetValueOut_eq:
  "GetValueOut tx = Inr v \<longleftrightarrow> (\<forall>out \<in> set (mOutputs tx). 0 \<le> mValue out) \<and>
     v = (\<Sum>out \<leftarrow> mOutputs tx. mValue out) \<and> v \<le> INT64_MAX"
  unfolding GetValueOut_def by (subst sum_values_eq) (auto simp: INT64_MAX_def)

lemma GetValueIn_eq:
  "\<not> IsCoinbase tx \<Longrightarrow> GetValueIn tx prevs = Inr v \<longleftrightarrow> length prevs = length (mInputs tx) \<and>
     (\<forall>out \<in> set prevs. 0 \<le> mValue out) \<and> v = (\<Sum>out \<leftarrow> prevs. mValue out) \<and> v \<le> INT64_MAX"
  unfolding GetValueIn_def by (auto simp: sum_values_eq INT64_MAX_def)

lemma GetValueOut_nonneg: "GetValueOut tx = Inr v \<Longrightarrow> 0 \<le> v"
  by (auto simp: GetValueOut_eq intro!: sum_list_nonneg)

text \<open>
  C38. The fee of a spending transaction is computed exactly or not at all: \<open>GetFee\<close>
  returns the spent sum minus the created sum when the prevouts match the inputs,
  every amount is non-negative and both sums fit \<open>int64_t\<close>, it throws in every other
  case, and the difference itself cannot overflow.
\<close>

theorem GetFee_exact:
  assumes "\<not> IsCoinbase tx"
  shows "(GetFee tx prevs = Inr fee \<longleftrightarrow>
      length prevs = length (mInputs tx) \<and>
      (\<forall>out \<in> set prevs. 0 \<le> mValue out) \<and> (\<Sum>out \<leftarrow> prevs. mValue out) \<le> INT64_MAX \<and>
      (\<forall>out \<in> set (mOutputs tx). 0 \<le> mValue out) \<and> (\<Sum>out \<leftarrow> mOutputs tx. mValue out) \<le> INT64_MAX \<and>
      fee = (\<Sum>out \<leftarrow> prevs. mValue out) - (\<Sum>out \<leftarrow> mOutputs tx. mValue out)) \<and>
    (GetFee tx prevs = Inr fee \<longrightarrow> in_int64 fee)"
proof -
  have "in_int64 (a - b)" if "0 \<le> a" "a \<le> INT64_MAX" "0 \<le> b" "b \<le> INT64_MAX" for a b
    using that by (simp add: in_int64_def INT64_MAX_def)
  moreover have "0 \<le> (\<Sum>out \<leftarrow> outs. mValue out)" if "\<forall>out \<in> set outs. 0 \<le> mValue out" for outs
    using that by (intro sum_list_nonneg) auto
  ultimately show ?thesis
    using assms by (auto simp: GetFee_def rbind_eq_Inr_iff GetValueOut_eq GetValueIn_eq)
qed

theorem GetFee_exact_witness:
  "GetFee sample_tx [mk_TxOutput 7000 zero32] = Inr 2000"
proof -
  have "\<not> IsCoinbase sample_tx"
    by (simp add: IsCoinbase_def sample_tx_def Transaction_init_def mk_TxInput_def all_zero_def)
  from GetFee_exact [OF this, of "[mk_TxOutput 7000 zero32]" 2000] show ?thesis
    by (simp add: sample_tx_def Transaction_init_def mk_TxOutput_def INT64_MAX_def)
qed

section \<open>The transaction hash\<close>

text \<open>Every transaction the interface can produce.\<close>

inductive tx_reach :: "Transaction \<Rightarrow> bool" where
  init: "tx_reach (Transaction_init version)"
| deserialize: "Transaction_Deserialize data = Inr tx \<Longrightarrow> tx_reach tx"
| get_hash: "tx_reach tx \<Longrightarrow> tx_reach (snd (GetHash_st tx))"
| set_version: "tx_reach tx \<Longrightarrow> tx_reach (SetVersion version tx)"
| set_locktime: "tx_reach tx \<Longrightarrow> tx_reach (SetLocktime locktime tx)"
| add_input: "tx_reach tx \<Longrightarrow> AddInput input tx = Inr tx' \<Longrightarrow> tx_reach tx'"
| add_output: "tx_reach tx \<Longrightarrow> AddOutput out tx = Inr tx' \<Longrightarrow> tx_reach tx'"
| clear_inputs: "tx_reach tx \<Longrightarrow> tx_reach (ClearInputs tx)"
| clear_outputs: "tx_reach tx \<Longrightarrow> tx_reach (ClearOutputs tx)"
| sign: "tx_reach tx \<Longrightarrow> Sign ed_sign i key tx = Inr tx' \<Longrightarrow> tx_reach tx'"

definition hash_ok :: "Transaction \<Rightarrow> bool" where
  "hash_ok tx \<longleftrightarrow> (mHashCached tx \<longrightarrow> mTxHash tx = sha256_Raw (Transaction_Serialize False tx))"

lemma Transaction_Serialize_cache [simp]:
  "Transaction_Serialize w (tx\<lparr>mTxHash := h, mHashCached := c\<rparr>) = Transaction_Serialize w tx"
  "Transaction_Serialize w (tx\<lparr>mHashCached := c\<rparr>) = Transaction_Serialize w tx"
  "Transaction_Serialize w (tx\<lparr>mTxHash := h\<rparr>) = Transaction_Serialize w tx"
  by (simp_all add: Transaction_Serialize_def)

lemma GetHash_hash_ok: "hash_ok tx \<Longrightarrow> GetHash tx = sha256_Raw (Transaction_Serialize False tx)"
  by (simp add: hash_ok_def GetHash_def GetHash_st_def ComputeHash_def Let_def sha256_Raw_def)

lemma uncached_hash_ok: "\<not> mHashCached tx \<Longrightarrow> hash_ok tx"
  by (simp add: hash_ok_def)

lemma tx_reach_hash_ok: "tx_reach tx \<Longrightarrow> hash_ok tx"
proof (induction rule: tx_reach.induct)
  case (deserialize data tx)
  then show ?case by (simp add: uncached_hash_ok Transaction_Deserialize_wf)
next
  case (get_hash tx)
  then show ?case
    by (simp add: hash_ok_def GetHash_st_def ComputeHash_def Let_def sha256_Raw_def)
qed (auto intro!: uncached_hash_ok simp: Transaction_init_def SetVersion_def SetLocktime_def AddInput_def
    AddOutput_def ClearInputs_def ClearOutputs_def Sign_def rbind_eq_Inr_iff Let_def)

text \<open>
  The cached hash is never stale: however a transaction was built, parsed, edited,
  signed or hashed before, \<open>GetHash\<close> is SHA-256 of its current serialisation without
  noise proofs.
\<close>

theorem GetHash_never_stale:
  "tx_reach tx \<Longrightarrow> GetHash tx = sha256_Raw (Transaction_Serialize False tx)"
  by (intro GetHash_hash_ok tx_reach_hash_ok)

theorem GetHash_never_stale_witness:
  "let tx = SetLocktime 5 (snd (GetHash_st (Transaction_init 1)))
   in GetHash tx = sha256_Raw (Transaction_Serialize False tx)"
  unfolding Let_def by (rule GetHash_never_stale) (intro tx_reach.intros)

section \<open>What hashes commit to\<close>

lemma concat_fixed_inj:
  assumes "\<forall>x \<in> set xs. length (f x) = n" and "\<forall>y \<in> set ys. length (f y) = n"
    and "length xs = length ys" and "concat (map f xs) @ s = concat (map f ys) @ t"
  shows "map f xs = map f ys \<and> s = t"
  using assms(3,1,2,4) by (induction xs ys rule: list_induct2) auto

lemma WriteLE32_inj [simp]: "WriteLE32 a = WriteLE32 b \<longleftrightarrow> a = b"
proof
  assume "WriteLE32 a = WriteLE32 b"
  with ReadLE32_WriteLE32 [of "[]" a "[]"] ReadLE32_WriteLE32 [of "[]" b "[]"] show "a = b"
    by (simp only: append_Nil append_Nil2 sum.inject prod.inject)
qed simp

lemma WriteLE64_inj [simp]: "WriteLE64 a = WriteLE64 b \<longleftrightarrow> a = b"
proof
  assume "WriteLE64 a = WriteLE64 b"
  with ReadLE64_WriteLE64 [of "[]" a "[]"] ReadLE64_WriteLE64 [of "[]" b "[]"] show "a = b"
    by (simp only: append_Nil append_Nil2 sum.inject prod.inject)
qed simp

lemma WriteLE_append_inj:
  "WriteLE32 a @ x = WriteLE32 b @ y \<longleftrightarrow> a = b \<and> x = y"
  "WriteLE64 c @ x = WriteLE64 d @ y \<longleftrightarrow> c = d \<and> x = y"
  by simp_all

lemma of_nat_count_inj: "a \<le> 1000 \<Longrightarrow> b \<le> 1000 \<Longrightarrow> of_nat a = (of_nat b :: u32) \<longleftrightarrow> a = b"
  by (metis small_count)

text \<open>The parts of an input that a transaction hash and a signature hash cover.\<close>

definition outpoint_key :: "TxInput \<Rightarrow> bytes32 \<times> u32 \<times> bytes32 \<times> bytes32" where
  "outpoint_key i = (mPrevTxHash i, mOutputIndex i, mPubkey i, mKps i)"

definition signed_view :: "Transaction \<Rightarrow> u32 \<times> (bytes32 \<times> u32 \<times> bytes32 \<times> bytes32) list \<times> TxOutput list \<times> u64" where
  "signed_view tx = (mVersion tx, map outpoint_key (mInputs tx), mOutputs tx, mLocktime tx)"

lemma sig_input_length: "wf_TxInput i \<Longrightarrow> length (sig_input i) = 164"
  by (simp add: sig_input_def wf_TxInput_def zero64_def)

lemma sig_input_inj:
  "wf_TxInput i \<Longrightarrow> wf_TxInput j \<Longrightarrow> sig_input i = sig_input j \<Longrightarrow> outpoint_key i = outpoint_key j"
  by (auto simp: sig_input_def wf_TxInput_def outpoint_key_def zero64_def)

lemma map_sig_input_inj:
  assumes "length xs = length ys" and "\<forall>i \<in> set xs. wf_TxInput i" and "\<forall>i \<in> set ys. wf_TxInput i"
    and "map sig_input xs = map sig_input ys"
  shows "map outpoint_key xs = map outpoint_key ys"
  using assms by (induction xs ys rule: list_induct2) (auto simp: sig_input_inj)

lemma signature_preimage_inj:
  assumes wf: "wf_Transaction tx" "wf_Transaction tx'"
    and "i < length (mInputs tx)" and "j < length (mInputs tx')"
    and e: "signature_preimage tx i = signature_preimage tx' j"
  shows "signed_view tx = signed_view tx' \<and> i = j"
proof -
  have l: "length (mInputs tx) \<le> 1000" "length (mInputs tx') \<le> 1000"
      "length (mOutputs tx) \<le> 1000" "length (mOutputs tx') \<le> 1000"
    using wf by (simp_all add: wf_Transaction_def MAX_INPUTS_def MAX_OUTPUTS_def)
  have wi: "\<forall>i \<in> set (mInputs tx). wf_TxInput i" "\<forall>i \<in> set (mInputs tx'). wf_TxInput i"
    and wo: "\<forall>out \<in> set (mOutputs tx). wf_TxOutput out" "\<forall>out \<in> set (mOutputs tx'). wf_TxOutput out"
    using wf by (simp_all add: wf_Transaction_def)
  have sl: "\<forall>i \<in> set (mInputs tx). length (sig_input i) = 164"
    "\<forall>i \<in> set (mInputs tx'). length (sig_input i) = 164"
    using wi by (simp_all add: sig_input_length)
  note E = e [unfolded signature_preimage_def WriteLE_append_inj of_nat_count_inj [OF l(1,2)]]
  note v = E [THEN conjunct1] and li = E [THEN conjunct2, THEN conjunct1]
  note F = concat_fixed_inj [OF sl li E [THEN conjunct2, THEN conjunct2],
      unfolded WriteLE_append_inj of_nat_count_inj [OF l(3,4)]]
  note m = F [THEN conjunct1] and lo = F [THEN conjunct2, THEN conjunct1]
  note G = tx_output.enc_list_inj [OF wo lo F [THEN conjunct2, THEN conjunct2],
      unfolded WriteLE_append_inj WriteLE32_inj]
  have "i \<le> 1000" "j \<le> 1000" using assms(3,4) l by linarith+
  then have "i = j" using G of_nat_count_inj [of i j] by simp
  with v G map_sig_input_inj [OF li wi m] show ?thesis by (simp add: signed_view_def)
qed

lemma sum_list_bound: "\<forall>x \<in> set xs. f x \<le> (k :: nat) \<Longrightarrow> (\<Sum>x \<leftarrow> xs. f x) \<le> length xs * k"
  by (induction xs) auto

lemma TxOutput_size_le: "wf_TxOutput out \<Longrightarrow> TxOutput_GetSerializedSize out \<le> 10017"
  by (simp add: TxOutput_GetSerializedSize_def CompactSizeLen_def wf_TxOutput_def MAX_SCRIPT_SIZE_def)

lemma outputs_size_le:
  assumes "wf_Transaction tx"
  shows "(\<Sum>out \<leftarrow> mOutputs tx. TxOutput_GetSerializedSize out) \<le> 1000 * 10017"
proof -
  have "(\<Sum>out \<leftarrow> mOutputs tx. TxOutput_GetSerializedSize out) \<le> length (mOutputs tx) * 10017"
    using assms TxOutput_size_le by (intro sum_list_bound) (simp add: wf_Transaction_def)
  also have "\<dots> \<le> 1000 * 10017" using assms by (simp add: wf_Transaction_def MAX_OUTPUTS_def)
  finally show ?thesis .
qed

lemma signature_preimage_length:
  assumes "wf_Transaction tx"
  shows "length (signature_preimage tx i) < 2 ^ 61"
proof -
  have "(\<Sum>i \<leftarrow> mInputs tx. length (sig_input i)) \<le> length (mInputs tx) * 164"
    using assms by (intro sum_list_bound) (simp add: wf_Transaction_def sig_input_length)
  also have "\<dots> \<le> 1000 * 164" using assms by (simp add: wf_Transaction_def MAX_INPUTS_def)
  finally show ?thesis
    using outputs_size_le [OF assms] by (simp add: signature_preimage_def length_concat comp_def)
qed

lemma GetSignatureHash_spec:
  assumes "wf_Transaction tx" and "i < length (mInputs tx)"
  shows "GetSignatureHash tx i = Inr (sha256_spec (signature_preimage tx i))"
  using sha256_Raw_spec [OF signature_preimage_length [OF assms(1), of i]] assms(2)
  by (simp add: GetSignatureHash_def sha256_Raw_def)

text \<open>
  A signature hash commits to the whole transaction: two inputs of well-formed
  transactions with equal signature hashes agree on the index, the version, every
  outpoint, public key and noise root, every output and the lock time, or their
  preimages are a SHA-256 collision.
\<close>

theorem GetSignatureHash_binding:
  assumes "wf_Transaction tx" and "wf_Transaction tx'"
    and "i < length (mInputs tx)" and "j < length (mInputs tx')"
    and "GetSignatureHash tx i = GetSignatureHash tx' j"
  shows "signed_view tx = signed_view tx' \<and> i = j \<or>
    sha256_collision (signature_preimage tx i) (signature_preimage tx' j)"
proof -
  have "sha256_spec (signature_preimage tx i) = sha256_spec (signature_preimage tx' j)"
    using assms(5) by (simp add: GetSignatureHash_spec assms(1-4))
  then show ?thesis
    using signature_preimage_inj [OF assms(1-4)] by (auto simp: sha256_collision_def)
qed

theorem GetSignatureHash_binding_witness:
  "GetSignatureHash sample_tx 0 = GetSignatureHash (sample_tx\<lparr>mTxHash := replicate 32 1\<rparr>) 0 \<and>
   (signed_view sample_tx = signed_view (sample_tx\<lparr>mTxHash := replicate 32 1\<rparr>) \<or>
    sha256_collision (signature_preimage sample_tx 0) (signature_preimage (sample_tx\<lparr>mTxHash := replicate 32 1\<rparr>) 0))"
proof -
  let ?t = "sample_tx\<lparr>mTxHash := replicate 32 1\<rparr>"
  have "wf_Transaction ?t" using sample_tx_wf by (simp add: wf_Transaction_def)
  moreover have l: "0 < length (mInputs sample_tx)" "0 < length (mInputs ?t)" by (simp_all add: sample_tx_def)
  moreover have e: "GetSignatureHash sample_tx 0 = GetSignatureHash ?t 0"
    by (simp add: GetSignatureHash_def signature_preimage_def)
  ultimately show ?thesis using GetSignatureHash_binding [OF sample_tx_wf, of ?t 0 0] by blast
qed

section \<open>Spending authority\<close>

lemma NoiseBoundHash_spec: "is_bytes32 pk \<Longrightarrow> is_bytes32 kps \<Longrightarrow> NoiseBoundHash pk kps = sha256_spec (pk @ kps)"
proof -
  assume l: "is_bytes32 pk" "is_bytes32 kps"
  have "rep (fold (\<lambda>d c. sha256_Update c d) [pk, kps] sha256_Init) (pk @ kps)"
    using rep_Updates [OF rep_Init, of "[pk, kps]"] l by simp
  from sha256_Final_rep [OF this] l show ?thesis by (simp add: NoiseBoundHash_def)
qed

text \<open>
  \<open>authorised\<close>: input \<open>i\<close> is entitled to spend the output. The second disjuncts are the
  only ways around: a preimage of the all-zero digest for an output that is no payment,
  or a collision of the signed message with one verified before (\<open>seen\<close>).
\<close>

definition authorised ::
  "(byte list \<Rightarrow> bytes32 \<Rightarrow> bytes64 \<Rightarrow> bool) \<Rightarrow> byte list list \<Rightarrow> Transaction \<Rightarrow> nat \<Rightarrow> TxOutput \<Rightarrow> bool" where
  "authorised ed_open seen tx i out \<longleftrightarrow>
     (let input = mInputs tx ! i; h = sha256_spec (signature_preimage tx i);
          bound = sha256_spec (mPubkey input @ mKps input) in
      (mScriptPubKey out = CreatePayToPubkeyHash bound \<or> bound = zero32) \<and>
      IsCanonicalSignatureScalar (mSignature input) \<and>
      (ed_open h (mPubkey input) (mSignature input) \<or>
       (\<exists>m \<in> set seen. sha256_collision (mPubkey input @ mSignature input @ h) m)))"

lemma GetPubkeyHash_eq:
  "GetPubkeyHash out = h \<Longrightarrow> (is_bytes32 h \<and> mScriptPubKey out = CreatePayToPubkeyHash h) \<or> h = zero32"
  by (auto simp: GetPubkeyHash_def ExtractPubkeyHash_def IsPayToPubkeyHash_iff split: option.splits)

lemma GetPubkeyHash_pay: "is_bytes32 h \<Longrightarrow> GetPubkeyHash (mk_TxOutput v h) = h"
  using IsPayToPubkeyHash_iff [of "CreatePayToPubkeyHash h" h]
  by (simp add: GetPubkeyHash_def ExtractPubkeyHash_def mk_TxOutput_def)

lemma wf_nth_input: "wf_Transaction tx \<Longrightarrow> i < length (mInputs tx) \<Longrightarrow> wf_TxInput (mInputs tx ! i)"
  by (simp add: wf_Transaction_def)

lemma wf_input_sizes:
  "wf_TxInput i \<Longrightarrow> is_bytes32 (mPubkey i) \<and> is_bytes32 (mKps i) \<and> is_bytes64 (mSignature i)"
  by (simp add: wf_TxInput_def)

context signature_check
begin

lemma VerifySignature_sound:
  assumes wf: "wf_Transaction tx" and i: "i < length (mInputs tx)"
    and v: "VerifySignature verify tx i out = Inr True"
  shows "authorised ed_open seen tx i out"
proof -
  let ?in = "mInputs tx ! i" and ?h = "sha256_spec (signature_preimage tx i)"
  note sz = wf_input_sizes [OF wf_nth_input [OF wf i]]
  have b: "NoiseBoundHash (mPubkey ?in) (mKps ?in) = sha256_spec (mPubkey ?in @ mKps ?in)"
    using sz by (simp add: NoiseBoundHash_spec)
  have "sig_call (mPubkey ?in) (mSignature ?in) ?h" using sz by (simp add: sig_call_def)
  moreover have "GetPubkeyHash out = sha256_spec (mPubkey ?in @ mKps ?in)"
    and "verify (mPubkey ?in) (mSignature ?in) ?h"
    using v i by (auto simp: VerifySignature_def GetSignatureHash_spec [OF wf i] Let_def b split: if_splits)
  ultimately show ?thesis
    using verify_sound GetPubkeyHash_eq unfolding authorised_def Let_def by blast
qed

lemma VerifySignature_complete:
  assumes wf: "wf_Transaction tx" and i: "i < length (mInputs tx)"
    and p: "mScriptPubKey out = CreatePayToPubkeyHash (NoiseBoundHash (mPubkey (mInputs tx ! i)) (mKps (mInputs tx ! i)))"
    and c: "IsCanonicalSignatureScalar (mSignature (mInputs tx ! i))"
    and o: "ed_open (sha256_spec (signature_preimage tx i)) (mPubkey (mInputs tx ! i)) (mSignature (mInputs tx ! i))"
  shows "VerifySignature verify tx i out = Inr True"
proof -
  let ?in = "mInputs tx ! i" and ?h = "sha256_spec (signature_preimage tx i)"
  note sz = wf_input_sizes [OF wf_nth_input [OF wf i]]
  let ?b = "NoiseBoundHash (mPubkey ?in) (mKps ?in)"
  have "IsPayToPubkeyHash (mScriptPubKey out) = Some ?b"
    unfolding p using sz by (simp add: IsPayToPubkeyHash_iff NoiseBoundHash_spec)
  then have "GetPubkeyHash out = ?b" by (simp add: GetPubkeyHash_def ExtractPubkeyHash_def)
  moreover have "sig_call (mPubkey ?in) (mSignature ?in) ?h" using sz by (simp add: sig_call_def)
  then have "verify (mPubkey ?in) (mSignature ?in) ?h" using c o verify_complete by blast
  ultimately show ?thesis
    using i by (simp add: VerifySignature_def GetSignatureHash_spec [OF wf i] Let_def)
qed

lemma verify_from_sound:
  assumes "wf_Transaction tx" and "j + length outs \<le> length (mInputs tx)"
    and "verify_from verify tx j outs = Inr True"
  shows "\<forall>k < length outs. authorised ed_open seen tx (j + k) (outs ! k)"
  using assms(2,3)
proof (induction outs arbitrary: j)
  case (Cons out outs)
  from Cons.prems have v: "VerifySignature verify tx j out = Inr True"
    and r: "verify_from verify tx (j + 1) outs = Inr True"
    by (auto simp: rbind_eq_Inr_iff split: if_splits)
  have "authorised ed_open seen tx j out" using Cons.prems(1) by (intro VerifySignature_sound [OF assms(1) _ v]) simp
  moreover have "\<forall>k < length outs. authorised ed_open seen tx (j + 1 + k) (outs ! k)"
    using Cons.prems(1) by (intro Cons.IH [OF _ r]) simp
  ultimately show ?case by (auto simp: less_Suc_eq_0_disj)
qed simp

lemma verify_from_complete:
  assumes "\<forall>k < length outs. VerifySignature verify tx (j + k) (outs ! k) = Inr True"
  shows "verify_from verify tx j outs = Inr True"
  using assms
proof (induction outs arbitrary: j)
  case (Cons out outs)
  have "VerifySignature verify tx j out = Inr True" using Cons.prems by force
  moreover have "verify_from verify tx (j + 1) outs = Inr True"
    using Cons.prems by (intro Cons.IH) (auto simp: less_Suc_eq_0_disj)
  ultimately show ?case by simp
qed simp

lemma VerifyAllSignatures_sound:
  assumes "wf_Transaction tx" and "VerifyAllSignatures verify tx outs = Inr True"
  shows "length outs = length (mInputs tx) \<and> (\<forall>i < length outs. authorised ed_open seen tx i (outs ! i))"
  using verify_from_sound [OF assms(1), of 0 outs] assms(2) by (auto simp: VerifyAllSignatures_def)

end

text \<open>
  C17. Spending needs authority: when \<open>VerifyAllSignatures\<close> accepts a well-formed
  transaction, with the signature cache in any reachable state, there is one prevout
  per input and each prevout is a payment to SHA-256 of that input's public key and
  noise root, signed canonically by that key over that input's signature hash. The
  exceptions are a preimage of the zero digest and a SHA-256 collision with a message
  verified before.
\<close>

theorem VerifyAllSignatures_sound_cached:
  assumes "sig_reach ed_open seen st" and "wf_Transaction tx"
    and "VerifyAllSignatures (VerifySimple ed_open st) tx outs = Inr True"
  shows "length outs = length (mInputs tx) \<and> (\<forall>i < length outs. authorised ed_open seen tx i (outs ! i))"
  by (rule signature_check.VerifyAllSignatures_sound
      [OF signature_check_cached [OF sig_reach_inv [OF assms(1)]] assms(2,3)])

definition sample_key :: SecretKey where
  "sample_key = \<lparr>mSecretKey = replicate 64 1, mPublicKey = replicate 32 9\<rparr>"

definition sample_open :: "byte list \<Rightarrow> bytes32 \<Rightarrow> bytes64 \<Rightarrow> bool" where
  "sample_open d pk s \<longleftrightarrow> pk = replicate 32 9 \<and> s = zero64"

definition sample_prev :: TxOutput where
  "sample_prev = mk_TxOutput 7000 (NoiseBoundHash (replicate 32 9) (replicate 32 3))"

definition fresh_sig_state :: sig_state where
  "fresh_sig_state = \<lparr>gVerifySigCache = [], gVerifyCacheHit = 0, gVerifyCacheMiss = 0\<rparr>"

lemma sample_inputs: "mInputs sample_tx = [(mk_TxInput (replicate 32 7) 1 (replicate 32 9) zero64)
    \<lparr>mKps := replicate 32 3, mNoiseProof := [1, 2, 3]\<rparr>]"
  by (simp add: sample_tx_def)

lemma sample_verifies: "VerifySignature (VerifySimple sample_open fresh_sig_state) sample_tx 0 sample_prev = Inr True"
  unfolding fresh_sig_state_def
  by (rule fresh_cache.VerifySignature_complete [OF sample_tx_wf])
    (simp_all add: sample_inputs sample_prev_def mk_TxOutput_def mk_TxInput_def sample_open_def canonical_zero64)

theorem VerifyAllSignatures_sound_cached_witness:
  "VerifyAllSignatures (VerifySimple sample_open fresh_sig_state) sample_tx [sample_prev] = Inr True \<and>
   authorised sample_open [] sample_tx 0 sample_prev"
proof -
  have "VerifyAllSignatures (VerifySimple sample_open fresh_sig_state) sample_tx [sample_prev] = Inr True"
    using sample_verifies by (simp add: VerifyAllSignatures_def sample_inputs)
  moreover have "sig_reach sample_open [] fresh_sig_state"
    unfolding fresh_sig_state_def by (rule sig_reach.init)
  ultimately show ?thesis
    using VerifyAllSignatures_sound_cached [OF _ sample_tx_wf] by fastforce
qed

lemma signature_preimage_view:
  assumes "signed_view tx = signed_view tx'"
  shows "signature_preimage tx i = signature_preimage tx' i"
proof -
  have s: "sig_input x = (case outpoint_key x of (h, n, pk, kps) \<Rightarrow> h @ WriteLE32 n @ pk @ zero64 @ kps)" for x
    by (simp add: sig_input_def outpoint_key_def)
  have M: "map sig_input xs = map (\<lambda>(h, n, pk, kps). h @ WriteLE32 n @ pk @ zero64 @ kps) (map outpoint_key xs)" for xs
    by (simp add: s comp_def)
  have o: "map outpoint_key (mInputs tx) = map outpoint_key (mInputs tx')"
    using assms by (simp add: signed_view_def)
  then have "map sig_input (mInputs tx) = map sig_input (mInputs tx')" by (simp only: M)
  moreover have "length (mInputs tx) = length (mInputs tx')" using o by (rule map_eq_imp_length_eq)
  ultimately show ?thesis using assms by (simp add: signature_preimage_def signed_view_def)
qed

text \<open>
  What is relied on of Ed25519: signatures are 64 bytes with a canonical scalar, and
  verify under the public half of the key.
\<close>

definition good_key ::
  "(byte list \<Rightarrow> bytes64 \<Rightarrow> bytes64) \<Rightarrow> (byte list \<Rightarrow> bytes32 \<Rightarrow> bytes64 \<Rightarrow> bool) \<Rightarrow> SecretKey \<Rightarrow> bool" where
  "good_key ed_sign ed_open key \<longleftrightarrow> \<not> SecretKey_IsZero key \<and>
     (\<forall>d. is_bytes64 (ed_sign d (mSecretKey key)) \<and>
          IsCanonicalSignatureScalar (ed_sign d (mSecretKey key)) \<and>
          ed_open d (mPublicKey key) (ed_sign d (mSecretKey key)))"

definition signed_input ::
  "(byte list \<Rightarrow> bytes64 \<Rightarrow> bytes64) \<Rightarrow> Transaction \<Rightarrow> nat \<Rightarrow> SecretKey \<Rightarrow> TxInput" where
  "signed_input ed_sign tx i key =
     (mInputs tx ! i)\<lparr>mSignature := ed_sign (sha256_spec (signature_preimage tx i)) (mSecretKey key)\<rparr>"

lemma outpoint_key_signed: "outpoint_key (signed_input ed_sign tx i key) = outpoint_key (mInputs tx ! i)"
  by (simp add: outpoint_key_def signed_input_def)

lemma Sign_eq:
  assumes "wf_Transaction tx" and "i < length (mInputs tx)" and "good_key ed_sign ed_open key"
    and "mPubkey (mInputs tx ! i) = mPublicKey key"
  shows "Sign ed_sign i key tx =
    Inr (tx\<lparr>mInputs := (mInputs tx)[i := signed_input ed_sign tx i key], mHashCached := False\<rparr>)"
proof -
  let ?in = "mInputs tx ! i"
  have "?in\<lparr>mSignature := s, mPubkey := mPublicKey key\<rparr> = ?in\<lparr>mSignature := s\<rparr>" for s
    using assms(4) by (cases ?in) simp
  with assms(2,3) show ?thesis
    by (simp add: Sign_def GetSignatureHash_spec [OF assms(1,2)] SecretKey_Sign_def good_key_def
        GetPublicKey_def Let_def signed_input_def)
qed

lemma Sign_keeps:
  assumes wf: "wf_Transaction tx" and "i < length (mInputs tx)" and "good_key ed_sign ed_open key"
    and tx': "tx' = tx\<lparr>mInputs := (mInputs tx)[i := signed_input ed_sign tx i key], mHashCached := False\<rparr>"
  shows "wf_Transaction tx' \<and> signed_view tx' = signed_view tx"
proof -
  have "wf_TxInput (signed_input ed_sign tx i key)"
    using assms(3) wf_nth_input [OF assms(1,2)] by (simp add: wf_TxInput_def signed_input_def good_key_def)
  then have "wf_Transaction tx'"
    using wf set_update_subset_insert [of "mInputs tx" i] by (auto simp: wf_Transaction_def tx')
  moreover have "map outpoint_key (mInputs tx') = map outpoint_key (mInputs tx)"
    using assms(2) by (simp add: tx' map_update outpoint_key_signed list_update_same_conv)
  ultimately show ?thesis by (simp add: signed_view_def tx')
qed

lemma sign_from_all:
  assumes "wf_Transaction tx" and "i + length keys \<le> length (mInputs tx)"
    and "\<forall>key \<in> set keys. good_key ed_sign ed_open key"
    and "\<forall>k < length keys. mPubkey (mInputs tx ! (i + k)) = mPublicKey (keys ! k)"
  shows "\<exists>tx'. sign_from ed_sign i keys tx = Inr tx' \<and> wf_Transaction tx' \<and> signed_view tx' = signed_view tx \<and>
    length (mInputs tx') = length (mInputs tx) \<and> (\<forall>j < i. mInputs tx' ! j = mInputs tx ! j) \<and>
    (\<forall>k < length keys. mInputs tx' ! (i + k) = signed_input ed_sign tx (i + k) (keys ! k))"
  using assms
proof (induction keys arbitrary: i tx)
  case (Cons key keys)
  have i: "i < length (mInputs tx)" and g: "good_key ed_sign ed_open key" using Cons.prems by auto
  have "mPubkey (mInputs tx ! i) = mPublicKey key" using Cons.prems(4) by force
  note S = Sign_eq [OF Cons.prems(1) i g this]
  define t where "t = tx\<lparr>mInputs := (mInputs tx)[i := signed_input ed_sign tx i key], mHashCached := False\<rparr>"
  note K = Sign_keeps [OF Cons.prems(1) i g t_def]
  have n: "mInputs t ! j = (if j = i then signed_input ed_sign tx i key else mInputs tx ! j)" for j
    using i by (simp add: t_def nth_list_update)
  have pk: "\<forall>k < length keys. mPubkey (mInputs t ! (i + 1 + k)) = mPublicKey (keys ! k)"
  proof (intro allI impI)
    fix k assume "k < length keys"
    with Cons.prems(4) [rule_format, of "Suc k"] show "mPubkey (mInputs t ! (i + 1 + k)) = mPublicKey (keys ! k)"
      by (simp add: n)
  qed
  obtain tx' where t: "sign_from ed_sign (i + 1) keys t = Inr tx'" "wf_Transaction tx'"
    "signed_view tx' = signed_view t" "length (mInputs tx') = length (mInputs t)"
    "\<forall>j < i + 1. mInputs tx' ! j = mInputs t ! j"
    "\<forall>k < length keys. mInputs tx' ! (i + 1 + k) = signed_input ed_sign t (i + 1 + k) (keys ! k)"
    using Cons.IH [of t "i + 1"] K Cons.prems(2,3) pk by (auto simp: t_def)
  have same: "signed_input ed_sign t (i + 1 + k) key' = signed_input ed_sign tx (i + 1 + k) key'" for k key'
    using signature_preimage_view [of t tx] K by (simp add: signed_input_def n)
  have "mInputs tx' ! (i + k) = signed_input ed_sign tx (i + k) ((key # keys) ! k)"
    if "k < length (key # keys)" for k
    using that t(5,6) same n by (cases k) auto
  moreover have "mInputs tx' ! j = mInputs tx ! j" if "j < i" for j using t(5) n that by simp
  moreover have "length (mInputs tx') = length (mInputs tx)" using t(4) by (simp add: t_def)
  ultimately show ?case using S t(1-3) K by (simp add: t_def [symmetric])
qed simp

context signature_check
begin

lemma SignAll_verifies:
  assumes wf: "wf_Transaction tx" and lk: "length keys = length (mInputs tx)"
    and g: "\<forall>key \<in> set keys. good_key ed_sign ed_open key"
    and pk: "\<forall>k < length keys. mPubkey (mInputs tx ! k) = mPublicKey (keys ! k)"
    and lo: "length outs = length (mInputs tx)"
    and pay: "\<forall>k < length outs. mScriptPubKey (outs ! k) =
      CreatePayToPubkeyHash (NoiseBoundHash (mPubkey (mInputs tx ! k)) (mKps (mInputs tx ! k)))"
  shows "\<exists>tx'. SignAll ed_sign keys tx = Inr tx' \<and> signed_view tx' = signed_view tx \<and>
    VerifyAllSignatures verify tx' outs = Inr True"
proof -
  obtain tx' where t: "sign_from ed_sign 0 keys tx = Inr tx'" and wf': "wf_Transaction tx'"
    and view: "signed_view tx' = signed_view tx" and l': "length (mInputs tx') = length (mInputs tx)"
    and n: "\<forall>k < length keys. mInputs tx' ! k = signed_input ed_sign tx k (keys ! k)"
    using sign_from_all [OF wf, of 0 keys ed_sign ed_open] lk g pk by auto
  have "VerifySignature verify tx' k (outs ! k) = Inr True" if k: "k < length outs" for k
  proof (rule VerifySignature_complete [OF wf'])
    have e: "mInputs tx' ! k = signed_input ed_sign tx k (keys ! k)" using n k lo lk by simp
    have gk: "good_key ed_sign ed_open (keys ! k)" using g k lo lk by simp
    show "k < length (mInputs tx')" using k lo l' by simp
    show "mScriptPubKey (outs ! k) =
        CreatePayToPubkeyHash (NoiseBoundHash (mPubkey (mInputs tx' ! k)) (mKps (mInputs tx' ! k)))"
      using pay k by (simp add: e signed_input_def)
    show "IsCanonicalSignatureScalar (mSignature (mInputs tx' ! k))"
      using gk by (simp add: e signed_input_def good_key_def)
    show "ed_open (sha256_spec (signature_preimage tx' k)) (mPubkey (mInputs tx' ! k)) (mSignature (mInputs tx' ! k))"
      using gk pk k lo lk signature_preimage_view [OF view] by (simp add: e signed_input_def good_key_def)
  qed
  then have "verify_from verify tx' 0 outs = Inr True" by (intro verify_from_complete) simp
  then show ?thesis using t view lk lo l' by (auto simp: SignAll_def VerifyAllSignatures_def)
qed

end

text \<open>
  C32. What \<open>SignAll\<close> signs, \<open>VerifyAllSignatures\<close> accepts: with one working key per
  input, each already named as that input's public key, and prevouts that pay to the
  inputs' noise-bound hashes, signing succeeds, changes nothing the signature hashes
  cover, and every signature verifies, whatever the signature cache holds.
\<close>

theorem SignAll_then_verify:
  assumes "sig_reach ed_open seen st" and "wf_Transaction tx" and "length keys = length (mInputs tx)"
    and "\<forall>key \<in> set keys. good_key ed_sign ed_open key"
    and "\<forall>k < length keys. mPubkey (mInputs tx ! k) = mPublicKey (keys ! k)"
    and "length outs = length (mInputs tx)"
    and "\<forall>k < length outs. mScriptPubKey (outs ! k) =
      CreatePayToPubkeyHash (NoiseBoundHash (mPubkey (mInputs tx ! k)) (mKps (mInputs tx ! k)))"
  shows "\<exists>tx'. SignAll ed_sign keys tx = Inr tx' \<and> signed_view tx' = signed_view tx \<and>
    VerifyAllSignatures (VerifySimple ed_open st) tx' outs = Inr True"
  by (rule signature_check.SignAll_verifies
      [OF signature_check_cached [OF sig_reach_inv [OF assms(1)]] assms(2-7)])

theorem SignAll_then_verify_witness:
  "\<exists>tx'. SignAll (\<lambda>d sk. zero64) [sample_key] sample_tx = Inr tx' \<and> signed_view tx' = signed_view sample_tx \<and>
     VerifyAllSignatures (VerifySimple sample_open fresh_sig_state) tx' [sample_prev] = Inr True"
proof (rule SignAll_then_verify)
  show "sig_reach sample_open [] fresh_sig_state"
    unfolding fresh_sig_state_def by (rule sig_reach.init)
  show "\<forall>key \<in> set [sample_key]. good_key (\<lambda>d sk. zero64) sample_open key"
    by (simp add: good_key_def sample_key_def SecretKey_IsZero_def all_zero_def canonical_zero64
        sample_open_def list_all_iff) (simp add: zero64_def)
qed (simp_all add: sample_tx_wf sample_inputs sample_key_def mk_TxInput_def sample_prev_def mk_TxOutput_def)

text \<open>
  \<open>Sign\<close> hashes before it stores the key's public half, so signing an input that names
  another public key signs a message that verification never looks at.
\<close>

lemma Sign_other_pubkey:
  assumes wf: "wf_Transaction tx" and i: "i < length (mInputs tx)"
    and k: "is_bytes32 (mPublicKey key)" "mPublicKey key \<noteq> mPubkey (mInputs tx ! i)"
    and s: "Sign ed_sign i key tx = Inr tx'"
    and e: "\<forall>d sk. is_bytes64 (ed_sign d sk)"
  shows "signature_preimage tx' i \<noteq> signature_preimage tx i"
proof -
  obtain sg where t: "tx' = tx\<lparr>mInputs := (mInputs tx)[i := (mInputs tx ! i)\<lparr>mSignature := sg,
      mPubkey := mPublicKey key\<rparr>], mHashCached := False\<rparr>" and sg: "is_bytes64 sg"
    using s e by (auto simp: Sign_def rbind_eq_Inr_iff Let_def SecretKey_Sign_def GetPublicKey_def)
  have "wf_TxInput ((mInputs tx ! i)\<lparr>mSignature := sg, mPubkey := mPublicKey key\<rparr>)"
    using wf_nth_input [OF wf i] k sg by (simp add: wf_TxInput_def)
  then have wf': "wf_Transaction tx'"
    using wf set_update_subset_insert [of "mInputs tx" i] by (auto simp: wf_Transaction_def t)
  have "map outpoint_key (mInputs tx') ! i \<noteq> map outpoint_key (mInputs tx) ! i"
    using i k(2) by (simp add: t outpoint_key_def)
  then have "signed_view tx' \<noteq> signed_view tx" by (auto simp: signed_view_def)
  with signature_preimage_inj [OF wf' wf, of i i] i show ?thesis by (auto simp: t)
qed

end
