(* ===== verification/Block.thy ===== *)
theory Block
  imports Transaction
begin

text \<open>
  Blocks, \<open>src/src/primitives/block.cpp\<close>: headers with their cached hash and the two
  serialisers, the Merkle root over transaction hashes and over noise-leaf
  commitments, block validity, the block wire format and the builder.
\<close>

section \<open>Headers\<close>

definition SERIALIZED_SIZE :: nat where
  "SERIALIZED_SIZE = 4 + 32 + 32 + 32 + 8 + 4 + 4 + 4"

definition NONCE_OFFSET :: nat where
  "NONCE_OFFSET = 4 + 32 + 32 + 32 + 8 + 4 + 4"

record BlockHeader =
  hVersion :: u32
  mPrevBlockHash :: bytes32
  mMerkleRoot :: bytes32
  mLeafRoot :: bytes32
  mTimestamp :: u64
  mHeight :: u32
  mBits :: u32
  mNonce :: u32
  mBlockHash :: bytes32
  hHashCached :: bool

definition BlockHeader_init :: "u32 \<Rightarrow> BlockHeader" where
  "BlockHeader_init version = \<lparr>hVersion = version, mPrevBlockHash = zero32, mMerkleRoot = zero32,
     mLeafRoot = zero32, mTimestamp = 0, mHeight = 0, mBits = 0, mNonce = 0, mBlockHash = zero32,
     hHashCached = False\<rparr>"

definition BlockHeader_Serialize :: "BlockHeader \<Rightarrow> byte list" where
  "BlockHeader_Serialize h =
     WriteLE32 (hVersion h) @ mPrevBlockHash h @ mMerkleRoot h @ mLeafRoot h @
     WriteLE64 (mTimestamp h) @ WriteLE32 (mHeight h) @ WriteLE32 (mBits h) @ WriteLE32 (mNonce h)"

text \<open>
  \<open>SerializeTo\<close> writes through a pointer into the caller's buffer; \<open>None\<close> is the null
  pointer, and the buffer is returned as the call leaves it.
\<close>

definition put32 :: "u32 \<Rightarrow> byte list" where
  "put32 v = [ucast v, ucast (drop_bit 8 v), ucast (drop_bit 16 v), ucast (drop_bit 24 v)]"

definition put64 :: "u64 \<Rightarrow> byte list" where
  "put64 v = map (\<lambda>i. ucast (drop_bit (i * 8) v)) [0..<8]"

definition BlockHeader_SerializeTo :: "BlockHeader \<Rightarrow> byte list option \<Rightarrow> bool \<times> byte list option" where
  "BlockHeader_SerializeTo h out = (case out of
     None \<Rightarrow> (False, None)
   | Some buf \<Rightarrow>
       if length buf < SERIALIZED_SIZE then (False, Some buf)
       else
         let w = put32 (hVersion h) @ mPrevBlockHash h @ mMerkleRoot h @ mLeafRoot h @
                 put64 (mTimestamp h) @ put32 (mHeight h) @ put32 (mBits h) @ put32 (mNonce h)
         in (length w = SERIALIZED_SIZE, Some (w @ drop (length w) buf)))"

definition BlockHeader_Deserialize :: "byte list \<Rightarrow> BlockHeader result" where
  "BlockHeader_Deserialize data =
     guard_throw (length data < SERIALIZED_SIZE) (CryptoError ''BlockHeader data too short'') (
     rbind (ReadLE32 data 0) (\<lambda>(version, offset).
     rbind (rd_bytes 32 data offset) (\<lambda>prev. let offset = offset + 32 in
     rbind (rd_bytes 32 data offset) (\<lambda>merkle. let offset = offset + 32 in
     rbind (rd_bytes 32 data offset) (\<lambda>leaf. let offset = offset + 32 in
     rbind (ReadLE64 data offset) (\<lambda>(timestamp, offset).
     rbind (ReadLE32 data offset) (\<lambda>(height, offset).
     rbind (ReadLE32 data offset) (\<lambda>(bits, offset).
     rbind (ReadLE32 data offset) (\<lambda>(nonce, offset).
       Inr \<lparr>hVersion = version, mPrevBlockHash = prev, mMerkleRoot = merkle, mLeafRoot = leaf,
            mTimestamp = timestamp, mHeight = height, mBits = bits, mNonce = nonce,
            mBlockHash = zero32, hHashCached = False\<rparr>)))))))))"

definition BlockHeader_ComputeHash :: "BlockHeader \<Rightarrow> BlockHeader" where
  "BlockHeader_ComputeHash h =
     h\<lparr>mBlockHash := sha256_Final (sha256_Update sha256_Init (BlockHeader_Serialize h)), hHashCached := True\<rparr>"

definition BlockHeader_GetHash_st :: "BlockHeader \<Rightarrow> bytes32 \<times> BlockHeader" where
  "BlockHeader_GetHash_st h =
     (let h = (if \<not> hHashCached h then BlockHeader_ComputeHash h else h) in (mBlockHash h, h))"

definition BlockHeader_GetHash :: "BlockHeader \<Rightarrow> bytes32" where
  "BlockHeader_GetHash h = fst (BlockHeader_GetHash_st h)"

definition BlockHeader_IsValid :: "BlockHeader \<Rightarrow> bool" where
  "BlockHeader_IsValid h =
     (if hVersion h = 0 then False
      else if mTimestamp h = 0 then False
      else if mBits h = 0 then False
      else \<not> all_zero (mMerkleRoot h))"

text \<open>The setters, each of which drops the cached hash.\<close>

definition SetPrevBlockHash :: "bytes32 \<Rightarrow> BlockHeader \<Rightarrow> BlockHeader" where
  "SetPrevBlockHash hash h = h\<lparr>mPrevBlockHash := hash, hHashCached := False\<rparr>"

definition SetHeaderVersion :: "u32 \<Rightarrow> BlockHeader \<Rightarrow> BlockHeader" where
  "SetHeaderVersion version h = h\<lparr>hVersion := version, hHashCached := False\<rparr>"

definition SetMerkleRoot :: "bytes32 \<Rightarrow> BlockHeader \<Rightarrow> BlockHeader" where
  "SetMerkleRoot root h = h\<lparr>mMerkleRoot := root, hHashCached := False\<rparr>"

definition SetLeafRoot :: "bytes32 \<Rightarrow> BlockHeader \<Rightarrow> BlockHeader" where
  "SetLeafRoot root h = h\<lparr>mLeafRoot := root, hHashCached := False\<rparr>"

definition SetTimestamp :: "u64 \<Rightarrow> BlockHeader \<Rightarrow> BlockHeader" where
  "SetTimestamp timestamp h = h\<lparr>mTimestamp := timestamp, hHashCached := False\<rparr>"

definition SetHeight :: "u32 \<Rightarrow> BlockHeader \<Rightarrow> BlockHeader" where
  "SetHeight height h = h\<lparr>mHeight := height, hHashCached := False\<rparr>"

definition SetBits :: "u32 \<Rightarrow> BlockHeader \<Rightarrow> BlockHeader" where
  "SetBits bits h = h\<lparr>mBits := bits, hHashCached := False\<rparr>"

definition SetNonce :: "u32 \<Rightarrow> BlockHeader \<Rightarrow> BlockHeader" where
  "SetNonce nonce h = h\<lparr>mNonce := nonce, hHashCached := False\<rparr>"

section \<open>Merkle roots\<close>

definition sha256_pair :: "bytes32 \<Rightarrow> bytes32 \<Rightarrow> bytes32" where
  "sha256_pair a b = sha256_Final (sha256_Update (sha256_Update sha256_Init a) b)"

fun merkle_level :: "bytes32 list \<Rightarrow> bytes32 list" where
  "merkle_level [] = []"
| "merkle_level [a] = [sha256_pair a a]"
| "merkle_level (a # b # level) = sha256_pair a b # merkle_level level"

lemma length_merkle_level: "length (merkle_level level) = (length level + 1) div 2"
  by (induction level rule: merkle_level.induct) auto

function merkle_loop :: "bytes32 list \<Rightarrow> bytes32" where
  "merkle_loop level = (if length level > 1 then merkle_loop (merkle_level level) else level ! 0)"
  by pat_completeness auto

termination merkle_loop
  by (relation "measure length") (auto simp: length_merkle_level)

declare merkle_loop.simps [simp del]

definition ComputeMerkleRoot :: "bytes32 list \<Rightarrow> bytes32" where
  "ComputeMerkleRoot hashes =
     (if hashes = [] then zero32
      else if length hashes = 1 then hashes ! 0
      else merkle_loop hashes)"

section \<open>Blocks\<close>

definition MAX_TRANSACTIONS :: nat where
  "MAX_TRANSACTIONS = 10000"

record Block =
  mHeader :: BlockHeader
  mTransactions :: "Transaction list"

definition Block_init :: Block where
  "Block_init = \<lparr>mHeader = BlockHeader_init 1, mTransactions = []\<rparr>"

definition AddTransaction :: "Transaction \<Rightarrow> Block \<Rightarrow> Block result" where
  "AddTransaction tx b =
     guard_throw (length (mTransactions b) \<ge> MAX_TRANSACTIONS) (CryptoError ''Block transaction limit exceeded'')
       (Inr (b\<lparr>mTransactions := mTransactions b @ [tx]\<rparr>))"

definition ClearTransactions :: "Block \<Rightarrow> Block" where
  "ClearTransactions b = b\<lparr>mTransactions := []\<rparr>"

definition Block_ComputeMerkleRoot :: "Block \<Rightarrow> bytes32" where
  "Block_ComputeMerkleRoot b = ComputeMerkleRoot (map GetHash (mTransactions b))"

definition leaf_commitments :: "Transaction \<Rightarrow> bytes32 list" where
  "leaf_commitments tx =
     (if IsCoinbase tx then []
      else map (\<lambda>input. sha256_Final (sha256_Update (sha256_Update sha256_Init (mKps input)) (mNoiseProof input)))
             (filter (\<lambda>input. mNoiseProof input \<noteq> []) (mInputs tx)))"

definition ComputeLeafRoot :: "Block \<Rightarrow> bytes32" where
  "ComputeLeafRoot b = ComputeMerkleRoot (concat (map leaf_commitments (mTransactions b)))"

definition UpdateMerkleRoot :: "Block \<Rightarrow> Block" where
  "UpdateMerkleRoot b = b\<lparr>mHeader := SetMerkleRoot (Block_ComputeMerkleRoot b) (mHeader b)\<rparr>"

definition UpdateLeafRoot :: "Block \<Rightarrow> Block" where
  "UpdateLeafRoot b = b\<lparr>mHeader := SetLeafRoot (ComputeLeafRoot b) (mHeader b)\<rparr>"

definition UpdateRoots :: "Block \<Rightarrow> Block" where
  "UpdateRoots b = UpdateLeafRoot (UpdateMerkleRoot b)"

definition IsCoinbaseValid :: "Block \<Rightarrow> bool" where
  "IsCoinbaseValid b = (case mTransactions b of
     [] \<Rightarrow> False
   | tx # txs \<Rightarrow> if \<not> IsCoinbase tx then False else list_all (\<lambda>tx. \<not> IsCoinbase tx) txs)"

definition Block_GetSerializedSize :: "Block \<Rightarrow> nat" where
  "Block_GetSerializedSize b =
     SERIALIZED_SIZE + 4 + (\<Sum>tx \<leftarrow> mTransactions b. 4 + Transaction_GetSerializedSize True tx)"

fun all_tx_valid :: "Transaction list \<Rightarrow> bool result" where
  "all_tx_valid [] = Inr True"
| "all_tx_valid (tx # txs) =
     rbind (Transaction_IsValid tx) (\<lambda>ok. if \<not> ok then Inr False else all_tx_valid txs)"

definition Block_IsValid :: "Block \<Rightarrow> bool result" where
  "Block_IsValid b =
     (if \<not> BlockHeader_IsValid (mHeader b) then Inr False
      else if mTransactions b = [] then Inr False
      else if \<not> IsCoinbaseValid b then Inr False
      else if Block_ComputeMerkleRoot b \<noteq> mMerkleRoot (mHeader b) then Inr False
      else if ComputeLeafRoot b \<noteq> mLeafRoot (mHeader b) then Inr False
      else if Block_GetSerializedSize b > MAX_BLOCK_SIZE then Inr False
      else let computedMerkle = Block_ComputeMerkleRoot b
           in if computedMerkle \<noteq> mMerkleRoot (mHeader b) then Inr False
              else all_tx_valid (mTransactions b))"

definition tx_frame :: "Transaction \<Rightarrow> byte list" where
  "tx_frame tx = (let txData = Transaction_Serialize True tx in WriteLE32 (of_nat (length txData)) @ txData)"

definition Block_Serialize :: "Block \<Rightarrow> byte list" where
  "Block_Serialize b =
     BlockHeader_Serialize (mHeader b) @ WriteLE32 (of_nat (length (mTransactions b))) @
     concat (map tx_frame (mTransactions b))"

text \<open>One iteration of the parsing loop; the callee sees only its own \<open>txLen\<close> bytes.\<close>

definition tx_frame_Deserialize :: "byte list \<Rightarrow> nat \<Rightarrow> (Transaction \<times> nat) result" where
  "tx_frame_Deserialize data offset =
     guard_throw (offset + 4 > length data) (CryptoError ''Block truncated at transaction length'') (
     rbind (ReadLE32 data offset) (\<lambda>(txLen, offset).
     guard_throw (txLen = 0 \<or> offset + unat txLen > length data)
       (CryptoError ''Block truncated inside transaction'') (
     rbind (rd_bytes (unat txLen) data offset) (\<lambda>window.
     rbind (Transaction_Deserialize window) (\<lambda>tx.
       Inr (tx, offset + unat txLen))))))"

definition Block_Deserialize :: "byte list \<Rightarrow> Block result" where
  "Block_Deserialize data =
     guard_throw (length data < SERIALIZED_SIZE + 4) (CryptoError ''Block data too short'') (
     rbind (BlockHeader_Deserialize data) (\<lambda>header.
     rbind (ReadLE32 data SERIALIZED_SIZE) (\<lambda>(txCount, offset).
     guard_throw (unat txCount > MAX_TRANSACTIONS) (CryptoError ''Block transaction count implausible'') (
     rbind (dec_n tx_frame_Deserialize (unat txCount) data offset) (\<lambda>(txs, offset).
       Inr \<lparr>mHeader = header, mTransactions = txs\<rparr>)))))"

definition Block_GetHash :: "Block \<Rightarrow> bytes32" where
  "Block_GetHash b = BlockHeader_GetHash (mHeader b)"

section \<open>The builder\<close>

definition BlockBuilder_init :: "u32 \<Rightarrow> Block" where
  "BlockBuilder_init version = Block_init\<lparr>mHeader := SetHeaderVersion version (mHeader Block_init)\<rparr>"

definition AddCoinbase :: "Transaction \<Rightarrow> Block \<Rightarrow> Block result" where
  "AddCoinbase coinbase b =
     guard_throw (\<not> IsCoinbase coinbase) (CryptoError ''AddCoinbase called with non-coinbase transaction'') (
     guard_throw (length (mTransactions b) \<noteq> 0) (CryptoError ''Coinbase must be the first transaction'') (
     AddTransaction coinbase b))"

definition BlockBuilder_Build :: "Block \<Rightarrow> Block" where
  "BlockBuilder_Build b = UpdateRoots b"

definition BuildAndFinalize :: "Block \<Rightarrow> Block" where
  "BuildAndFinalize b =
     (let b = UpdateRoots b in b\<lparr>mHeader := snd (BlockHeader_GetHash_st (mHeader b))\<rparr>)"

section \<open>Header formats\<close>

definition wf_BlockHeader :: "BlockHeader \<Rightarrow> bool" where
  "wf_BlockHeader h \<longleftrightarrow> is_bytes32 (mPrevBlockHash h) \<and> is_bytes32 (mMerkleRoot h) \<and>
     is_bytes32 (mLeafRoot h) \<and> is_bytes32 (mBlockHash h)"

definition uncached_header :: "BlockHeader \<Rightarrow> BlockHeader" where
  "uncached_header h = h\<lparr>mBlockHash := zero32, hHashCached := False\<rparr>"

lemma ucast_low_byte: "(ucast (x AND 0xFF) :: byte) = ucast (x :: 'a::len word)"
  unfolding FF_eq_mask
  by (rule bit_word_eqI) (auto simp: bit_simps simp del: mask_numeral dest: bit_imp_le_length)

lemma put32_eq: "put32 v = WriteLE32 v"
  by (simp add: put32_def WriteLE32_def ucast_low_byte)

lemma put64_eq: "put64 v = WriteLE64 v"
  by (simp add: put64_def WriteLE64_def ucast_low_byte upt_rec)

lemma length_BlockHeader_Serialize [simp, codec_simps]:
  "wf_BlockHeader h \<Longrightarrow> length (BlockHeader_Serialize h) = SERIALIZED_SIZE"
  by (simp add: BlockHeader_Serialize_def wf_BlockHeader_def SERIALIZED_SIZE_def)

lemma BlockHeader_Deserialize_Serialize:
  assumes "wf_BlockHeader h"
  shows "BlockHeader_Deserialize (BlockHeader_Serialize h @ post) = Inr (uncached_header h)"
proof -
  let ?d = "BlockHeader_Serialize h @ post"
  have l: "is_bytes32 (mPrevBlockHash h)" "is_bytes32 (mMerkleRoot h)" "is_bytes32 (mLeafRoot h)"
    using assms by (auto simp: wf_BlockHeader_def)
  have a0: "at_off ?d 0 (WriteLE32 (hVersion h) @ mPrevBlockHash h @ mMerkleRoot h @ mLeafRoot h @
     WriteLE64 (mTimestamp h) @ WriteLE32 (mHeight h) @ WriteLE32 (mBits h) @ WriteLE32 (mNonce h) @ post)"
    using at_off_0 [of ?d] by (simp add: BlockHeader_Serialize_def)
  note a1 = at_off_step [OF a0 length_WriteLE32] note a2 = at_off_step [OF a1 l(1)]
  note a3 = at_off_step [OF a2 l(2)] note a4 = at_off_step [OF a3 l(3)]
  note a5 = at_off_step [OF a4 length_WriteLE64] note a6 = at_off_step [OF a5 length_WriteLE32]
  note a7 = at_off_step [OF a6 length_WriteLE32]
  show ?thesis
    unfolding BlockHeader_Deserialize_def
    using ReadLE32_at [OF a0] rd_bytes_at [OF a1 l(1)] rd_bytes_at [OF a2 l(2)] rd_bytes_at [OF a3 l(3)]
      ReadLE64_at [OF a4] ReadLE32_at [OF a5] ReadLE32_at [OF a6] ReadLE32_at [OF a7]
      length_BlockHeader_Serialize [OF assms]
    by (simp add: Let_def uncached_header_def)
qed

lemma BlockHeader_Deserialize_safe: "BlockHeader_Deserialize data \<noteq> Inl OutOfBounds"
  by (auto simp: BlockHeader_Deserialize_def SERIALIZED_SIZE_def Let_def oob_simps
      dest!: ReadLE32_off ReadLE64_off)

lemma BlockHeader_Deserialize_wf:
  "BlockHeader_Deserialize data = Inr h \<Longrightarrow> wf_BlockHeader h \<and> uncached_header h = h"
  by (auto simp: BlockHeader_Deserialize_def Let_def rbind_eq_Inr_iff wf_BlockHeader_def zero32_def
      uncached_header_def dest!: rd_bytes_length)

text \<open>
  The two header serialisers agree and the parser inverts them: writing a header
  into a buffer of at least 120 bytes succeeds and leaves the bytes of \<open>Serialize\<close>
  followed by the untouched rest of the buffer, and parsing that buffer gives the
  header back with an empty hash cache.
\<close>

theorem BlockHeader_SerializeTo_round_trip:
  assumes "wf_BlockHeader h" and "120 \<le> length buf"
  shows "BlockHeader_SerializeTo h (Some buf) = (True, Some (BlockHeader_Serialize h @ drop 120 buf)) \<and>
    length (BlockHeader_Serialize h) = 120 \<and>
    BlockHeader_Deserialize (BlockHeader_Serialize h @ drop 120 buf) =
      Inr (h\<lparr>mBlockHash := zero32, hHashCached := False\<rparr>)"
proof -
  have w: "put32 (hVersion h) @ mPrevBlockHash h @ mMerkleRoot h @ mLeafRoot h @
      put64 (mTimestamp h) @ put32 (mHeight h) @ put32 (mBits h) @ put32 (mNonce h) = BlockHeader_Serialize h"
    by (simp add: put32_eq put64_eq BlockHeader_Serialize_def)
  have l: "length (BlockHeader_Serialize h) = 120"
    using assms(1) by (simp add: SERIALIZED_SIZE_def)
  show ?thesis
    using assms(2) l BlockHeader_Deserialize_Serialize [OF assms(1), of "drop 120 buf"]
    unfolding BlockHeader_SerializeTo_def w by (simp add: SERIALIZED_SIZE_def Let_def uncached_header_def)
qed

theorem BlockHeader_SerializeTo_round_trip_witness:
  "BlockHeader_SerializeTo (BlockHeader_init 1) (Some (replicate 121 7)) =
     (True, Some (BlockHeader_Serialize (BlockHeader_init 1) @ [7]))"
proof -
  have "wf_BlockHeader (BlockHeader_init 1)"
    by (simp add: wf_BlockHeader_def BlockHeader_init_def zero32_def)
  then show ?thesis
    using BlockHeader_SerializeTo_round_trip [of "BlockHeader_init 1" "replicate 121 7"] by simp
qed

section \<open>What a Merkle root commits to\<close>

text \<open>The byte strings that computing a root hashes.\<close>

fun level_msgs :: "bytes32 list \<Rightarrow> byte list list" where
  "level_msgs [] = []"
| "level_msgs [a] = [a @ a]"
| "level_msgs (a # b # level) = (a @ b) # level_msgs level"

function merkle_msgs :: "bytes32 list \<Rightarrow> byte list list" where
  "merkle_msgs level = (if length level > 1 then level_msgs level @ merkle_msgs (merkle_level level) else [])"
  by pat_completeness auto

termination merkle_msgs
  by (relation "measure length") (auto simp: length_merkle_level)

declare merkle_msgs.simps [simp del]

definition collide :: "byte list list \<Rightarrow> byte list list \<Rightarrow> bool" where
  "collide as bs \<longleftrightarrow> (\<exists>a \<in> set as. \<exists>b \<in> set bs. sha256_collision a b)"

lemma collide_append:
  "collide (as @ as') (bs @ bs') \<longleftrightarrow> collide as bs \<or> collide as bs' \<or> collide as' bs \<or> collide as' bs'"
  by (auto simp: collide_def)

lemma collide_Cons:
  "collide (a # as) (b # bs) \<longleftrightarrow> sha256_collision a b \<or> collide as bs \<or> collide [a] bs \<or> collide as [b]"
  by (auto simp: collide_def)

lemma sha256_pair_spec: "is_bytes32 a \<Longrightarrow> is_bytes32 b \<Longrightarrow> sha256_pair a b = sha256_spec (a @ b)"
  using NoiseBoundHash_spec [of a b] by (simp add: NoiseBoundHash_def sha256_pair_def)

lemma length_sha256_pair [simp]: "length (sha256_pair a b) = 32"
  by (simp add: sha256_pair_def)

lemma sha256_pair_inj:
  assumes "is_bytes32 a" "is_bytes32 b" "is_bytes32 c" "is_bytes32 d"
    and "sha256_pair a b = sha256_pair c d"
  shows "a = c \<and> b = d \<or> sha256_collision (a @ b) (c @ d)"
proof (cases "a @ b = c @ d")
  case True
  with assms show ?thesis by simp
next
  case False
  with assms show ?thesis by (simp add: sha256_pair_spec sha256_collision_def)
qed

lemma merkle_level_bytes32: "\<forall>h \<in> set (merkle_level hs). is_bytes32 h"
  by (induction hs rule: merkle_level.induct) auto

lemma merkle_level_inj:
  assumes "length xs = length ys" and "\<forall>h \<in> set xs. is_bytes32 h" and "\<forall>h \<in> set ys. is_bytes32 h"
    and "merkle_level xs = merkle_level ys"
  shows "xs = ys \<or> collide (level_msgs xs) (level_msgs ys)"
  using assms
proof (induction xs arbitrary: ys rule: merkle_level.induct)
  case (2 a)
  then obtain b where "ys = [b]" by (cases ys) auto
  with 2 sha256_pair_inj [of a a b b] show ?case by (auto simp: collide_def)
next
  case (3 a b xs)
  from 3(2) obtain c ys' where y: "ys = c # ys'" by (cases ys) auto
  with 3(2) obtain d zs where ys: "ys = c # d # zs" by (cases ys') auto
  have "a = c \<and> b = d \<or> sha256_collision (a @ b) (c @ d)"
    using 3(3-5) ys by (intro sha256_pair_inj) simp_all
  moreover have "xs = zs \<or> collide (level_msgs xs) (level_msgs zs)"
    using 3(2-5) ys by (intro "3.IH") simp_all
  ultimately show ?case by (auto simp: ys collide_Cons)
qed simp

lemma merkle_loop_inj:
  assumes "length xs = length ys" and "xs \<noteq> []"
    and "\<forall>h \<in> set xs. is_bytes32 h" and "\<forall>h \<in> set ys. is_bytes32 h"
    and "merkle_loop xs = merkle_loop ys"
  shows "xs = ys \<or> collide (merkle_msgs xs) (merkle_msgs ys)"
  using assms
proof (induction xs arbitrary: ys rule: merkle_loop.induct)
  case (1 xs)
  show ?case
  proof (cases "length xs > 1")
    case True
    then have True': "length ys > 1" using 1(2) by simp
    have "merkle_level xs = merkle_level ys \<or>
        collide (merkle_msgs (merkle_level xs)) (merkle_msgs (merkle_level ys))"
    proof (rule 1(1) [OF True])
      show "merkle_loop (merkle_level xs) = merkle_loop (merkle_level ys)"
        using 1(6) True True' merkle_loop.simps [of xs] merkle_loop.simps [of ys] by simp
      show "merkle_level xs \<noteq> []" using True length_merkle_level [of xs] by auto
    qed (use 1(2) in \<open>simp_all add: length_merkle_level merkle_level_bytes32\<close>)
    with merkle_level_inj [OF 1(2,4,5)] show ?thesis
      using True True' by (auto simp: merkle_msgs.simps [of xs] merkle_msgs.simps [of ys] collide_append)
  next
    case False
    with 1(3) obtain a where "xs = [a]" by (cases xs) auto
    moreover from this 1(2) obtain b where "ys = [b]" by (cases ys) auto
    ultimately show ?thesis using 1(6) by (simp add: merkle_loop.simps)
  qed
qed

lemma ComputeMerkleRoot_loop: "hs \<noteq> [] \<Longrightarrow> ComputeMerkleRoot hs = merkle_loop hs"
  by (cases "length hs = 1") (auto simp: ComputeMerkleRoot_def merkle_loop.simps)

lemma merkle_root_inj:
  assumes "\<forall>h \<in> set xs. is_bytes32 h" and "\<forall>h \<in> set ys. is_bytes32 h" and "length xs = length ys"
    and "ComputeMerkleRoot xs = ComputeMerkleRoot ys"
  shows "xs = ys \<or> collide (merkle_msgs xs) (merkle_msgs ys)"
proof (cases "xs = []")
  case False
  then have "ys \<noteq> []" using assms(3) by auto
  with False have "merkle_loop xs = merkle_loop ys" using assms(4) by (simp add: ComputeMerkleRoot_loop)
  then show ?thesis by (rule merkle_loop_inj [OF assms(3) False assms(1,2)])
qed (use assms in simp)

lemma merkle_level_dup: "odd (length xs) \<Longrightarrow> merkle_level (xs @ [last xs]) = merkle_level xs"
  by (induction xs rule: merkle_level.induct) auto

lemma merkle_root_dup:
  assumes "odd (length xs)" and "1 < length xs"
  shows "ComputeMerkleRoot (xs @ [last xs]) = ComputeMerkleRoot xs"
proof -
  have ne: "xs \<noteq> []" using assms(2) by auto
  then have "ComputeMerkleRoot (xs @ [last xs]) = merkle_loop (merkle_level (xs @ [last xs]))"
    using assms(2) by (simp add: ComputeMerkleRoot_loop merkle_loop.simps [of "xs @ _"])
  also have "\<dots> = ComputeMerkleRoot xs"
    using assms ne by (simp add: ComputeMerkleRoot_loop merkle_level_dup merkle_loop.simps [of xs])
  finally show ?thesis .
qed

text \<open>
  A Merkle root commits to its leaves: two lists of equally many 32-byte hashes
  with the same root are the same list, or two of the strings hashed on the way are a
  SHA-256 collision. The last leaf of an odd level is paired with itself, so the root
  does not fix the number of leaves: repeating the last leaf of an odd list of three or
  more keeps the root.
\<close>

theorem ComputeMerkleRoot_binding:
  assumes "\<forall>h \<in> set xs. is_bytes32 h" and "\<forall>h \<in> set ys. is_bytes32 h"
    and "ComputeMerkleRoot xs = ComputeMerkleRoot ys"
  shows "(length xs = length ys \<longrightarrow> xs = ys \<or>
      (\<exists>a \<in> set (merkle_msgs xs). \<exists>b \<in> set (merkle_msgs ys). sha256_collision a b)) \<and>
    (odd (length xs) \<and> 1 < length xs \<longrightarrow> ComputeMerkleRoot (xs @ [last xs]) = ComputeMerkleRoot ys)"
  using merkle_root_inj [OF assms(1,2) _ assms(3)] merkle_root_dup [of xs] assms(3)
  by (auto simp: collide_def)

theorem ComputeMerkleRoot_binding_witness:
  "let a = replicate 32 1; b = replicate 32 2; c = replicate 32 3
   in ComputeMerkleRoot [a, b, c, c] = ComputeMerkleRoot [a, b, c]"
  using ComputeMerkleRoot_binding [of "[replicate 32 1, replicate 32 2, replicate 32 3]"
    "[replicate 32 1, replicate 32 2, replicate 32 3]"] by simp

section \<open>Block format\<close>

definition wf_Block :: "Block \<Rightarrow> bool" where
  "wf_Block b \<longleftrightarrow> wf_BlockHeader (mHeader b) \<and> length (mTransactions b) \<le> MAX_TRANSACTIONS \<and>
     (\<forall>tx \<in> set (mTransactions b). wf_Transaction tx)"

definition uncached_block :: "Block \<Rightarrow> Block" where
  "uncached_block b = \<lparr>mHeader = uncached_header (mHeader b), mTransactions = map uncached (mTransactions b)\<rparr>"

lemma TxInput_size_le: "wf_TxInput i \<Longrightarrow> TxInput_GetSerializedSize w i \<le> 100168"
  by (simp add: TxInput_GetSerializedSize_def wf_TxInput_def MAX_TX_SIZE_def Let_def)

lemma Transaction_Serialize_bound:
  assumes "wf_Transaction tx"
  shows "length (Transaction_Serialize w tx) < 2 ^ 32" and "20 \<le> length (Transaction_Serialize w tx)"
proof -
  have "(\<Sum>i \<leftarrow> mInputs tx. TxInput_GetSerializedSize w i) \<le> length (mInputs tx) * 100168"
    using assms TxInput_size_le by (intro sum_list_bound) (simp add: wf_Transaction_def)
  also have "\<dots> \<le> 1000 * 100168" using assms by (simp add: wf_Transaction_def MAX_INPUTS_def)
  finally show "length (Transaction_Serialize w tx) < 2 ^ 32"
    using outputs_size_le [OF assms] assms
    by (simp add: length_Transaction_Serialize wf_Transaction_def Transaction_GetSerializedSize_def)
  show "20 \<le> length (Transaction_Serialize w tx)"
    using assms by (simp add: length_Transaction_Serialize wf_Transaction_def Transaction_GetSerializedSize_def)
qed

definition wf_frame :: "Transaction \<Rightarrow> bool" where
  "wf_frame tx \<longleftrightarrow> wf_Transaction tx \<and> uncached tx = tx"

lemma tx_frame_at:
  assumes wf: "wf_frame tx" and a: "at_off data off (tx_frame tx @ s)"
  shows "tx_frame_Deserialize data off = Inr (tx, off + length (tx_frame tx))"
proof -
  let ?t = "Transaction_Serialize True tx"
  have w: "wf_Transaction tx" "uncached tx = tx" using wf by (auto simp: wf_frame_def)
  note b = Transaction_Serialize_bound [OF w(1), of True]
  have n: "unat (of_nat (length ?t) :: u32) = length ?t" using b(1) by (simp add: unat_of_nat)
  then have nz: "(of_nat (length ?t) :: u32) \<noteq> 0" using b(2) by (metis not_numeral_le_zero unat_0)
  note a0 = a [unfolded tx_frame_def Let_def append_assoc]
  note a1 = at_off_step [OF a0 length_WriteLE32]
  show ?thesis
    unfolding tx_frame_Deserialize_def
    using ReadLE32_at [OF a0] rd_bytes_at [OF a1 refl] at_off_length [OF a]
      Transaction_Deserialize_Serialize [OF w(1), of "[]"] w(2) n nz
    by (simp add: tx_frame_def Let_def)
qed

lemma tx_frame_Deserialize_safe: "tx_frame_Deserialize data off \<noteq> Inl OutOfBounds"
  by (auto simp: tx_frame_Deserialize_def oob_simps Transaction_Deserialize_safe split: if_splits
      dest!: ReadLE32_off)

lemma Transaction_Deserialize_uncached: "Transaction_Deserialize data = Inr tx \<Longrightarrow> uncached tx = tx"
  unfolding Transaction_Deserialize_def by (auto simp: rbind_eq_Inr_iff uncached_def)

lemma tx_frame_Deserialize_bounds:
  "tx_frame_Deserialize data off = Inr (tx, off') \<Longrightarrow> wf_frame tx \<and> off < off' \<and> off' \<le> length data"
  unfolding tx_frame_Deserialize_def
  by (auto simp: rbind_eq_Inr_iff wf_frame_def Transaction_Deserialize_uncached dest!: ReadLE32_off
      dest: Transaction_Deserialize_wf)

interpretation frame: codec tx_frame tx_frame_Deserialize wf_frame
proof unfold_locales
  show "tx_frame_Deserialize (pre @ tx_frame x @ post) (length pre) =
      Inr (x, length pre + length (tx_frame x))" if "wf_frame x" for x pre post
    by (rule tx_frame_at [OF that at_offI])
qed (use tx_frame_Deserialize_safe tx_frame_Deserialize_bounds in force)+

lemma tx_frame_uncached [simp]: "tx_frame (uncached tx) = tx_frame tx"
  by (simp add: tx_frame_def uncached_def)

lemma length_tx_frame: "wf_Transaction tx \<Longrightarrow> length (tx_frame tx) = 4 + Transaction_GetSerializedSize True tx"
  by (simp add: tx_frame_def Let_def length_Transaction_Serialize wf_Transaction_def)

lemma Block_Serialize_length:
  assumes "wf_Block b"
  shows "length (Block_Serialize b) = Block_GetSerializedSize b"
proof -
  have "(\<Sum>tx \<leftarrow> mTransactions b. length (tx_frame tx)) =
      (\<Sum>tx \<leftarrow> mTransactions b. 4 + Transaction_GetSerializedSize True tx)"
    using assms by (intro arg_cong [where f = sum_list] map_cong) (auto simp: wf_Block_def length_tx_frame)
  then show ?thesis
    using assms by (simp add: Block_Serialize_def Block_GetSerializedSize_def wf_Block_def length_concat comp_def)
qed

lemma Block_Deserialize_Serialize:
  assumes wf: "wf_Block b"
  shows "Block_Deserialize (Block_Serialize b @ post) = Inr (uncached_block b)"
proof -
  let ?d = "Block_Serialize b @ post" and ?ts = "map uncached (mTransactions b)"
  have wh: "wf_BlockHeader (mHeader b)" and wt: "\<forall>tx \<in> set (mTransactions b). wf_Transaction tx"
    and l: "length (mTransactions b) \<le> 10000"
    using wf by (simp_all add: wf_Block_def MAX_TRANSACTIONS_def)
  have n: "unat (of_nat (length (mTransactions b)) :: u32) = length (mTransactions b)"
    using l by (simp add: unat_of_nat)
  have wf': "\<forall>tx \<in> set ?ts. wf_frame tx"
    using wt by (auto simp: wf_frame_def uncached_def wf_Transaction_def zero32_def)
  have m: "map tx_frame ?ts = map tx_frame (mTransactions b)" by simp
  have a0: "at_off ?d 0 (BlockHeader_Serialize (mHeader b) @
      WriteLE32 (of_nat (length (mTransactions b))) @ concat (map tx_frame ?ts) @ post)"
    unfolding m using at_off_0 [of ?d] by (simp add: Block_Serialize_def)
  note a1 = at_off_step [OF a0 length_BlockHeader_Serialize [OF wh], unfolded add_0]
  note a2 = at_off_step [OF a1 length_WriteLE32]
  have h: "BlockHeader_Deserialize ?d = Inr (uncached_header (mHeader b))"
    using BlockHeader_Deserialize_Serialize [OF wh] by (simp add: Block_Serialize_def)
  have "SERIALIZED_SIZE + 4 \<le> length ?d"
    using at_off_length [OF a1] by simp
  then show ?thesis
    unfolding Block_Deserialize_def
    using h ReadLE32_at [OF a1] frame.dec_n_at [OF wf' a2, of "length (mTransactions b)"] n l
    by (simp add: MAX_TRANSACTIONS_def uncached_block_def)
qed

lemma Block_Deserialize_safe: "Block_Deserialize data \<noteq> Inl OutOfBounds"
  by (auto simp: Block_Deserialize_def oob_simps BlockHeader_Deserialize_safe frame.dec_n_safe
      split: if_splits dest!: ReadLE32_off)

lemma Block_Deserialize_wf: "Block_Deserialize data = Inr b \<Longrightarrow> wf_Block b \<and> uncached_block b = b"
  unfolding Block_Deserialize_def
  by (auto simp: rbind_eq_Inr_iff wf_Block_def uncached_block_def wf_frame_def not_less
      dest!: ReadLE32_off BlockHeader_Deserialize_wf frame.dec_n_bounds [rotated] intro!: map_idI)

text \<open>
  C34. A well-formed block survives the wire: its serialisation, whatever follows, parses
  to the same block with empty hash caches, and is as long as \<open>GetSerializedSize\<close> says.
  Parsing arbitrary bytes never reads outside the buffer and accepts well-formed blocks only.
\<close>

theorem Block_round_trip:
  assumes "wf_Block b"
  shows "Block_Deserialize (Block_Serialize b @ post) = Inr (uncached_block b) \<and>
    length (Block_Serialize b) = Block_GetSerializedSize b \<and>
    Block_Deserialize data \<noteq> Inl OutOfBounds \<and> (\<forall>b'. Block_Deserialize data = Inr b' \<longrightarrow> wf_Block b')"
  using Block_Deserialize_Serialize [OF assms] Block_Serialize_length [OF assms] Block_Deserialize_safe
    Block_Deserialize_wf by blast

definition sample_block :: Block where
  "sample_block = \<lparr>mHeader = (BlockHeader_init 1)\<lparr>mTimestamp := 5, mBits := 0x1d00ffff\<rparr>, mTransactions = [sample_tx]\<rparr>"

lemma sample_block_wf: "wf_Block sample_block"
  using sample_tx_wf
  by (simp add: wf_Block_def sample_block_def wf_BlockHeader_def BlockHeader_init_def zero32_def MAX_TRANSACTIONS_def)

theorem Block_round_trip_witness:
  "Block_Deserialize (Block_Serialize sample_block @ [9]) = Inr sample_block"
proof -
  have "uncached_block sample_block = sample_block"
    by (simp add: uncached_block_def sample_block_def uncached_header_def BlockHeader_init_def uncached_def
        sample_tx_def Transaction_init_def)
  then show ?thesis using Block_round_trip [OF sample_block_wf, of "[9]" "[]"] by simp
qed

section \<open>What a block hash commits to\<close>

definition header_hash_ok :: "BlockHeader \<Rightarrow> bool" where
  "header_hash_ok h \<longleftrightarrow> (hHashCached h \<longrightarrow> mBlockHash h = sha256_Raw (BlockHeader_Serialize h))"

lemma BlockHeader_Serialize_cache [simp]:
  "BlockHeader_Serialize (h\<lparr>mBlockHash := x, hHashCached := c\<rparr>) = BlockHeader_Serialize h"
  "BlockHeader_Serialize (h\<lparr>mBlockHash := x\<rparr>) = BlockHeader_Serialize h"
  "BlockHeader_Serialize (h\<lparr>hHashCached := c\<rparr>) = BlockHeader_Serialize h"
  by (simp_all add: BlockHeader_Serialize_def)

lemma BlockHeader_GetHash_ok:
  "header_hash_ok h \<Longrightarrow> BlockHeader_GetHash h = sha256_Raw (BlockHeader_Serialize h)"
  by (simp add: header_hash_ok_def BlockHeader_GetHash_def BlockHeader_GetHash_st_def
      BlockHeader_ComputeHash_def Let_def sha256_Raw_def)

text \<open>Parsing yields such headers and every setter, hashing and the builder keep them.\<close>

lemma header_hash_ok_ops:
  "header_hash_ok (BlockHeader_init v)"
  "BlockHeader_Deserialize data = Inr h \<Longrightarrow> header_hash_ok h"
  "header_hash_ok h \<Longrightarrow> header_hash_ok (snd (BlockHeader_GetHash_st h))"
  "header_hash_ok (SetHeaderVersion v h)" "header_hash_ok (SetPrevBlockHash x h)"
  "header_hash_ok (SetMerkleRoot x h)" "header_hash_ok (SetLeafRoot x h)" "header_hash_ok (SetTimestamp t h)"
  "header_hash_ok (SetHeight n h)" "header_hash_ok (SetBits n h)" "header_hash_ok (SetNonce n h)"
  by (auto simp: header_hash_ok_def BlockHeader_init_def BlockHeader_Deserialize_def rbind_eq_Inr_iff Let_def
      BlockHeader_GetHash_st_def BlockHeader_ComputeHash_def sha256_Raw_def SetHeaderVersion_def
      SetPrevBlockHash_def SetMerkleRoot_def SetLeafRoot_def SetTimestamp_def SetHeight_def SetBits_def SetNonce_def)

lemma BlockHeader_Serialize_inj:
  assumes "wf_BlockHeader h" and "wf_BlockHeader h'" and "BlockHeader_Serialize h = BlockHeader_Serialize h'"
  shows "uncached_header h = uncached_header h'"
  using BlockHeader_Deserialize_Serialize [OF assms(1), of "[]"]
    BlockHeader_Deserialize_Serialize [OF assms(2), of "[]"] assms(3) by simp

lemma length_GetHash: "wf_Transaction tx \<Longrightarrow> is_bytes32 (GetHash tx)"
  by (simp add: GetHash_def GetHash_st_def Let_def ComputeHash_def wf_Transaction_def)

lemma Block_IsValid_roots:
  "Block_IsValid b = Inr True \<Longrightarrow> mMerkleRoot (mHeader b) = ComputeMerkleRoot (map GetHash (mTransactions b)) \<and>
     mLeafRoot (mHeader b) = ComputeLeafRoot b \<and> IsCoinbaseValid b \<and> all_tx_valid (mTransactions b) = Inr True"
  by (auto simp: Block_IsValid_def Block_ComputeMerkleRoot_def Let_def split: if_splits)

lemma header_hash_inj:
  assumes "wf_BlockHeader h" and "wf_BlockHeader h'" and "header_hash_ok h" and "header_hash_ok h'"
    and "BlockHeader_GetHash h = BlockHeader_GetHash h'"
  shows "uncached_header h = uncached_header h' \<or>
    sha256_collision (BlockHeader_Serialize h) (BlockHeader_Serialize h')"
proof -
  have "sha256_spec (BlockHeader_Serialize h) = sha256_spec (BlockHeader_Serialize h')"
    using assms by (simp add: BlockHeader_GetHash_ok sha256_Raw_spec SERIALIZED_SIZE_def)
  then show ?thesis using BlockHeader_Serialize_inj [OF assms(1,2)] by (auto simp: sha256_collision_def)
qed

text \<open>
  C31. A block hash commits to the transactions: two valid well-formed blocks with the
  same hash and equally many transactions have the same header contents and the same
  transaction hashes in the same order, or the two headers, or two strings hashed in
  their Merkle trees, are a SHA-256 collision.
\<close>

theorem block_hash_commits:
  assumes "wf_Block b" and "wf_Block b'"
    and "header_hash_ok (mHeader b)" and "header_hash_ok (mHeader b')"
    and "Block_IsValid b = Inr True" and "Block_IsValid b' = Inr True"
    and "Block_GetHash b = Block_GetHash b'"
    and "length (mTransactions b) = length (mTransactions b')"
  shows "uncached_header (mHeader b) = uncached_header (mHeader b') \<and>
      map GetHash (mTransactions b) = map GetHash (mTransactions b') \<or>
    sha256_collision (BlockHeader_Serialize (mHeader b)) (BlockHeader_Serialize (mHeader b')) \<or>
    collide (merkle_msgs (map GetHash (mTransactions b))) (merkle_msgs (map GetHash (mTransactions b')))"
proof -
  have w: "wf_BlockHeader (mHeader b)" "wf_BlockHeader (mHeader b')"
    using assms(1,2) by (simp_all add: wf_Block_def)
  have l: "\<forall>h \<in> set (map GetHash (mTransactions b)). is_bytes32 h"
    "\<forall>h \<in> set (map GetHash (mTransactions b')). is_bytes32 h"
    using assms(1,2) by (auto simp: wf_Block_def length_GetHash)
  have "uncached_header (mHeader b) = uncached_header (mHeader b') \<or>
      sha256_collision (BlockHeader_Serialize (mHeader b)) (BlockHeader_Serialize (mHeader b'))"
    using header_hash_inj [OF w assms(3,4)] assms(7) by (simp add: Block_GetHash_def)
  moreover have "map GetHash (mTransactions b) = map GetHash (mTransactions b') \<or>
      collide (merkle_msgs (map GetHash (mTransactions b))) (merkle_msgs (map GetHash (mTransactions b')))"
    if "uncached_header (mHeader b) = uncached_header (mHeader b')"
  proof (rule merkle_root_inj [OF l])
    have "mMerkleRoot (mHeader b) = mMerkleRoot (mHeader b')"
      using arg_cong [OF that, of mMerkleRoot] by (simp add: uncached_header_def)
    then show "ComputeMerkleRoot (map GetHash (mTransactions b)) = ComputeMerkleRoot (map GetHash (mTransactions b'))"
      using Block_IsValid_roots [OF assms(5)] Block_IsValid_roots [OF assms(6)] by simp
  qed (use assms(8) in simp)
  ultimately show ?thesis by blast
qed

definition sample_coinbase :: Transaction where
  "sample_coinbase = (Transaction_init 1)\<lparr>mInputs := [TxInput_init\<lparr>mOutputIndex := 0xFFFFFFFF\<rparr>],
     mOutputs := [mk_TxOutput 5000 (replicate 32 4)], mTxHash := replicate 32 1, mHashCached := True\<rparr>"

definition coinbase_block :: Block where
  "coinbase_block = \<lparr>mHeader = (BlockHeader_init 1)\<lparr>mTimestamp := 5, mBits := 0x1d00ffff,
     mMerkleRoot := replicate 32 1\<rparr>, mTransactions = [sample_coinbase]\<rparr>"

lemma sample_coinbase_valid:
  "wf_Transaction sample_coinbase" "IsCoinbase sample_coinbase" "Transaction_IsValid sample_coinbase = Inr True"
  by (simp_all add: sample_coinbase_def Transaction_init_def TxInput_init_def mk_TxOutput_def wf_Transaction_def
      wf_TxInput_def wf_TxOutput_def IsCoinbase_def all_zero_def zero32_def zero64_def list_all_iff
      CreatePayToPubkeyHash_def PushData_def MAX_INPUTS_def MAX_OUTPUTS_def MAX_TX_SIZE_def MAX_SCRIPT_SIZE_def
      INT64_MAX_def Transaction_IsValid_def Transaction_GetSerializedSize_def TxInput_GetSerializedSize_def
      TxOutput_GetSerializedSize_def CompactSizeLen_def TxInput_IsValid_def TxOutput_IsValid_def GetValueOut_def)

lemma coinbase_block_valid:
  "wf_Block coinbase_block" "Block_IsValid coinbase_block = Inr True" "header_hash_ok (mHeader coinbase_block)"
proof -
  have "GetHash sample_coinbase = replicate 32 1"
    by (simp add: GetHash_def GetHash_st_def sample_coinbase_def)
  moreover have "Transaction_GetSerializedSize True sample_coinbase \<le> 1000"
    by (simp add: Transaction_GetSerializedSize_def sample_coinbase_def TxInput_init_def mk_TxOutput_def
        TxInput_GetSerializedSize_def TxOutput_GetSerializedSize_def CompactSizeLen_def
        CreatePayToPubkeyHash_def PushData_def Let_def)
  ultimately show "Block_IsValid coinbase_block = Inr True"
    using sample_coinbase_valid
    by (simp add: Block_IsValid_def coinbase_block_def BlockHeader_IsValid_def BlockHeader_init_def all_zero_def
        IsCoinbaseValid_def Block_ComputeMerkleRoot_def ComputeMerkleRoot_def ComputeLeafRoot_def leaf_commitments_def
        Block_GetSerializedSize_def SERIALIZED_SIZE_def MAX_BLOCK_SIZE_def list_all_iff)
  show "wf_Block coinbase_block" "header_hash_ok (mHeader coinbase_block)"
    using sample_coinbase_valid
    by (simp_all add: wf_Block_def coinbase_block_def wf_BlockHeader_def BlockHeader_init_def zero32_def
        MAX_TRANSACTIONS_def header_hash_ok_def)
qed

theorem block_hash_commits_witness:
  "Block_IsValid coinbase_block = Inr True \<and>
   (uncached_header (mHeader coinbase_block) = uncached_header (mHeader coinbase_block) \<and>
      map GetHash (mTransactions coinbase_block) = map GetHash (mTransactions coinbase_block) \<or>
    sha256_collision (BlockHeader_Serialize (mHeader coinbase_block)) (BlockHeader_Serialize (mHeader coinbase_block)) \<or>
    collide (merkle_msgs (map GetHash (mTransactions coinbase_block)))
      (merkle_msgs (map GetHash (mTransactions coinbase_block))))"
  using block_hash_commits [OF coinbase_block_valid(1) coinbase_block_valid(1) coinbase_block_valid(3)
      coinbase_block_valid(3) coinbase_block_valid(2) coinbase_block_valid(2) refl refl]
    coinbase_block_valid(2) by blast

end
