(* ===== verification/Noise_Otp.thy ===== *)
theory Noise_Otp
  imports Block
begin

text \<open>
  One-time noise proofs, \<open>src/src/wallet/noise_otp.cpp\<close>: the noise file with its leaves,
  its commitment tree and its used-leaf bitmap, proofs with their wire format, leaf
  selection and proof verification.
\<close>

section \<open>Hashing\<close>

definition Sha256 :: "byte list \<Rightarrow> bytes32" where
  "Sha256 data = sha256_Final (sha256_Update sha256_Init data)"

definition Sha256Pair :: "bytes32 \<Rightarrow> bytes32 \<Rightarrow> bytes32" where
  "Sha256Pair a b = Sha256 (a @ b)"

definition BindLeafToTx :: "bytes32 \<Rightarrow> bytes32 \<Rightarrow> bytes32" where
  "BindLeafToTx leaf txHash = Sha256 (leaf @ txHash)"

section \<open>Proofs\<close>

record NoiseProof =
  leafIndex :: u32
  proofLeaf :: bytes32
  boundProof :: bytes32
  merklePath :: "bytes32 list"
  pathDirs :: "byte list"

fun RootFromPath :: "bytes32 \<Rightarrow> bytes32 list \<Rightarrow> byte list \<Rightarrow> bytes32 result" where
  "RootFromPath acc [] dirs = Inr acc"
| "RootFromPath acc (p # path) [] = Inl OutOfBounds"
| "RootFromPath acc (p # path) (d # dirs) =
     RootFromPath (if d = 0 then Sha256Pair acc p else Sha256Pair p acc) path dirs"

definition NoiseProof_GetSerializedSize :: "NoiseProof \<Rightarrow> nat" where
  "NoiseProof_GetSerializedSize p = 4 + 32 + 32 + 4 + length (merklePath p) * 32 + length (pathDirs p)"

definition NoiseProof_Serialize :: "NoiseProof \<Rightarrow> byte list" where
  "NoiseProof_Serialize p =
     WriteLE32 (leafIndex p) @ proofLeaf p @ boundProof p @ WriteLE32 (of_nat (length (merklePath p))) @
     concat (merklePath p) @ pathDirs p"

definition rd_hash :: "byte list \<Rightarrow> nat \<Rightarrow> (bytes32 \<times> nat) result" where
  "rd_hash data offset = rbind (rd_bytes 32 data offset) (\<lambda>h. Inr (h, offset + 32))"

definition rd_dir :: "byte list \<Rightarrow> nat \<Rightarrow> (byte \<times> nat) result" where
  "rd_dir data offset = rbind (rd8 data offset) (\<lambda>b. Inr (b, offset + 1))"

definition NoiseProof_Deserialize :: "byte list \<Rightarrow> nat \<Rightarrow> (NoiseProof \<times> nat) result" where
  "NoiseProof_Deserialize data offset =
     guard_throw (offset + 4 + 32 + 32 + 4 > length data) (CryptoError ''NoiseProof: data too short'') (
     rbind (ReadLE32 data offset) (\<lambda>(leafIdx, offset).
     rbind (rd_bytes 32 data offset) (\<lambda>lf. let offset = offset + 32 in
     rbind (rd_bytes 32 data offset) (\<lambda>bound. let offset = offset + 32 in
     rbind (ReadLE32 data offset) (\<lambda>(pathLen, offset).
     guard_throw (pathLen > 64) (CryptoError ''NoiseProof: implausible path length'') (
     guard_throw (offset + unat pathLen * 32 + unat pathLen > length data)
       (CryptoError ''NoiseProof: insufficient data for path'') (
     rbind (dec_n rd_hash (unat pathLen) data offset) (\<lambda>(path, offset).
     rbind (dec_n rd_dir (unat pathLen) data offset) (\<lambda>(dirs, offset).
       Inr (\<lparr>leafIndex = leafIdx, proofLeaf = lf, boundProof = bound, merklePath = path, pathDirs = dirs\<rparr>,
            offset))))))))))"

section \<open>Noise files\<close>

record NoiseFile =
  mLeaves :: "bytes32 list"
  mLevels :: "bytes32 list list"
  mRoot :: bytes32
  mNextLeaf :: u32
  mUsed :: "byte list"

definition NoiseFile_init :: NoiseFile where
  "NoiseFile_init = \<lparr>mLeaves = [], mLevels = [], mRoot = zero32, mNextLeaf = 0, mUsed = []\<rparr>"

definition Wipe :: "NoiseFile \<Rightarrow> NoiseFile" where
  "Wipe nf = nf\<lparr>mLeaves := [], mLevels := [], mRoot := zero32, mNextLeaf := 0, mUsed := []\<rparr>"

fun next_level :: "bytes32 list \<Rightarrow> bytes32 list" where
  "next_level [] = []"
| "next_level [a] = [Sha256Pair a a]"
| "next_level (a # b # cur) = Sha256Pair a b # next_level cur"

lemma length_next_level: "length (next_level cur) = (length cur + 1) div 2"
  by (induction cur rule: next_level.induct) auto

function build_levels :: "bytes32 list \<Rightarrow> bytes32 list list" where
  "build_levels cur = (if length cur > 1 then cur # build_levels (next_level cur) else [cur])"
  by pat_completeness auto

termination build_levels
  by (relation "measure length") (auto simp: length_next_level)

declare build_levels.simps [simp del]

definition BuildTree :: "NoiseFile \<Rightarrow> NoiseFile" where
  "BuildTree nf =
     (if mLeaves nf = [] then nf\<lparr>mLevels := [], mRoot := zero32\<rparr>
      else let levels = build_levels (map Sha256 (mLeaves nf))
           in nf\<lparr>mLevels := levels, mRoot := last levels ! 0\<rparr>)"

definition NOISE_OTP_LEAF_SIZE :: nat where
  "NOISE_OTP_LEAF_SIZE = 32"

text \<open>\<open>std::vector::resize(n, 0)\<close>.\<close>

definition resize :: "nat \<Rightarrow> byte list \<Rightarrow> byte list" where
  "resize n xs = take n xs @ replicate (n - length xs) 0"

definition leaf_at :: "byte list \<Rightarrow> u32 \<Rightarrow> bytes32" where
  "leaf_at rawNoise i =
     Sha256 (take 32 (drop (unat i * NOISE_OTP_LEAF_SIZE) rawNoise) @
       [ucast (i AND 0xFF), ucast (drop_bit 8 i AND 0xFF), ucast (drop_bit 16 i AND 0xFF),
        ucast (drop_bit 24 i AND 0xFF)])"

definition Generate :: "byte list \<Rightarrow> u32 \<Rightarrow> NoiseFile result" where
  "Generate rawNoise leafCount =
     guard_throw (leafCount = 0) (CryptoError ''NoiseFile: leaf count must be positive'') (
     guard_throw (length rawNoise < unat leafCount * NOISE_OTP_LEAF_SIZE)
       (CryptoError ''NoiseFile: not enough physical noise for requested leaves'') (
     let nf = NoiseFile_init\<lparr>mLeaves := map (\<lambda>i. leaf_at rawNoise (of_nat i)) [0..<unat leafCount]\<rparr>;
         nf = BuildTree nf
     in Inr (nf\<lparr>mNextLeaf := 0, mUsed := replicate ((length (mLeaves nf) + 7) div 8) 0\<rparr>)))"

definition SetNextLeaf :: "u32 \<Rightarrow> NoiseFile \<Rightarrow> NoiseFile" where
  "SetNextLeaf n nf =
     (let n = (if unat n > length (mLeaves nf) then of_nat (length (mLeaves nf)) else n)
      in if n > mNextLeaf nf then nf\<lparr>mNextLeaf := n\<rparr> else nf)"

text \<open>The sibling walk of \<open>CreateProofAt\<close>; the last level has no sibling.\<close>

fun proof_path :: "nat \<Rightarrow> bytes32 list list \<Rightarrow> (bytes32 \<times> byte) list result" where
  "proof_path idx [] = Inr []"
| "proof_path idx [lvl] = Inr []"
| "proof_path idx (cur # next # levels) =
     (let sibling = (if idx mod 2 = 0 then idx + 1 else idx - 1);
          sibling = (if sibling \<ge> length cur then idx else sibling)
      in if sibling < length cur
         then rbind (proof_path (idx div 2) (next # levels)) (\<lambda>rest.
                Inr ((cur ! sibling, if idx mod 2 = 0 then 0 else 1) # rest))
         else Inl OutOfBounds)"

definition CreateProofAt :: "u32 \<Rightarrow> bytes32 \<Rightarrow> NoiseFile \<Rightarrow> NoiseProof result" where
  "CreateProofAt index txHash nf =
     guard_throw (unat index \<ge> length (mLeaves nf)) (CryptoError ''NoiseFile: leaf index out of range'') (
     guard_throw (mLevels nf = []) (CryptoError ''NoiseFile: tree not built'') (
     rbind (proof_path (unat index) (mLevels nf)) (\<lambda>path.
       Inr \<lparr>leafIndex = index, proofLeaf = mLeaves nf ! unat index,
            boundProof = BindLeafToTx (mLeaves nf ! unat index) txHash,
            merklePath = map fst path, pathDirs = map snd path\<rparr>)))"

definition IsLeafUsed :: "u32 \<Rightarrow> NoiseFile \<Rightarrow> bool" where
  "IsLeafUsed index nf =
     (let byteIdx = unat (index div 8)
      in if byteIdx \<ge> length (mUsed nf) then False
         else mUsed nf ! byteIdx AND push_bit (unat (index mod 8)) 1 \<noteq> 0)"

definition MarkLeafUsed :: "u32 \<Rightarrow> NoiseFile \<Rightarrow> NoiseFile" where
  "MarkLeafUsed index nf =
     (if unat index \<ge> length (mLeaves nf) then nf
      else let byteIdx = unat (index div 8);
               used = (if length (mUsed nf) < byteIdx + 1 then resize ((length (mLeaves nf) + 7) div 8) (mUsed nf)
                       else mUsed nf)
           in nf\<lparr>mUsed := used[byteIdx := used ! byteIdx OR push_bit (unat (index mod 8)) 1]\<rparr>)"

definition CreateProof :: "bytes32 \<Rightarrow> NoiseFile \<Rightarrow> (NoiseProof \<times> NoiseFile) result" where
  "CreateProof txHash nf =
     guard_throw (unat (mNextLeaf nf) \<ge> length (mLeaves nf))
       (CryptoError ''NoiseFile: pool exhausted, no leaves left'') (
     rbind (CreateProofAt (mNextLeaf nf) txHash nf) (\<lambda>p.
     let nf = MarkLeafUsed (mNextLeaf nf) nf
     in Inr (p, nf\<lparr>mNextLeaf := mNextLeaf nf + 1\<rparr>)))"

function pop_loop :: "byte \<Rightarrow> u32 \<Rightarrow> u32" where
  "pop_loop b n = (if b \<noteq> 0 then pop_loop (drop_bit 1 b) (n + ucast (b AND 1)) else n)"
  by pat_completeness auto

termination pop_loop
proof (relation "measure (\<lambda>(b, n). unat b)")
  fix b :: byte and n :: u32
  assume "b \<noteq> 0"
  then have "0 < unat b" by (simp add: unat_gt_0)
  then show "((drop_bit 1 b, n + ucast (b AND 1)), b, n) \<in> measure (\<lambda>(b, n). unat b)"
    using unat_drop_bit [of 1 b] by simp
qed simp

declare pop_loop.simps [simp del]

definition CountUsed :: "NoiseFile \<Rightarrow> u32" where
  "CountUsed nf = fold pop_loop (mUsed nf) 0"

definition GetRemaining :: "NoiseFile \<Rightarrow> u32" where
  "GetRemaining nf =
     (let total = of_nat (length (mLeaves nf)); used = CountUsed nf in if used \<ge> total then 0 else total - used)"

definition SetUsedMap :: "byte list \<Rightarrow> NoiseFile \<Rightarrow> NoiseFile" where
  "SetUsedMap m nf = nf\<lparr>mUsed := resize ((length (mLeaves nf) + 7) div 8) m\<rparr>"

section \<open>Leaf selection\<close>

definition derive_index :: "bytes32 \<Rightarrow> bytes32 \<Rightarrow> u32 \<Rightarrow> u32 \<Rightarrow> u32 \<Rightarrow> u32" where
  "derive_index txHash kps inputIndex leafCount j =
     (let buf = txHash @ kps @
            [ucast (inputIndex AND 0xFF), ucast (drop_bit 8 inputIndex AND 0xFF),
             ucast (drop_bit 16 inputIndex AND 0xFF), ucast (drop_bit 24 inputIndex AND 0xFF),
             ucast (j AND 0xFF), ucast (drop_bit 8 j AND 0xFF), ucast (drop_bit 16 j AND 0xFF),
             ucast (drop_bit 24 j AND 0xFF)];
          h = Sha256 buf;
          v = ucast (h ! 0) OR push_bit 8 (ucast (h ! 1)) OR push_bit 16 (ucast (h ! 2))
                OR push_bit 24 (ucast (h ! 3))
      in v mod leafCount)"

definition DeriveLeafIndices :: "bytes32 \<Rightarrow> bytes32 \<Rightarrow> u32 \<Rightarrow> u32 \<Rightarrow> u32 \<Rightarrow> u32 list" where
  "DeriveLeafIndices txHash kps inputIndex count leafCount =
     (if leafCount = 0 \<or> count = 0 then []
      else map (\<lambda>j. derive_index txHash kps inputIndex leafCount (of_nat j)) [0..<unat count])"

section \<open>Verification\<close>

function expected_depth :: "nat \<Rightarrow> nat" where
  "expected_depth width = (if width > 1 then Suc (expected_depth ((width + 1) div 2)) else 0)"
  by pat_completeness auto

termination expected_depth
  by (relation "measure id") auto

declare expected_depth.simps [simp del]

fun dirs_match :: "nat \<Rightarrow> byte list \<Rightarrow> bool" where
  "dirs_match walk [] = True"
| "dirs_match walk (d # dirs) = (if d \<noteq> (if walk mod 2 = 0 then 0 else 1) then False else dirs_match (walk div 2) dirs)"

definition VerifyProof :: "bytes32 \<Rightarrow> bytes32 \<Rightarrow> NoiseProof \<Rightarrow> u32 \<Rightarrow> bool result" where
  "VerifyProof root txHash prf leafCount =
     (if leafCount = 0 then Inr False
      else if leafIndex prf \<ge> leafCount then Inr False
      else if length (merklePath prf) \<noteq> length (pathDirs prf) then Inr False
      else if length (merklePath prf) \<noteq> expected_depth (unat leafCount) then Inr False
      else if \<not> list_all (\<lambda>d. d \<le> 1) (pathDirs prf) then Inr False
      else if \<not> dirs_match (unat (leafIndex prf)) (pathDirs prf) then Inr False
      else if BindLeafToTx (proofLeaf prf) txHash \<noteq> boundProof prf then Inr False
      else rbind (RootFromPath (Sha256 (proofLeaf prf)) (merklePath prf) (pathDirs prf)) (\<lambda>computed.
             Inr (computed = root)))"

section \<open>The proof format\<close>

definition wf_NoiseProof :: "NoiseProof \<Rightarrow> bool" where
  "wf_NoiseProof p \<longleftrightarrow> is_bytes32 (proofLeaf p) \<and> is_bytes32 (boundProof p) \<and>
     length (merklePath p) \<le> 64 \<and> length (pathDirs p) = length (merklePath p) \<and>
     (\<forall>h \<in> set (merklePath p). is_bytes32 h)"

lemma rd_hash_oob [oob_simps]: "rd_hash data off = Inl OutOfBounds \<longleftrightarrow> length data < off + 32"
  by (auto simp: rd_hash_def oob_simps)

lemma upt_Suc_front: "[0..<Suc n] = 0 # map Suc [0..<n]"
  by (simp add: map_Suc_upt upt_conv_Cons del: upt_Suc)

lemma dec_n_rd_hash:
  assumes "off + n * 32 \<le> length data"
  shows "dec_n rd_hash n data off =
    Inr (map (\<lambda>i. take 32 (drop (off + i * 32) data)) [0..<n], off + n * 32)"
  using assms
proof (induction n arbitrary: off)
  case (Suc n)
  have d: "drop (off + 32 + i * 32) data = drop (off + Suc i * 32) data" for i
    by (simp add: algebra_simps)
  have r: "dec_n rd_hash n data (off + 32) =
      Inr (map (\<lambda>i. take 32 (drop (off + Suc i * 32) data)) [0..<n], off + Suc n * 32)"
    using Suc.IH [of "off + 32"] Suc.prems unfolding d by (simp add: algebra_simps)
  have h: "rd_hash data off = Inr (take 32 (drop off data), off + 32)"
    using Suc.prems by (simp add: rd_hash_def rd_bytes_def)
  show ?case
    unfolding upt_Suc_front dec_n.simps h rbind_Inr prod.case r by (simp add: comp_def)
qed simp

lemma dec_n_rd_dir:
  assumes "off + n \<le> length data"
  shows "dec_n rd_dir n data off = Inr (take n (drop off data), off + n)"
  using assms
proof (induction n arbitrary: off)
  case (Suc n)
  then have d: "drop off data = data ! off # drop (off + 1) data" by (simp add: Cons_nth_drop_Suc)
  have h: "rd_dir data off = Inr (data ! off, off + 1)" using Suc.prems by (simp add: rd_dir_def rd8_def)
  have r: "dec_n rd_dir n data (off + 1) = Inr (take n (drop (off + 1) data), off + Suc n)"
    using Suc.IH [of "off + 1"] Suc.prems by simp
  show ?case unfolding dec_n.simps h rbind_Inr prod.case r d by simp
qed simp

lemma concat_chunks:
  "\<forall>h \<in> set hs. length h = 32 \<Longrightarrow>
     map (\<lambda>i. take 32 (drop (i * 32) (concat hs @ s))) [0..<length hs] = hs"
proof (induction hs)
  case (Cons h hs)
  from Cons.IH Cons.prems show ?case unfolding list.size add_Suc_right add_0_right upt_Suc_front
    by (simp add: comp_def)
qed simp

lemma length_concat_fixed: "\<forall>h \<in> set hs. length h = k \<Longrightarrow> length (concat hs) = length hs * k"
  by (induction hs) auto

lemma NoiseProof_Serialize_length:
  "wf_NoiseProof p \<Longrightarrow> length (NoiseProof_Serialize p) = NoiseProof_GetSerializedSize p"
  using length_concat_fixed [of "merklePath p" 32]
  by (simp add: NoiseProof_Serialize_def NoiseProof_GetSerializedSize_def wf_NoiseProof_def)

lemma NoiseProof_Deserialize_at:
  assumes wf: "wf_NoiseProof p" and a: "at_off data off (NoiseProof_Serialize p @ s)"
  shows "NoiseProof_Deserialize data off = Inr (p, off + length (NoiseProof_Serialize p))"
proof -
  let ?n = "length (merklePath p)"
  have l: "is_bytes32 (proofLeaf p)" "is_bytes32 (boundProof p)" "?n \<le> 64" "length (pathDirs p) = ?n"
    "\<forall>h \<in> set (merklePath p). is_bytes32 h" using wf by (auto simp: wf_NoiseProof_def)
  note lc = length_concat_fixed [OF l(5)]
  have n: "unat (of_nat ?n :: u32) = ?n" using l(3) by (simp add: unat_of_nat)
  then have n64: "\<not> (of_nat ?n :: u32) > 64" using l(3) by (simp add: word_less_nat_alt)
  note a0 = a [unfolded NoiseProof_Serialize_def append_assoc]
  note a1 = at_off_step [OF a0 length_WriteLE32] note a2 = at_off_step [OF a1 l(1)]
  note a3 = at_off_step [OF a2 l(2)] note a4 = at_off_step [OF a3 length_WriteLE32]
  note a5 = at_off_step [OF a4 lc]
  let ?o = "off + 4 + 32 + 32 + 4"
  have d4: "drop ?o data = concat (merklePath p) @ pathDirs p @ s" using a4 by (simp add: at_off_def)
  have "drop (?o + i * 32) data = drop (i * 32) (concat (merklePath p) @ pathDirs p @ s)" for i
    unfolding d4 [symmetric] by (simp add: add.commute)
  then have path: "dec_n rd_hash ?n data ?o = Inr (merklePath p, ?o + ?n * 32)"
    using at_off_length [OF a4] lc concat_chunks [OF l(5), of "pathDirs p @ s"] by (simp add: dec_n_rd_hash)
  have dirs: "dec_n rd_dir ?n data (?o + ?n * 32) = Inr (pathDirs p, ?o + ?n * 32 + ?n)"
    using a5 at_off_length [OF a5] l(4) by (subst dec_n_rd_dir) (simp_all add: at_off_def)
  show ?thesis
    unfolding NoiseProof_Deserialize_def
    using ReadLE32_at [OF a0] rd_bytes_at [OF a1 l(1)] rd_bytes_at [OF a2 l(2)] ReadLE32_at [OF a3]
      path dirs at_off_length [OF a4] lc l(4) n64 NoiseProof_Serialize_length [OF wf]
    by (simp add: n Let_def NoiseProof_GetSerializedSize_def)
qed

lemma NoiseProof_Deserialize_safe: "NoiseProof_Deserialize data off \<noteq> Inl OutOfBounds"
  by (auto simp: NoiseProof_Deserialize_def Let_def oob_simps dec_n_rd_hash dec_n_rd_dir not_less
      split: if_splits dest!: ReadLE32_off)

lemma NoiseProof_Deserialize_bounds:
  "NoiseProof_Deserialize data off = Inr (p, off') \<Longrightarrow> wf_NoiseProof p \<and> off < off' \<and> off' \<le> length data"
  unfolding NoiseProof_Deserialize_def
  by (auto simp: Let_def rbind_eq_Inr_iff wf_NoiseProof_def not_less dec_n_rd_hash dec_n_rd_dir word_le_nat_alt
      dest!: ReadLE32_off rd_bytes_length)

interpretation noise_proof: codec NoiseProof_Serialize NoiseProof_Deserialize wf_NoiseProof
proof unfold_locales
  show "NoiseProof_Deserialize (pre @ NoiseProof_Serialize x @ post) (length pre) =
      Inr (x, length pre + length (NoiseProof_Serialize x))" if "wf_NoiseProof x" for x pre post
    by (rule NoiseProof_Deserialize_at [OF that at_offI])
qed (use NoiseProof_Deserialize_safe NoiseProof_Deserialize_bounds in force)+

section \<open>The commitment tree\<close>

lemma Sha256_length [simp]: "length (Sha256 d) = 32"
  by (simp add: Sha256_def)

lemma Sha256_spec: "length d < 2 ^ 61 \<Longrightarrow> Sha256 d = sha256_spec d"
  using sha256_Raw_spec [of d] by (simp add: Sha256_def sha256_Raw_def)

lemma Sha256Pair_spec: "is_bytes32 a \<Longrightarrow> is_bytes32 b \<Longrightarrow> Sha256Pair a b = sha256_spec (a @ b)"
  by (simp add: Sha256Pair_def Sha256_spec)

lemma length_Sha256Pair [simp]: "length (Sha256Pair a b) = 32"
  by (simp add: Sha256Pair_def)

text \<open>The noise tree reduces a level exactly as the block's Merkle root does.\<close>

lemma next_level_merkle: "\<forall>h \<in> set cur. is_bytes32 h \<Longrightarrow> next_level cur = merkle_level cur"
  by (induction cur rule: next_level.induct) (auto simp: Sha256Pair_spec sha256_pair_spec)

lemma next_level_bytes32: "\<forall>h \<in> set (next_level cur). is_bytes32 h"
  by (induction cur rule: next_level.induct) auto

definition right_of :: "bytes32 list \<Rightarrow> nat \<Rightarrow> bytes32" where
  "right_of cur k = (if 2 * k + 1 < length cur then cur ! (2 * k + 1) else cur ! (2 * k))"

lemma next_level_nth:
  "2 * k < length cur \<Longrightarrow> next_level cur ! k = Sha256Pair (cur ! (2 * k)) (right_of cur k)"
proof (induction cur arbitrary: k rule: next_level.induct)
  case (2 a)
  then show ?case by (simp add: right_of_def)
next
  case (3 a b cur)
  show ?case
  proof (cases k)
    case 0
    then show ?thesis by (simp add: right_of_def)
  next
    case (Suc j)
    then have "2 * j < length cur" using "3.prems" by simp
    from "3.IH" [OF this] show ?thesis by (simp add: Suc right_of_def)
  qed
qed simp

lemma build_levels_ne [simp]: "build_levels cur \<noteq> []"
  by (simp add: build_levels.simps)

lemma build_levels_Cons:
  "1 < length cur \<Longrightarrow> build_levels cur = cur # build_levels (next_level cur)"
  by (simp add: build_levels.simps [of cur])

lemma build_levels_root:
  assumes "cur \<noteq> []" and "\<forall>h \<in> set cur. is_bytes32 h"
  shows "last (build_levels cur) ! 0 = ComputeMerkleRoot cur"
  using assms
proof (induction cur rule: build_levels.induct)
  case (1 cur)
  show ?case
  proof (cases "1 < length cur")
    case True
    have ne: "next_level cur \<noteq> []" using True length_next_level [of cur] by auto
    have "last (build_levels (next_level cur)) ! 0 = ComputeMerkleRoot (next_level cur)"
      by (rule 1(1) [OF True ne next_level_bytes32])
    also have "\<dots> = merkle_loop (merkle_level cur)"
      using ne next_level_merkle [OF 1(3)] by (simp add: ComputeMerkleRoot_loop)
    finally show ?thesis
      using True 1(2) by (simp add: build_levels_Cons ComputeMerkleRoot_loop merkle_loop.simps [of cur])
  next
    case False
    with 1(2) have "length cur = 1" by (cases cur) auto
    with 1(2) show ?thesis by (simp add: build_levels.simps [of cur] ComputeMerkleRoot_def)
  qed
qed

text \<open>
  The sibling walk at \<open>idx\<close> yields a path that leads from the leaf to the root, with the
  directions and the length the verifier recomputes.
\<close>

definition path_ok :: "bytes32 list \<Rightarrow> nat \<Rightarrow> (bytes32 \<times> byte) list \<Rightarrow> bool" where
  "path_ok cur idx path \<longleftrightarrow>
     RootFromPath (cur ! idx) (map fst path) (map snd path) = Inr (last (build_levels cur) ! 0) \<and>
     dirs_match idx (map snd path) \<and> list_all (\<lambda>d. d \<le> 1) (map snd path) \<and>
     length path = expected_depth (length cur) \<and> (\<forall>h \<in> set (map fst path). is_bytes32 h)"

lemma proof_path_build:
  assumes "1 < length cur"
  shows "proof_path idx (build_levels cur) =
     (let sibling = (if idx mod 2 = 0 then idx + 1 else idx - 1);
          sibling = (if sibling \<ge> length cur then idx else sibling)
      in if sibling < length cur
         then rbind (proof_path (idx div 2) (build_levels (next_level cur))) (\<lambda>rest.
                Inr ((cur ! sibling, if idx mod 2 = 0 then 0 else 1) # rest))
         else Inl OutOfBounds)"
proof -
  obtain a levels where e: "build_levels (next_level cur) = a # levels"
    by (cases "build_levels (next_level cur)") auto
  show ?thesis unfolding build_levels_Cons [OF assms] e by (rule proof_path.simps(3))
qed

lemma pair_at:
  assumes "idx < length cur"
  defines "sib \<equiv> (if idx mod 2 = 0 then (if idx + 1 \<ge> length cur then idx else idx + 1) else idx - 1)"
  shows "next_level cur ! (idx div 2) =
    (if idx mod 2 = 0 then Sha256Pair (cur ! idx) (cur ! sib) else Sha256Pair (cur ! sib) (cur ! idx))"
    and "sib < length cur"
proof -
  have k: "2 * (idx div 2) < length cur" using assms(1) by linarith
  show "next_level cur ! (idx div 2) =
    (if idx mod 2 = 0 then Sha256Pair (cur ! idx) (cur ! sib) else Sha256Pair (cur ! sib) (cur ! idx))"
  proof (cases "idx mod 2 = 0")
    case True
    then have e: "2 * (idx div 2) = idx" by presburger
    show ?thesis unfolding next_level_nth [OF k] right_of_def e using True by (auto simp: sib_def)
  next
    case False
    then have e: "2 * (idx div 2) + 1 = idx" "2 * (idx div 2) = idx - 1" by presburger+
    show ?thesis
      unfolding next_level_nth [OF k] right_of_def e(1) unfolding e(2) using False assms(1) by (simp add: sib_def)
  qed
  show "sib < length cur" using assms(1) by (auto simp: sib_def)
qed

lemma proof_path_ok:
  assumes "idx < length cur" and "\<forall>h \<in> set cur. is_bytes32 h"
  shows "\<exists>path. proof_path idx (build_levels cur) = Inr path \<and> path_ok cur idx path"
  using assms
proof (induction cur arbitrary: idx rule: build_levels.induct)
  case (1 cur)
  show ?case
  proof (cases "1 < length cur")
    case True
    define sib where "sib = (if idx mod 2 = 0 then (if idx + 1 \<ge> length cur then idx else idx + 1) else idx - 1)"
    note P = pair_at [OF 1(2), folded sib_def]
    have "idx div 2 < length (next_level cur)" using 1(2) by (simp add: length_next_level)
    from 1(1) [OF True this next_level_bytes32] obtain rest where
      r: "proof_path (idx div 2) (build_levels (next_level cur)) = Inr rest"
      and ok: "path_ok (next_level cur) (idx div 2) rest" by blast
    let ?d = "if idx mod 2 = 0 then 0 else 1 :: byte"
    have "proof_path idx (build_levels cur) = Inr ((cur ! sib, ?d) # rest)"
      using P(2) 1(2) unfolding proof_path_build [OF True] by (auto simp: Let_def sib_def r)
    moreover have "path_ok cur idx ((cur ! sib, ?d) # rest)"
      using ok P 1(3) True unfolding path_ok_def
      by (auto simp: build_levels_Cons length_next_level expected_depth.simps [of "length cur"])
    ultimately show ?thesis by blast
  next
    case False
    with 1(2) have "length cur = 1" "idx = 0" by linarith+
    then show ?thesis
      by (simp add: build_levels.simps [of cur] path_ok_def expected_depth.simps)
  qed
qed

text \<open>The strings hashed while a path is folded into a root.\<close>

fun path_msgs :: "bytes32 \<Rightarrow> bytes32 list \<Rightarrow> byte list \<Rightarrow> byte list list" where
  "path_msgs acc (p # path) (d # dirs) =
     (if d = 0 then acc @ p else p @ acc) #
       path_msgs (if d = 0 then Sha256Pair acc p else Sha256Pair p acc) path dirs"
| "path_msgs acc _ _ = []"

lemma Sha256Pair_inj:
  assumes "is_bytes32 a" "is_bytes32 b" "is_bytes32 c" "is_bytes32 d"
    and "Sha256Pair a b = Sha256Pair c d"
  shows "a = c \<and> b = d \<or> sha256_collision (a @ b) (c @ d)"
  using sha256_pair_inj [of a b c d] assms by (simp add: Sha256Pair_spec sha256_pair_spec)

lemma level_msgs_nth:
  "2 * k < length cur \<Longrightarrow> cur ! (2 * k) @ right_of cur k \<in> set (level_msgs cur)"
proof (induction cur arbitrary: k rule: level_msgs.induct)
  case (2 a)
  then show ?case by (simp add: right_of_def)
next
  case (3 a b cur)
  show ?case
  proof (cases k)
    case 0
    then show ?thesis by (simp add: right_of_def)
  next
    case (Suc j)
    then have "2 * j < length cur" using "3.prems" by simp
    from "3.IH" [OF this] show ?thesis by (auto simp: Suc right_of_def split: if_splits)
  qed
qed simp

lemma level_step_inj:
  assumes "idx < length cur" and "\<forall>h \<in> set cur. is_bytes32 h" and "is_bytes32 acc" and "is_bytes32 p"
    and "next_level cur ! (idx div 2) = (if idx mod 2 = 0 then Sha256Pair acc p else Sha256Pair p acc)"
  shows "acc = cur ! idx \<or>
    (\<exists>m \<in> set (level_msgs cur). sha256_collision (if idx mod 2 = 0 then acc @ p else p @ acc) m)"
proof -
  let ?k = "idx div 2"
  have k: "2 * ?k < length cur" using assms(1) by linarith
  have b: "is_bytes32 (cur ! (2 * ?k))" "is_bytes32 (right_of cur ?k)"
    using k assms(2) by (auto simp: right_of_def)
  note m = level_msgs_nth [OF k] and e = assms(5) [unfolded next_level_nth [OF k], symmetric]
  show ?thesis
  proof (cases "idx mod 2 = 0")
    case True
    then have i: "2 * ?k = idx" by presburger
    show ?thesis using Sha256Pair_inj [OF assms(3,4) b] e m True unfolding i by auto
  next
    case False
    then have i: "2 * ?k + 1 = idx" by presburger
    have "right_of cur ?k = cur ! idx" using assms(1) unfolding right_of_def i by simp
    with False Sha256Pair_inj [OF assms(4,3) b] e m show ?thesis by auto
  qed
qed

lemma RootFromPath_sound:
  assumes "idx < length cur" and "\<forall>h \<in> set cur. is_bytes32 h" and "is_bytes32 acc"
    and "\<forall>h \<in> set path. is_bytes32 h" and "length path = expected_depth (length cur)"
    and "length dirs = length path" and "dirs_match idx dirs"
    and "RootFromPath acc path dirs = Inr (last (build_levels cur) ! 0)"
  shows "acc = cur ! idx \<or> collide (path_msgs acc path dirs) (merkle_msgs cur)"
  using assms
proof (induction cur arbitrary: idx acc path dirs rule: build_levels.induct)
  case (1 cur)
  show ?case
  proof (cases "1 < length cur")
    case False
    with 1 have "path = []" "idx = 0" "length cur = 1"
      by (auto simp: expected_depth.simps [of "length cur"])
    with 1(9) False show ?thesis by (simp add: build_levels.simps [of cur])
  next
    case True
    have "length path = Suc (expected_depth (length (next_level cur)))"
      using 1(6) True by (simp add: expected_depth.simps [of "length cur"] length_next_level)
    then obtain p ps where ps: "path = p # ps" "length ps = expected_depth (length (next_level cur))"
      by (cases path) auto
    then obtain d ds where ds: "dirs = d # ds" "length ds = length ps" using 1(7) by (cases dirs) auto
    let ?even = "idx mod 2 = 0"
    let ?acc = "if ?even then Sha256Pair acc p else Sha256Pair p acc"
    have d: "(d = 0) = ?even" and dm: "dirs_match (idx div 2) ds"
      using 1(8) by (auto simp: ds split: if_splits)
    have mm: "merkle_msgs cur = level_msgs cur @ merkle_msgs (next_level cur)"
      using True next_level_merkle [OF 1(3)] by (simp add: merkle_msgs.simps [of cur])
    have pm: "path_msgs acc path dirs = (if ?even then acc @ p else p @ acc) # path_msgs ?acc ps ds"
      using d by (simp add: ps ds)
    have "?acc = next_level cur ! (idx div 2) \<or> collide (path_msgs ?acc ps ds) (merkle_msgs (next_level cur))"
    proof (rule 1(1) [OF True])
      show "idx div 2 < length (next_level cur)" using 1(2) by (simp add: length_next_level)
      show "RootFromPath ?acc ps ds = Inr (last (build_levels (next_level cur)) ! 0)"
        using 1(9) d True by (simp add: ps ds build_levels_Cons)
    qed (use next_level_bytes32 1(5) ps ds dm in simp_all)
    moreover have "acc = cur ! idx \<or>
        (\<exists>m \<in> set (level_msgs cur). sha256_collision (if ?even then acc @ p else p @ acc) m)"
      if "?acc = next_level cur ! (idx div 2)"
      using level_step_inj [OF 1(2,3,4), of p] 1(5) that by (simp add: ps)
    ultimately show ?thesis unfolding mm pm by (auto simp: collide_def)
  qed
qed

section \<open>Completeness and soundness of noise proofs\<close>

lemma Generate_file:
  assumes "Generate rawNoise leafCount = Inr nf"
  shows "0 < unat leafCount" and "length (mLeaves nf) = unat leafCount"
    and "\<forall>h \<in> set (mLeaves nf). is_bytes32 h"
    and "mLevels nf = build_levels (map Sha256 (mLeaves nf))"
    and "mRoot nf = last (build_levels (map Sha256 (mLeaves nf))) ! 0"
    and "mNextLeaf nf = 0" and "mUsed nf = replicate ((unat leafCount + 7) div 8) 0"
proof -
  have nz: "leafCount \<noteq> 0" using assms by (simp add: Generate_def)
  then show u: "0 < unat leafCount" by (simp add: unat_gt_0)
  let ?ls = "map (\<lambda>i. leaf_at rawNoise (of_nat i)) [0..<unat leafCount]"
  have "?ls \<noteq> []" using u by simp
  with assms nz have "nf = \<lparr>mLeaves = ?ls, mLevels = build_levels (map Sha256 ?ls),
      mRoot = last (build_levels (map Sha256 ?ls)) ! 0, mNextLeaf = 0,
      mUsed = replicate ((unat leafCount + 7) div 8) 0\<rparr>"
    by (simp add: Generate_def Let_def BuildTree_def NoiseFile_init_def)
  then show "length (mLeaves nf) = unat leafCount" "\<forall>h \<in> set (mLeaves nf). is_bytes32 h"
    "mLevels nf = build_levels (map Sha256 (mLeaves nf))"
    "mRoot nf = last (build_levels (map Sha256 (mLeaves nf))) ! 0"
    "mNextLeaf nf = 0" "mUsed nf = replicate ((unat leafCount + 7) div 8) 0"
    by (simp_all add: leaf_at_def)
qed

text \<open>The part of a noise file that proofs are made from.\<close>

definition tree_ok :: "NoiseFile \<Rightarrow> bool" where
  "tree_ok nf \<longleftrightarrow> mLeaves nf \<noteq> [] \<and> length (mLeaves nf) < 2 ^ 32 \<and> (\<forall>h \<in> set (mLeaves nf). is_bytes32 h) \<and>
     mLevels nf = build_levels (map Sha256 (mLeaves nf)) \<and>
     mRoot nf = last (build_levels (map Sha256 (mLeaves nf))) ! 0"

lemma Generate_tree_ok: "Generate rawNoise leafCount = Inr nf \<Longrightarrow> tree_ok nf"
  using Generate_file [of rawNoise leafCount nf] unsigned_less [of leafCount, where ?'a = nat]
  by (auto simp: tree_ok_def)

lemma expected_depth_le: "width \<le> 2 ^ k \<Longrightarrow> expected_depth width \<le> k"
proof (induction k arbitrary: width)
  case (Suc k)
  show ?case
  proof (cases "width > 1")
    case True
    have "(width + 1) div 2 \<le> 2 ^ k" using Suc.prems by simp
    from Suc.IH [OF this] True show ?thesis by (simp add: expected_depth.simps [of width])
  qed (simp add: expected_depth.simps [of width])
qed (simp add: expected_depth.simps)

lemma CreateProofAt_ok:
  assumes t: "tree_ok nf" and i: "unat index < length (mLeaves nf)" and h: "is_bytes32 txHash"
  shows "\<exists>p. CreateProofAt index txHash nf = Inr p \<and> leafIndex p = index \<and>
    proofLeaf p = mLeaves nf ! unat index \<and> wf_NoiseProof p \<and>
    VerifyProof (mRoot nf) txHash p (of_nat (length (mLeaves nf))) = Inr True"
proof -
  let ?c = "map Sha256 (mLeaves nf)" and ?n = "length (mLeaves nf)"
  have T: "mLeaves nf \<noteq> []" "?n < 2 ^ 32" "\<forall>h \<in> set (mLeaves nf). is_bytes32 h"
    "mLevels nf = build_levels ?c" "mRoot nf = last (build_levels ?c) ! 0"
    using t by (auto simp: tree_ok_def)
  obtain path where p: "proof_path (unat index) (build_levels ?c) = Inr path" and ok: "path_ok ?c (unat index) path"
    using proof_path_ok [of "unat index" ?c] i by auto
  have u: "unat (of_nat ?n :: u32) = ?n" using T(2) by (simp add: unat_of_nat)
  have "length path \<le> 32"
    using ok expected_depth_le [of ?n 32] T(2) by (simp add: path_ok_def)
  then have "wf_NoiseProof \<lparr>leafIndex = index, proofLeaf = mLeaves nf ! unat index,
      boundProof = BindLeafToTx (mLeaves nf ! unat index) txHash, merklePath = map fst path, pathDirs = map snd path\<rparr>"
    using ok T(3) i by (auto simp: wf_NoiseProof_def path_ok_def BindLeafToTx_def)
  moreover have "(of_nat ?n :: u32) \<noteq> 0" "\<not> (of_nat ?n :: u32) \<le> index"
    using u i T(1) by (auto simp: word_le_nat_alt simp flip: unat_eq_zero)
  ultimately show ?thesis
    using i T(4,5) p ok u by (simp add: CreateProofAt_def VerifyProof_def path_ok_def)
qed

text \<open>
  C30. Noise proofs are complete: for a generated noise file and any leaf of it, the
  wallet's \<open>CreateProofAt\<close> succeeds for every transaction hash, its proof survives the
  wire format, and consensus' \<open>VerifyProof\<close> accepts it against the file's root.
\<close>

theorem noise_proof_complete:
  assumes "Generate rawNoise leafCount = Inr nf" and "index < leafCount" and "is_bytes32 txHash"
  shows "\<exists>p. CreateProofAt index txHash nf = Inr p \<and> leafIndex p = index \<and>
    NoiseProof_Deserialize (NoiseProof_Serialize p @ post) 0 = Inr (p, length (NoiseProof_Serialize p)) \<and>
    VerifyProof (mRoot nf) txHash p leafCount = Inr True"
proof -
  have l: "length (mLeaves nf) = unat leafCount" by (rule Generate_file(2) [OF assms(1)])
  have "unat index < length (mLeaves nf)" using assms(2) l by (simp add: word_less_nat_alt)
  from CreateProofAt_ok [OF Generate_tree_ok [OF assms(1)] this assms(3)] obtain p where
    p: "CreateProofAt index txHash nf = Inr p" "leafIndex p = index" "wf_NoiseProof p"
    "VerifyProof (mRoot nf) txHash p (of_nat (length (mLeaves nf))) = Inr True" by blast
  have "NoiseProof_Deserialize (NoiseProof_Serialize p @ post) 0 = Inr (p, length (NoiseProof_Serialize p))"
    using noise_proof.dec_enc [OF p(3), of "[]" post] by simp
  with p l show ?thesis by auto
qed

theorem noise_proof_complete_witness:
  "\<exists>nf p. Generate (replicate 96 5) 3 = Inr nf \<and> CreateProofAt 2 zero32 nf = Inr p \<and>
     VerifyProof (mRoot nf) zero32 p 3 = Inr True"
proof -
  obtain nf where g: "Generate (replicate 96 5) 3 = Inr nf"
    by (simp add: Generate_def NOISE_OTP_LEAF_SIZE_def Let_def)
  have "(2 :: u32) < 3" by simp
  from noise_proof_complete [OF g this, of zero32] g show ?thesis by (auto simp: zero32_def)
qed

lemma VerifyProof_True:
  assumes "VerifyProof root txHash p leafCount = Inr True"
  shows "leafIndex p < leafCount" and "length (pathDirs p) = length (merklePath p)"
    and "length (merklePath p) = expected_depth (unat leafCount)"
    and "dirs_match (unat (leafIndex p)) (pathDirs p)"
    and "boundProof p = BindLeafToTx (proofLeaf p) txHash"
    and "RootFromPath (Sha256 (proofLeaf p)) (merklePath p) (pathDirs p) = Inr root"
  using assms by (auto simp: VerifyProof_def rbind_eq_Inr_iff not_le split: if_splits)

lemma RootFromPath_safe: "length path = length dirs \<Longrightarrow> RootFromPath acc path dirs \<noteq> Inl OutOfBounds"
  by (induction acc path dirs rule: RootFromPath.induct) auto

text \<open>
  C16. Noise proofs are sound: a proof that verifies against the root of a generated noise
  file reveals the very leaf of that file at the claimed index and is bound to the
  transaction hash, or the verifier's hashing and the file's tree contain a SHA-256
  collision. Verification never reads outside the path.
\<close>

theorem noise_proof_sound:
  assumes "Generate rawNoise leafCount = Inr nf" and "wf_NoiseProof p"
    and "VerifyProof (mRoot nf) txHash p leafCount = Inr True"
  shows "leafIndex p < leafCount \<and> boundProof p = Sha256 (proofLeaf p @ txHash) \<and>
    (proofLeaf p = mLeaves nf ! unat (leafIndex p) \<or>
     sha256_collision (proofLeaf p) (mLeaves nf ! unat (leafIndex p)) \<or>
     collide (path_msgs (Sha256 (proofLeaf p)) (merklePath p) (pathDirs p)) (merkle_msgs (map Sha256 (mLeaves nf)))) \<and>
    VerifyProof (mRoot nf) txHash p leafCount \<noteq> Inl OutOfBounds"
proof -
  note V = VerifyProof_True [OF assms(3)] note G = Generate_file [OF assms(1)]
  let ?i = "unat (leafIndex p)" and ?c = "map Sha256 (mLeaves nf)"
  have i: "?i < length (mLeaves nf)" using V(1) G(2) by (simp add: word_less_nat_alt)
  have "Sha256 (proofLeaf p) = ?c ! ?i \<or>
      collide (path_msgs (Sha256 (proofLeaf p)) (merklePath p) (pathDirs p)) (merkle_msgs ?c)"
    using assms(2) i V G(2,5) by (intro RootFromPath_sound) (auto simp: wf_NoiseProof_def)
  moreover have "proofLeaf p = mLeaves nf ! ?i \<or> sha256_collision (proofLeaf p) (mLeaves nf ! ?i)"
    if "Sha256 (proofLeaf p) = ?c ! ?i"
  proof -
    have "is_bytes32 (proofLeaf p)" "is_bytes32 (mLeaves nf ! ?i)"
      using assms(2) G(3) i by (auto simp: wf_NoiseProof_def)
    with that i show ?thesis by (auto simp: Sha256_spec sha256_collision_def)
  qed
  ultimately show ?thesis using V(1,5) assms(3) by (auto simp: BindLeafToTx_def)
qed

theorem noise_proof_sound_witness:
  "\<exists>nf p. Generate (replicate 96 5) 3 = Inr nf \<and> CreateProofAt 2 zero32 nf = Inr p \<and> leafIndex p < 3 \<and>
     boundProof p = Sha256 (proofLeaf p @ zero32)"
proof -
  obtain nf where g: "Generate (replicate 96 5) 3 = Inr nf"
    by (simp add: Generate_def NOISE_OTP_LEAF_SIZE_def Let_def)
  have "unat (2 :: u32) < length (mLeaves nf)" using Generate_file(2) [OF g] by simp
  from CreateProofAt_ok [OF Generate_tree_ok [OF g] this, of zero32] Generate_file(2) [OF g]
  obtain p where p: "CreateProofAt 2 zero32 nf = Inr p" "wf_NoiseProof p"
    "VerifyProof (mRoot nf) zero32 p 3 = Inr True" by (auto simp: zero32_def)
  from noise_proof_sound [OF g p(2,3)] g p(1) show ?thesis by blast
qed

section \<open>Leaves are used once\<close>

definition used_ok :: "NoiseFile \<Rightarrow> bool" where
  "used_ok nf \<longleftrightarrow> length (mUsed nf) = (length (mLeaves nf) + 7) div 8"

lemma byte_index: "unat (i :: u32) < n \<Longrightarrow> unat (i div 8) < (n + 7) div 8"
  by (simp add: unat_div)

lemma bit_index_inj: "(i :: u32) div 8 = j div 8 \<Longrightarrow> i mod 8 = j mod 8 \<Longrightarrow> i = j"
  by (metis div_mult_mod_eq)

lemma unat_mod8: "unat ((i :: u32) mod 8) < 8"
  by (simp add: unat_mod)

lemma IsLeafUsed_bit:
  "unat (i div 8) < length (mUsed nf) \<Longrightarrow> IsLeafUsed i nf \<longleftrightarrow> bit (mUsed nf ! unat (i div 8)) (unat (i mod 8))"
  by (simp add: IsLeafUsed_def Let_def bit_iff_and_push_bit_not_eq_0)

text \<open>Marking a leaf sets that leaf's bit and no other.\<close>

lemma IsLeafUsed_MarkLeafUsed:
  assumes "used_ok nf" and i: "unat i < length (mLeaves nf)" and j: "unat j < length (mLeaves nf)"
  shows "IsLeafUsed j (MarkLeafUsed i nf) \<longleftrightarrow> j = i \<or> IsLeafUsed j nf"
proof -
  have bi: "unat (i div 8) < length (mUsed nf)" "unat (j div 8) < length (mUsed nf)"
    using assms byte_index by (auto simp: used_ok_def)
  let ?k = "unat (i mod 8)"
  have m: "mUsed (MarkLeafUsed i nf) = (mUsed nf)[unat (i div 8) := mUsed nf ! unat (i div 8) OR push_bit ?k 1]"
    using bi(1) i by (simp add: MarkLeafUsed_def Let_def not_less_eq_eq)
  have b: "bit (2 ^ ?k :: byte) n \<longleftrightarrow> n = ?k" for n
    using unat_mod8 [of i] by (auto simp: bit_exp_iff)
  show ?thesis
  proof (cases "i div 8 = j div 8")
    case True
    then have "unat (j mod 8) = ?k \<longleftrightarrow> j = i" using bit_index_inj by (metis word_unat_eq_iff)
    with True bi show ?thesis by (simp add: IsLeafUsed_bit m bit_or_iff b disj_commute)
  next
    case False
    then have "unat (i div 8) \<noteq> unat (j div 8)" by (simp add: word_unat_eq_iff)
    with bi False show ?thesis by (auto simp: IsLeafUsed_bit m)
  qed
qed

lemma MarkLeafUsed_keeps:
  "used_ok nf \<Longrightarrow> used_ok (MarkLeafUsed i nf)"
  "mLeaves (MarkLeafUsed i nf) = mLeaves nf" "mLevels (MarkLeafUsed i nf) = mLevels nf"
  "mRoot (MarkLeafUsed i nf) = mRoot nf" "mNextLeaf (MarkLeafUsed i nf) = mNextLeaf nf"
  by (auto simp: used_ok_def MarkLeafUsed_def Let_def resize_def)

text \<open>Drawing one proof per transaction hash.\<close>

fun draw :: "bytes32 list \<Rightarrow> NoiseFile \<Rightarrow> (NoiseProof list \<times> NoiseFile) result" where
  "draw [] nf = Inr ([], nf)"
| "draw (h # hs) nf = rbind (CreateProof h nf) (\<lambda>(p, nf). rbind (draw hs nf) (\<lambda>(ps, nf). Inr (p # ps, nf)))"

definition pool_ok :: "NoiseFile \<Rightarrow> bool" where
  "pool_ok nf \<longleftrightarrow> tree_ok nf \<and> used_ok nf \<and> unat (mNextLeaf nf) \<le> length (mLeaves nf)"

lemma CreateProof_step:
  assumes "pool_ok nf" and "is_bytes32 h"
  shows "if unat (mNextLeaf nf) < length (mLeaves nf) then
      \<exists>p nf'. CreateProof h nf = Inr (p, nf') \<and> leafIndex p = mNextLeaf nf \<and> pool_ok nf' \<and>
        unat (mNextLeaf nf') = unat (mNextLeaf nf) + 1 \<and> mLeaves nf' = mLeaves nf \<and> mRoot nf' = mRoot nf \<and>
        VerifyProof (mRoot nf) h p (of_nat (length (mLeaves nf))) = Inr True \<and>
        (\<forall>j. unat j < length (mLeaves nf) \<longrightarrow> IsLeafUsed j nf' = (j = mNextLeaf nf \<or> IsLeafUsed j nf))
    else CreateProof h nf = Inl (CryptoError ''NoiseFile: pool exhausted, no leaves left'')"
proof (cases "unat (mNextLeaf nf) < length (mLeaves nf)")
  case True
  have t: "tree_ok nf" and u: "used_ok nf" using assms(1) by (auto simp: pool_ok_def)
  from CreateProofAt_ok [OF t True assms(2)] obtain p where
    p: "CreateProofAt (mNextLeaf nf) h nf = Inr p" "leafIndex p = mNextLeaf nf"
    "VerifyProof (mRoot nf) h p (of_nat (length (mLeaves nf))) = Inr True" by blast
  define nf' where "nf' = (MarkLeafUsed (mNextLeaf nf) nf)\<lparr>mNextLeaf := mNextLeaf nf + 1\<rparr>"
  have c: "CreateProof h nf = Inr (p, nf')"
    using True p(1) by (simp add: CreateProof_def nf'_def MarkLeafUsed_keeps Let_def)
  have "length (mLeaves nf) < 2 ^ 32" using t by (simp add: tree_ok_def)
  then have n: "unat (mNextLeaf nf + 1) = unat (mNextLeaf nf) + 1"
    using True by (simp add: unat_word_ariths)
  have "IsLeafUsed j nf' = IsLeafUsed j (MarkLeafUsed (mNextLeaf nf) nf)" for j
    by (simp add: IsLeafUsed_def nf'_def)
  then have "\<forall>j. unat j < length (mLeaves nf) \<longrightarrow> IsLeafUsed j nf' = (j = mNextLeaf nf \<or> IsLeafUsed j nf)"
    using IsLeafUsed_MarkLeafUsed [OF u True] by simp
  moreover have "pool_ok nf'"
    using t MarkLeafUsed_keeps(1) [OF u] True n
    by (simp add: pool_ok_def tree_ok_def used_ok_def nf'_def MarkLeafUsed_keeps)
  ultimately show ?thesis using True c p n by (simp add: nf'_def MarkLeafUsed_keeps)
next
  case False
  then show ?thesis by (simp add: CreateProof_def)
qed

lemma draw_fresh:
  assumes "pool_ok nf" and "\<forall>h \<in> set hs. is_bytes32 h" and "draw hs nf = Inr (ps, nf')"
  shows "pool_ok nf' \<and> mLeaves nf' = mLeaves nf \<and> mRoot nf' = mRoot nf \<and>
    map (\<lambda>p. unat (leafIndex p)) ps = [unat (mNextLeaf nf)..<unat (mNextLeaf nf')] \<and>
    (\<forall>j. unat j < length (mLeaves nf) \<longrightarrow>
       IsLeafUsed j nf' = (IsLeafUsed j nf \<or> unat (mNextLeaf nf) \<le> unat j \<and> unat j < unat (mNextLeaf nf')))"
  using assms
proof (induction hs arbitrary: nf ps)
  case (Cons h hs)
  from Cons.prems(3) obtain p nf1 ps1 where c: "CreateProof h nf = Inr (p, nf1)"
    and d: "draw hs nf1 = Inr (ps1, nf')" and ps: "ps = p # ps1"
    by (auto simp: rbind_eq_Inr_iff)
  have lt: "unat (mNextLeaf nf) < length (mLeaves nf)"
    using c by (auto simp: CreateProof_def not_le)
  have S: "leafIndex p = mNextLeaf nf" "pool_ok nf1" "unat (mNextLeaf nf1) = unat (mNextLeaf nf) + 1"
    "mLeaves nf1 = mLeaves nf" "mRoot nf1 = mRoot nf"
    "\<forall>j. unat j < length (mLeaves nf) \<longrightarrow> IsLeafUsed j nf1 = (j = mNextLeaf nf \<or> IsLeafUsed j nf)"
    using CreateProof_step [OF Cons.prems(1), of h] Cons.prems(2) lt c by auto
  have hs32: "\<forall>h \<in> set hs. is_bytes32 h" using Cons.prems(2) by simp
  note I = Cons.IH [OF S(2) hs32 d]
  have le: "unat (mNextLeaf nf) + 1 \<le> unat (mNextLeaf nf')"
  proof (cases ps1)
    case Nil
    with d have "nf' = nf1" by (cases hs) (auto simp: rbind_eq_Inr_iff)
    with S(3) show ?thesis by simp
  next
    case (Cons q qs)
    with I S(3) show ?thesis
      by (metis (no_types, lifting) list.map_disc_iff list.distinct(1) not_le order.strict_implies_order upt_conv_Nil)
  qed
  have "[unat (mNextLeaf nf)..<unat (mNextLeaf nf')] =
      unat (mNextLeaf nf) # [unat (mNextLeaf nf) + 1..<unat (mNextLeaf nf')]"
    using le by (simp add: upt_conv_Cons)
  moreover have "IsLeafUsed j nf' = (IsLeafUsed j nf \<or> unat (mNextLeaf nf) \<le> unat j \<and> unat j < unat (mNextLeaf nf'))"
    if "unat j < length (mLeaves nf)" for j
    using I S(3,4,6) that le by (auto simp: word_unat_eq_iff)
  ultimately show ?case using I S by (simp add: ps)
qed auto

lemma draw_total:
  assumes "pool_ok nf" and "\<forall>h \<in> set hs. is_bytes32 h"
  shows "if unat (mNextLeaf nf) + length hs \<le> length (mLeaves nf) then \<exists>ps nf'. draw hs nf = Inr (ps, nf')
    else draw hs nf = Inl (CryptoError ''NoiseFile: pool exhausted, no leaves left'')"
  using assms
proof (induction hs arbitrary: nf)
  case Nil
  then show ?case by (simp add: pool_ok_def)
next
  case (Cons h hs)
  show ?case
  proof (cases "unat (mNextLeaf nf) < length (mLeaves nf)")
    case False
    with CreateProof_step [OF Cons.prems(1), of h] Cons.prems(2) show ?thesis by simp
  next
    case True
    with CreateProof_step [OF Cons.prems(1), of h] Cons.prems(2) obtain p nf1 where
      S: "CreateProof h nf = Inr (p, nf1)" "pool_ok nf1" "unat (mNextLeaf nf1) = unat (mNextLeaf nf) + 1"
      "mLeaves nf1 = mLeaves nf" by auto
    from Cons.IH [OF S(2)] Cons.prems(2) S show ?thesis by (auto split: if_splits)
  qed
qed

text \<open>
  Drawing proofs never spends a leaf twice: from a freshly generated file a sequence
  of \<open>CreateProof\<close> calls uses the leaves \<open>0, 1, 2, \<dots>\<close> in order, each once, and afterwards the
  used map marks exactly those leaves. It succeeds as long as there are leaves and then
  reports an exhausted pool.
\<close>

theorem CreateProof_one_time:
  assumes "Generate rawNoise leafCount = Inr nf" and "\<forall>h \<in> set hs. is_bytes32 h"
  shows "case draw hs nf of
      Inr (ps, nf') \<Rightarrow> length hs \<le> unat leafCount \<and> map (\<lambda>p. unat (leafIndex p)) ps = [0..<length hs] \<and>
        (\<forall>j < leafCount. IsLeafUsed j nf' \<longleftrightarrow> unat j < length hs)
    | Inl e \<Rightarrow> unat leafCount < length hs \<and> e = CryptoError ''NoiseFile: pool exhausted, no leaves left''"
proof -
  note G = Generate_file [OF assms(1)]
  have p: "pool_ok nf" using G Generate_tree_ok [OF assms(1)] by (simp add: pool_ok_def used_ok_def)
  show ?thesis
  proof (cases "length hs \<le> unat leafCount")
    case False
    with draw_total [OF p assms(2)] G(2,6) show ?thesis by simp
  next
    case True
    with draw_total [OF p assms(2)] G(2,6) obtain ps nf' where d: "draw hs nf = Inr (ps, nf')" by auto
    note D = draw_fresh [OF p assms(2) d]
    have l: "length ps = length hs"
      using d by (induction hs arbitrary: nf ps) (auto simp: rbind_eq_Inr_iff)
    have "length (map (\<lambda>p. unat (leafIndex p)) ps) = unat (mNextLeaf nf')" using D G(6) by simp
    then have n: "unat (mNextLeaf nf') = length hs" using l by simp
    have z: "\<not> IsLeafUsed j nf" for j
    proof -
      have "(replicate m (0 :: byte)) ! k = 0" if "k < m" for k m using that by simp
      then show ?thesis using G(7) by (simp add: IsLeafUsed_def Let_def)
    qed
    show ?thesis using D G(2,6) n z d True by (auto simp: word_less_nat_alt)
  qed
qed

theorem CreateProof_one_time_witness:
  "\<exists>nf. Generate (replicate 96 5) 3 = Inr nf \<and>
     draw [zero32, zero32, zero32, zero32] nf = Inl (CryptoError ''NoiseFile: pool exhausted, no leaves left'')"
proof -
  obtain nf where g: "Generate (replicate 96 5) 3 = Inr nf"
    by (simp add: Generate_def NOISE_OTP_LEAF_SIZE_def Let_def)
  from CreateProof_one_time [OF g, of "[zero32, zero32, zero32, zero32]"] g show ?thesis
    by (auto simp: zero32_def split: sum.splits)
qed

end
