(* ===== verification/Noise_Tree.thy ===== *)
theory Noise_Tree
  imports Noise_Otp
begin

text \<open>
  The streaming tree builder, \<open>src/src/wallet/noise_tree.cpp\<close>, which reduces the noise
  tree through one scratch file per level. The scratch directory is a map from level
  numbers to file contents (\<open>LevelPath\<close> is injective in the level), and the disk is a
  record of what it lets the process do: create a level file, open one for reading,
  and how many 32-byte records fit into it.
\<close>

section \<open>Disk\<close>

record disk =
  can_create :: "nat \<Rightarrow> bool"
  can_open :: "nat \<Rightarrow> bool"
  room :: "nat \<Rightarrow> nat"

type_synonym files = "nat \<Rightarrow> byte list option"

section \<open>The builder\<close>

definition CommitmentAt :: "byte list \<Rightarrow> u32 \<Rightarrow> bytes32" where
  "CommitmentAt rawNoise i =
     (let buf = take 32 (drop (unat i * 32) rawNoise) @
            [ucast (i AND 0xFF), ucast (drop_bit 8 i AND 0xFF), ucast (drop_bit 16 i AND 0xFF),
             ucast (drop_bit 24 i AND 0xFF)];
          leaf = Sha256 buf
      in Sha256 leaf)"

text \<open>Writing the bottom level; \<open>None\<close> is a short write.\<close>

fun write_commitments :: "byte list \<Rightarrow> u32 list \<Rightarrow> nat \<Rightarrow> byte list \<Rightarrow> byte list option" where
  "write_commitments rawNoise [] free out = Some out"
| "write_commitments rawNoise (i # is) free out =
     (if free = 0 then None
      else write_commitments rawNoise is (free - 1) (out @ CommitmentAt rawNoise i))"

text \<open>One pass over a level file; \<open>None\<close> is a short read or a short write.\<close>

fun reduce_level :: "nat \<Rightarrow> byte list \<Rightarrow> nat \<Rightarrow> byte list \<Rightarrow> nat \<Rightarrow> (byte list \<times> nat) option" where
  "reduce_level 0 inp free out produced = Some (out, produced)"
| "reduce_level (Suc 0) inp free out produced =
     (if length inp < 32 then None
      else if free = 0 then None
      else Some (out @ Sha256Pair (take 32 inp) (take 32 inp), produced + 1))"
| "reduce_level (Suc (Suc remaining)) inp free out produced =
     (if length inp < 32 then None
      else if length (drop 32 inp) < 32 then None
      else if free = 0 then None
      else reduce_level remaining (drop 64 inp) (free - 1)
             (out @ Sha256Pair (take 32 inp) (take 32 (drop 32 inp))) (produced + 1))"

lemma reduce_level_count:
  "reduce_level remaining inp free out produced = Some (out', produced') \<Longrightarrow>
     produced' = produced + (remaining + 1) div 2"
  by (induction remaining inp free out produced rule: reduce_level.induct) (auto split: if_splits)

definition reduce_step :: "disk \<Rightarrow> nat \<Rightarrow> nat \<Rightarrow> files \<Rightarrow> files \<times> nat option" where
  "reduce_step d level levelCount fs =
     (case (if can_open d level then fs level else None) of
        None \<Rightarrow> (fs, None)
      | Some inp \<Rightarrow>
          if \<not> can_create d (level + 1) then (fs, None)
          else case reduce_level levelCount inp (room d (level + 1)) [] 0 of
                 None \<Rightarrow> (fs(level := None, level + 1 := None), None)
               | Some (out, produced) \<Rightarrow> (fs(level := None, level + 1 := Some out), Some produced))"

function reduce_loop :: "disk \<Rightarrow> nat \<Rightarrow> nat \<Rightarrow> files \<Rightarrow> files \<times> nat option" where
  "reduce_loop d level levelCount fs =
     (if levelCount > 1 then
        (case reduce_step d level levelCount fs of
           (fs, None) \<Rightarrow> (fs, None)
         | (fs, Some produced) \<Rightarrow> reduce_loop d (level + 1) produced fs)
      else (fs, Some level))"
  by pat_completeness auto

termination reduce_loop
  by (relation "measure (\<lambda>(d, level, levelCount, fs). levelCount)")
    (auto simp: reduce_step_def split: option.splits if_splits prod.splits dest!: reduce_level_count)

declare reduce_loop.simps [simp del]

definition ComputeRoot ::
  "disk \<Rightarrow> byte list \<Rightarrow> u32 \<Rightarrow> bytes32 \<Rightarrow> files \<Rightarrow> bool \<times> bytes32 \<times> files" where
  "ComputeRoot d rawNoise leafCount rootOut fs =
     (if leafCount = 0 then (True, zero32, fs)
      else if length rawNoise < unat leafCount * 32 then (False, rootOut, fs)
      else if \<not> can_create d 0 then (False, rootOut, fs)
      else
        case write_commitments rawNoise (map of_nat [0..<unat leafCount]) (room d 0) [] of
          None \<Rightarrow> (False, rootOut, fs(0 := None))
        | Some level0 \<Rightarrow>
            (case reduce_loop d 0 (unat leafCount) (fs(0 := Some level0)) of
               (fs, None) \<Rightarrow> (False, rootOut, fs)
             | (fs, Some level) \<Rightarrow>
                 (case (if can_open d level then fs level else None) of
                    None \<Rightarrow> (False, rootOut, fs)
                  | Some content \<Rightarrow>
                      let got = take 32 content
                      in (length got = 32, got @ drop (length got) rootOut, fs(level := None)))))"

section \<open>Equivalence with the in-memory tree\<close>

lemma leaf_commitment: "CommitmentAt rawNoise i = Sha256 (leaf_at rawNoise i)"
  by (simp add: CommitmentAt_def leaf_at_def Let_def NOISE_OTP_LEAF_SIZE_def)

lemma write_commitments_eq:
  "write_commitments rawNoise is free out =
     (if length is \<le> free then Some (out @ concat (map (CommitmentAt rawNoise) is)) else None)"
  by (induction rawNoise "is" free out rule: write_commitments.induct) auto

lemma reduce_level_eq:
  assumes "\<forall>h \<in> set hs. is_bytes32 h"
  shows "reduce_level (length hs) (concat hs) free out produced =
    (if length (next_level hs) \<le> free
     then Some (out @ concat (next_level hs), produced + length (next_level hs)) else None)"
  using assms
  by (induction hs arbitrary: free out produced rule: next_level.induct) auto

lemma reduce_loop_sound:
  assumes "fs level = Some (concat hs)" and "hs \<noteq> []" and "\<forall>h \<in> set hs. is_bytes32 h"
    and "reduce_loop d level (length hs) fs = (fs', Some level')"
  shows "fs' level' = Some (last (build_levels hs) ! 0) \<and> level \<le> level' \<and>
    (\<forall>l. l \<noteq> level' \<longrightarrow> fs' l = (if level \<le> l \<and> l < level' then None else fs l))"
  using assms
proof (induction hs arbitrary: level fs rule: build_levels.induct)
  case (1 hs)
  show ?case
  proof (cases "1 < length hs")
    case False
    with 1(3) obtain a where "hs = [a]" by (cases hs) auto
    with 1(2,5) show ?thesis by (auto simp: reduce_loop.simps build_levels.simps)
  next
    case True
    let ?n = "next_level hs"
    from 1(5) True obtain fs1 p where s: "reduce_step d level (length hs) fs = (fs1, Some p)"
      and r: "reduce_loop d (level + 1) p fs1 = (fs', Some level')"
      by (auto simp: reduce_loop.simps [of d level] split: prod.splits option.splits)
    have e: "fs1 = fs(level := None, level + 1 := Some (concat ?n))" "p = length ?n"
      using s 1(2) by (auto simp: reduce_step_def reduce_level_eq [OF 1(4)] split: if_splits option.splits)
    have ne: "?n \<noteq> []" using True length_next_level [of hs] by auto
    have "fs1 (level + 1) = Some (concat ?n)" by (simp add: e)
    note I = 1(1) [OF True this ne next_level_bytes32 r [unfolded e(2)]]
    then show ?thesis using True by (auto simp: build_levels_Cons e(1))
  qed
qed

lemma reduce_loop_total:
  assumes "fs level = Some (concat hs)" and "hs \<noteq> []" and "\<forall>h \<in> set hs. is_bytes32 h"
    and "\<forall>l. can_create d l \<and> can_open d l \<and> length hs \<le> room d l"
  shows "\<exists>fs' level'. reduce_loop d level (length hs) fs = (fs', Some level')"
  using assms
proof (induction hs arbitrary: level fs rule: build_levels.induct)
  case (1 hs)
  show ?case
  proof (cases "1 < length hs")
    case False
    then show ?thesis by (simp add: reduce_loop.simps)
  next
    case True
    let ?n = "next_level hs"
    define fs1 where "fs1 = fs(level := None, level + 1 := Some (concat ?n))"
    have l: "length ?n \<le> length hs" using True by (simp add: length_next_level)
    then have fit: "length ?n \<le> room d k" for k using 1(5) le_trans by blast
    have s: "reduce_step d level (length hs) fs = (fs1, Some (length ?n))"
      using 1(2,5) fit by (simp add: fs1_def reduce_step_def reduce_level_eq [OF 1(4)])
    have ne: "?n \<noteq> []" using True length_next_level [of hs] by auto
    have "fs1 (level + 1) = Some (concat ?n)" by (simp add: fs1_def)
    from 1(1) [where level = "level + 1" and fs = fs1, OF True this ne next_level_bytes32] fit 1(5)
    have "\<exists>fs' level'. reduce_loop d (level + 1) (length ?n) fs1 = (fs', Some level')" by blast
    with True s show ?thesis by (simp add: reduce_loop.simps [of d level "length hs"])
  qed
qed

lemma commitments_eq:
  assumes "Generate rawNoise leafCount = Inr nf"
  shows "map (CommitmentAt rawNoise) (map of_nat [0..<unat leafCount]) = map Sha256 (mLeaves nf)"
  using assms
  by (auto simp: Generate_def Let_def BuildTree_def NoiseFile_init_def leaf_commitment comp_def)

lemma build_levels_last_bytes32:
  assumes "hs \<noteq> []" and "\<forall>h \<in> set hs. is_bytes32 h"
  shows "is_bytes32 (last (build_levels hs) ! 0)"
  using assms
proof (induction hs rule: build_levels.induct)
  case (1 hs)
  show ?case
  proof (cases "1 < length hs")
    case True
    have "next_level hs \<noteq> []" using True length_next_level [of hs] by auto
    with 1(1) [OF True] next_level_bytes32 True show ?thesis by (simp add: build_levels_Cons)
  next
    case False
    with 1(2,3) show ?thesis by (cases hs) (auto simp: build_levels.simps)
  qed
qed

text \<open>
  C36. The streaming builder computes the root of the in-memory tree: for a non-empty
  noise file, whenever \<open>ComputeRoot\<close> reports success, on any disk, the root is the one
  \<open>NoiseFile::Generate\<close> commits to and no scratch file it created is left. On a disk that
  creates and opens every level file and holds the bottom level, it does succeed.
\<close>

theorem ComputeRoot_matches_Generate:
  assumes "Generate rawNoise leafCount = Inr nf" and "is_bytes32 rootOut"
  shows "(ComputeRoot d rawNoise leafCount rootOut fs = (True, root, fs') \<longrightarrow>
      root = mRoot nf \<and> (\<forall>l. fs l = None \<longrightarrow> fs' l = None)) \<and>
    ((\<forall>l. can_create d l \<and> can_open d l \<and> unat leafCount \<le> room d l) \<longrightarrow>
      fst (ComputeRoot d rawNoise leafCount rootOut fs))"
proof -
  note G = Generate_file [OF assms(1)]
  let ?hs = "map Sha256 (mLeaves nf)" and ?is = "map of_nat [0..<unat leafCount] :: u32 list"
  define fs0 where "fs0 = fs(0 := Some (concat ?hs))"
  have nz: "leafCount \<noteq> 0" "\<not> length rawNoise < unat leafCount * 32"
    using assms(1) by (auto simp: Generate_def NOISE_OTP_LEAF_SIZE_def)
  have hs: "?hs \<noteq> []" "length ?hs = unat leafCount" "\<forall>h \<in> set ?hs. is_bytes32 h" "fs0 0 = Some (concat ?hs)"
    using G(1,2) by (auto simp: fs0_def)
  have w: "write_commitments rawNoise ?is free [] = (if unat leafCount \<le> free then Some (concat ?hs) else None)" for free
    unfolding write_commitments_eq commitments_eq [OF assms(1)] by simp
  let ?top = "last (build_levels ?hs) ! 0"
  have top: "is_bytes32 ?top" by (rule build_levels_last_bytes32 [OF hs(1,3)])
  have "root = mRoot nf \<and> (\<forall>l. fs l = None \<longrightarrow> fs' l = None)"
    if c: "ComputeRoot d rawNoise leafCount rootOut fs = (True, root, fs')"
  proof -
    from c nz w obtain fs1 level where r: "reduce_loop d 0 (unat leafCount) fs0 = (fs1, Some level)"
      by (auto simp: ComputeRoot_def Let_def fs0_def split: if_splits option.splits prod.splits)
    note S = reduce_loop_sound [where fs = fs0 and level = 0, OF hs(4,1,3), unfolded hs(2), OF r]
    from c nz w r S top assms(2) have "root = ?top" "fs' = fs1(level := None)"
      by (auto simp: ComputeRoot_def Let_def fs0_def split: if_splits)
    with S G(5) show ?thesis by (auto simp: fs0_def)
  qed
  moreover have "fst (ComputeRoot d rawNoise leafCount rootOut fs)"
    if g: "\<forall>l. can_create d l \<and> can_open d l \<and> unat leafCount \<le> room d l"
  proof -
    obtain fs1 level where r: "reduce_loop d 0 (unat leafCount) fs0 = (fs1, Some level)"
      using reduce_loop_total [where fs = fs0 and level = 0 and d = d, OF hs(4,1,3)] g unfolding hs(2) by blast
    note S = reduce_loop_sound [where fs = fs0 and level = 0, OF hs(4,1,3), unfolded hs(2), OF r]
    with g nz w r top show ?thesis by (simp add: ComputeRoot_def Let_def fs0_def)
  qed
  ultimately show ?thesis by blast
qed

theorem ComputeRoot_matches_Generate_witness:
  "\<exists>nf. Generate (replicate 96 5) 3 = Inr nf \<and>
     fst (ComputeRoot \<lparr>can_create = \<lambda>_. True, can_open = \<lambda>_. True, room = \<lambda>_. 3\<rparr> (replicate 96 5) 3 zero32 (\<lambda>_. None))"
proof -
  obtain nf where g: "Generate (replicate 96 5) 3 = Inr nf"
    by (simp add: Generate_def NOISE_OTP_LEAF_SIZE_def Let_def)
  from ComputeRoot_matches_Generate [OF g, of zero32 "\<lparr>can_create = \<lambda>_. True, can_open = \<lambda>_. True, room = \<lambda>_. 3\<rparr>"] g
  show ?thesis by (auto simp: zero32_def)
qed

text \<open>
  The header promises that the level files are removed before returning. A level file
  that cannot be opened for writing makes the builder return with the level below still
  on disk.
\<close>

lemma ComputeRoot_leaves_scratch:
  "ComputeRoot \<lparr>can_create = \<lambda>l. l = 0, can_open = \<lambda>_. True, room = \<lambda>_. 2\<rparr> (replicate 64 5) 2 zero32 (\<lambda>_. None) =
     (False, zero32, (\<lambda>_. None)(0 := Some (CommitmentAt (replicate 64 5) 0 @ CommitmentAt (replicate 64 5) 1)))"
proof -
  have u: "[0..<unat (2 :: u32)] = [0, 1]" "unat (2 :: u32) = 2" by (simp_all add: upt_rec)
  show ?thesis
    unfolding ComputeRoot_def u write_commitments_eq
    by (simp add: reduce_loop.simps [of _ 0] reduce_step_def upt_rec)
qed

end
