(* ===== verification/Db_Wrapper.thy ===== *)
theory Db_Wrapper
  imports Moneu_Prelude "HOL-Library.List_Lexorder"
begin

text \<open>
  The key-value store, \<open>src/src/storage/db_wrapper.h\<close> and \<open>db_wrapper.cpp\<close>: data streams
  with their typed reads and writes, value obfuscation, write batches, iterators and the
  wrapper itself. LevelDB, which the wrapper calls, appears by its documented contract: a
  store ordered bytewise by key, whose batches apply their updates in order and at once,
  and whose iterators walk the keys upwards. An I/O error of the engine, which the wrapper
  turns into a fatal \<open>DBError\<close>, is outside the model.
\<close>

section \<open>The ordered store\<close>

type_synonym leveldb = "(byte list \<times> byte list) list"

definition ldb_Get :: "leveldb \<Rightarrow> byte list \<Rightarrow> byte list option" where
  "ldb_Get db k = map_of db k"

fun ldb_put :: "byte list \<Rightarrow> byte list \<Rightarrow> leveldb \<Rightarrow> leveldb" where
  "ldb_put k v [] = [(k, v)]"
| "ldb_put k v ((k', v') # db) =
     (if k < k' then (k, v) # (k', v') # db
      else if k = k' then (k, v) # db
      else (k', v') # ldb_put k v db)"

definition ldb_delete :: "byte list \<Rightarrow> leveldb \<Rightarrow> leveldb" where
  "ldb_delete k db = filter (\<lambda>kv. fst kv \<noteq> k) db"

datatype batch_op = Put "byte list" "byte list" | Delete "byte list"

fun ldb_apply :: "batch_op \<Rightarrow> leveldb \<Rightarrow> leveldb" where
  "ldb_apply (Put k v) db = ldb_put k v db"
| "ldb_apply (Delete k) db = ldb_delete k db"

definition ldb_Write :: "batch_op list \<Rightarrow> leveldb \<Rightarrow> leveldb" where
  "ldb_Write ops db = fold ldb_apply ops db"

definition ldb_Seek :: "byte list \<Rightarrow> leveldb \<Rightarrow> leveldb" where
  "ldb_Seek k db = dropWhile (\<lambda>kv. fst kv < k) db"

section \<open>Data streams\<close>

record DataStream =
  mData :: "byte list"
  mReadPos :: nat

definition DataStream_init :: DataStream where
  "DataStream_init = \<lparr>mData = [], mReadPos = 0\<rparr>"

definition WriteRaw :: "byte list \<Rightarrow> DataStream \<Rightarrow> DataStream" where
  "WriteRaw bytes ds = ds\<lparr>mData := mData ds @ bytes\<rparr>"

definition ReadRaw :: "nat \<Rightarrow> DataStream \<Rightarrow> (byte list \<times> DataStream) option" where
  "ReadRaw len ds =
     (if mReadPos ds + len > length (mData ds) then None
      else Some (take len (drop (mReadPos ds) (mData ds)), ds\<lparr>mReadPos := mReadPos ds + len\<rparr>))"

definition xor_key :: "byte list \<Rightarrow> byte list \<Rightarrow> byte list" where
  "xor_key key bytes = map (\<lambda>i. bytes ! i XOR key ! (i mod length key)) [0..<length bytes]"

definition Xor :: "byte list \<Rightarrow> DataStream \<Rightarrow> DataStream" where
  "Xor key ds = (if key = [] then ds else ds\<lparr>mData := xor_key key (mData ds)\<rparr>)"

text \<open>
  \<open>operator<<\<close> and \<open>operator>>\<close> on a trivially copyable type copy \<open>sizeof(T)\<close> bytes of its
  memory image; strings and byte vectors carry a 32-bit length in front.
\<close>

definition get_raw :: "nat \<Rightarrow> DataStream \<Rightarrow> (byte list \<times> DataStream) result" where
  "get_raw len ds = (case ReadRaw len ds of
     None \<Rightarrow> Inl (RuntimeError ''DataStream: read past the end of the record'')
   | Some r \<Rightarrow> Inr r)"

definition put_vector :: "byte list \<Rightarrow> DataStream \<Rightarrow> DataStream" where
  "put_vector vec ds =
     (let len = of_nat (length vec) :: u32;
          ds = WriteRaw (WriteLE32 len) ds
      in if len > 0 then WriteRaw (take (unat len) vec) ds else ds)"

definition get_vector :: "DataStream \<Rightarrow> (byte list \<times> DataStream) result" where
  "get_vector ds = (case ReadRaw 4 ds of
     None \<Rightarrow> Inl (RuntimeError ''DataStream: read past the end of the record'')
   | Some (raw, ds) \<Rightarrow>
       rbind (ReadLE32 raw 0) (\<lambda>(len, _).
       guard_throw (unat len > length (mData ds) - mReadPos ds)
         (RuntimeError ''DataStream: vector length exceeds the record'') (
       if len > 0 then (case ReadRaw (unat len) ds of None \<Rightarrow> Inr (replicate (unat len) 0, ds) | Some r \<Rightarrow> Inr r)
       else Inr ([], ds))))"

definition put_string :: "byte list \<Rightarrow> DataStream \<Rightarrow> DataStream" where
  "put_string str ds =
     WriteRaw str (WriteRaw (WriteLE32 (of_nat (length str))) ds)"

definition get_string :: "DataStream \<Rightarrow> (byte list \<times> DataStream) result" where
  "get_string ds = (case ReadRaw 4 ds of
     None \<Rightarrow> Inl (RuntimeError ''DataStream: read past the end of the record'')
   | Some (raw, ds) \<Rightarrow>
       rbind (ReadLE32 raw 0) (\<lambda>(len, _).
       guard_throw (unat len > length (mData ds) - mReadPos ds)
         (RuntimeError ''DataStream: string length exceeds the record'') (
       case ReadRaw (unat len) ds of None \<Rightarrow> Inr (replicate (unat len) 0, ds) | Some r \<Rightarrow> Inr r)))"

text \<open>The bytes a key or a value becomes, and a stream holding a stored record.\<close>

definition vector_bytes :: "byte list \<Rightarrow> byte list" where
  "vector_bytes vec = mData (put_vector vec DataStream_init)"

definition string_bytes :: "byte list \<Rightarrow> byte list" where
  "string_bytes str = mData (put_string str DataStream_init)"

definition record_stream :: "byte list \<Rightarrow> byte list \<Rightarrow> DataStream" where
  "record_stream key stored = Xor key (WriteRaw stored DataStream_init)"

section \<open>The wrapper\<close>

record DBWrapper =
  mKV :: leveldb
  mObfuscateKey :: "byte list"

record DBBatch =
  mBatch :: "batch_op list"
  mSizeEstimate :: nat

definition DBBatch_init :: DBBatch where
  "DBBatch_init = \<lparr>mBatch = [], mSizeEstimate = 0\<rparr>"

text \<open>\<open>key\<close> and \<open>val\<close> are the contents of \<open>ssKey\<close> and \<open>ssValue\<close>.\<close>

definition DBBatch_Write :: "byte list \<Rightarrow> byte list \<Rightarrow> byte list \<Rightarrow> DBBatch \<Rightarrow> DBBatch" where
  "DBBatch_Write obf key val b =
     (let slValue = mData (record_stream obf val)
      in \<lparr>mBatch = mBatch b @ [Put key slValue],
          mSizeEstimate = mSizeEstimate b + (3 +
            (if length key > 127 then 1 else 0) + length key +
            (if length slValue > 127 then 1 else 0) + length slValue)\<rparr>)"

definition DBBatch_Erase :: "byte list \<Rightarrow> DBBatch \<Rightarrow> DBBatch" where
  "DBBatch_Erase key b =
     \<lparr>mBatch = mBatch b @ [Delete key],
      mSizeEstimate = mSizeEstimate b + (2 + (if length key > 127 then 1 else 0) + length key)\<rparr>"

definition DBWrapper_WriteBatch :: "DBBatch \<Rightarrow> DBWrapper \<Rightarrow> DBWrapper" where
  "DBWrapper_WriteBatch b w = w\<lparr>mKV := ldb_Write (mBatch b) (mKV w)\<rparr>"

definition DBWrapper_Read ::
  "(DataStream \<Rightarrow> ('v \<times> DataStream) result) \<Rightarrow> byte list \<Rightarrow> DBWrapper \<Rightarrow> 'v option" where
  "DBWrapper_Read get key w = (case ldb_Get (mKV w) key of
     None \<Rightarrow> None
   | Some strValue \<Rightarrow> (case get (record_stream (mObfuscateKey w) strValue) of
       Inl _ \<Rightarrow> None
     | Inr (v, _) \<Rightarrow> Some v))"

definition DBWrapper_Write :: "byte list \<Rightarrow> byte list \<Rightarrow> DBWrapper \<Rightarrow> DBWrapper" where
  "DBWrapper_Write key val w =
     DBWrapper_WriteBatch (DBBatch_Write (mObfuscateKey w) key val DBBatch_init) w"

definition DBWrapper_Exists :: "byte list \<Rightarrow> DBWrapper \<Rightarrow> bool" where
  "DBWrapper_Exists key w \<longleftrightarrow> ldb_Get (mKV w) key \<noteq> None"

definition DBWrapper_Erase :: "byte list \<Rightarrow> DBWrapper \<Rightarrow> DBWrapper" where
  "DBWrapper_Erase key w = DBWrapper_WriteBatch (DBBatch_Erase key DBBatch_init) w"

definition DBWrapper_Sync :: "DBWrapper \<Rightarrow> DBWrapper" where
  "DBWrapper_Sync w = DBWrapper_WriteBatch DBBatch_init w"

definition DBWrapper_IsEmpty :: "DBWrapper \<Rightarrow> bool" where
  "DBWrapper_IsEmpty w \<longleftrightarrow> mKV w = []"

text \<open>
  \<open>GetKey\<close> of a \<open>K\<close> with \<open>sizeof(K) = sizeofK\<close> at an iterator position, and \<open>GetValue\<close>. The key
  bytes are not obfuscated.
\<close>

definition DBIterator_GetKey ::
  "nat \<Rightarrow> (DataStream \<Rightarrow> ('k \<times> DataStream) result) \<Rightarrow> byte list \<Rightarrow> 'k option" where
  "DBIterator_GetKey sizeofK get slKey =
     (if length slKey \<noteq> sizeofK then None
      else (case get (WriteRaw slKey DataStream_init) of Inl _ \<Rightarrow> None | Inr (k, _) \<Rightarrow> Some k))"

definition DBIterator_GetValue ::
  "(DataStream \<Rightarrow> ('v \<times> DataStream) result) \<Rightarrow> DBWrapper \<Rightarrow> byte list \<Rightarrow> 'v option" where
  "DBIterator_GetValue get w slValue =
     (case get (record_stream (mObfuscateKey w) slValue) of Inl _ \<Rightarrow> None | Inr (v, _) \<Rightarrow> Some v)"

definition OBFUSCATE_KEY_KEY :: "byte list" where
  "OBFUSCATE_KEY_KEY = [0, 0x6f, 0x62, 0x66, 0x75, 0x73, 0x63, 0x61, 0x74, 0x65, 0x5f, 0x6b, 0x65, 0x79]"

definition OBFUSCATE_KEY_NUM_BYTES :: nat where
  "OBFUSCATE_KEY_NUM_BYTES = 8"

text \<open>
  The constructor on the store found on disk; \<open>rnd\<close> is what \<open>random_buffer\<close> yields for
  \<open>CreateObfuscateKey\<close>. A failed read leaves the zero key in place.
\<close>

definition DBWrapper_open :: "byte list \<Rightarrow> bool \<Rightarrow> leveldb \<Rightarrow> DBWrapper" where
  "DBWrapper_open rnd obfuscate db =
     (let w = \<lparr>mKV = db, mObfuscateKey = replicate OBFUSCATE_KEY_NUM_BYTES 0\<rparr>
      in case DBWrapper_Read get_vector (string_bytes OBFUSCATE_KEY_KEY) w of
           Some key \<Rightarrow> w\<lparr>mObfuscateKey := key\<rparr>
         | None \<Rightarrow>
             if obfuscate \<and> DBWrapper_IsEmpty w
             then (DBWrapper_Write (string_bytes OBFUSCATE_KEY_KEY) (vector_bytes rnd) w)\<lparr>mObfuscateKey := rnd\<rparr>
             else w)"

section \<open>The store as a map\<close>

lemma ldb_Get_put: "ldb_Get (ldb_put k v db) k' = (if k' = k then Some v else ldb_Get db k')"
  unfolding ldb_Get_def by (induction k v db rule: ldb_put.induct) auto

lemma ldb_Get_delete: "ldb_Get (ldb_delete k db) k' = (if k' = k then None else ldb_Get db k')"
  unfolding ldb_Get_def ldb_delete_def by (induction db) auto

text \<open>The iterator order is kept by every update.\<close>

definition ldb_sorted :: "leveldb \<Rightarrow> bool" where
  "ldb_sorted db \<longleftrightarrow> sorted_wrt (<) (map fst db)"

lemma fst_ldb_put: "fst ` set (ldb_put k v db) = insert k (fst ` set db)"
  by (induction k v db rule: ldb_put.induct) auto

lemma ldb_put_sorted: "ldb_sorted db \<Longrightarrow> ldb_sorted (ldb_put k v db)"
proof (induction k v db rule: ldb_put.induct)
  case (2 k v k' v' db)
  then show ?case
    using fst_ldb_put [of k v db]
    by (auto simp: ldb_sorted_def not_less_iff_gr_or_eq dest: less_trans)
qed (simp add: ldb_sorted_def)

lemma sorted_wrt_map_filter: "sorted_wrt P (map f xs) \<Longrightarrow> sorted_wrt P (map f (filter Q xs))"
  by (induction xs) auto

lemma ldb_delete_sorted: "ldb_sorted db \<Longrightarrow> ldb_sorted (ldb_delete k db)"
  unfolding ldb_sorted_def ldb_delete_def by (rule sorted_wrt_map_filter)

lemma ldb_Write_sorted: "ldb_sorted db \<Longrightarrow> ldb_sorted (ldb_Write ops db)"
  unfolding ldb_Write_def
proof (induction ops arbitrary: db)
  case (Cons op ops)
  then show ?case by (cases op) (simp_all add: ldb_put_sorted ldb_delete_sorted)
qed simp

section \<open>Obfuscation\<close>

lemma xor_key_length [simp]: "length (xor_key key bytes) = length bytes"
  by (simp add: xor_key_def)

lemma xor_key_involution: "xor_key key (xor_key key bytes) = bytes"
  by (rule nth_equalityI) (simp_all add: xor_key_def xor.assoc)

lemma xor_key_zero: "0 < n \<Longrightarrow> xor_key (replicate n 0) bytes = bytes"
  by (rule nth_equalityI) (simp_all add: xor_key_def)

lemma record_stream_mData:
  "mData (record_stream key bytes) = (if key = [] then bytes else xor_key key bytes)"
  by (simp add: record_stream_def Xor_def WriteRaw_def DataStream_init_def)

lemma record_stream_eq: "record_stream key bytes = \<lparr>mData = mData (record_stream key bytes), mReadPos = 0\<rparr>"
  by (simp add: record_stream_def Xor_def WriteRaw_def DataStream_init_def)

lemma record_stream_involution:
  "mData (record_stream key (mData (record_stream key bytes))) = bytes"
  by (simp add: record_stream_mData xor_key_involution)

section \<open>The plaintext view of a database\<close>

definition plain :: "DBWrapper \<Rightarrow> byte list \<Rightarrow> byte list option" where
  "plain w k = map_option (\<lambda>v. mData (record_stream (mObfuscateKey w) v)) (ldb_Get (mKV w) k)"

definition decode :: "(DataStream \<Rightarrow> ('v \<times> DataStream) result) \<Rightarrow> byte list \<Rightarrow> 'v option" where
  "decode get bytes = (case get \<lparr>mData = bytes, mReadPos = 0\<rparr> of Inl _ \<Rightarrow> None | Inr (v, _) \<Rightarrow> Some v)"

lemma DBWrapper_Read_plain: "DBWrapper_Read get k w = Option.bind (plain w k) (decode get)"
proof (cases "ldb_Get (mKV w) k")
  case (Some v)
  then show ?thesis
    by (simp add: DBWrapper_Read_def plain_def decode_def flip: record_stream_eq [of "mObfuscateKey w" v])
qed (simp add: DBWrapper_Read_def plain_def)

text \<open>What a batch does to the plaintext, and that the builders mean what they say.\<close>

fun op_effect :: "byte list \<Rightarrow> batch_op \<Rightarrow> (byte list \<rightharpoonup> byte list) \<Rightarrow> (byte list \<rightharpoonup> byte list)" where
  "op_effect obf (Put k v) m = m(k \<mapsto> mData (record_stream obf v))"
| "op_effect obf (Delete k) m = m(k := None)"

definition batch_effect :: "byte list \<Rightarrow> DBBatch \<Rightarrow> (byte list \<rightharpoonup> byte list) \<Rightarrow> (byte list \<rightharpoonup> byte list)" where
  "batch_effect obf b m = fold (op_effect obf) (mBatch b) m"

named_theorems db_simps \<open>batches, writes and erases on the plaintext view\<close>

lemma batch_effect_init [db_simps]: "batch_effect obf DBBatch_init m = m"
  by (simp add: batch_effect_def DBBatch_init_def)

lemma batch_effect_Write [db_simps]:
  "batch_effect obf (DBBatch_Write obf k v b) m = (batch_effect obf b m)(k \<mapsto> v)"
  by (simp add: batch_effect_def DBBatch_Write_def Let_def record_stream_involution)

lemma batch_effect_Erase [db_simps]:
  "batch_effect obf (DBBatch_Erase k b) m = (batch_effect obf b m)(k := None)"
  by (simp add: batch_effect_def DBBatch_Erase_def)

lemma WriteBatch_obf [db_simps]: "mObfuscateKey (DBWrapper_WriteBatch b w) = mObfuscateKey w"
  by (simp add: DBWrapper_WriteBatch_def)

lemma plain_apply:
  "plain (w\<lparr>mKV := ldb_apply op (mKV w)\<rparr>) = op_effect (mObfuscateKey w) op (plain w)"
  by (cases op) (auto simp: plain_def ldb_Get_put ldb_Get_delete)

lemma plain_WriteBatch [db_simps]:
  "plain (DBWrapper_WriteBatch b w) = batch_effect (mObfuscateKey w) b (plain w)"
proof -
  have "plain (w\<lparr>mKV := fold ldb_apply ops (mKV w)\<rparr>) = fold (op_effect (mObfuscateKey w)) ops (plain w)" for ops
  proof (induction ops arbitrary: w)
    case (Cons op ops)
    show ?case using Cons.IH [of "w\<lparr>mKV := ldb_apply op (mKV w)\<rparr>"] by (simp add: plain_apply)
  qed simp
  then show ?thesis by (simp add: DBWrapper_WriteBatch_def ldb_Write_def batch_effect_def)
qed

section \<open>Interfaces\<close>

text \<open>
  What a client may rely on: a database is a map from keys to plaintext records, and a
  stored value reads back as it was written.
\<close>

locale record_store =
  fixes view :: "'w \<Rightarrow> byte list \<rightharpoonup> byte list"
    and put :: "byte list \<Rightarrow> byte list \<Rightarrow> 'w \<Rightarrow> 'w"
    and erase :: "byte list \<Rightarrow> 'w \<Rightarrow> 'w"
  assumes view_write: "view (put k v w) = (view w)(k \<mapsto> v)"
    and view_erase: "view (erase k w) = (view w)(k := None)"
begin

lemma view_erase_list: "view (fold erase ks w) k = (if k \<in> set ks then None else view w k)"
  by (induction ks arbitrary: w) (auto simp: view_erase)

lemma erase_write: "view (erase k (put k v w)) = (view w)(k := None)"
  by (simp add: view_erase view_write)

end

locale record_codec =
  fixes img :: "'v \<Rightarrow> byte list"
    and get :: "DataStream \<Rightarrow> ('v \<times> DataStream) result"
    and ok :: "'v \<Rightarrow> bool"
  assumes get_img: "ok v \<Longrightarrow> \<exists>s. get \<lparr>mData = img v, mReadPos = 0\<rparr> = Inr (v, s)"
begin

lemma decode_img: "ok v \<Longrightarrow> decode get (img v) = Some v"
  using get_img [of v] by (auto simp: decode_def)

lemma read_img: "ok v \<Longrightarrow> plain w k = Some (img v) \<Longrightarrow> DBWrapper_Read get k w = Some v"
  by (simp add: DBWrapper_Read_plain decode_img)

lemma img_inj: "ok v \<Longrightarrow> ok v' \<Longrightarrow> img v = img v' \<Longrightarrow> v = v'"
  by (metis decode_img option.inject)

lemma GetKey_img: "ok v \<Longrightarrow> length (img v) = n \<Longrightarrow> DBIterator_GetKey n get (img v) = Some v"
  using get_img [of v] by (auto simp: DBIterator_GetKey_def WriteRaw_def DataStream_init_def)

end

interpretation db_map: record_store plain DBWrapper_Write DBWrapper_Erase
  by unfold_locales (simp_all add: DBWrapper_Write_def DBWrapper_Erase_def db_simps)

lemma ReadLE32_write: "ReadLE32 (WriteLE32 v) 0 = Inr (v, 4)"
  using ReadLE32_WriteLE32 [of "[]" v "[]"] by simp

lemma ReadRaw_len:
  "ReadRaw 4 \<lparr>mData = WriteLE32 v @ bytes, mReadPos = 0\<rparr> =
     Some (WriteLE32 v, \<lparr>mData = WriteLE32 v @ bytes, mReadPos = 4\<rparr>)"
  by (simp add: ReadRaw_def)

lemma unat_of_nat32: "n < 2 ^ 32 \<Longrightarrow> unat (of_nat n :: u32) = n"
  by (simp add: unat_of_nat)

lemma of_nat32_pos: "n < 2 ^ 32 \<Longrightarrow> (of_nat n :: u32) > 0 \<longleftrightarrow> 0 < n"
proof -
  assume n: "n < 2 ^ 32"
  have "(of_nat n :: u32) > 0 \<longleftrightarrow> unat (of_nat n :: u32) > 0" by (simp add: word_less_nat_alt)
  then show ?thesis by (simp only: unat_of_nat32 [OF n])
qed

lemma put_vector_bytes:
  "length vec < 2 ^ 32 \<Longrightarrow> vector_bytes vec = WriteLE32 (of_nat (length vec)) @ vec"
  by (auto simp: vector_bytes_def put_vector_def Let_def WriteRaw_def DataStream_init_def
      of_nat32_pos [simplified] unat_of_nat32 [simplified])

lemma string_bytes_eq: "string_bytes str = WriteLE32 (of_nat (length str)) @ str"
  by (simp add: string_bytes_def put_string_def WriteRaw_def DataStream_init_def)

interpretation raw_value: record_codec id "get_raw n" "\<lambda>v. length v = n" for n
  by unfold_locales (simp add: get_raw_def ReadRaw_def)

text \<open>A length-prefixed record, whatever the length word is called.\<close>

lemma ReadRaw_body:
  "n = length bytes \<Longrightarrow> ReadRaw n \<lparr>mData = WriteLE32 v @ bytes, mReadPos = 4\<rparr> =
     Some (bytes, \<lparr>mData = WriteLE32 v @ bytes, mReadPos = 4 + n\<rparr>)"
  by (simp add: ReadRaw_def)

lemma get_vector_prefixed:
  assumes "unat (len :: u32) = length vec"
  shows "\<exists>s. get_vector \<lparr>mData = WriteLE32 len @ vec, mReadPos = 0\<rparr> = Inr (vec, s)"
proof (cases "len > 0")
  case False
  then have "vec = []" using assms by (simp add: word_less_nat_alt)
  then show ?thesis
    using False ReadRaw_len [of len "[]"] assms by (simp add: get_vector_def ReadLE32_write)
next
  case True
  then show ?thesis
    by (simp only: get_vector_def ReadRaw_len option.case prod.case ReadLE32_write rbind_Inr assms
        ReadRaw_body [OF refl] if_True) (simp add: guard_throw_def)
qed

lemma get_string_prefixed:
  assumes "unat (len :: u32) = length str"
  shows "\<exists>s. get_string \<lparr>mData = WriteLE32 len @ str, mReadPos = 0\<rparr> = Inr (str, s)"
  using assms by (simp add: get_string_def ReadRaw_len ReadLE32_write ReadRaw_def)

interpretation vector_value: record_codec vector_bytes get_vector "\<lambda>v. length v < 2 ^ 32"
  by unfold_locales (metis get_vector_prefixed put_vector_bytes unat_of_nat32)

interpretation string_value: record_codec string_bytes get_string "\<lambda>v. length v < 2 ^ 32"
  by unfold_locales (metis get_string_prefixed string_bytes_eq unat_of_nat32)

section \<open>Reopening a database\<close>

text \<open>
  The states an obfuscated database passes through: created on an empty directory, then
  changed by batches that leave the wrapper's own record alone.
\<close>

definition spares_obfuscation :: "DBBatch \<Rightarrow> bool" where
  "spares_obfuscation b \<longleftrightarrow>
     list_all (\<lambda>op. (case op of Put k v \<Rightarrow> k | Delete k \<Rightarrow> k) \<noteq> string_bytes OBFUSCATE_KEY_KEY) (mBatch b)"

inductive db_reach :: "DBWrapper \<Rightarrow> bool" where
  created: "length rnd = OBFUSCATE_KEY_NUM_BYTES \<Longrightarrow> db_reach (DBWrapper_open rnd True [])"
| batch: "db_reach w \<Longrightarrow> spares_obfuscation b \<Longrightarrow> db_reach (DBWrapper_WriteBatch b w)"

definition obf_persisted :: "DBWrapper \<Rightarrow> bool" where
  "obf_persisted w \<longleftrightarrow>
     ldb_Get (mKV w) (string_bytes OBFUSCATE_KEY_KEY) = Some (vector_bytes (mObfuscateKey w)) \<and>
     length (mObfuscateKey w) = OBFUSCATE_KEY_NUM_BYTES"

lemma zero_key_stream: "mData (record_stream (replicate OBFUSCATE_KEY_NUM_BYTES 0) v) = v"
  by (simp add: record_stream_mData xor_key_zero OBFUSCATE_KEY_NUM_BYTES_def del: replicate.simps)

lemma open_empty:
  "DBWrapper_open rnd True [] =
     \<lparr>mKV = [(string_bytes OBFUSCATE_KEY_KEY, vector_bytes rnd)], mObfuscateKey = rnd\<rparr>"
  by (simp add: DBWrapper_open_def DBWrapper_Read_def ldb_Get_def DBWrapper_IsEmpty_def DBWrapper_Write_def
      DBWrapper_WriteBatch_def DBBatch_Write_def DBBatch_init_def ldb_Write_def zero_key_stream Let_def)

lemma Get_fold_other:
  "list_all (\<lambda>op. (case op of Put k v \<Rightarrow> k | Delete k \<Rightarrow> k) \<noteq> k0) ops \<Longrightarrow>
   ldb_Get (fold ldb_apply ops db) k0 = ldb_Get db k0"
proof (induction ops arbitrary: db)
  case (Cons op ops)
  then show ?case by (cases op) (auto simp: ldb_Get_put ldb_Get_delete)
qed simp

lemma db_reach_obf: "db_reach w \<Longrightarrow> obf_persisted w"
proof (induction rule: db_reach.induct)
  case (created rnd)
  then show ?case by (simp add: obf_persisted_def open_empty ldb_Get_def)
next
  case (batch w b)
  then show ?case
    by (simp add: obf_persisted_def DBWrapper_WriteBatch_def ldb_Write_def spares_obfuscation_def
        Get_fold_other)
qed

lemma open_persisted:
  assumes "obf_persisted w"
  shows "DBWrapper_open rnd obfuscate (mKV w) = w"
proof -
  let ?w0 = "\<lparr>mKV = mKV w, mObfuscateKey = replicate OBFUSCATE_KEY_NUM_BYTES 0\<rparr>"
  have "plain ?w0 (string_bytes OBFUSCATE_KEY_KEY) = Some (vector_bytes (mObfuscateKey w))"
    using assms by (simp add: plain_def obf_persisted_def zero_key_stream)
  moreover have "length (mObfuscateKey w) < 2 ^ 32"
    using assms by (simp add: obf_persisted_def OBFUSCATE_KEY_NUM_BYTES_def)
  ultimately have "DBWrapper_Read get_vector (string_bytes OBFUSCATE_KEY_KEY) ?w0 = Some (mObfuscateKey w)"
    by (simp add: vector_value.read_img)
  then show ?thesis by (simp add: DBWrapper_open_def Let_def)
qed

text \<open>
  A database survives being closed: opening the store that any history of batches left
  on disk gives back the very wrapper, obfuscation key included, whatever fresh randomness
  the constructor is offered, so every typed read after a restart answers as before it.
\<close>

theorem DBWrapper_reopen:
  assumes "db_reach w"
  shows "DBWrapper_open rnd obfuscate (mKV w) = w \<and>
    DBWrapper_Read get k (DBWrapper_open rnd obfuscate (mKV w)) = DBWrapper_Read get k w"
  using open_persisted [OF db_reach_obf [OF assms]] by simp

theorem DBWrapper_reopen_witness:
  "DBWrapper_Read get_vector [117]
     (DBWrapper_open (replicate 8 9) True
       (mKV (DBWrapper_Write [117] (vector_bytes [1, 2, 3]) (DBWrapper_open [1, 2, 3, 4, 5, 6, 7, 8] True [])))) =
   Some [1, 2, 3]"
proof -
  let ?w = "DBWrapper_Write [117] (vector_bytes [1, 2, 3]) (DBWrapper_open [1, 2, 3, 4, 5, 6, 7, 8] True [])"
  have "db_reach ?w"
    unfolding DBWrapper_Write_def
    by (intro db_reach.intros)
      (simp_all add: OBFUSCATE_KEY_NUM_BYTES_def spares_obfuscation_def DBBatch_Write_def DBBatch_init_def
        string_bytes_eq WriteLE32_def Let_def)
  then show ?thesis
    by (simp add: DBWrapper_reopen vector_value.read_img db_map.view_write)
qed

end
