(* ===== verification/Utxo_Set.thy ===== *)
theory Utxo_Set
  imports Db_Wrapper Noise_Otp "HOL-Library.AList"
begin

text \<open>
  The set of unspent outputs and consumed noise leaves, \<open>src/src/storage/utxo_set.cpp\<close>: a
  write-back cache over the chainstate database. Unordered maps and sets are lists in the
  order an iteration would visit them, with no key twice; the mutex, which every public
  operation holds throughout, and the messages on \<open>stderr\<close> do not appear.
\<close>

section \<open>Data\<close>

datatype OutPoint = OutPoint (op_txHash: bytes32) (op_index: u32)

datatype NoiseLeafKey = NoiseLeafKey (lk_kps: bytes32) (lk_leafIndex: u32)

instantiation OutPoint :: linorder
begin

definition less_OutPoint :: "OutPoint \<Rightarrow> OutPoint \<Rightarrow> bool" where
  "less_OutPoint a b \<longleftrightarrow>
     (if op_txHash a \<noteq> op_txHash b then op_txHash a < op_txHash b else op_index a < op_index b)"

definition less_eq_OutPoint :: "OutPoint \<Rightarrow> OutPoint \<Rightarrow> bool" where
  "less_eq_OutPoint a b \<longleftrightarrow> a = b \<or> a < b"

instance
  by standard (auto simp: less_OutPoint_def less_eq_OutPoint_def OutPoint.expand split: if_splits)

end

instantiation NoiseLeafKey :: linorder
begin

definition less_NoiseLeafKey :: "NoiseLeafKey \<Rightarrow> NoiseLeafKey \<Rightarrow> bool" where
  "less_NoiseLeafKey a b \<longleftrightarrow>
     (if lk_kps a \<noteq> lk_kps b then lk_kps a < lk_kps b else lk_leafIndex a < lk_leafIndex b)"

definition less_eq_NoiseLeafKey :: "NoiseLeafKey \<Rightarrow> NoiseLeafKey \<Rightarrow> bool" where
  "less_eq_NoiseLeafKey a b \<longleftrightarrow> a = b \<or> a < b"

instance
  by standard (auto simp: less_NoiseLeafKey_def less_eq_NoiseLeafKey_def NoiseLeafKey.expand split: if_splits)

end

record Coin =
  cValue :: int
  cPubkeyHash :: bytes32
  cHeight :: u32
  cIsCoinbase :: bool
  cIsSpent :: bool

definition mk_Coin :: "int \<Rightarrow> bytes32 \<Rightarrow> u32 \<Rightarrow> bool \<Rightarrow> Coin" where
  "mk_Coin val pkHash h coinbase =
     \<lparr>cValue = val, cPubkeyHash = pkHash, cHeight = h, cIsCoinbase = coinbase, cIsSpent = False\<rparr>"

definition Coin_IsValid :: "Coin \<Rightarrow> bool" where
  "Coin_IsValid c \<longleftrightarrow> \<not> cIsSpent c \<and> cValue c > 0"

record UTXOEntry =
  eCoin :: Coin
  eIsDirty :: bool
  eIsNew :: bool

definition mk_UTXOEntry :: "Coin \<Rightarrow> bool \<Rightarrow> bool \<Rightarrow> UTXOEntry" where
  "mk_UTXOEntry c dirty isnew = \<lparr>eCoin = c, eIsDirty = dirty, eIsNew = isnew\<rparr>"

type_synonym UTXOMap = "(OutPoint \<times> UTXOEntry) list"

record UTXOSet =
  uDB :: DBWrapper
  uCache :: UTXOMap
  uBestBlock :: bytes32
  uSpentLeafCache :: "NoiseLeafKey list"
  uSpentLeafDirty :: "NoiseLeafKey list"
  uErasedLeafDirty :: "NoiseLeafKey list"

definition MAX_BATCH_SIZE :: nat where
  "MAX_BATCH_SIZE = 16 * 1024 * 1024"

section \<open>Keys and values in the database\<close>

text \<open>
  The memory images of \<open>OutPoint\<close> (36 bytes) and \<open>Coin\<close> (48 bytes: value, key hash, height,
  the two flags and two bytes of padding, whose content the reader ignores).
\<close>

definition OutPoint_image :: "OutPoint \<Rightarrow> byte list" where
  "OutPoint_image outpoint = op_txHash outpoint @ WriteLE32 (op_index outpoint)"

definition sizeof_OutPoint :: nat where
  "sizeof_OutPoint = 36"

definition sizeof_Coin :: nat where
  "sizeof_Coin = 48"

definition bool_byte :: "bool \<Rightarrow> byte" where
  "bool_byte b = (if b then 1 else 0)"

definition Coin_image :: "Coin \<Rightarrow> byte list" where
  "Coin_image c =
     WriteLE64 (of_int (cValue c)) @ cPubkeyHash c @ WriteLE32 (cHeight c) @
     [bool_byte (cIsCoinbase c), bool_byte (cIsSpent c)] @ [0, 0]"

definition get_OutPoint :: "DataStream \<Rightarrow> (OutPoint \<times> DataStream) result" where
  "get_OutPoint ds =
     rbind (get_raw sizeof_OutPoint ds) (\<lambda>(raw, ds).
     rbind (rd_bytes 32 raw 0) (\<lambda>h. rbind (ReadLE32 raw 32) (\<lambda>(i, _). Inr (OutPoint h i, ds))))"

definition get_Coin :: "DataStream \<Rightarrow> (Coin \<times> DataStream) result" where
  "get_Coin ds =
     rbind (get_raw sizeof_Coin ds) (\<lambda>(raw, ds).
     rbind (ReadLE64 raw 0) (\<lambda>(v, _).
     rbind (rd_bytes 32 raw 8) (\<lambda>h.
     rbind (ReadLE32 raw 40) (\<lambda>(ht, _).
     rbind (rd8 raw 44) (\<lambda>cb.
     rbind (rd8 raw 45) (\<lambda>sp.
       Inr (\<lparr>cValue = sint v, cPubkeyHash = h, cHeight = ht, cIsCoinbase = cb \<noteq> 0, cIsSpent = sp \<noteq> 0\<rparr>,
            ds)))))))"

definition DB_UTXO_BEST :: "byte list" where
  "DB_UTXO_BEST = [0x75]"

definition DB_UTXO_HEADS :: "byte list" where
  "DB_UTXO_HEADS = [0x68]"

definition DB_NOISE_LEAF :: byte where
  "DB_NOISE_LEAF = 0x4E"

definition MakeNoiseLeafDBKey :: "bytes32 \<Rightarrow> u32 \<Rightarrow> byte list" where
  "MakeNoiseLeafDBKey kps leafIdx =
     DB_NOISE_LEAF # kps @ map (\<lambda>b. ucast (drop_bit (8 * b) leafIdx AND 0xFF)) [0..<4]"

definition db_coin :: "DBWrapper \<Rightarrow> OutPoint \<Rightarrow> Coin option" where
  "db_coin db outpoint = DBWrapper_Read get_Coin (OutPoint_image outpoint) db"

definition db_leaf :: "DBWrapper \<Rightarrow> NoiseLeafKey \<Rightarrow> bool" where
  "db_leaf db key =
     (DBWrapper_Read (get_raw 1) (string_bytes (MakeNoiseLeafDBKey (lk_kps key) (lk_leafIndex key))) db \<noteq> None)"

section \<open>Opening and single coins\<close>

definition UTXOSet_open :: "DBWrapper \<Rightarrow> UTXOSet" where
  "UTXOSet_open db =
     \<lparr>uDB = db, uCache = [],
      uBestBlock = (case DBWrapper_Read (get_raw 32) DB_UTXO_BEST db of Some h \<Rightarrow> h | None \<Rightarrow> zero32),
      uSpentLeafCache = [], uSpentLeafDirty = [], uErasedLeafDirty = []\<rparr>"

definition cache_put :: "OutPoint \<Rightarrow> UTXOEntry \<Rightarrow> UTXOSet \<Rightarrow> UTXOSet" where
  "cache_put outpoint e u = u\<lparr>uCache := AList.update outpoint e (uCache u)\<rparr>"

definition mark_spent :: "UTXOEntry \<Rightarrow> UTXOEntry" where
  "mark_spent e = e\<lparr>eCoin := (eCoin e)\<lparr>cIsSpent := True\<rparr>, eIsDirty := True\<rparr>"

definition GetCoinLocked :: "OutPoint \<Rightarrow> UTXOSet \<Rightarrow> Coin option" where
  "GetCoinLocked outpoint u = (case map_of (uCache u) outpoint of
     Some e \<Rightarrow> if cIsSpent (eCoin e) then None else Some (eCoin e)
   | None \<Rightarrow> (case db_coin (uDB u) outpoint of
       None \<Rightarrow> None
     | Some dbCoin \<Rightarrow> if cIsSpent dbCoin then None else Some dbCoin))"

definition GetCoin :: "OutPoint \<Rightarrow> UTXOSet \<Rightarrow> Coin option" where
  "GetCoin outpoint u = (case map_of (uCache u) outpoint of
     Some e \<Rightarrow> if cIsSpent (eCoin e) then None else Some (eCoin e)
   | None \<Rightarrow> (case db_coin (uDB u) outpoint of
       None \<Rightarrow> None
     | Some dbCoin \<Rightarrow> if cIsSpent dbCoin then None else Some dbCoin))"

definition HaveCoin :: "OutPoint \<Rightarrow> UTXOSet \<Rightarrow> bool" where
  "HaveCoin outpoint u = (case map_of (uCache u) outpoint of
     Some e \<Rightarrow> \<not> cIsSpent (eCoin e)
   | None \<Rightarrow> (case db_coin (uDB u) outpoint of None \<Rightarrow> False | Some dbCoin \<Rightarrow> \<not> cIsSpent dbCoin))"

definition SpendCoin :: "OutPoint \<Rightarrow> UTXOSet \<Rightarrow> bool \<times> UTXOSet" where
  "SpendCoin outpoint u = (case map_of (uCache u) outpoint of
     Some e \<Rightarrow> if cIsSpent (eCoin e) then (False, u) else (True, cache_put outpoint (mark_spent e) u)
   | None \<Rightarrow> (case db_coin (uDB u) outpoint of
       None \<Rightarrow> (False, u)
     | Some dbCoin \<Rightarrow>
         if cIsSpent dbCoin then (False, u)
         else (True, cache_put outpoint (mk_UTXOEntry (dbCoin\<lparr>cIsSpent := True\<rparr>) True False) u)))"

definition SpendCoinIfPresentLocked :: "OutPoint \<Rightarrow> UTXOSet \<Rightarrow> UTXOSet" where
  "SpendCoinIfPresentLocked outpoint u = (case map_of (uCache u) outpoint of
     Some e \<Rightarrow> if cIsSpent (eCoin e) then u else cache_put outpoint (mark_spent e) u
   | None \<Rightarrow> (case db_coin (uDB u) outpoint of
       None \<Rightarrow> u
     | Some dbCoin \<Rightarrow>
         if cIsSpent dbCoin then u
         else cache_put outpoint (mk_UTXOEntry (dbCoin\<lparr>cIsSpent := True\<rparr>) True False) u))"

definition AddCoin :: "OutPoint \<Rightarrow> Coin \<Rightarrow> UTXOSet \<Rightarrow> bool \<times> UTXOSet" where
  "AddCoin outpoint coin u =
     (if (case map_of (uCache u) outpoint of
            Some e \<Rightarrow> \<not> cIsSpent (eCoin e)
          | None \<Rightarrow> (case db_coin (uDB u) outpoint of None \<Rightarrow> False | Some dbCoin \<Rightarrow> \<not> cIsSpent dbCoin))
      then (False, u)
      else (True, cache_put outpoint (mk_UTXOEntry coin True True) u))"

definition AddCoinOverwriteLocked :: "OutPoint \<Rightarrow> Coin \<Rightarrow> UTXOSet \<Rightarrow> UTXOSet" where
  "AddCoinOverwriteLocked outpoint coin u = cache_put outpoint (mk_UTXOEntry coin True True) u"

text \<open>The unlocked twins, whose bodies the public operations repeat.\<close>

definition SpendCoinLocked :: "OutPoint \<Rightarrow> UTXOSet \<Rightarrow> bool \<times> UTXOSet" where
  "SpendCoinLocked outpoint u = SpendCoin outpoint u"

definition AddCoinLocked :: "OutPoint \<Rightarrow> Coin \<Rightarrow> UTXOSet \<Rightarrow> bool \<times> UTXOSet" where
  "AddCoinLocked outpoint coin u = AddCoin outpoint coin u"

section \<open>Noise leaves\<close>

definition IsNoiseLeafSpentLocked :: "NoiseLeafKey \<Rightarrow> UTXOSet \<Rightarrow> bool" where
  "IsNoiseLeafSpentLocked key u =
     (if key \<in> set (uSpentLeafCache u) then True
      else if key \<in> set (uErasedLeafDirty u) then False
      else db_leaf (uDB u) key)"

definition MarkNoiseLeafSpentLocked :: "NoiseLeafKey \<Rightarrow> UTXOSet \<Rightarrow> UTXOSet" where
  "MarkNoiseLeafSpentLocked key u =
     u\<lparr>uSpentLeafCache := List.insert key (uSpentLeafCache u),
       uSpentLeafDirty := List.insert key (uSpentLeafDirty u),
       uErasedLeafDirty := removeAll key (uErasedLeafDirty u)\<rparr>"

definition UnmarkNoiseLeafSpentLocked :: "NoiseLeafKey \<Rightarrow> UTXOSet \<Rightarrow> UTXOSet" where
  "UnmarkNoiseLeafSpentLocked key u =
     u\<lparr>uSpentLeafCache := removeAll key (uSpentLeafCache u),
       uSpentLeafDirty := removeAll key (uSpentLeafDirty u),
       uErasedLeafDirty := List.insert key (uErasedLeafDirty u)\<rparr>"

text \<open>
  \<open>while (offset < proofBytes.size())\<close> around \<open>NoiseProof::Deserialize\<close>: the body may stop
  the loop by answering \<open>False\<close>, and a proof that does not parse throws out of it.
\<close>

function proof_loop :: "(u32 \<Rightarrow> 's \<Rightarrow> bool \<times> 's) \<Rightarrow> byte list \<Rightarrow> nat \<Rightarrow> 's \<Rightarrow> bool \<times> 's" where
  "proof_loop body data offset s =
     (if offset < length data then
        (case NoiseProof_Deserialize data offset of
           Inl _ \<Rightarrow> (False, s)
         | Inr (p, offset') \<Rightarrow>
             (case body (leafIndex p) s of
                (False, s') \<Rightarrow> (False, s')
              | (True, s') \<Rightarrow> proof_loop body data offset' s'))
      else (True, s))"
  by pat_completeness auto

termination proof_loop
  by (relation "measure (\<lambda>(body, data, offset, s). length data - offset)")
    (auto dest!: NoiseProof_Deserialize_bounds)

declare proof_loop.simps [simp del]

section \<open>Applying and undoing transactions\<close>

definition input_outpoint :: "TxInput \<Rightarrow> OutPoint" where
  "input_outpoint input = OutPoint (mPrevTxHash input) (mOutputIndex input)"

definition output_coin :: "u32 \<Rightarrow> bool \<Rightarrow> TxOutput \<Rightarrow> Coin option" where
  "output_coin ht cb out =
     (if IsUnspendable (mScriptPubKey out) then None
      else if mValue out \<le> 0 then None
      else (case ExtractPubkeyHash (mScriptPubKey out) of
          None \<Rightarrow> None
        | Some outPubkeyHash \<Rightarrow> Some (mk_Coin (mValue out) outPubkeyHash ht cb)))"

fun add_outputs :: "bytes32 \<Rightarrow> u32 \<Rightarrow> bool \<Rightarrow> nat \<Rightarrow> TxOutput list \<Rightarrow> UTXOSet \<Rightarrow> UTXOSet" where
  "add_outputs txHash ht cb i [] u = u"
| "add_outputs txHash ht cb i (out # outs) u =
     add_outputs txHash ht cb (i + 1) outs (case output_coin ht cb out of
       None \<Rightarrow> u
     | Some coin \<Rightarrow> cache_put (OutPoint txHash (of_nat i)) (mk_UTXOEntry coin True True) u)"

text \<open>The first pass: every coin is looked up and every leaf checked before anything changes.\<close>

definition apply_leaf ::
  "UTXOSet \<Rightarrow> bytes32 \<Rightarrow> u32 \<Rightarrow> NoiseLeafKey list \<times> NoiseLeafKey list \<Rightarrow>
   bool \<times> (NoiseLeafKey list \<times> NoiseLeafKey list)" where
  "apply_leaf u kps idx = (\<lambda>(toMark, seenLeaves).
     let leafKey = NoiseLeafKey kps idx
     in if IsNoiseLeafSpentLocked leafKey u then (False, toMark, seenLeaves)
        else if leafKey \<in> set seenLeaves then (False, toMark, seenLeaves)
        else (True, toMark @ [leafKey], List.insert leafKey seenLeaves))"

fun apply_scan ::
  "UTXOSet \<Rightarrow> TxInput list \<Rightarrow> (OutPoint \<times> Coin) list \<Rightarrow> NoiseLeafKey list \<Rightarrow> NoiseLeafKey list \<Rightarrow>
   ((OutPoint \<times> Coin) list \<times> NoiseLeafKey list) option" where
  "apply_scan u [] toSpend toMark seenLeaves = Some (toSpend, toMark)"
| "apply_scan u (input # inputs) toSpend toMark seenLeaves =
     (let outpoint = input_outpoint input in
      case (case map_of (uCache u) outpoint of
              Some e \<Rightarrow> if cIsSpent (eCoin e) then None else Some (eCoin e)
            | None \<Rightarrow> (case db_coin (uDB u) outpoint of
                None \<Rightarrow> None
              | Some dbCoin \<Rightarrow> if cIsSpent dbCoin then None else Some dbCoin)) of
        None \<Rightarrow> None
      | Some coin \<Rightarrow>
          if mNoiseProof input = [] then None
          else (case proof_loop (apply_leaf u (mKps input)) (mNoiseProof input) 0 (toMark, seenLeaves) of
              (False, _) \<Rightarrow> None
            | (True, toMark, seenLeaves) \<Rightarrow>
                apply_scan u inputs (toSpend @ [(outpoint, coin)]) toMark seenLeaves))"

definition apply_spend :: "OutPoint \<times> Coin \<Rightarrow> UTXOSet \<Rightarrow> UTXOSet" where
  "apply_spend = (\<lambda>(outpoint, coin) u. case map_of (uCache u) outpoint of
     Some e \<Rightarrow> cache_put outpoint (mark_spent e) u
   | None \<Rightarrow> cache_put outpoint (mk_UTXOEntry (coin\<lparr>cIsSpent := True\<rparr>) True False) u)"

definition ApplyTransaction :: "Transaction \<Rightarrow> u32 \<Rightarrow> bool \<Rightarrow> UTXOSet \<Rightarrow> bool \<times> Coin list \<times> UTXOSet" where
  "ApplyTransaction tx ht cb u =
     (case (if \<not> cb then apply_scan u (mInputs tx) [] [] [] else Some ([], [])) of
        None \<Rightarrow> (False, [], u)
      | Some (toSpend, toMark) \<Rightarrow>
          let u = fold apply_spend toSpend u;
              u = fold MarkNoiseLeafSpentLocked toMark u
          in (True, map snd toSpend, add_outputs (GetHash tx) ht cb 0 (mOutputs tx) u))"

definition replay_leaf ::
  "bytes32 \<Rightarrow> u32 \<Rightarrow> NoiseLeafKey list \<times> UTXOSet \<Rightarrow> bool \<times> (NoiseLeafKey list \<times> UTXOSet)" where
  "replay_leaf kps idx = (\<lambda>(seenLeaves, u).
     let leafKey = NoiseLeafKey kps idx
     in if leafKey \<in> set seenLeaves then (False, seenLeaves, u)
        else (True, List.insert leafKey seenLeaves, MarkNoiseLeafSpentLocked leafKey u))"

fun replay_inputs :: "TxInput list \<Rightarrow> NoiseLeafKey list \<Rightarrow> UTXOSet \<Rightarrow> bool \<times> UTXOSet" where
  "replay_inputs [] seenLeaves u = (True, u)"
| "replay_inputs (input # inputs) seenLeaves u =
     (let u = SpendCoinIfPresentLocked (input_outpoint input) u in
      if mNoiseProof input = [] then replay_inputs inputs seenLeaves u
      else (case proof_loop (replay_leaf (mKps input)) (mNoiseProof input) 0 (seenLeaves, u) of
          (False, _, u) \<Rightarrow> (False, u)
        | (True, seenLeaves, u) \<Rightarrow> replay_inputs inputs seenLeaves u))"

fun replay_outputs :: "bytes32 \<Rightarrow> u32 \<Rightarrow> bool \<Rightarrow> nat \<Rightarrow> TxOutput list \<Rightarrow> UTXOSet \<Rightarrow> UTXOSet" where
  "replay_outputs txHash ht cb i [] u = u"
| "replay_outputs txHash ht cb i (out # outs) u =
     replay_outputs txHash ht cb (i + 1) outs (case output_coin ht cb out of
       None \<Rightarrow> u
     | Some coin \<Rightarrow> AddCoinOverwriteLocked (OutPoint txHash (of_nat i)) coin u)"

definition ApplyTransactionForReplay :: "Transaction \<Rightarrow> u32 \<Rightarrow> bool \<Rightarrow> UTXOSet \<Rightarrow> bool \<times> UTXOSet" where
  "ApplyTransactionForReplay tx ht cb u =
     (case (if \<not> cb then replay_inputs (mInputs tx) [] u else (True, u)) of
        (False, u) \<Rightarrow> (False, u)
      | (True, u) \<Rightarrow> (True, replay_outputs (GetHash tx) ht cb 0 (mOutputs tx) u))"

definition undo_output :: "bytes32 \<Rightarrow> nat \<Rightarrow> UTXOSet \<Rightarrow> UTXOSet" where
  "undo_output txHash i u =
     (let outpoint = OutPoint txHash (of_nat i)
      in u\<lparr>uCache := AList.delete outpoint (uCache u),
           uDB := DBWrapper_Erase (OutPoint_image outpoint) (uDB u)\<rparr>)"

fun undo_inputs :: "TxInput list \<Rightarrow> Coin list \<Rightarrow> UTXOSet \<Rightarrow> bool \<times> UTXOSet" where
  "undo_inputs (input # inputs) (coin # coins) u =
     (let u = cache_put (input_outpoint input) (mk_UTXOEntry (coin\<lparr>cIsSpent := False\<rparr>) True False) u in
      if mNoiseProof input \<noteq> [] then
        (case proof_loop (\<lambda>idx u. (True, UnmarkNoiseLeafSpentLocked (NoiseLeafKey (mKps input) idx) u))
                (mNoiseProof input) 0 u of
           (False, u) \<Rightarrow> (False, u)
         | (True, u) \<Rightarrow> undo_inputs inputs coins u)
      else undo_inputs inputs coins u)"
| "undo_inputs _ _ u = (True, u)"

definition UndoTransaction :: "Transaction \<Rightarrow> Coin list \<Rightarrow> UTXOSet \<Rightarrow> bool \<times> UTXOSet" where
  "UndoTransaction tx spentCoins u =
     (let u = fold (undo_output (GetHash tx)) [0..<length (mOutputs tx)] u
      in if \<not> IsCoinbase tx then
           if length spentCoins \<noteq> length (mInputs tx) then (False, u)
           else undo_inputs (mInputs tx) spentCoins u
         else (True, u))"

section \<open>Writing the cache back\<close>

definition ReadHeadBlocksLocked :: "UTXOSet \<Rightarrow> (bytes32 \<times> bytes32) option" where
  "ReadHeadBlocksLocked u = (case DBWrapper_Read get_vector DB_UTXO_HEADS (uDB u) of
     None \<Rightarrow> None
   | Some heads \<Rightarrow> if length heads \<noteq> 64 then None else Some (take 32 heads, take 32 (drop 32 heads)))"

definition flush_old_tip :: "UTXOSet \<Rightarrow> bytes32" where
  "flush_old_tip u = (case DBWrapper_Read (get_raw 32) DB_UTXO_BEST (uDB u) of
     Some oldTip \<Rightarrow> oldTip
   | None \<Rightarrow> (case ReadHeadBlocksLocked u of Some (markedNew, markedOld) \<Rightarrow> markedOld | None \<Rightarrow> zero32))"

definition flush_coin :: "byte list \<Rightarrow> OutPoint \<times> UTXOEntry \<Rightarrow> DBBatch list \<times> DBBatch \<times> nat \<Rightarrow> DBBatch list \<times> DBBatch \<times> nat" where
  "flush_coin obf = (\<lambda>(outpoint, e) (written, batch, batchSize).
     if \<not> eIsDirty e then (written, batch, batchSize)
     else let coin = eCoin e;
              batch = (if cIsSpent coin then DBBatch_Erase (OutPoint_image outpoint) batch
                       else DBBatch_Write obf (OutPoint_image outpoint) (Coin_image coin) batch);
              batchSize = batchSize + (sizeof_Coin + sizeof_OutPoint)
          in if batchSize \<ge> MAX_BATCH_SIZE then (written @ [batch], DBBatch_init, 0)
             else (written, batch, batchSize))"

definition leaf_db_key :: "NoiseLeafKey \<Rightarrow> byte list" where
  "leaf_db_key leaf = string_bytes (MakeNoiseLeafDBKey (lk_kps leaf) (lk_leafIndex leaf))"

text \<open>The batches \<open>FlushCache\<close> hands to \<open>WriteBatch\<close>, in order.\<close>

definition flush_batches :: "bytes32 \<Rightarrow> UTXOSet \<Rightarrow> DBBatch list" where
  "flush_batches bestBlock u =
     (let obf = mObfuscateKey (uDB u);
          heads = bestBlock @ flush_old_tip u;
          first = DBBatch_Write obf DB_UTXO_HEADS (vector_bytes heads) (DBBatch_Erase DB_UTXO_BEST DBBatch_init);
          (written, batch, batchSize) = fold (flush_coin obf) (uCache u) ([], DBBatch_init, 0);
          batch = fold (\<lambda>leaf. DBBatch_Write obf (leaf_db_key leaf) [1]) (uSpentLeafDirty u) batch;
          batch = fold (\<lambda>leaf. DBBatch_Erase (leaf_db_key leaf)) (uErasedLeafDirty u) batch;
          batch = DBBatch_Write obf DB_UTXO_BEST bestBlock (DBBatch_Erase DB_UTXO_HEADS batch)
      in first # written @ [batch])"

definition FlushCache :: "bytes32 \<Rightarrow> UTXOSet \<Rightarrow> UTXOSet" where
  "FlushCache bestBlock u =
     u\<lparr>uDB := fold DBWrapper_WriteBatch (flush_batches bestBlock u) (uDB u),
       uSpentLeafDirty := [], uErasedLeafDirty := [],
       uCache := filter (\<lambda>(outpoint, e). \<not> cIsSpent (eCoin e))
         (map (\<lambda>(outpoint, e). (outpoint, e\<lparr>eIsDirty := False\<rparr>)) (uCache u)),
       uBestBlock := bestBlock\<rparr>"

definition Flush :: "UTXOSet \<Rightarrow> UTXOSet" where
  "Flush u = FlushCache (uBestBlock u) u"

definition Sync :: "UTXOSet \<Rightarrow> UTXOSet" where
  "Sync u = (let u = FlushCache (uBestBlock u) u in u\<lparr>uDB := DBWrapper_Sync (uDB u)\<rparr>)"

definition SetBestBlock :: "bytes32 \<Rightarrow> UTXOSet \<Rightarrow> UTXOSet" where
  "SetBestBlock blockHash u = u\<lparr>uBestBlock := blockHash\<rparr>"

definition Clear :: "UTXOSet \<Rightarrow> UTXOSet" where
  "Clear u = u\<lparr>uCache := [], uSpentLeafCache := [], uSpentLeafDirty := [], uErasedLeafDirty := [],
     uBestBlock := zero32\<rparr>"

section \<open>Queries\<close>

text \<open>The database scan shared by the balance and the listings; the iterator skips foreign keys.\<close>

definition scan_entry :: "DBWrapper \<Rightarrow> byte list \<times> byte list \<Rightarrow> (OutPoint \<times> Coin) option" where
  "scan_entry db kv = (case DBIterator_GetKey sizeof_OutPoint get_OutPoint (fst kv) of
     None \<Rightarrow> None
   | Some outpoint \<Rightarrow> (case DBIterator_GetValue get_Coin db (snd kv) of
       None \<Rightarrow> None
     | Some coin \<Rightarrow> Some (outpoint, coin)))"

definition db_scan :: "DBWrapper \<Rightarrow> (OutPoint \<times> Coin) list" where
  "db_scan db = List.map_filter (scan_entry db) (mKV db)"

definition GetBalance :: "bytes32 \<Rightarrow> UTXOSet \<Rightarrow> int" where
  "GetBalance pubkeyHash u =
     (let balance = fold (\<lambda>(outpoint, e) balance.
            if \<not> cIsSpent (eCoin e) \<and> cPubkeyHash (eCoin e) = pubkeyHash then balance + cValue (eCoin e) else balance)
            (uCache u) 0
      in fold (\<lambda>(outpoint, coin) balance.
           if \<not> cIsSpent coin \<and> cPubkeyHash coin = pubkeyHash then
             if map_of (uCache u) outpoint = None then balance + cValue coin else balance
           else balance) (db_scan (uDB u)) balance)"

definition GetUTXOsForAddresses :: "bytes32 set \<Rightarrow> UTXOSet \<Rightarrow> (OutPoint \<times> Coin) list" where
  "GetUTXOsForAddresses pubkeyHashes u =
     (if pubkeyHashes = {} then []
      else List.map_filter (\<lambda>(outpoint, e).
             if \<not> cIsSpent (eCoin e) \<and> cPubkeyHash (eCoin e) \<in> pubkeyHashes then Some (outpoint, eCoin e) else None)
             (uCache u)
         @ filter (\<lambda>(outpoint, coin).
             \<not> cIsSpent coin \<and> cPubkeyHash coin \<in> pubkeyHashes \<and> map_of (uCache u) outpoint = None) (db_scan (uDB u)))"

definition GetUTXOsForAddress :: "bytes32 \<Rightarrow> UTXOSet \<Rightarrow> (OutPoint \<times> Coin) list" where
  "GetUTXOsForAddress pubkeyHash u =
     List.map_filter (\<lambda>(outpoint, e).
       if \<not> cIsSpent (eCoin e) \<and> cPubkeyHash (eCoin e) = pubkeyHash then Some (outpoint, eCoin e) else None)
       (uCache u)
     @ filter (\<lambda>(outpoint, coin).
         \<not> cIsSpent coin \<and> cPubkeyHash coin = pubkeyHash \<and> map_of (uCache u) outpoint = None) (db_scan (uDB u))"

definition consider_leaf :: "UTXOSet \<Rightarrow> bytes32 \<Rightarrow> u32 \<Rightarrow> u32 option \<Rightarrow> u32 option" where
  "consider_leaf u kps idx highest =
     (if NoiseLeafKey kps idx \<in> set (uErasedLeafDirty u) then highest
      else (case highest of None \<Rightarrow> Some idx | Some h \<Rightarrow> if idx > h then Some idx else highest))"

fun highest_scan :: "nat \<Rightarrow> UTXOSet \<Rightarrow> bytes32 \<Rightarrow> leveldb \<Rightarrow> u32 option \<Rightarrow> u32 option" where
  "highest_scan sizeof_string u kps [] highest = highest"
| "highest_scan sizeof_string u kps ((k, v) # rest) highest =
     (case DBIterator_GetKey sizeof_string get_string k of
        None \<Rightarrow> highest
      | Some key \<Rightarrow>
          if length key \<noteq> 1 + 32 + 4 then highest
          else if take (1 + 32) key \<noteq> take (1 + 32) (MakeNoiseLeafDBKey kps 0) then highest
          else let idx = fold (\<lambda>b idx. push_bit 8 idx OR ucast (key ! (1 + 32 + b))) [3, 2, 1, 0] (0 :: u32)
               in highest_scan sizeof_string u kps rest (consider_leaf u kps idx highest))"

text \<open>\<open>sizeof_string\<close> is \<open>sizeof(std::string)\<close> on the platform, 32 with libstdc++.\<close>

definition GetHighestSpentNoiseLeaf :: "nat \<Rightarrow> bytes32 \<Rightarrow> UTXOSet \<Rightarrow> u32 option" where
  "GetHighestSpentNoiseLeaf sizeof_string kps u =
     (let highest = fold (\<lambda>key highest. if lk_kps key = kps then consider_leaf u kps (lk_leafIndex key) highest else highest)
            (uSpentLeafCache u) None
      in highest_scan sizeof_string u kps (ldb_Seek (string_bytes (MakeNoiseLeafDBKey kps 0)) (mKV (uDB u))) highest)"

definition CheckIntegrity :: "UTXOSet \<Rightarrow> bool" where
  "CheckIntegrity u \<longleftrightarrow> list_all (\<lambda>(outpoint, e). \<not> cValue (eCoin e) < 0 \<and> \<not> cValue (eCoin e) > MAX_MONEY) (uCache u)"

section \<open>Database records round-trip\<close>

definition wf_Coin :: "Coin \<Rightarrow> bool" where
  "wf_Coin c \<longleftrightarrow> - (2 ^ 63) \<le> cValue c \<and> cValue c < 2 ^ 63 \<and> is_bytes32 (cPubkeyHash c)"

abbreviation wf_outpoint :: "OutPoint \<Rightarrow> bool" where
  "wf_outpoint outpoint \<equiv> is_bytes32 (op_txHash outpoint)"

abbreviation wf_leaf :: "NoiseLeafKey \<Rightarrow> bool" where
  "wf_leaf leaf \<equiv> is_bytes32 (lk_kps leaf)"

lemma OutPoint_image_inj: "OutPoint_image a = OutPoint_image b \<longleftrightarrow> a = b"
proof
  assume e: "OutPoint_image a = OutPoint_image b"
  then have l: "length (op_txHash a) = length (op_txHash b)"
    by (metis OutPoint_image_def add_right_cancel length_WriteLE32 length_append)
  then have "op_txHash a = op_txHash b" "WriteLE32 (op_index a) = WriteLE32 (op_index b)"
    using e by (simp_all add: OutPoint_image_def)
  moreover from this(2) have "op_index a = op_index b" by (metis Pair_inject ReadLE32_write sum.inject(2))
  ultimately show "a = b" by (simp add: OutPoint.expand)
qed simp

lemma OutPoint_image_length: "wf_outpoint a \<Longrightarrow> length (OutPoint_image a) = 36"
  by (simp add: OutPoint_image_def)

interpretation outpoint_key: record_codec OutPoint_image get_OutPoint wf_outpoint
proof unfold_locales
  fix outpoint :: OutPoint assume wf: "wf_outpoint outpoint"
  have a: "at_off (OutPoint_image outpoint) 0 (op_txHash outpoint @ WriteLE32 (op_index outpoint) @ [])"
    by (simp add: at_off_def OutPoint_image_def)
  note a1 = at_off_step [OF a wf]
  show "\<exists>s. get_OutPoint \<lparr>mData = OutPoint_image outpoint, mReadPos = 0\<rparr> = Inr (outpoint, s)"
    using rd_bytes_at [OF a wf] ReadLE32_at [OF a1] OutPoint_image_length [OF wf]
    by (simp add: get_OutPoint_def get_raw_def ReadRaw_def sizeof_OutPoint_def)
qed

lemma sint_of_int64: "- (2 ^ 63) \<le> v \<Longrightarrow> v < 2 ^ 63 \<Longrightarrow> sint (of_int v :: u64) = v"
  by (simp add: sint_sbintrunc' signed_take_bit_int_eq_self)

lemma Coin_image_length: "wf_Coin c \<Longrightarrow> length (Coin_image c) = 48"
  by (simp add: Coin_image_def wf_Coin_def)

interpretation coin_value: record_codec Coin_image get_Coin wf_Coin
proof unfold_locales
  fix c :: Coin assume wf: "wf_Coin c"
  then have p: "length (cPubkeyHash c) = 32" by (simp add: wf_Coin_def)
  have v: "sint (of_int (cValue c) :: u64) = cValue c" using wf by (simp add: wf_Coin_def sint_of_int64)
  have a: "at_off (Coin_image c) 0 (WriteLE64 (of_int (cValue c)) @ cPubkeyHash c @ WriteLE32 (cHeight c) @
     bool_byte (cIsCoinbase c) # bool_byte (cIsSpent c) # [0, 0])"
    by (simp add: at_off_def Coin_image_def)
  note a1 = at_off_step [OF a length_WriteLE64] note a2 = at_off_step [OF a1 p]
  note a3 = at_off_step [OF a2 length_WriteLE32]
  have "rd8 (Coin_image c) 44 = Inr (bool_byte (cIsCoinbase c))"
    "rd8 (Coin_image c) 45 = Inr (bool_byte (cIsSpent c))"
    using rd8_here [OF a3] rd8_here [OF at_off_Cons [OF a3]] by simp_all
  then show "\<exists>s. get_Coin \<lparr>mData = Coin_image c, mReadPos = 0\<rparr> = Inr (c, s)"
    using ReadLE64_at [OF a] rd_bytes_at [OF a1 p] ReadLE32_at [OF a2] Coin_image_length [OF wf] v
    by (simp add: get_Coin_def get_raw_def ReadRaw_def sizeof_Coin_def bool_byte_def)
qed

end
