(* ===== verification/Utxo_Ledger.thy ===== *)
theory Utxo_Ledger
  imports Utxo_Set
begin

text \<open>
  What the UTXO set promises: an abstract ledger, a map from outpoints to coins with the set
  of consumed noise leaves, that \<open>ApplyTransaction\<close> and \<open>UndoTransaction\<close> implement through
  the cache and the database. The client lemmas (undo inverts apply, single use of leaves)
  are proved once from that contract.
\<close>

section \<open>Proof lists\<close>

function idx_list :: "byte list \<Rightarrow> nat \<Rightarrow> bool \<times> u32 list" where
  "idx_list data offset =
     (if offset < length data then
        (case NoiseProof_Deserialize data offset of
           Inl _ \<Rightarrow> (False, [])
         | Inr (p, offset') \<Rightarrow> (case idx_list data offset' of (ok, is) \<Rightarrow> (ok, leafIndex p # is)))
      else (True, []))"
  by pat_completeness auto

termination idx_list
  by (relation "measure (\<lambda>(data, offset). length data - offset)") (auto dest!: NoiseProof_Deserialize_bounds)

declare idx_list.simps [simp del]

lemma idx_list_Nil [simp]: "idx_list [] offset = (True, [])"
  by (subst idx_list.simps) simp

fun run_body :: "(u32 \<Rightarrow> 's \<Rightarrow> bool \<times> 's) \<Rightarrow> u32 list \<Rightarrow> 's \<Rightarrow> bool \<times> 's" where
  "run_body body [] s = (True, s)"
| "run_body body (i # is) s = (case body i s of (False, s') \<Rightarrow> (False, s') | (True, s') \<Rightarrow> run_body body is s')"

lemma proof_loop_run:
  "proof_loop body data offset s =
     (case run_body body (snd (idx_list data offset)) s of
        (False, s') \<Rightarrow> (False, s')
      | (True, s') \<Rightarrow> (fst (idx_list data offset), s'))"
proof (induction body data offset s rule: proof_loop.induct)
  case (1 body data offset s)
  show ?case
  proof (cases "offset < length data")
    case True
    show ?thesis
    proof (cases "NoiseProof_Deserialize data offset")
      case (Inl e)
      with True show ?thesis by (simp add: proof_loop.simps [of _ _ offset] idx_list.simps [of _ offset])
    next
      case (Inr r)
      obtain p offset' where r: "r = (p, offset')" by (cases r)
      obtain ok s' where b: "body (leafIndex p) s = (ok, s')" by (cases "body (leafIndex p) s")
      have "proof_loop body data offset' s' =
         (case run_body body (snd (idx_list data offset')) s' of
            (False, s') \<Rightarrow> (False, s')
          | (True, s') \<Rightarrow> (fst (idx_list data offset'), s'))" if ok
        using 1 [OF True Inr [unfolded r] refl b [symmetric]] that by simp
      moreover have "idx_list data offset = (fst (idx_list data offset'), leafIndex p # snd (idx_list data offset'))"
        using True Inr r by (subst idx_list.simps) (simp add: case_prod_beta)
      ultimately show ?thesis
        using True Inr r b
        by (cases ok) (simp_all only: proof_loop.simps [of _ _ offset] if_True sum.case prod.case fst_conv snd_conv
            run_body.simps bool.case)
    qed
  qed (simp add: proof_loop.simps idx_list.simps)
qed

definition leaf_keys :: "TxInput \<Rightarrow> NoiseLeafKey list" where
  "leaf_keys input = map (NoiseLeafKey (mKps input)) (snd (idx_list (mNoiseProof input) 0))"

definition proofs_parse :: "TxInput \<Rightarrow> bool" where
  "proofs_parse input \<longleftrightarrow> fst (idx_list (mNoiseProof input) 0)"

definition tx_leaf_keys :: "Transaction \<Rightarrow> NoiseLeafKey list" where
  "tx_leaf_keys tx = concat (map leaf_keys (mInputs tx))"

section \<open>The abstract ledger\<close>

type_synonym coin_map = "OutPoint \<rightharpoonup> Coin"

fun created_coins :: "bytes32 \<Rightarrow> u32 \<Rightarrow> bool \<Rightarrow> nat \<Rightarrow> TxOutput list \<Rightarrow> (OutPoint \<times> Coin) list" where
  "created_coins txHash ht cb i [] = []"
| "created_coins txHash ht cb i (out # outs) =
     (case output_coin ht cb out of None \<Rightarrow> [] | Some coin \<Rightarrow> [(OutPoint txHash (of_nat i), coin)])
     @ created_coins txHash ht cb (i + 1) outs"

definition created :: "Transaction \<Rightarrow> u32 \<Rightarrow> bool \<Rightarrow> coin_map" where
  "created tx ht cb = map_of (rev (created_coins (GetHash tx) ht cb 0 (mOutputs tx)))"

definition spends :: "Transaction \<Rightarrow> OutPoint set" where
  "spends tx = input_outpoint ` set (mInputs tx)"

definition outpoints_of :: "Transaction \<Rightarrow> OutPoint set" where
  "outpoints_of tx = (\<lambda>i. OutPoint (GetHash tx) (of_nat i)) ` {0..<length (mOutputs tx)}"

definition ledger_apply ::
  "Transaction \<Rightarrow> u32 \<Rightarrow> bool \<Rightarrow> coin_map \<Rightarrow> NoiseLeafKey set \<Rightarrow> (Coin list \<times> coin_map \<times> NoiseLeafKey set) option" where
  "ledger_apply tx ht cb m L =
     (if cb then Some ([], m ++ created tx ht cb, L)
      else if (\<forall>i \<in> set (mInputs tx). m (input_outpoint i) \<noteq> None \<and> mNoiseProof i \<noteq> [] \<and> proofs_parse i) \<and>
              distinct (tx_leaf_keys tx) \<and> set (tx_leaf_keys tx) \<inter> L = {}
      then Some (map (\<lambda>i. the (m (input_outpoint i))) (mInputs tx),
                 (m |` (- spends tx)) ++ created tx ht cb,
                 L \<union> set (tx_leaf_keys tx))
      else None)"

definition ledger_undo :: "Transaction \<Rightarrow> Coin list \<Rightarrow> coin_map \<Rightarrow> NoiseLeafKey set \<Rightarrow> coin_map \<times> NoiseLeafKey set" where
  "ledger_undo tx spent m L =
     (if IsCoinbase tx then (m |` (- outpoints_of tx), L)
      else ((m |` (- outpoints_of tx)) ++ map_of (rev (zip (map input_outpoint (mInputs tx)) spent)),
            L - set (tx_leaf_keys tx)))"

section \<open>The views of a UTXO set and its invariant\<close>

definition coin_view :: "UTXOSet \<Rightarrow> coin_map" where
  "coin_view u outpoint = (if wf_outpoint outpoint then GetCoin outpoint u else None)"

definition leaf_view :: "UTXOSet \<Rightarrow> NoiseLeafKey set" where
  "leaf_view u = {leaf. wf_leaf leaf \<and> IsNoiseLeafSpentLocked leaf u}"

text \<open>
  A clean entry mirrors the database; the database holds unspent coins only; a leaf waiting
  to be written is in the leaf cache, every other cached leaf is in the database, and no
  cached leaf waits to be erased.
\<close>

definition entry_wf :: "DBWrapper \<Rightarrow> OutPoint \<Rightarrow> UTXOEntry \<Rightarrow> bool" where
  "entry_wf db outpoint e \<longleftrightarrow> wf_outpoint outpoint \<and> wf_Coin (eCoin e) \<and>
     (\<not> eIsDirty e \<longrightarrow> \<not> cIsSpent (eCoin e) \<and> db_coin db outpoint = Some (eCoin e))"

definition utxo_inv :: "UTXOSet \<Rightarrow> bool" where
  "utxo_inv u \<longleftrightarrow>
     distinct (map fst (uCache u)) \<and>
     (\<forall>outpoint e. map_of (uCache u) outpoint = Some e \<longrightarrow> entry_wf (uDB u) outpoint e) \<and>
     (\<forall>outpoint c. wf_outpoint outpoint \<longrightarrow> db_coin (uDB u) outpoint = Some c \<longrightarrow> \<not> cIsSpent c) \<and>
     set (uSpentLeafDirty u) \<subseteq> set (uSpentLeafCache u) \<and>
     set (uErasedLeafDirty u) \<inter> set (uSpentLeafCache u) = {} \<and>
     (\<forall>leaf \<in> set (uSpentLeafCache u) \<union> set (uErasedLeafDirty u). wf_leaf leaf) \<and>
     (\<forall>leaf \<in> set (uSpentLeafCache u) - set (uSpentLeafDirty u). db_leaf (uDB u) leaf)"

lemma db_coin_wf: "db_coin db outpoint = Some c \<Longrightarrow> wf_Coin c"
proof -
  assume "db_coin db outpoint = Some c"
  then obtain bytes where "decode get_Coin bytes = Some c"
    by (auto simp: db_coin_def DBWrapper_Read_plain bind_eq_Some_conv)
  then obtain s where "get_Coin \<lparr>mData = bytes, mReadPos = 0\<rparr> = Inr (c, s)"
    unfolding decode_def by (cases "get_Coin \<lparr>mData = bytes, mReadPos = 0\<rparr>") auto
  then obtain v :: u64 and h where "cValue c = sint v" "cPubkeyHash c = h" "length h = 32"
    by (auto simp: get_Coin_def rbind_eq_Inr_iff dest!: rd_bytes_length)
  then show ?thesis
    using sint_ge [of v] sint_lt [of v] by (simp add: wf_Coin_def)
qed

lemma GetCoin_wf: "utxo_inv u \<Longrightarrow> GetCoin outpoint u = Some c \<Longrightarrow> wf_Coin c \<and> \<not> cIsSpent c"
  by (auto simp: GetCoin_def utxo_inv_def entry_wf_def db_coin_wf split: option.splits if_splits)

lemma GetCoinLocked_GetCoin: "GetCoinLocked outpoint u = GetCoin outpoint u"
  by (simp add: GetCoinLocked_def GetCoin_def)

lemma HaveCoin_GetCoin: "HaveCoin outpoint u \<longleftrightarrow> GetCoin outpoint u \<noteq> None"
  by (auto simp: HaveCoin_def GetCoin_def split: option.splits)

section \<open>One cache entry\<close>

named_theorems view_simps \<open>coin and leaf views of the updated set\<close>
named_theorems inv_intros \<open>preservation of the UTXO invariant\<close>

lemma cache_put_coins [view_simps]:
  "wf_outpoint outpoint \<Longrightarrow> coin_view (cache_put outpoint e u) =
     (coin_view u)(outpoint := (if cIsSpent (eCoin e) then None else Some (eCoin e)))"
  by (rule ext) (simp add: coin_view_def GetCoin_def cache_put_def update_conv' split: option.splits)

lemma cache_put_leaves [view_simps]: "leaf_view (cache_put outpoint e u) = leaf_view u"
  by (simp add: leaf_view_def IsNoiseLeafSpentLocked_def cache_put_def)

lemma cache_put_inv [inv_intros]:
  "utxo_inv u \<Longrightarrow> wf_outpoint outpoint \<Longrightarrow> wf_Coin (eCoin e) \<Longrightarrow> eIsDirty e \<Longrightarrow> utxo_inv (cache_put outpoint e u)"
  by (auto simp: utxo_inv_def cache_put_def update_conv' entry_wf_def distinct_update)

lemma cache_entry_wf: "utxo_inv u \<Longrightarrow> map_of (uCache u) outpoint = Some e \<Longrightarrow> wf_outpoint outpoint \<and> wf_Coin (eCoin e)"
  by (simp add: utxo_inv_def entry_wf_def)

lemma wf_Coin_spent [simp]: "wf_Coin (c\<lparr>cIsSpent := b\<rparr>) = wf_Coin c"
  by (simp add: wf_Coin_def)

lemma SpendCoin_refines:
  assumes "utxo_inv u" and "wf_outpoint outpoint" and "SpendCoin outpoint u = (ok, u')"
  shows "ok = (coin_view u outpoint \<noteq> None) \<and> coin_view u' = (coin_view u)(outpoint := None) \<and>
    leaf_view u' = leaf_view u \<and> utxo_inv u'"
proof -
  have n: "(coin_view u)(outpoint := None) = coin_view u" if "coin_view u outpoint = None"
    using that by (simp add: fun_upd_idem)
  show ?thesis
    using assms n cache_entry_wf [OF assms(1)] db_coin_wf
    by (auto simp: SpendCoin_def coin_view_def [of u outpoint] GetCoin_def view_simps mark_spent_def mk_UTXOEntry_def
        split: option.splits if_splits intro!: inv_intros)
qed

lemma AddCoin_refines:
  assumes "utxo_inv u" and "wf_outpoint outpoint" and "wf_Coin coin" and "\<not> cIsSpent coin"
    and "AddCoin outpoint coin u = (ok, u')"
  shows "ok = (coin_view u outpoint = None) \<and>
    coin_view u' = (if ok then (coin_view u)(outpoint \<mapsto> coin) else coin_view u) \<and>
    leaf_view u' = leaf_view u \<and> utxo_inv u'"
  using assms
  by (auto simp: AddCoin_def coin_view_def [of u outpoint] GetCoin_def view_simps mk_UTXOEntry_def
      split: option.splits if_splits intro!: inv_intros)

lemma SpendIfPresent_refines:
  assumes "utxo_inv u" and "wf_outpoint outpoint"
  shows "coin_view (SpendCoinIfPresentLocked outpoint u) = (coin_view u)(outpoint := None) \<and>
    leaf_view (SpendCoinIfPresentLocked outpoint u) = leaf_view u \<and>
    utxo_inv (SpendCoinIfPresentLocked outpoint u)"
proof -
  have "SpendCoinIfPresentLocked outpoint u = snd (SpendCoin outpoint u)"
    by (simp add: SpendCoinIfPresentLocked_def SpendCoin_def split: option.splits)
  then show ?thesis
    using SpendCoin_refines [OF assms, of "fst (SpendCoin outpoint u)" "snd (SpendCoin outpoint u)"] by simp
qed

section \<open>One leaf\<close>

lemma Mark_coins [view_simps]: "coin_view (MarkNoiseLeafSpentLocked leaf u) = coin_view u"
  by (rule ext) (simp add: coin_view_def GetCoin_def MarkNoiseLeafSpentLocked_def split: option.splits)

lemma Mark_leaves [view_simps]: "wf_leaf leaf \<Longrightarrow> leaf_view (MarkNoiseLeafSpentLocked leaf u) = insert leaf (leaf_view u)"
  by (auto simp: leaf_view_def IsNoiseLeafSpentLocked_def MarkNoiseLeafSpentLocked_def)

lemma Mark_inv [inv_intros]: "utxo_inv u \<Longrightarrow> wf_leaf leaf \<Longrightarrow> utxo_inv (MarkNoiseLeafSpentLocked leaf u)"
  by (auto simp: utxo_inv_def MarkNoiseLeafSpentLocked_def)

lemma Unmark_coins [view_simps]: "coin_view (UnmarkNoiseLeafSpentLocked leaf u) = coin_view u"
  by (rule ext) (simp add: coin_view_def GetCoin_def UnmarkNoiseLeafSpentLocked_def split: option.splits)

lemma Unmark_leaves [view_simps]: "leaf_view (UnmarkNoiseLeafSpentLocked leaf u) = leaf_view u - {leaf}"
  by (auto simp: leaf_view_def IsNoiseLeafSpentLocked_def UnmarkNoiseLeafSpentLocked_def)

lemma Unmark_inv [inv_intros]: "utxo_inv u \<Longrightarrow> wf_leaf leaf \<Longrightarrow> utxo_inv (UnmarkNoiseLeafSpentLocked leaf u)"
  by (auto simp: utxo_inv_def UnmarkNoiseLeafSpentLocked_def)

text \<open>Updating many keys at once.\<close>

lemma fold_map_upd: "fold (\<lambda>(k, v) m. m(k \<mapsto> v)) kvs m = m ++ map_of (rev kvs)"
proof (induction kvs arbitrary: m)
  case (Cons kv kvs)
  then show ?case by (cases kv) (simp del: fun_upd_apply)
qed simp

lemma fold_Mark:
  "\<forall>leaf \<in> set leaves. wf_leaf leaf \<Longrightarrow> utxo_inv u \<Longrightarrow>
   coin_view (fold MarkNoiseLeafSpentLocked leaves u) = coin_view u \<and>
   leaf_view (fold MarkNoiseLeafSpentLocked leaves u) = leaf_view u \<union> set leaves \<and>
   utxo_inv (fold MarkNoiseLeafSpentLocked leaves u)"
  by (induction leaves arbitrary: u) (auto simp: view_simps inv_intros)

lemma output_coin_wf:
  assumes "wf_TxOutput out" and "output_coin ht cb out = Some c"
  shows "wf_Coin c \<and> \<not> cIsSpent c"
  using assms
  by (auto simp: output_coin_def wf_Coin_def mk_Coin_def wf_TxOutput_def INT64_MAX_def ExtractPubkeyHash_def
      IsPayToPubkeyHash_def split: if_splits option.splits)

lemma add_outputs_refines:
  assumes "utxo_inv u" and "is_bytes32 txHash" and "\<forall>out \<in> set outs. wf_TxOutput out"
  shows "coin_view (add_outputs txHash ht cb i outs u) = coin_view u ++ map_of (rev (created_coins txHash ht cb i outs)) \<and>
    leaf_view (add_outputs txHash ht cb i outs u) = leaf_view u \<and> utxo_inv (add_outputs txHash ht cb i outs u)"
  using assms
proof (induction outs arbitrary: i u)
  case (Cons out outs)
  show ?case
  proof (cases "output_coin ht cb out")
    case (Some c)
    define u' where "u' = cache_put (OutPoint txHash (of_nat i)) (mk_UTXOEntry c True True) u"
    have c: "wf_Coin c" "\<not> cIsSpent c" using output_coin_wf [OF _ Some] Cons.prems by auto
    have "utxo_inv u'" "coin_view u' = (coin_view u)(OutPoint txHash (of_nat i) \<mapsto> c)" "leaf_view u' = leaf_view u"
      using Cons.prems c by (auto simp: u'_def view_simps mk_UTXOEntry_def intro!: inv_intros)
    then show ?thesis
      using Cons.IH [of u' "i + 1"] Cons.prems Some
      by (simp add: u'_def [symmetric] del: fun_upd_apply)
  qed (use Cons in simp)
qed simp

section \<open>Applying a transaction\<close>

lemma run_apply_leaf:
  "(fst (run_body (apply_leaf u kps) ixs (toMark, seen)) \<longleftrightarrow>
      distinct (map (NoiseLeafKey kps) ixs) \<and> set (map (NoiseLeafKey kps) ixs) \<inter> set seen = {} \<and>
      (\<forall>k \<in> set (map (NoiseLeafKey kps) ixs). \<not> IsNoiseLeafSpentLocked k u)) \<and>
    (fst (run_body (apply_leaf u kps) ixs (toMark, seen)) \<longrightarrow>
      (\<exists>seen'. snd (run_body (apply_leaf u kps) ixs (toMark, seen)) = (toMark @ map (NoiseLeafKey kps) ixs, seen') \<and>
         set seen' = set seen \<union> set (map (NoiseLeafKey kps) ixs)))"
proof (induction ixs arbitrary: toMark seen)
  case (Cons i ixs)
  let ?k = "NoiseLeafKey kps i"
  show ?case
  proof (cases "IsNoiseLeafSpentLocked ?k u \<or> ?k \<in> set seen")
    case False
    then have "run_body (apply_leaf u kps) (i # ixs) (toMark, seen) =
      run_body (apply_leaf u kps) ixs (toMark @ [?k], List.insert ?k seen)"
      by (simp add: apply_leaf_def Let_def)
    then show ?thesis
      using False Cons.IH [of "toMark @ [?k]" "List.insert ?k seen"] by auto
  qed (auto simp: apply_leaf_def Let_def)
qed simp

definition scan_ok :: "UTXOSet \<Rightarrow> TxInput list \<Rightarrow> NoiseLeafKey set \<Rightarrow> bool" where
  "scan_ok u inputs S \<longleftrightarrow>
     (\<forall>i \<in> set inputs. GetCoin (input_outpoint i) u \<noteq> None \<and> mNoiseProof i \<noteq> [] \<and> proofs_parse i) \<and>
     distinct (concat (map leaf_keys inputs)) \<and> set (concat (map leaf_keys inputs)) \<inter> S = {} \<and>
     (\<forall>k \<in> set (concat (map leaf_keys inputs)). \<not> IsNoiseLeafSpentLocked k u)"

lemma apply_scan_eq:
  "apply_scan u inputs toSpend toMark seen =
     (if scan_ok u inputs (set seen)
      then Some (toSpend @ map (\<lambda>i. (input_outpoint i, the (GetCoin (input_outpoint i) u))) inputs,
                 toMark @ concat (map leaf_keys inputs))
      else None)"
proof (induction inputs arbitrary: toSpend toMark seen)
  case (Cons i inputs)
  let ?r = "run_body (apply_leaf u (mKps i)) (snd (idx_list (mNoiseProof i) 0)) (toMark, seen)"
  note L = run_apply_leaf [of u "mKps i" "snd (idx_list (mNoiseProof i) 0)" toMark seen, folded leaf_keys_def]
  note G = GetCoin_def [of "input_outpoint i" u, symmetric]
  show ?case
  proof (cases "GetCoin (input_outpoint i) u \<noteq> None \<and> mNoiseProof i \<noteq> [] \<and> proofs_parse i \<and> fst ?r")
    case True
    then obtain c seen' where c: "GetCoin (input_outpoint i) u = Some c"
      and s: "?r = (True, toMark @ leaf_keys i, seen')" "set seen' = set seen \<union> set (leaf_keys i)"
      using L by (cases ?r) auto
    have "proof_loop (apply_leaf u (mKps i)) (mNoiseProof i) 0 (toMark, seen) = (True, toMark @ leaf_keys i, seen')"
      using True s(1) by (simp add: proof_loop_run proofs_parse_def)
    then have "apply_scan u (i # inputs) toSpend toMark seen =
      apply_scan u inputs (toSpend @ [(input_outpoint i, c)]) (toMark @ leaf_keys i) seen'"
      using True c by (simp add: Let_def G)
    moreover have "scan_ok u (i # inputs) (set seen) \<longleftrightarrow> scan_ok u inputs (set seen')"
      using True L s(2) by (auto simp: scan_ok_def)
    ultimately show ?thesis using Cons.IH c by simp
  next
    case False
    then have "\<not> scan_ok u (i # inputs) (set seen)" using L by (auto simp: scan_ok_def)
    moreover have "apply_scan u (i # inputs) toSpend toMark seen = None"
      using False by (cases ?r) (auto simp: Let_def G proof_loop_run proofs_parse_def split: option.splits bool.splits)
    ultimately show ?thesis by simp
  qed
qed (simp add: scan_ok_def)

lemma apply_spend_refines:
  assumes "utxo_inv u" and "wf_outpoint outpoint" and "wf_Coin c"
  shows "coin_view (apply_spend (outpoint, c) u) = (coin_view u)(outpoint := None) \<and>
    leaf_view (apply_spend (outpoint, c) u) = leaf_view u \<and> utxo_inv (apply_spend (outpoint, c) u)"
  using assms cache_entry_wf [OF assms(1)]
  by (auto simp: apply_spend_def view_simps mark_spent_def mk_UTXOEntry_def split: option.splits intro!: inv_intros)

lemma restrict_map_UNIV [simp]: "m |` UNIV = m"
  by (rule ext) simp

lemma restrict_map_drop: "(m(k := None)) |` (- A) = m |` (- insert k A)"
  by (rule ext) (simp add: restrict_map_def)

lemma fold_spend:
  "utxo_inv u \<Longrightarrow> \<forall>(outpoint, c) \<in> set ocs. wf_outpoint outpoint \<and> wf_Coin c \<Longrightarrow>
   coin_view (fold apply_spend ocs u) = coin_view u |` (- fst ` set ocs) \<and>
   leaf_view (fold apply_spend ocs u) = leaf_view u \<and> utxo_inv (fold apply_spend ocs u)"
proof (induction ocs arbitrary: u)
  case (Cons oc ocs)
  obtain outpoint c where oc: "oc = (outpoint, c)" by (cases oc)
  note S = apply_spend_refines [of u outpoint c]
  then show ?case using Cons oc by (simp add: restrict_map_drop del: fun_upd_apply restrict_fun_upd)
qed simp

lemma leaf_keys_wf: "wf_Transaction tx \<Longrightarrow> leaf \<in> set (tx_leaf_keys tx) \<Longrightarrow> wf_leaf leaf"
  by (auto simp: tx_leaf_keys_def leaf_keys_def wf_Transaction_def wf_TxInput_def)

lemma input_wf: "wf_Transaction tx \<Longrightarrow> i \<in> set (mInputs tx) \<Longrightarrow> wf_outpoint (input_outpoint i)"
  by (auto simp: input_outpoint_def wf_Transaction_def wf_TxInput_def)

lemma scan_ok_view:
  assumes "wf_Transaction tx"
  shows "scan_ok u (mInputs tx) {} \<longleftrightarrow>
    (\<forall>i \<in> set (mInputs tx). coin_view u (input_outpoint i) \<noteq> None \<and> mNoiseProof i \<noteq> [] \<and> proofs_parse i) \<and>
    distinct (tx_leaf_keys tx) \<and> set (tx_leaf_keys tx) \<inter> leaf_view u = {}"
proof -
  have "(\<forall>k \<in> set (tx_leaf_keys tx). \<not> IsNoiseLeafSpentLocked k u) \<longleftrightarrow> set (tx_leaf_keys tx) \<inter> leaf_view u = {}"
    using leaf_keys_wf [OF assms] by (auto simp: leaf_view_def)
  then show ?thesis
    using input_wf [OF assms] by (simp add: scan_ok_def tx_leaf_keys_def coin_view_def)
qed

lemma ApplyTransaction_refines:
  assumes inv: "utxo_inv u" and wf: "wf_Transaction tx"
  shows "case ledger_apply tx ht cb (coin_view u) (leaf_view u) of
      None \<Rightarrow> ApplyTransaction tx ht cb u = (False, [], u)
    | Some (spent, m, L) \<Rightarrow> \<exists>u'. ApplyTransaction tx ht cb u = (True, spent, u') \<and>
        coin_view u' = m \<and> leaf_view u' = L \<and> utxo_inv u'"
proof (cases "\<not> cb \<and> \<not> scan_ok u (mInputs tx) {}")
  case True
  then have "ledger_apply tx ht cb (coin_view u) (leaf_view u) = None"
    using scan_ok_view [OF wf, of u] by (auto simp: ledger_apply_def)
  with True show ?thesis by (simp add: ApplyTransaction_def apply_scan_eq)
next
  case False
  define sp where "sp = (if cb then [] else map (\<lambda>i. (input_outpoint i, the (GetCoin (input_outpoint i) u))) (mInputs tx))"
  define lv where "lv = (if cb then [] else tx_leaf_keys tx)"
  define u1 where "u1 = fold apply_spend sp u"
  define u2 where "u2 = fold MarkNoiseLeafSpentLocked lv u1"
  define u3 where "u3 = add_outputs (GetHash tx) ht cb 0 (mOutputs tx) u2"
  have ap: "ApplyTransaction tx ht cb u = (True, map snd sp, u3)"
    using False by (auto simp: ApplyTransaction_def apply_scan_eq sp_def lv_def u1_def u2_def u3_def tx_leaf_keys_def Let_def)
  have "\<forall>(outpoint, c) \<in> set sp. wf_outpoint outpoint \<and> wf_Coin c"
    using False GetCoin_wf [OF inv] input_wf [OF wf] by (auto simp: sp_def scan_ok_def)
  then have v1: "coin_view u1 = coin_view u |` (- fst ` set sp)" "leaf_view u1 = leaf_view u" "utxo_inv u1"
    using fold_spend [OF inv, of sp] by (simp_all add: u1_def)
  have v2: "coin_view u2 = coin_view u1" "leaf_view u2 = leaf_view u1 \<union> set lv" "utxo_inv u2"
    using fold_Mark [of lv, OF _ v1(3)] leaf_keys_wf [OF wf] by (auto simp: u2_def lv_def)
  have v3: "coin_view u3 = coin_view u2 ++ created tx ht cb" "leaf_view u3 = leaf_view u2" "utxo_inv u3"
    using add_outputs_refines [OF v2(3) length_GetHash [OF wf]] wf
    by (auto simp: u3_def created_def wf_Transaction_def)
  have "ledger_apply tx ht cb (coin_view u) (leaf_view u) = Some (map snd sp, coin_view u3, leaf_view u3)"
  proof (cases cb)
    case True
    then show ?thesis using v1 v2 v3 by (simp add: ledger_apply_def sp_def lv_def)
  next
    case nb: False
    have "fst ` set sp = spends tx" using nb by (simp add: sp_def spends_def image_image)
    moreover have "map snd sp = map (\<lambda>i. the (coin_view u (input_outpoint i))) (mInputs tx)"
      using nb input_wf [OF wf] by (simp add: sp_def coin_view_def)
    ultimately show ?thesis
      using nb False scan_ok_view [OF wf, of u] v1(1,2) v2(1,2) v3(1,2) by (simp add: ledger_apply_def lv_def)
  qed
  with ap v3(3) show ?thesis by auto
qed

section \<open>Undoing a transaction\<close>

lemma string_key_length: "wf_leaf leaf \<Longrightarrow> length (leaf_db_key leaf) = 41"
  by (simp add: leaf_db_key_def string_bytes_eq MakeNoiseLeafDBKey_def)

lemma db_coin_Erase: "db_coin (DBWrapper_Erase (OutPoint_image a) db) b = (if b = a then None else db_coin db b)"
  by (simp add: db_coin_def DBWrapper_Read_plain db_map.view_erase OutPoint_image_inj)

lemma db_leaf_Erase:
  "wf_outpoint a \<Longrightarrow> wf_leaf leaf \<Longrightarrow> db_leaf (DBWrapper_Erase (OutPoint_image a) db) leaf = db_leaf db leaf"
  using string_key_length [of leaf] OutPoint_image_length [of a]
  by (auto simp: db_leaf_def DBWrapper_Read_plain db_map.view_erase leaf_db_key_def)

lemma undo_output_refines:
  assumes inv: "utxo_inv u" and h: "is_bytes32 txHash"
  shows "coin_view (undo_output txHash i u) = (coin_view u)(OutPoint txHash (of_nat i) := None) \<and>
    leaf_view (undo_output txHash i u) = leaf_view u \<and> utxo_inv (undo_output txHash i u)"
proof (intro conjI)
  show "coin_view (undo_output txHash i u) = (coin_view u)(OutPoint txHash (of_nat i) := None)"
    by (rule ext) (simp add: coin_view_def GetCoin_def undo_output_def Let_def delete_conv' db_coin_Erase
      split: option.splits)
  show "leaf_view (undo_output txHash i u) = leaf_view u"
    using h by (auto simp: leaf_view_def IsNoiseLeafSpentLocked_def undo_output_def Let_def db_leaf_Erase)
  show "utxo_inv (undo_output txHash i u)"
    using inv h by (auto simp: utxo_inv_def undo_output_def Let_def delete_conv' db_coin_Erase entry_wf_def
      db_leaf_Erase distinct_delete split: if_splits)
qed

lemma fold_undo_output:
  "utxo_inv u \<Longrightarrow> is_bytes32 txHash \<Longrightarrow>
   coin_view (fold (undo_output txHash) ixs u) = coin_view u |` (- (\<lambda>i. OutPoint txHash (of_nat i)) ` set ixs) \<and>
   leaf_view (fold (undo_output txHash) ixs u) = leaf_view u \<and> utxo_inv (fold (undo_output txHash) ixs u)"
proof (induction ixs arbitrary: u)
  case (Cons i ixs)
  note S = undo_output_refines [OF Cons.prems, of i]
  then show ?case
    using Cons.IH [of "undo_output txHash i u"] Cons.prems by (simp add: restrict_map_drop del: fun_upd_apply restrict_fun_upd)
qed simp

lemma run_unmark:
  "run_body (\<lambda>idx u. (True, UnmarkNoiseLeafSpentLocked (NoiseLeafKey kps idx) u)) ixs u =
     (True, fold UnmarkNoiseLeafSpentLocked (map (NoiseLeafKey kps) ixs) u)"
  by (induction ixs arbitrary: u) auto

lemma fold_Unmark:
  "\<forall>leaf \<in> set leaves. wf_leaf leaf \<Longrightarrow> utxo_inv u \<Longrightarrow>
   coin_view (fold UnmarkNoiseLeafSpentLocked leaves u) = coin_view u \<and>
   leaf_view (fold UnmarkNoiseLeafSpentLocked leaves u) = leaf_view u - set leaves \<and>
   utxo_inv (fold UnmarkNoiseLeafSpentLocked leaves u)"
  by (induction leaves arbitrary: u) (auto simp: view_simps inv_intros)

lemma undo_inputs_refines:
  assumes "length coins = length inputs" and "utxo_inv u"
    and "\<forall>i \<in> set inputs. wf_TxInput i \<and> proofs_parse i" and "\<forall>c \<in> set coins. wf_Coin c \<and> \<not> cIsSpent c"
  shows "\<exists>u'. undo_inputs inputs coins u = (True, u') \<and>
    coin_view u' = coin_view u ++ map_of (rev (zip (map input_outpoint inputs) coins)) \<and>
    leaf_view u' = leaf_view u - set (concat (map leaf_keys inputs)) \<and> utxo_inv u'"
  using assms
proof (induction inputs coins arbitrary: u rule: list_induct2')
  case (4 i inputs c coins)
  define u1 where "u1 = cache_put (input_outpoint i) (mk_UTXOEntry (c\<lparr>cIsSpent := False\<rparr>) True False) u"
  define u2 where "u2 = fold UnmarkNoiseLeafSpentLocked (leaf_keys i) u1"
  have wf: "wf_outpoint (input_outpoint i)" "\<forall>k \<in> set (leaf_keys i). wf_leaf k"
    using 4 by (auto simp: wf_TxInput_def input_outpoint_def leaf_keys_def)
  have c: "c\<lparr>cIsSpent := False\<rparr> = c" using 4 by simp
  have v1: "coin_view u1 = (coin_view u)(input_outpoint i \<mapsto> c)" "leaf_view u1 = leaf_view u" "utxo_inv u1"
    using 4 wf by (auto simp: u1_def c view_simps mk_UTXOEntry_def intro!: inv_intros)
  have v2: "coin_view u2 = coin_view u1" "leaf_view u2 = leaf_view u - set (leaf_keys i)" "utxo_inv u2"
    using fold_Unmark [OF wf(2) v1(3)] v1(2) by (simp_all add: u2_def)
  have "undo_inputs (i # inputs) (c # coins) u = undo_inputs inputs coins u2"
  proof (cases "mNoiseProof i = []")
    case True
    then have "u2 = u1" by (simp add: u2_def leaf_keys_def idx_list_Nil)
    with True show ?thesis by (simp add: u1_def Let_def)
  next
    case False
    then show ?thesis
      using 4 by (simp add: u1_def u2_def Let_def proof_loop_run run_unmark leaf_keys_def proofs_parse_def)
  qed
  moreover obtain u' where u': "undo_inputs inputs coins u2 = (True, u')"
    "coin_view u' = coin_view u2 ++ map_of (rev (zip (map input_outpoint inputs) coins))"
    "leaf_view u' = leaf_view u2 - set (concat (map leaf_keys inputs))" "utxo_inv u'"
    using 4(1) [of u2] 4(2-) v2(3) by auto
  moreover have "coin_view u' = coin_view u ++ map_of (rev (zip (map input_outpoint (i # inputs)) (c # coins)))"
    unfolding u'(2) v2(1) v1(1) by (simp del: fun_upd_apply)
  moreover have "leaf_view u' = leaf_view u - set (concat (map leaf_keys (i # inputs)))"
    unfolding u'(3) v2(2) by auto
  ultimately show ?case by auto
qed simp_all

lemma UndoTransaction_refines:
  assumes inv: "utxo_inv u" and wf: "wf_Transaction tx"
    and sp: "\<not> IsCoinbase tx \<Longrightarrow> length spent = length (mInputs tx) \<and>
      (\<forall>i \<in> set (mInputs tx). proofs_parse i) \<and> (\<forall>c \<in> set spent. wf_Coin c \<and> \<not> cIsSpent c)"
  shows "\<exists>u'. UndoTransaction tx spent u = (True, u') \<and>
    (coin_view u', leaf_view u') = ledger_undo tx spent (coin_view u) (leaf_view u) \<and> utxo_inv u'"
proof -
  define u1 where "u1 = fold (undo_output (GetHash tx)) [0..<length (mOutputs tx)] u"
  have v1: "coin_view u1 = coin_view u |` (- outpoints_of tx)" "leaf_view u1 = leaf_view u" "utxo_inv u1"
    using fold_undo_output [OF inv length_GetHash [OF wf], of "[0..<length (mOutputs tx)]"]
    by (simp_all add: u1_def outpoints_of_def)
  show ?thesis
  proof (cases "IsCoinbase tx")
    case True
    then show ?thesis using v1 by (simp add: UndoTransaction_def u1_def [symmetric] ledger_undo_def)
  next
    case False
    then show ?thesis
      using undo_inputs_refines [of spent "mInputs tx" u1] v1 sp wf
      by (auto simp: UndoTransaction_def u1_def [symmetric] ledger_undo_def wf_Transaction_def tx_leaf_keys_def)
  qed
qed

section \<open>Undo inverts apply, on the ledger\<close>

lemma created_coins_keys:
  "fst ` set (created_coins h ht cb i outs) \<subseteq> (\<lambda>j. OutPoint h (of_nat j)) ` {i..<i + length outs}"
proof (induction outs arbitrary: i)
  case (Cons out outs)
  have "{Suc i..<Suc i + length outs} \<subseteq> {i..<i + length (out # outs)}" "i \<in> {i..<i + length (out # outs)}" by auto
  then show ?case using Cons.IH [of "Suc i"] by (auto split: option.splits)
qed simp

lemma dom_created: "dom (created tx ht cb) \<subseteq> outpoints_of tx"
  using created_coins_keys [of "GetHash tx" ht cb 0 "mOutputs tx"]
  by (simp add: created_def outpoints_of_def dom_map_of_conv_image_fst atLeast0LessThan)

lemma map_of_rev_distinct: "distinct (map fst kvs) \<Longrightarrow> map_of (rev kvs) = map_of kvs"
  by (rule map_of_inject_set [THEN iffD2]) (simp_all add: rev_map [symmetric])

lemma map_of_zip_key: "distinct ks \<Longrightarrow> (k, v) \<in> set (zip ks vs) \<Longrightarrow> map_of (zip ks vs) k = Some v"
  by (rule map_of_is_SomeI) (simp_all add: map_fst_zip_take)

definition fresh_outputs :: "Transaction \<Rightarrow> coin_map \<Rightarrow> bool" where
  "fresh_outputs tx m \<longleftrightarrow> (\<forall>outpoint \<in> outpoints_of tx. m outpoint = None)"

lemma restore_spent:
  assumes "distinct (map f xs)" and "\<forall>x \<in> set xs. m (f x) \<noteq> None"
  shows "(m |` (- f ` set xs)) ++ map_of (zip (map f xs) (map (\<lambda>x. the (m (f x))) xs)) = m"
proof (rule ext)
  fix k
  have z: "zip (map f xs) (map (\<lambda>x. the (m (f x))) xs) = map (\<lambda>x. (f x, the (m (f x)))) xs"
    by (simp add: zip_map_map zip_same_conv_map)
  show "((m |` (- f ` set xs)) ++ map_of (zip (map f xs) (map (\<lambda>x. the (m (f x))) xs))) k = m k"
  proof (cases "k \<in> f ` set xs")
    case True
    then obtain x where x: "x \<in> set xs" "k = f x" by blast
    then have "map_of (map (\<lambda>x. (f x, the (m (f x)))) xs) k = Some (the (m k))"
      using assms(1) by (intro map_of_is_SomeI) (auto simp: comp_def)
    moreover obtain c where "m k = Some c" using x assms(2) by auto
    ultimately show ?thesis by (simp add: z map_add_def)
  next
    case False
    then have "map_of (map (\<lambda>x. (f x, the (m (f x)))) xs) k = None"
      by (auto simp: map_of_eq_None_iff)
    then show ?thesis using False by (simp add: z map_add_def)
  qed
qed

lemma ledger_undo_apply:
  assumes ap: "ledger_apply tx ht (IsCoinbase tx) m L = Some (spent, m', L')"
    and d: "distinct (map input_outpoint (mInputs tx))" and fr: "fresh_outputs tx m"
  shows "ledger_undo tx spent m' L' = (m, L)"
proof (cases "IsCoinbase tx")
  case True
  have "(m ++ created tx ht True) |` (- outpoints_of tx) = m"
    using fr dom_created [of tx ht True] by (auto simp: fresh_outputs_def restrict_map_def map_add_def fun_eq_iff
      split: option.splits)
  with True ap show ?thesis by (auto simp: ledger_apply_def ledger_undo_def)
next
  case False
  let ?k = "m |` (- spends tx)"
  have s: "spent = map (\<lambda>i. the (m (input_outpoint i))) (mInputs tx)" and m': "m' = ?k ++ created tx ht False"
    and L': "L' = L \<union> set (tx_leaf_keys tx)" and i: "set (tx_leaf_keys tx) \<inter> L = {}"
    and c: "\<forall>i \<in> set (mInputs tx). m (input_outpoint i) \<noteq> None"
    using ap False by (auto simp: ledger_apply_def split: if_splits)
  have "m' |` (- outpoints_of tx) = ?k"
    using fr dom_created [of tx ht False]
    by (auto simp: m' fresh_outputs_def restrict_map_def map_add_def fun_eq_iff split: option.splits)
  moreover have "?k ++ map_of (rev (zip (map input_outpoint (mInputs tx)) spent)) = m"
    using restore_spent [OF d c] d by (simp add: s spends_def map_of_rev_distinct)
  ultimately show ?thesis using False L' i by (auto simp: ledger_undo_def)
qed

section \<open>The contract\<close>

locale utxo_ledger =
  fixes inv :: "'u \<Rightarrow> bool"
    and coins :: "'u \<Rightarrow> coin_map"
    and leaves :: "'u \<Rightarrow> NoiseLeafKey set"
    and app :: "Transaction \<Rightarrow> u32 \<Rightarrow> bool \<Rightarrow> 'u \<Rightarrow> bool \<times> Coin list \<times> 'u"
    and undo :: "Transaction \<Rightarrow> Coin list \<Rightarrow> 'u \<Rightarrow> bool \<times> 'u"
  assumes app_refines: "inv u \<Longrightarrow> wf_Transaction tx \<Longrightarrow>
      (case ledger_apply tx ht cb (coins u) (leaves u) of
         None \<Rightarrow> app tx ht cb u = (False, [], u)
       | Some (spent, m, L) \<Rightarrow> \<exists>u'. app tx ht cb u = (True, spent, u') \<and> coins u' = m \<and> leaves u' = L \<and> inv u')"
    and undo_refines: "inv u \<Longrightarrow> wf_Transaction tx \<Longrightarrow>
      (\<not> IsCoinbase tx \<Longrightarrow> length spent = length (mInputs tx) \<and>
         (\<forall>i \<in> set (mInputs tx). proofs_parse i) \<and> (\<forall>c \<in> set spent. wf_Coin c \<and> \<not> cIsSpent c)) \<Longrightarrow>
      \<exists>u'. undo tx spent u = (True, u') \<and>
        (coins u', leaves u') = ledger_undo tx spent (coins u) (leaves u) \<and> inv u'"
    and coins_wf: "inv u \<Longrightarrow> coins u outpoint = Some c \<Longrightarrow> wf_Coin c \<and> \<not> cIsSpent c"
begin

lemma app_success:
  assumes "inv u" and "wf_Transaction tx" and "app tx ht cb u = (True, spent, u')"
  shows "ledger_apply tx ht cb (coins u) (leaves u) = Some (spent, coins u', leaves u') \<and> inv u'"
  using app_refines [OF assms(1,2), of ht cb] assms(3) by (auto split: option.splits prod.splits)

lemma app_failure:
  assumes "inv u" and "wf_Transaction tx" and "app tx ht cb u = (False, spent, u')"
  shows "u' = u \<and> spent = [] \<and> ledger_apply tx ht cb (coins u) (leaves u) = None"
  using app_refines [OF assms(1,2), of ht cb] assms(3) by (auto split: option.splits prod.splits)

lemma undo_after_app:
  assumes inv: "inv u" and wf: "wf_Transaction tx" and ap: "app tx ht (IsCoinbase tx) u = (True, spent, u')"
    and d: "distinct (map input_outpoint (mInputs tx))" and fr: "fresh_outputs tx (coins u)"
  shows "\<exists>u''. undo tx spent u' = (True, u'') \<and> coins u'' = coins u \<and> leaves u'' = leaves u \<and> inv u''"
proof -
  have l: "ledger_apply tx ht (IsCoinbase tx) (coins u) (leaves u) = Some (spent, coins u', leaves u')" and i: "inv u'"
    using app_success [OF inv wf ap] by auto
  have "length spent = length (mInputs tx) \<and> (\<forall>i \<in> set (mInputs tx). proofs_parse i) \<and>
     (\<forall>c \<in> set spent. wf_Coin c \<and> \<not> cIsSpent c)" if "\<not> IsCoinbase tx"
    using l that coins_wf [OF inv] by (auto simp: ledger_apply_def split: if_splits)
  from undo_refines [OF i wf this] show ?thesis using ledger_undo_apply [OF l d fr] by auto
qed

text \<open>A leaf that is spent stays out of every later transaction.\<close>

lemma app_leaves:
  assumes "inv u" and "wf_Transaction tx" and "app tx ht False u = (True, spent, u')"
  shows "distinct (tx_leaf_keys tx) \<and> set (tx_leaf_keys tx) \<inter> leaves u = {} \<and>
    leaves u' = leaves u \<union> set (tx_leaf_keys tx)"
  using app_success [OF assms] by (auto simp: ledger_apply_def split: if_splits)

end

interpretation utxo: utxo_ledger utxo_inv coin_view leaf_view ApplyTransaction UndoTransaction
proof unfold_locales
  show "wf_Coin c \<and> \<not> cIsSpent c" if "utxo_inv u" "coin_view u outpoint = Some c" for u outpoint c
    using GetCoin_wf that by (auto simp: coin_view_def split: if_splits)
qed (fact ApplyTransaction_refines UndoTransaction_refines)+

section \<open>Properties\<close>

text \<open>
  C14. \<open>ApplyTransaction\<close> implements the abstract ledger step on every branch: it succeeds
  exactly when the coinbase flag is set or every input has an unspent coin and a parseable
  proof, and the leaves it names are unspent and all different; then it returns the spent
  coins in input order, removes them, adds the created coins and marks the leaves. When it
  fails, the set is unchanged.
\<close>

theorem ApplyTransaction_ledger:
  assumes "utxo_inv u" and "wf_Transaction tx"
  shows "case ledger_apply tx ht cb (coin_view u) (leaf_view u) of
      None \<Rightarrow> ApplyTransaction tx ht cb u = (False, [], u)
    | Some (spent, m, L) \<Rightarrow> \<exists>u'. ApplyTransaction tx ht cb u = (True, spent, u') \<and>
        coin_view u' = m \<and> leaf_view u' = L \<and> utxo_inv u'"
  by (rule utxo.app_refines [OF assms])

text \<open>
  C15. Disconnecting undoes connecting: after a successful \<open>ApplyTransaction\<close>, calling
  \<open>UndoTransaction\<close> with the coins it returned succeeds and restores every coin and every
  leaf, provided the transaction spends no output twice (\<open>CheckTxInputs\<close>) and its own
  outputs were not in the set before.
\<close>

theorem UndoTransaction_inverts:
  assumes "utxo_inv u" and "wf_Transaction tx" and "ApplyTransaction tx ht (IsCoinbase tx) u = (True, spent, u')"
    and "distinct (map input_outpoint (mInputs tx))" and "fresh_outputs tx (coin_view u)"
  shows "\<exists>u''. UndoTransaction tx spent u' = (True, u'') \<and> coin_view u'' = coin_view u \<and>
    leaf_view u'' = leaf_view u \<and> utxo_inv u''"
  by (rule utxo.undo_after_app [OF assms])

section \<open>A concrete set\<close>

definition sample_db :: DBWrapper where
  "sample_db = DBWrapper_open [1, 2, 3, 4, 5, 6, 7, 8] True []"

definition sample_coin :: Coin where
  "sample_coin = mk_Coin 7000 (replicate 32 4) 1 False"

definition sample_outpoint :: OutPoint where
  "sample_outpoint = OutPoint (replicate 32 7) 1"

definition sample_utxo :: UTXOSet where
  "sample_utxo = snd (AddCoin sample_outpoint sample_coin (UTXOSet_open sample_db))"

definition sample_proof :: NoiseProof where
  "sample_proof = \<lparr>leafIndex = 5, proofLeaf = zero32, boundProof = zero32, merklePath = [], pathDirs = []\<rparr>"

definition sample_spend :: Transaction where
  "sample_spend = (Transaction_init 1)\<lparr>mInputs := [(mk_TxInput (replicate 32 7) 1 (replicate 32 9) zero64)
       \<lparr>mKps := replicate 32 3, mNoiseProof := NoiseProof_Serialize sample_proof\<rparr>],
     mOutputs := [mk_TxOutput 5000 (replicate 32 4)], mTxHash := replicate 32 2, mHashCached := True\<rparr>"

lemma sample_db_plain:
  "plain sample_db k = (if k = string_bytes OBFUSCATE_KEY_KEY
     then Some (mData (record_stream [1, 2, 3, 4, 5, 6, 7, 8] (vector_bytes [1, 2, 3, 4, 5, 6, 7, 8]))) else None)"
  by (simp add: sample_db_def open_empty plain_def ldb_Get_def)

lemma sample_db_empty: "wf_outpoint outpoint \<Longrightarrow> db_coin sample_db outpoint = None"
  "wf_leaf leaf \<Longrightarrow> \<not> db_leaf sample_db leaf"
proof -
  have "length (string_bytes OBFUSCATE_KEY_KEY) = 18" by (simp add: string_bytes_eq OBFUSCATE_KEY_KEY_def)
  then show "wf_outpoint outpoint \<Longrightarrow> db_coin sample_db outpoint = None" "wf_leaf leaf \<Longrightarrow> \<not> db_leaf sample_db leaf"
    using OutPoint_image_length [of outpoint] string_key_length [of leaf]
    by (auto simp: db_coin_def db_leaf_def DBWrapper_Read_plain sample_db_plain leaf_db_key_def)
qed

lemma fresh_set:
  "utxo_inv (UTXOSet_open sample_db)" "coin_view (UTXOSet_open sample_db) = Map.empty"
  "leaf_view (UTXOSet_open sample_db) = {}"
proof -
  show "utxo_inv (UTXOSet_open sample_db)" by (simp add: utxo_inv_def UTXOSet_open_def sample_db_empty)
  show "coin_view (UTXOSet_open sample_db) = Map.empty"
    by (rule ext) (simp add: coin_view_def GetCoin_def UTXOSet_open_def sample_db_empty)
  show "leaf_view (UTXOSet_open sample_db) = {}"
    by (auto simp: leaf_view_def IsNoiseLeafSpentLocked_def UTXOSet_open_def sample_db_empty)
qed

lemma sample_utxo_views:
  "utxo_inv sample_utxo" "coin_view sample_utxo = [sample_outpoint \<mapsto> sample_coin]" "leaf_view sample_utxo = {}"
proof -
  have "wf_outpoint sample_outpoint" "wf_Coin sample_coin" "\<not> cIsSpent sample_coin"
    by (simp_all add: sample_outpoint_def sample_coin_def mk_Coin_def wf_Coin_def)
  from AddCoin_refines [OF fresh_set(1) this surjective_pairing]
  show "utxo_inv sample_utxo" "coin_view sample_utxo = [sample_outpoint \<mapsto> sample_coin]" "leaf_view sample_utxo = {}"
    by (simp_all add: sample_utxo_def fresh_set(2,3))
qed

lemma sample_proof_idx: "idx_list (NoiseProof_Serialize sample_proof) 0 = (True, [5])"
proof -
  have wf: "wf_NoiseProof sample_proof" by (simp add: sample_proof_def wf_NoiseProof_def zero32_def)
  have l: "length (NoiseProof_Serialize sample_proof) = 72"
    by (simp add: NoiseProof_Serialize_def sample_proof_def zero32_def)
  have "NoiseProof_Deserialize (NoiseProof_Serialize sample_proof) 0 = Inr (sample_proof, 72)"
    using noise_proof.dec_enc [OF wf, of "[]" "[]"] l by simp
  moreover have "idx_list (NoiseProof_Serialize sample_proof) 72 = (True, [])"
    using l by (subst idx_list.simps) simp
  ultimately show ?thesis using l by (subst idx_list.simps) (simp add: sample_proof_def)
qed

lemma sample_spend_facts:
  "wf_Transaction sample_spend" "\<not> IsCoinbase sample_spend" "GetHash sample_spend = replicate 32 2"
  "map input_outpoint (mInputs sample_spend) = [sample_outpoint]"
  "tx_leaf_keys sample_spend = [NoiseLeafKey (replicate 32 3) 5]"
  "\<forall>i \<in> set (mInputs sample_spend). mNoiseProof i \<noteq> [] \<and> proofs_parse i"
proof -
  have l: "length (NoiseProof_Serialize sample_proof) = 72" "NoiseProof_Serialize sample_proof \<noteq> []"
    by (simp_all add: NoiseProof_Serialize_def sample_proof_def zero32_def WriteLE32_def)
  show "wf_Transaction sample_spend"
    using l by (simp add: wf_Transaction_def sample_spend_def wf_TxInput_def wf_TxOutput_def Transaction_init_def
      mk_TxInput_def mk_TxOutput_def CreatePayToPubkeyHash_def PushData_def MAX_INPUTS_def MAX_OUTPUTS_def
      MAX_TX_SIZE_def MAX_SCRIPT_SIZE_def INT64_MAX_def zero64_def)
  show "\<not> IsCoinbase sample_spend" "GetHash sample_spend = replicate 32 2"
    "map input_outpoint (mInputs sample_spend) = [sample_outpoint]"
    by (simp_all add: sample_spend_def IsCoinbase_def mk_TxInput_def all_zero_def GetHash_def GetHash_st_def
      input_outpoint_def sample_outpoint_def list_all_iff)
  show "tx_leaf_keys sample_spend = [NoiseLeafKey (replicate 32 3) 5]"
    "\<forall>i \<in> set (mInputs sample_spend). mNoiseProof i \<noteq> [] \<and> proofs_parse i"
    using l sample_proof_idx by (simp_all add: sample_spend_def tx_leaf_keys_def leaf_keys_def proofs_parse_def)
qed

lemma sample_ledger:
  "ledger_apply sample_spend 9 False (coin_view sample_utxo) (leaf_view sample_utxo) =
     Some ([sample_coin], created sample_spend 9 False, {NoiseLeafKey (replicate 32 3) 5})"
proof -
  have i: "mInputs sample_spend = [i] \<Longrightarrow> input_outpoint i = sample_outpoint" for i
    using sample_spend_facts(4) by simp
  obtain i where "mInputs sample_spend = [i]" by (simp add: sample_spend_def)
  with i [OF this] show ?thesis
    using sample_spend_facts(5,6) sample_utxo_views(2,3)
    by (simp add: ledger_apply_def spends_def)
qed

theorem ApplyTransaction_ledger_witness:
  "\<exists>u'. ApplyTransaction sample_spend 9 False sample_utxo = (True, [sample_coin], u') \<and>
     leaf_view u' = {NoiseLeafKey (replicate 32 3) 5}"
  using ApplyTransaction_ledger [OF sample_utxo_views(1) sample_spend_facts(1), of 9 False]
  by (auto simp: sample_ledger)

theorem UndoTransaction_inverts_witness:
  "\<exists>u' u''. ApplyTransaction sample_spend 9 False sample_utxo = (True, [sample_coin], u') \<and>
     UndoTransaction sample_spend [sample_coin] u' = (True, u'') \<and>
     coin_view u'' = [sample_outpoint \<mapsto> sample_coin] \<and> leaf_view u'' = {}"
proof -
  obtain u' where u': "ApplyTransaction sample_spend 9 False sample_utxo = (True, [sample_coin], u')"
    using utxo.app_refines [OF sample_utxo_views(1) sample_spend_facts(1), of 9 False] by (auto simp: sample_ledger)
  have "fresh_outputs sample_spend (coin_view sample_utxo)"
    using sample_spend_facts(3)
    by (auto simp: fresh_outputs_def outpoints_of_def sample_utxo_views(2) sample_outpoint_def)
  from UndoTransaction_inverts [OF sample_utxo_views(1) sample_spend_facts(1) _ _ this, of 9 "[sample_coin]" u'] u'
  show ?thesis using sample_spend_facts(2,4) by (auto simp: sample_utxo_views(2,3))
qed

end
