(* ===== verification/Utxo_Flush.thy ===== *)
theory Utxo_Flush
  imports Utxo_Ledger
begin

text \<open>
  Durability of the UTXO set: what \<open>FlushCache\<close> leaves in the database, what a crash between
  two of its batches leaves there, and that replaying the blocks on such a database gives
  the set that was being written. Reorganisation histories and the balance query follow.
\<close>

section \<open>The batches of a flush\<close>

definition entry_effect ::
  "OutPoint \<times> UTXOEntry \<Rightarrow> (byte list \<rightharpoonup> byte list) \<Rightarrow> (byte list \<rightharpoonup> byte list)" where
  "entry_effect = (\<lambda>(outpoint, e) m.
     if \<not> eIsDirty e then m
     else m(OutPoint_image outpoint := (if cIsSpent (eCoin e) then None else Some (Coin_image (eCoin e)))))"

lemma fold_WriteBatch:
  "plain (fold DBWrapper_WriteBatch bs w) = fold (batch_effect (mObfuscateKey w)) bs (plain w) \<and>
   mObfuscateKey (fold DBWrapper_WriteBatch bs w) = mObfuscateKey w"
  by (induction bs arbitrary: w) (simp_all add: db_simps)

lemma flush_coin_effect:
  assumes "flush_coin obf x (w, b, n) = (w', b', n')"
  shows "fold (batch_effect obf) (w' @ [b']) m = entry_effect x (fold (batch_effect obf) (w @ [b]) m)"
  using assms
  by (cases x) (auto simp: flush_coin_def entry_effect_def Let_def db_simps split: if_splits)

lemma flush_coin_written:
  assumes "flush_coin obf x (w, b, n) = (w', b', n')"
  shows "w' = w \<or> w' = w @ [last w'] \<and> b' = DBBatch_init"
  using assms by (cases x) (auto simp: flush_coin_def Let_def split: if_splits)

lemma fold_flush_coin:
  assumes "fold (flush_coin obf) es ([], DBBatch_init, 0) = (w, b, n)"
  shows "fold (batch_effect obf) (w @ [b]) m = fold entry_effect es m \<and>
    (\<forall>j \<le> length w. \<exists>k \<le> length es. \<forall>m. fold (batch_effect obf) (take j w) m = fold entry_effect (take k es) m)"
  using assms
proof (induction es arbitrary: w b n m rule: rev_induct)
  case Nil
  then show ?case by (simp add: db_simps)
next
  case (snoc x es)
  obtain w0 b0 n0 where f: "fold (flush_coin obf) es ([], DBBatch_init, 0) = (w0, b0, n0)" by (metis prod_cases3)
  have x: "flush_coin obf x (w0, b0, n0) = (w, b, n)" using snoc.prems f by simp
  have whole: "fold (batch_effect obf) (w @ [b]) m = fold entry_effect (es @ [x]) m" for m
    using flush_coin_effect [OF x, of m] snoc.IH [OF f, of m] by simp
  have old: "\<exists>k \<le> length (es @ [x]). \<forall>m. fold (batch_effect obf) (take j w0) m = fold entry_effect (take k (es @ [x])) m"
    if j: "j \<le> length w0" for j
  proof -
    obtain k where k: "k \<le> length es"
      "\<forall>m. fold (batch_effect obf) (take j w0) m = fold entry_effect (take k es) m"
      using snoc.IH [OF f] j by blast
    then show ?thesis by (intro exI [of _ k]) simp
  qed
  have "\<exists>k \<le> length (es @ [x]). \<forall>m. fold (batch_effect obf) (take j w) m = fold entry_effect (take k (es @ [x])) m"
    if j: "j \<le> length w" for j
    using flush_coin_written [OF x]
  proof
    assume "w = w0"
    then show ?thesis using old j by simp
  next
    assume w: "w = w0 @ [last w] \<and> b = DBBatch_init"
    then obtain y where y: "w = w0 @ [y]" by blast
    show ?thesis
    proof (cases "j \<le> length w0")
      case True
      then show ?thesis using old [OF True] y by simp
    next
      case False
      then have "take j w = w" using j y by simp
      moreover have "\<forall>m. fold (batch_effect obf) w m = fold entry_effect (es @ [x]) m"
        using whole w by (simp add: db_simps)
      ultimately show ?thesis by (intro exI [of _ "length (es @ [x])"]) simp
    qed
  qed
  with whole show ?case by blast
qed

lemma fold_entry_effect_other:
  "k \<notin> OutPoint_image ` fst ` set es \<Longrightarrow> fold entry_effect es m k = m k"
  by (induction es arbitrary: m) (auto simp: entry_effect_def)

lemma fold_entry_effect_coin:
  "distinct (map fst es) \<Longrightarrow>
   fold entry_effect es m (OutPoint_image outpoint) = (case map_of es outpoint of
       Some e \<Rightarrow> (if \<not> eIsDirty e then m (OutPoint_image outpoint)
                  else if cIsSpent (eCoin e) then None else Some (Coin_image (eCoin e)))
     | None \<Rightarrow> m (OutPoint_image outpoint))"
proof (induction es arbitrary: m)
  case (Cons x es)
  obtain a e where x: "x = (a, e)" by (cases x)
  show ?case
  proof (cases "a = outpoint")
    case True
    then have "map_of es outpoint = None" using Cons.prems x by (auto simp: map_of_eq_None_iff)
    then show ?thesis using Cons x True by (simp add: entry_effect_def)
  next
    case False
    then show ?thesis using Cons x by (simp add: entry_effect_def OutPoint_image_inj split: option.splits)
  qed
qed simp

section \<open>What a flush writes\<close>

lemma MakeNoiseLeafDBKey_eq: "MakeNoiseLeafDBKey kps i = DB_NOISE_LEAF # kps @ WriteLE32 i"
  by (simp add: MakeNoiseLeafDBKey_def WriteLE32_def upt_rec)

lemma leaf_db_key_inj: "wf_leaf a \<Longrightarrow> wf_leaf b \<Longrightarrow> leaf_db_key a = leaf_db_key b \<longleftrightarrow> a = b"
proof
  assume w: "wf_leaf a" "wf_leaf b" and e: "leaf_db_key a = leaf_db_key b"
  then have "lk_kps a = lk_kps b" "WriteLE32 (lk_leafIndex a) = WriteLE32 (lk_leafIndex b)"
    by (simp_all add: leaf_db_key_def string_bytes_eq MakeNoiseLeafDBKey_eq)
  moreover from this(2) have "lk_leafIndex a = lk_leafIndex b" by (metis Pair_inject ReadLE32_write sum.inject(2))
  ultimately show "a = b" by (simp add: NoiseLeafKey.expand)
qed simp

lemma key_shapes:
  "wf_outpoint a \<Longrightarrow> OutPoint_image a \<noteq> DB_UTXO_BEST" "wf_outpoint a \<Longrightarrow> OutPoint_image a \<noteq> DB_UTXO_HEADS"
  "wf_leaf leaf \<Longrightarrow> leaf_db_key leaf \<noteq> DB_UTXO_BEST" "wf_leaf leaf \<Longrightarrow> leaf_db_key leaf \<noteq> DB_UTXO_HEADS"
  "wf_outpoint a \<Longrightarrow> wf_leaf leaf \<Longrightarrow> OutPoint_image a \<noteq> leaf_db_key leaf" "DB_UTXO_BEST \<noteq> DB_UTXO_HEADS"
  using OutPoint_image_length [of a] string_key_length [of leaf]
  by (auto simp: DB_UTXO_BEST_def DB_UTXO_HEADS_def)

definition leaf_effect ::
  "NoiseLeafKey list \<Rightarrow> NoiseLeafKey list \<Rightarrow> (byte list \<rightharpoonup> byte list) \<Rightarrow> (byte list \<rightharpoonup> byte list)" where
  "leaf_effect dirty erased m =
     fold (\<lambda>leaf m. m(leaf_db_key leaf := None)) erased (fold (\<lambda>leaf m. m(leaf_db_key leaf \<mapsto> [1])) dirty m)"

lemma fold_leaf_writes:
  "batch_effect obf (fold (\<lambda>leaf. DBBatch_Write obf (leaf_db_key leaf) [1]) ls b) m =
     fold (\<lambda>leaf m. m(leaf_db_key leaf \<mapsto> [1])) ls (batch_effect obf b m)"
  by (induction ls arbitrary: b) (simp_all add: db_simps del: fun_upd_apply)

lemma fold_leaf_erases:
  "batch_effect obf (fold (\<lambda>leaf. DBBatch_Erase (leaf_db_key leaf)) ls b) m =
     fold (\<lambda>leaf m. m(leaf_db_key leaf := None)) ls (batch_effect obf b m)"
  by (induction ls arbitrary: b) (simp_all add: db_simps del: fun_upd_apply)

lemma fold_upd_other: "k \<notin> f ` set ls \<Longrightarrow> fold (\<lambda>leaf m. m(f leaf := v)) ls m k = m k"
  by (induction ls arbitrary: m) auto

lemma fold_upd_hit: "k \<in> f ` set ls \<Longrightarrow> fold (\<lambda>leaf m. m(f leaf := v)) ls m k = v"
proof (induction ls arbitrary: m)
  case (Cons a ls)
  then show ?case
    by (cases "k \<in> f ` set ls") (auto simp: fold_upd_other fun_upd_same simp del: fun_upd_apply)
qed simp

lemma leaf_effect_leaf:
  assumes "\<forall>l \<in> set dirty \<union> set erased. wf_leaf l" and "wf_leaf leaf"
  shows "leaf_effect dirty erased m (leaf_db_key leaf) =
    (if leaf \<in> set erased then None else if leaf \<in> set dirty then Some [1] else m (leaf_db_key leaf))"
proof -
  have "leaf_db_key leaf \<in> leaf_db_key ` set ls \<longleftrightarrow> leaf \<in> set ls" if "\<forall>l \<in> set ls. wf_leaf l" for ls
    using that assms(2) leaf_db_key_inj by blast
  then show ?thesis using assms(1) by (simp add: leaf_effect_def fold_upd_other fold_upd_hit)
qed

lemma leaf_effect_other:
  "k \<notin> leaf_db_key ` (set dirty \<union> set erased) \<Longrightarrow> leaf_effect dirty erased m k = m k"
  by (simp add: leaf_effect_def fold_upd_other image_Un)

lemma flush_batches_parts:
  obtains first w b n lst where "fold (flush_coin (mObfuscateKey (uDB u))) (uCache u) ([], DBBatch_init, 0) = (w, b, n)"
    and "flush_batches best u = first # w @ [lst]"
    and "\<And>m. batch_effect (mObfuscateKey (uDB u)) first m =
      m(DB_UTXO_BEST := None, DB_UTXO_HEADS \<mapsto> vector_bytes (best @ flush_old_tip u))"
    and "\<And>m. batch_effect (mObfuscateKey (uDB u)) lst m =
      (leaf_effect (uSpentLeafDirty u) (uErasedLeafDirty u) (batch_effect (mObfuscateKey (uDB u)) b m))
        (DB_UTXO_HEADS := None, DB_UTXO_BEST \<mapsto> best)"
proof -
  obtain w b n where f: "fold (flush_coin (mObfuscateKey (uDB u))) (uCache u) ([], DBBatch_init, 0) = (w, b, n)"
    by (metis prod_cases3)
  show thesis
    by (rule that [OF f, of "DBBatch_Write (mObfuscateKey (uDB u)) DB_UTXO_HEADS (vector_bytes (best @ flush_old_tip u))
        (DBBatch_Erase DB_UTXO_BEST DBBatch_init)" "DBBatch_Write (mObfuscateKey (uDB u)) DB_UTXO_BEST best (DBBatch_Erase DB_UTXO_HEADS
        (fold (\<lambda>leaf. DBBatch_Erase (leaf_db_key leaf)) (uErasedLeafDirty u)
        (fold (\<lambda>leaf. DBBatch_Write (mObfuscateKey (uDB u)) (leaf_db_key leaf) [1]) (uSpentLeafDirty u) b)))"])
      (simp_all add: flush_batches_def Let_def f db_simps fold_leaf_erases fold_leaf_writes leaf_effect_def
        del: fun_upd_apply)
qed

lemma FlushCache_plain:
  "plain (uDB (FlushCache best u)) =
     (leaf_effect (uSpentLeafDirty u) (uErasedLeafDirty u)
       (fold entry_effect (uCache u)
         ((plain (uDB u))(DB_UTXO_BEST := None, DB_UTXO_HEADS \<mapsto> vector_bytes (best @ flush_old_tip u)))))
       (DB_UTXO_HEADS := None, DB_UTXO_BEST \<mapsto> best)"
proof -
  obtain first w b n lst where p:
    "fold (flush_coin (mObfuscateKey (uDB u))) (uCache u) ([], DBBatch_init, 0) = (w, b, n)"
    "flush_batches best u = first # w @ [lst]"
    "\<And>m. batch_effect (mObfuscateKey (uDB u)) first m =
      m(DB_UTXO_BEST := None, DB_UTXO_HEADS \<mapsto> vector_bytes (best @ flush_old_tip u))"
    "\<And>m. batch_effect (mObfuscateKey (uDB u)) lst m =
      (leaf_effect (uSpentLeafDirty u) (uErasedLeafDirty u) (batch_effect (mObfuscateKey (uDB u)) b m))
        (DB_UTXO_HEADS := None, DB_UTXO_BEST \<mapsto> best)"
    using flush_batches_parts [of u best] by metis
  have "batch_effect (mObfuscateKey (uDB u)) b (fold (batch_effect (mObfuscateKey (uDB u))) w m) =
      fold entry_effect (uCache u) m" for m
    using conjunct1 [OF fold_flush_coin [OF p(1), of m]] by simp
  then show ?thesis
    using conjunct1 [OF fold_WriteBatch [of "flush_batches best u" "uDB u"]]
    by (simp add: FlushCache_def p(2,3,4) del: fun_upd_apply)
qed

section \<open>Persistence\<close>

lemma dirty_leaves_wf: "utxo_inv u \<Longrightarrow> \<forall>l \<in> set (uSpentLeafDirty u) \<union> set (uErasedLeafDirty u). wf_leaf l"
  by (auto simp: utxo_inv_def)

lemma cache_keys_wf: "utxo_inv u \<Longrightarrow> a \<in> fst ` set (uCache u) \<Longrightarrow> wf_outpoint a"
  using cache_entry_wf [of u a] by (metis map_of_eq_None_iff not_None_eq)

lemma entry_effect_view:
  assumes inv: "utxo_inv u" and a: "wf_outpoint a" and m: "m (OutPoint_image a) = plain (uDB u) (OutPoint_image a)"
  shows "Option.bind (fold entry_effect (uCache u) m (OutPoint_image a)) (decode get_Coin) = coin_view u a"
proof -
  have d: "distinct (map fst (uCache u))" using inv by (simp add: utxo_inv_def)
  note E = fold_entry_effect_coin [OF d, of m a]
  have P: "Option.bind (m (OutPoint_image a)) (decode get_Coin) = db_coin (uDB u) a"
    by (simp add: m db_coin_def DBWrapper_Read_plain)
  show ?thesis
  proof (cases "map_of (uCache u) a")
    case None
    have "\<not> cIsSpent c" if "db_coin (uDB u) a = Some c" for c using inv a that by (auto simp: utxo_inv_def)
    then show ?thesis using E None P a by (auto simp: coin_view_def GetCoin_def split: option.splits)
  next
    case (Some e)
    then have "entry_wf (uDB u) a e" using inv by (simp add: utxo_inv_def)
    then show ?thesis
      using E Some P a coin_value.decode_img [of "eCoin e"]
      by (auto simp: coin_view_def GetCoin_def entry_wf_def)
  qed
qed

lemma coin_key_clear:
  "utxo_inv u \<Longrightarrow> wf_outpoint a \<Longrightarrow> OutPoint_image a \<notin> leaf_db_key ` (set (uSpentLeafDirty u) \<union> set (uErasedLeafDirty u))"
  using dirty_leaves_wf [of u] key_shapes(5) by fastforce

lemma FlushCache_coin:
  assumes "utxo_inv u" and "wf_outpoint a"
  shows "db_coin (uDB (FlushCache best u)) a = coin_view u a"
  unfolding db_coin_def DBWrapper_Read_plain FlushCache_plain
  using entry_effect_view [OF assms, of "(plain (uDB u))(DB_UTXO_BEST := None,
      DB_UTXO_HEADS \<mapsto> vector_bytes (best @ flush_old_tip u))"] key_shapes(1,2) [OF assms(2)]
  by (simp add: leaf_effect_other [OF coin_key_clear [OF assms]])

lemma leaf_key_clear: "utxo_inv u \<Longrightarrow> wf_leaf leaf \<Longrightarrow> leaf_db_key leaf \<notin> OutPoint_image ` fst ` set (uCache u)"
  using cache_keys_wf [of u] key_shapes(5) by fastforce

lemma db_leaf_plain: "db_leaf db leaf \<longleftrightarrow> Option.bind (plain db (leaf_db_key leaf)) (decode (get_raw 1)) \<noteq> None"
  by (simp add: db_leaf_def DBWrapper_Read_plain leaf_db_key_def)

lemma FlushCache_leaf:
  assumes inv: "utxo_inv u" and l: "wf_leaf leaf"
  shows "db_leaf (uDB (FlushCache best u)) leaf \<longleftrightarrow> leaf \<in> leaf_view u"
proof -
  have one: "decode (get_raw 1) [1] = Some [1]" using raw_value.decode_img [of "[1]" 1] by simp
  have s: "leaf \<in> set (uSpentLeafDirty u) \<Longrightarrow> leaf \<in> set (uSpentLeafCache u)"
    "leaf \<in> set (uErasedLeafDirty u) \<Longrightarrow> leaf \<notin> set (uSpentLeafCache u)"
    "leaf \<in> set (uSpentLeafCache u) \<Longrightarrow> leaf \<notin> set (uSpentLeafDirty u) \<Longrightarrow> db_leaf (uDB u) leaf"
    using inv by (auto simp: utxo_inv_def)
  have "plain (uDB (FlushCache best u)) (leaf_db_key leaf) =
     (if leaf \<in> set (uErasedLeafDirty u) then None else if leaf \<in> set (uSpentLeafDirty u) then Some [1]
      else plain (uDB u) (leaf_db_key leaf))"
    using key_shapes(3,4) [OF l] leaf_key_clear [OF inv l]
    by (simp add: FlushCache_plain leaf_effect_leaf [OF dirty_leaves_wf [OF inv] l] fold_entry_effect_other)
  then show ?thesis
    using s l one by (auto simp: db_leaf_plain leaf_view_def IsNoiseLeafSpentLocked_def)
qed

definition clean_entries :: "UTXOMap \<Rightarrow> UTXOMap" where
  "clean_entries es = filter (\<lambda>(outpoint, e). \<not> cIsSpent (eCoin e))
     (map (\<lambda>(outpoint, e). (outpoint, e\<lparr>eIsDirty := False\<rparr>)) es)"

lemma clean_entries_simps [simp]:
  "clean_entries [] = []"
  "clean_entries ((a, e) # es) =
     (if cIsSpent (eCoin e) then clean_entries es else (a, e\<lparr>eIsDirty := False\<rparr>) # clean_entries es)"
  by (simp_all add: clean_entries_def)

lemma clean_entries_keys: "a \<notin> fst ` set es \<Longrightarrow> a \<notin> fst ` set (clean_entries es)"
  by (induction es) (auto split: if_splits)

lemma clean_entries_distinct: "distinct (map fst es) \<Longrightarrow> distinct (map fst (clean_entries es))"
proof (induction es)
  case (Cons x es)
  then show ?case using clean_entries_keys [of "fst x" es] by (cases x) simp
qed simp

lemma clean_entries_map_of:
  "distinct (map fst es) \<Longrightarrow> map_of (clean_entries es) a = (case map_of es a of
      None \<Rightarrow> None | Some e \<Rightarrow> if cIsSpent (eCoin e) then None else Some (e\<lparr>eIsDirty := False\<rparr>))"
proof (induction es)
  case (Cons x es)
  obtain b e where x: "x = (b, e)" by (cases x)
  have "b \<notin> fst ` set (clean_entries es)" using Cons.prems x clean_entries_keys [of b es] by simp
  then have "map_of (clean_entries es) b = None" by (simp add: map_of_eq_None_iff)
  then show ?case using Cons x by (cases "a = b") simp_all
qed simp

lemma FlushCache_fields:
  "uCache (FlushCache best u) = clean_entries (uCache u)" "uSpentLeafCache (FlushCache best u) = uSpentLeafCache u"
  "uSpentLeafDirty (FlushCache best u) = []" "uErasedLeafDirty (FlushCache best u) = []"
  "uBestBlock (FlushCache best u) = best"
  by (simp_all add: FlushCache_def clean_entries_def)

lemma FlushCache_inv:
  assumes inv: "utxo_inv u"
  shows "utxo_inv (FlushCache best u)"
proof -
  let ?u = "FlushCache best u"
  have d: "distinct (map fst (uCache u))" using inv by (simp add: utxo_inv_def)
  have e: "entry_wf (uDB ?u) a e" if m: "map_of (uCache ?u) a = Some e" for a e
  proof -
    obtain e0 where e0: "map_of (uCache u) a = Some e0" "\<not> cIsSpent (eCoin e0)" "e = e0\<lparr>eIsDirty := False\<rparr>"
      using m unfolding FlushCache_fields clean_entries_map_of [OF d] by (auto split: option.splits if_splits)
    then have "wf_outpoint a" "wf_Coin (eCoin e0)" using cache_entry_wf [OF inv] by auto
    then show ?thesis
      using e0 FlushCache_coin [OF inv, of a best] by (simp add: entry_wf_def coin_view_def GetCoin_def)
  qed
  have c: "\<not> cIsSpent c" if "wf_outpoint a" "db_coin (uDB ?u) a = Some c" for a c
    using that FlushCache_coin [OF inv] utxo.coins_wf [OF inv] by simp
  have l: "db_leaf (uDB ?u) leaf" if "leaf \<in> set (uSpentLeafCache u)" for leaf
  proof -
    have "wf_leaf leaf" using that inv by (simp add: utxo_inv_def)
    then show ?thesis
      using that FlushCache_leaf [OF inv, of leaf best] by (simp add: leaf_view_def IsNoiseLeafSpentLocked_def)
  qed
  have w: "\<forall>leaf \<in> set (uSpentLeafCache u). wf_leaf leaf" using inv by (simp add: utxo_inv_def)
  show ?thesis
    unfolding utxo_inv_def using e c l w clean_entries_distinct [OF d] by (simp add: FlushCache_fields)
qed

lemma coin_view_mirror:
  assumes d: "\<And>a. wf_outpoint a \<Longrightarrow> db_coin (uDB u') a = coin_view u a" and inv: "utxo_inv u"
    and c: "\<And>a e. map_of (uCache u') a = Some e \<Longrightarrow> \<not> cIsSpent (eCoin e) \<and> coin_view u a = Some (eCoin e)"
  shows "coin_view u' = coin_view u"
proof (rule ext)
  fix a
  show "coin_view u' a = coin_view u a"
    using d [of a] c [of a] utxo.coins_wf [OF inv, of a]
    by (cases "wf_outpoint a"; cases "map_of (uCache u') a"; cases "coin_view u a")
      (simp_all add: coin_view_def [of u'] GetCoin_def coin_view_def [of u])
qed

lemma FlushCache_views:
  assumes inv: "utxo_inv u"
  shows "coin_view (FlushCache best u) = coin_view u" "leaf_view (FlushCache best u) = leaf_view u"
proof -
  have d: "distinct (map fst (uCache u))" using inv by (simp add: utxo_inv_def)
  show "coin_view (FlushCache best u) = coin_view u"
  proof (rule coin_view_mirror [OF FlushCache_coin [OF inv] inv])
    fix a e assume "map_of (uCache (FlushCache best u)) a = Some e"
    then obtain e0 where e0: "map_of (uCache u) a = Some e0" "\<not> cIsSpent (eCoin e0)" "e = e0\<lparr>eIsDirty := False\<rparr>"
      unfolding FlushCache_fields clean_entries_map_of [OF d] by (auto split: option.splits if_splits)
    moreover have "wf_outpoint a" using cache_entry_wf [OF inv e0(1)] by simp
    ultimately show "\<not> cIsSpent (eCoin e) \<and> coin_view u a = Some (eCoin e)" by (simp add: coin_view_def GetCoin_def)
  qed
  show "leaf_view (FlushCache best u) = leaf_view u"
    using FlushCache_leaf [OF inv]
    by (auto simp: leaf_view_def [of "FlushCache best u"] IsNoiseLeafSpentLocked_def [of _ "FlushCache best u"]
        FlushCache_fields) (auto simp: leaf_view_def IsNoiseLeafSpentLocked_def)
qed

lemma reopened_views:
  assumes "\<And>a. wf_outpoint a \<Longrightarrow> db_coin db a = coin_view u a" and "\<And>l. wf_leaf l \<Longrightarrow> db_leaf db l \<longleftrightarrow> l \<in> leaf_view u"
    and inv: "utxo_inv u"
  shows "coin_view (UTXOSet_open db) = coin_view u" "leaf_view (UTXOSet_open db) = leaf_view u"
    "utxo_inv (UTXOSet_open db)"
proof -
  show "coin_view (UTXOSet_open db) = coin_view u"
    by (rule coin_view_mirror [OF _ inv]) (simp_all add: UTXOSet_open_def assms(1))
  show "leaf_view (UTXOSet_open db) = leaf_view u"
  proof (rule set_eqI)
    show "l \<in> leaf_view (UTXOSet_open db) \<longleftrightarrow> l \<in> leaf_view u" for l
      using assms(2) [of l] by (cases "wf_leaf l") (simp_all add: leaf_view_def UTXOSet_open_def IsNoiseLeafSpentLocked_def)
  qed
  show "utxo_inv (UTXOSet_open db)"
    using assms(1) utxo.coins_wf [OF inv] by (simp add: utxo_inv_def UTXOSet_open_def)
qed

text \<open>
  C21. A flush is invisible while the node runs and complete once it restarts: the coins and
  leaves of the set are the same before it, after it, and in a set opened on the database it
  wrote; that set finds the best block the flush was for and no interrupted-flush marker.
\<close>

theorem Flush_persists:
  assumes inv: "utxo_inv u" and b: "is_bytes32 (uBestBlock u)"
  shows "coin_view (Flush u) = coin_view u \<and> leaf_view (Flush u) = leaf_view u \<and> utxo_inv (Flush u) \<and>
    (let r = UTXOSet_open (uDB (Flush u))
     in coin_view r = coin_view u \<and> leaf_view r = leaf_view u \<and> utxo_inv r \<and>
        uBestBlock r = uBestBlock u \<and> ReadHeadBlocksLocked r = None)"
proof -
  let ?db = "uDB (FlushCache (uBestBlock u) u)"
  have "DBWrapper_Read (get_raw 32) DB_UTXO_BEST ?db = Some (uBestBlock u)"
    using raw_value.decode_img [of "uBestBlock u" 32] b by (simp add: DBWrapper_Read_plain FlushCache_plain)
  moreover have "DBWrapper_Read get_vector DB_UTXO_HEADS ?db = None"
    using key_shapes(6) by (simp add: DBWrapper_Read_plain FlushCache_plain)
  ultimately have "uBestBlock (UTXOSet_open ?db) = uBestBlock u" "ReadHeadBlocksLocked (UTXOSet_open ?db) = None"
    by (simp_all add: UTXOSet_open_def ReadHeadBlocksLocked_def)
  then show ?thesis
    using FlushCache_views [OF inv] FlushCache_inv [OF inv]
      reopened_views [OF FlushCache_coin [OF inv] FlushCache_leaf [OF inv] inv]
    by (simp add: Flush_def Let_def)
qed

theorem Flush_persists_witness:
  "coin_view (UTXOSet_open (uDB (Flush sample_utxo))) = [sample_outpoint \<mapsto> sample_coin]"
proof -
  have "is_bytes32 (uBestBlock sample_utxo)"
    using key_shapes(6)
    by (simp add: sample_utxo_def AddCoin_def UTXOSet_open_def cache_put_def DBWrapper_Read_plain sample_db_plain
        DB_UTXO_BEST_def string_bytes_eq WriteLE32_def zero32_def split: option.splits)
  from Flush_persists [OF sample_utxo_views(1) this] show ?thesis
    by (simp add: Let_def sample_utxo_views(2))
qed

section \<open>A crash between two batches\<close>

definition flush_crash :: "nat \<Rightarrow> bytes32 \<Rightarrow> UTXOSet \<Rightarrow> DBWrapper" where
  "flush_crash k best u = fold DBWrapper_WriteBatch (take k (flush_batches best u)) (uDB u)"

lemma map_of_take: "distinct (map fst es) \<Longrightarrow> map_of (take n es) a = Some e \<Longrightarrow> map_of es a = Some e"
  by (rule map_of_is_SomeI) (auto dest!: map_of_SomeD in_set_takeD)

lemma flush_crash_cases:
  assumes "k < length (flush_batches best u)"
  obtains "k = 0" "flush_crash k best u = uDB u"
  | n where "0 < k" "plain (flush_crash k best u) = fold entry_effect (take n (uCache u))
      ((plain (uDB u))(DB_UTXO_BEST := None, DB_UTXO_HEADS \<mapsto> vector_bytes (best @ flush_old_tip u)))"
proof (cases k)
  case 0
  then show ?thesis using that(1) by (simp add: flush_crash_def)
next
  case (Suc j)
  let ?obf = "mObfuscateKey (uDB u)"
  obtain first w b n lst where p: "fold (flush_coin ?obf) (uCache u) ([], DBBatch_init, 0) = (w, b, n)"
    "flush_batches best u = first # w @ [lst]"
    "\<And>m. batch_effect ?obf first m =
      m(DB_UTXO_BEST := None, DB_UTXO_HEADS \<mapsto> vector_bytes (best @ flush_old_tip u))"
    using flush_batches_parts [of u best] by metis
  have j: "j \<le> length w" using assms p(2) Suc by simp
  obtain l where l: "\<forall>m. fold (batch_effect ?obf) (take j w) m = fold entry_effect (take l (uCache u)) m"
    using conjunct2 [OF fold_flush_coin [OF p(1)]] j by blast
  have "plain (flush_crash k best u) = fold (batch_effect ?obf) (first # take j w) (plain (uDB u))"
    using fold_WriteBatch [of "first # take j w" "uDB u"] p(2) Suc j by (simp add: flush_crash_def)
  then show ?thesis using that(2) [of l] l Suc by (simp add: p(3) del: fun_upd_apply)
qed

lemma flush_crash_coin:
  assumes k: "k < length (flush_batches best u)" and inv: "utxo_inv u" and a: "wf_outpoint a"
  shows "db_coin (flush_crash k best u) a = db_coin (uDB u) a \<or> db_coin (flush_crash k best u) a = coin_view u a"
proof (cases rule: flush_crash_cases [OF k])
  case (2 n)
  let ?m = "(plain (uDB u))(DB_UTXO_BEST := None, DB_UTXO_HEADS \<mapsto> vector_bytes (best @ flush_old_tip u))"
  have d: "distinct (map fst (uCache u))" using inv by (simp add: utxo_inv_def)
  have m: "?m (OutPoint_image a) = plain (uDB u) (OutPoint_image a)" using key_shapes(1,2) [OF a] by simp
  note E = fold_entry_effect_coin [of "take n (uCache u)" ?m a]
  note W = fold_entry_effect_coin [OF d, of ?m a]
  show ?thesis
  proof (cases "map_of (take n (uCache u)) a")
    case None
    then have "plain (flush_crash k best u) (OutPoint_image a) = plain (uDB u) (OutPoint_image a)"
      using 2(2) E m d by (simp add: distinct_take take_map [symmetric])
    then show ?thesis by (simp add: db_coin_def DBWrapper_Read_plain)
  next
    case (Some e)
    then have "plain (flush_crash k best u) (OutPoint_image a) = fold entry_effect (uCache u) ?m (OutPoint_image a)"
      using 2(2) E W m d map_of_take [OF d Some] by (simp add: distinct_take take_map [symmetric])
    then show ?thesis
      using entry_effect_view [OF inv a, of ?m] m by (simp add: db_coin_def DBWrapper_Read_plain)
  qed
qed simp

lemma flush_crash_leaf:
  assumes k: "k < length (flush_batches best u)" and inv: "utxo_inv u" and l: "wf_leaf leaf"
  shows "db_leaf (flush_crash k best u) leaf = db_leaf (uDB u) leaf"
proof (cases rule: flush_crash_cases [OF k])
  case (2 n)
  have "leaf_db_key leaf \<notin> OutPoint_image ` fst ` set (take n (uCache u))"
    using leaf_key_clear [OF inv l] by (auto dest: in_set_takeD)
  then show ?thesis
    using 2(2) key_shapes(3,4) [OF l] by (simp add: db_leaf_plain fold_entry_effect_other)
qed simp

lemma flush_crash_heads:
  assumes k: "k < length (flush_batches best u)" "0 < k" and inv: "utxo_inv u"
    and b: "is_bytes32 best" "is_bytes32 (flush_old_tip u)"
  shows "DBWrapper_Read (get_raw 32) DB_UTXO_BEST (flush_crash k best u) = None"
    "DBWrapper_Read get_vector DB_UTXO_HEADS (flush_crash k best u) = Some (best @ flush_old_tip u)"
proof -
  obtain n where p: "plain (flush_crash k best u) = fold entry_effect (take n (uCache u))
      ((plain (uDB u))(DB_UTXO_BEST := None, DB_UTXO_HEADS \<mapsto> vector_bytes (best @ flush_old_tip u)))"
    using flush_crash_cases [OF k(1)] k(2) by blast
  have "x \<notin> OutPoint_image ` fst ` set (take n (uCache u))" if "x = DB_UTXO_BEST \<or> x = DB_UTXO_HEADS" for x
    using that key_shapes(1,2) cache_keys_wf [OF inv] by (auto dest!: in_set_takeD)
  then show "DBWrapper_Read (get_raw 32) DB_UTXO_BEST (flush_crash k best u) = None"
    "DBWrapper_Read get_vector DB_UTXO_HEADS (flush_crash k best u) = Some (best @ flush_old_tip u)"
    using key_shapes(6) vector_value.decode_img [of "best @ flush_old_tip u"] b
    by (simp_all add: DBWrapper_Read_plain p fold_entry_effect_other)
qed

section \<open>Replaying blocks\<close>

lemma run_replay_leaf:
  assumes "utxo_inv u" and "is_bytes32 kps" and "distinct (map (NoiseLeafKey kps) ixs)"
    and "set (map (NoiseLeafKey kps) ixs) \<inter> set seen = {}"
  shows "\<exists>seen' u'. run_body (replay_leaf kps) ixs (seen, u) = (True, seen', u') \<and>
    set seen' = set seen \<union> set (map (NoiseLeafKey kps) ixs) \<and> utxo_inv u' \<and>
    coin_view u' = coin_view u \<and> leaf_view u' = leaf_view u \<union> set (map (NoiseLeafKey kps) ixs)"
  using assms
proof (induction ixs arbitrary: seen u)
  case (Cons i ixs)
  let ?k = "NoiseLeafKey kps i"
  let ?u = "MarkNoiseLeafSpentLocked ?k u"
  have k: "?k \<notin> set seen" "?k \<notin> NoiseLeafKey kps ` set ixs" using Cons.prems by auto
  have "run_body (replay_leaf kps) (i # ixs) (seen, u) = run_body (replay_leaf kps) ixs (List.insert ?k seen, ?u)"
    using k by (simp add: replay_leaf_def Let_def)
  moreover have "utxo_inv ?u" "coin_view ?u = coin_view u" "leaf_view ?u = insert ?k (leaf_view u)"
    using Cons.prems by (simp_all add: view_simps inv_intros)
  ultimately show ?case using Cons.IH [of ?u "List.insert ?k seen"] Cons.prems k by auto
qed simp

lemma replay_inputs_refines:
  assumes "utxo_inv u" and "\<forall>i \<in> set inputs. wf_TxInput i \<and> proofs_parse i"
    and "distinct (concat (map leaf_keys inputs))" and "set (concat (map leaf_keys inputs)) \<inter> set seen = {}"
  shows "\<exists>u'. replay_inputs inputs seen u = (True, u') \<and> utxo_inv u' \<and>
    coin_view u' = coin_view u |` (- input_outpoint ` set inputs) \<and>
    leaf_view u' = leaf_view u \<union> set (concat (map leaf_keys inputs))"
  using assms
proof (induction inputs arbitrary: seen u)
  case (Cons i inputs)
  let ?u = "SpendCoinIfPresentLocked (input_outpoint i) u"
  have "wf_outpoint (input_outpoint i)" "is_bytes32 (mKps i)"
    using Cons.prems by (auto simp: wf_TxInput_def input_outpoint_def)
  note w = this
  note S = SpendIfPresent_refines [OF Cons.prems(1) w(1)]
  obtain seen' u' where r: "run_body (replay_leaf (mKps i)) (snd (idx_list (mNoiseProof i) 0)) (seen, ?u) = (True, seen', u')"
    and r': "set seen' = set seen \<union> set (leaf_keys i)" "utxo_inv u'" "coin_view u' = coin_view ?u"
      "leaf_view u' = leaf_view ?u \<union> set (leaf_keys i)"
    using run_replay_leaf [of ?u "mKps i" "snd (idx_list (mNoiseProof i) 0)" seen, folded leaf_keys_def] S w(2) Cons.prems
    by auto
  have step: "replay_inputs (i # inputs) seen u = replay_inputs inputs seen' u'"
  proof (cases "mNoiseProof i = []")
    case True
    then have "seen' = seen" "u' = ?u" using r by simp_all
    with True show ?thesis by (simp add: Let_def)
  next
    case False
    then show ?thesis
      using r Cons.prems(2) by (simp add: Let_def proof_loop_run proofs_parse_def)
  qed
  have "set (concat (map leaf_keys inputs)) \<inter> set seen' = {}" using Cons.prems(3,4) r'(1) by auto
  then obtain v where v: "replay_inputs inputs seen' u' = (True, v)" "utxo_inv v"
    "coin_view v = coin_view u' |` (- input_outpoint ` set inputs)"
    "leaf_view v = leaf_view u' \<union> set (concat (map leaf_keys inputs))"
    using Cons.IH [OF r'(2), of seen'] Cons.prems(2,3) by auto
  moreover have "coin_view v = coin_view u |` (- input_outpoint ` set (i # inputs))"
    using v(3) r'(3) S by (simp add: restrict_map_drop del: fun_upd_apply restrict_fun_upd)
  ultimately show ?case using step r'(4) S by auto
qed simp

lemma replay_outputs_eq: "replay_outputs h ht cb i outs u = add_outputs h ht cb i outs u"
  by (induction outs arbitrary: i u) (simp_all add: AddCoinOverwriteLocked_def split: option.splits)

definition ledger_replay :: "Transaction \<Rightarrow> u32 \<Rightarrow> bool \<Rightarrow> coin_map \<Rightarrow> coin_map" where
  "ledger_replay tx ht cb m = (if cb then m else m |` (- spends tx)) ++ created tx ht cb"

lemma ApplyTransactionForReplay_refines:
  assumes inv: "utxo_inv u" and wf: "wf_Transaction tx"
    and p: "\<not> cb \<Longrightarrow> (\<forall>i \<in> set (mInputs tx). proofs_parse i) \<and> distinct (tx_leaf_keys tx)"
  shows "\<exists>u'. ApplyTransactionForReplay tx ht cb u = (True, u') \<and> utxo_inv u' \<and>
    coin_view u' = ledger_replay tx ht cb (coin_view u) \<and>
    leaf_view u' = leaf_view u \<union> (if cb then {} else set (tx_leaf_keys tx))"
proof -
  obtain u1 where u1: "(if \<not> cb then replay_inputs (mInputs tx) [] u else (True, u)) = (True, u1)" "utxo_inv u1"
    "coin_view u1 = (if cb then coin_view u else coin_view u |` (- spends tx))"
    "leaf_view u1 = leaf_view u \<union> (if cb then {} else set (tx_leaf_keys tx))"
    using replay_inputs_refines [OF inv, of "mInputs tx" "[]"] p wf inv
    by (cases cb) (auto simp: tx_leaf_keys_def spends_def wf_Transaction_def)
  have o: "\<forall>out \<in> set (mOutputs tx). wf_TxOutput out" using wf by (simp add: wf_Transaction_def)
  show ?thesis
    using add_outputs_refines [OF u1(2) length_GetHash [OF wf] o, of ht cb 0] u1(1,3,4)
    by (simp add: ApplyTransactionForReplay_def replay_outputs_eq ledger_replay_def created_def)
qed

text \<open>Blocks as sequences of transactions with their height and coinbase flag.\<close>

type_synonym tx_at = "Transaction \<times> u32 \<times> bool"

fun apply_txs :: "tx_at list \<Rightarrow> UTXOSet \<Rightarrow> UTXOSet option" where
  "apply_txs [] u = Some u"
| "apply_txs ((tx, ht, cb) # txs) u = (case ApplyTransaction tx ht cb u of
     (True, spent, u') \<Rightarrow> apply_txs txs u'
   | (False, spent, u') \<Rightarrow> None)"

fun replay_txs :: "tx_at list \<Rightarrow> UTXOSet \<Rightarrow> UTXOSet option" where
  "replay_txs [] u = Some u"
| "replay_txs ((tx, ht, cb) # txs) u = (case ApplyTransactionForReplay tx ht cb u of
     (True, u') \<Rightarrow> replay_txs txs u'
   | (False, u') \<Rightarrow> None)"

fun ledger_replays :: "tx_at list \<Rightarrow> coin_map \<Rightarrow> coin_map" where
  "ledger_replays [] m = m"
| "ledger_replays ((tx, ht, cb) # txs) m = ledger_replays txs (ledger_replay tx ht cb m)"

definition all_leaves :: "tx_at list \<Rightarrow> NoiseLeafKey set" where
  "all_leaves txs = (\<Union>(tx, ht, cb) \<in> set txs. if cb then {} else set (tx_leaf_keys tx))"

definition replayable :: "tx_at list \<Rightarrow> bool" where
  "replayable txs \<longleftrightarrow> (\<forall>(tx, ht, cb) \<in> set txs. wf_Transaction tx \<and>
     (\<not> cb \<longrightarrow> (\<forall>i \<in> set (mInputs tx). proofs_parse i) \<and> distinct (tx_leaf_keys tx)))"

text \<open>A replayed transaction sets each outpoint it touches to a value that does not depend on the set.\<close>

lemma ledger_replay_agree:
  "m a = m' a \<Longrightarrow> ledger_replay tx ht cb m a = ledger_replay tx ht cb m' a"
  by (cases cb) (simp_all add: ledger_replay_def map_add_def restrict_map_def split: option.split)

lemma ledger_replay_fixes:
  "ledger_replay tx ht cb m a \<noteq> m a \<Longrightarrow> ledger_replay tx ht cb m' a = ledger_replay tx ht cb m a"
  by (cases cb) (auto simp: ledger_replay_def map_add_def restrict_map_def split: option.splits if_splits)

lemma ledger_replays_agree: "m a = m' a \<Longrightarrow> ledger_replays txs m a = ledger_replays txs m' a"
proof (induction txs arbitrary: m m')
  case (Cons x txs)
  obtain tx ht cb where x: "x = (tx, ht, cb)" by (cases x)
  have "ledger_replay tx ht cb m a = ledger_replay tx ht cb m' a"
    by (rule ledger_replay_agree [where m = m and m' = m']) (rule Cons.prems)
  from Cons.IH [of "ledger_replay tx ht cb m" "ledger_replay tx ht cb m'", OF this] show ?case by (simp add: x)
qed simp

lemma ledger_replays_fixes:
  "ledger_replays txs m a \<noteq> m a \<Longrightarrow> ledger_replays txs m' a = ledger_replays txs m a"
proof (induction txs arbitrary: m m')
  case (Cons x txs)
  obtain tx ht cb where x: "x = (tx, ht, cb)" by (cases x)
  show ?case
  proof (cases "ledger_replay tx ht cb m a = m a")
    case True
    then show ?thesis
      using Cons.IH [of "ledger_replay tx ht cb m" "ledger_replay tx ht cb m'"] Cons.prems by (simp add: x)
  next
    case False
    have "ledger_replay tx ht cb m' a = ledger_replay tx ht cb m a" by (rule ledger_replay_fixes [OF False])
    from ledger_replays_agree [of "ledger_replay tx ht cb m'" a "ledger_replay tx ht cb m", OF this]
    show ?thesis by (simp add: x)
  qed
qed simp

lemma ledger_replays_recover:
  assumes "m a = m0 a \<or> m a = ledger_replays txs m0 a"
  shows "ledger_replays txs m a = ledger_replays txs m0 a"
proof (cases "ledger_replays txs m0 a = m0 a")
  case True
  then have "m a = m0 a" using assms by simp
  then show ?thesis by (rule ledger_replays_agree)
next
  case False
  then show ?thesis by (rule ledger_replays_fixes)
qed

lemma apply_txs_spec:
  assumes "apply_txs txs u = Some u'" and "utxo_inv u" and "\<forall>(tx, ht, cb) \<in> set txs. wf_Transaction tx"
  shows "utxo_inv u' \<and> coin_view u' = ledger_replays txs (coin_view u) \<and> leaf_view u' = leaf_view u \<union> all_leaves txs \<and>
    replayable txs"
  using assms
proof (induction txs arbitrary: u)
  case (Cons x txs)
  obtain tx ht cb where x: "x = (tx, ht, cb)" by (cases x)
  obtain spent u1 where a: "ApplyTransaction tx ht cb u = (True, spent, u1)" and r: "apply_txs txs u1 = Some u'"
    using Cons.prems(1) x by (auto split: prod.splits bool.splits)
  have wf: "wf_Transaction tx" using Cons.prems x by simp
  note L = utxo.app_success [OF Cons.prems(2) wf a]
  have s: "coin_view u1 = ledger_replay tx ht cb (coin_view u)"
    "leaf_view u1 = leaf_view u \<union> (if cb then {} else set (tx_leaf_keys tx))"
    "\<not> cb \<longrightarrow> (\<forall>i \<in> set (mInputs tx). proofs_parse i) \<and> distinct (tx_leaf_keys tx)"
    using L by (auto simp: ledger_apply_def ledger_replay_def split: if_splits)
  show ?case
    using Cons.IH [OF r] L Cons.prems(3) x s wf by (auto simp: all_leaves_def replayable_def)
qed (simp add: all_leaves_def replayable_def)

lemma replay_txs_spec:
  assumes "replayable txs" and "utxo_inv u"
  shows "\<exists>u'. replay_txs txs u = Some u' \<and> utxo_inv u' \<and> coin_view u' = ledger_replays txs (coin_view u) \<and>
    leaf_view u' = leaf_view u \<union> all_leaves txs"
  using assms
proof (induction txs arbitrary: u)
  case (Cons x txs)
  obtain tx ht cb where x: "x = (tx, ht, cb)" by (cases x)
  obtain u1 where u1: "ApplyTransactionForReplay tx ht cb u = (True, u1)" "utxo_inv u1"
    "coin_view u1 = ledger_replay tx ht cb (coin_view u)"
    "leaf_view u1 = leaf_view u \<union> (if cb then {} else set (tx_leaf_keys tx))"
    using ApplyTransactionForReplay_refines [OF Cons.prems(2), of tx cb ht] Cons.prems(1) x
    by (auto simp: replayable_def)
  have "replayable txs" using Cons.prems(1) by (simp add: replayable_def)
  from Cons.IH [OF this u1(2)] u1 x show ?case by (auto simp: all_leaves_def)
qed (simp add: all_leaves_def)

section \<open>Recovery\<close>

lemma flush_old_tip_length: "is_bytes32 (flush_old_tip u)"
proof -
  have "length h = 32" if "DBWrapper_Read (get_raw 32) k db = Some h" for h k db
    using that
    by (auto simp: DBWrapper_Read_plain bind_eq_Some_conv decode_def get_raw_def ReadRaw_def split: if_splits)
  then show ?thesis
    by (auto simp: flush_old_tip_def ReadHeadBlocksLocked_def zero32_def split: option.splits if_splits)
qed

lemma fold_keeps: "(\<And>x u. f (g x u) = f u) \<Longrightarrow> f (fold g xs u) = f u"
  by (induction xs arbitrary: u) simp_all

lemma ApplyTransaction_DB:
  assumes "ApplyTransaction tx ht cb u = (ok, spent, u')"
  shows "uDB u' = uDB u"
proof -
  have p: "uDB (cache_put a e u) = uDB u" for a e u by (simp add: cache_put_def)
  have s: "uDB (apply_spend x u) = uDB u" for x u by (simp add: apply_spend_def p split: prod.split option.split)
  have o: "uDB (add_outputs h ht cb i outs u) = uDB u" for h i outs u
    by (induction outs arbitrary: i u) (simp_all add: p split: option.split)
  have "uDB (MarkNoiseLeafSpentLocked l u) = uDB u" for l u by (simp add: MarkNoiseLeafSpentLocked_def)
  then have f: "uDB (fold MarkNoiseLeafSpentLocked ls (fold apply_spend xs u)) = uDB u" for ls xs u
    by (simp add: fold_keeps [where f = uDB] s)
  show ?thesis using assms by (auto simp: ApplyTransaction_def Let_def o f split: option.splits)
qed

lemma apply_txs_DB: "apply_txs txs u = Some u' \<Longrightarrow> uDB u' = uDB u"
proof (induction txs arbitrary: u)
  case (Cons x txs)
  obtain tx ht cb where x: "x = (tx, ht, cb)" by (cases x)
  obtain spent u1 where "ApplyTransaction tx ht cb u = (True, spent, u1)" "apply_txs txs u1 = Some u'"
    using Cons.prems x by (auto split: prod.splits bool.splits)
  then show ?case using Cons.IH ApplyTransaction_DB by metis
qed simp

lemma open_view: "utxo_inv (UTXOSet_open db) \<Longrightarrow> wf_outpoint a \<Longrightarrow> coin_view (UTXOSet_open db) a = db_coin db a"
  by (auto simp: coin_view_def GetCoin_def UTXOSet_open_def utxo_inv_def split: option.splits)


definition sample_disk :: DBWrapper where
  "sample_disk = uDB (Flush sample_utxo)"

lemma sample_disk_views:
  "utxo_inv (UTXOSet_open sample_disk)" "coin_view (UTXOSet_open sample_disk) = [sample_outpoint \<mapsto> sample_coin]"
  "leaf_view (UTXOSet_open sample_disk) = {}"
  using reopened_views [OF FlushCache_coin [OF sample_utxo_views(1)] FlushCache_leaf [OF sample_utxo_views(1)]
      sample_utxo_views(1)] sample_utxo_views(2,3)
  by (simp_all add: sample_disk_def Flush_def)

lemma sample_apply:
  "\<exists>u. apply_txs [(sample_spend, 9, False)] (UTXOSet_open sample_disk) = Some u"
  using utxo.app_refines [OF sample_disk_views(1) sample_spend_facts(1), of 9 False]
    sample_ledger sample_disk_views(2,3) sample_utxo_views(2,3) by auto


section \<open>Reorganisations\<close>

text \<open>
  Histories of a running node: transactions are connected and refused, the most recent one
  is disconnected with its undo coins, and the cache is flushed, in any order. The log is
  the stack of connected transactions with their spent coins.
\<close>

inductive utxo_run :: "UTXOSet \<Rightarrow> (Transaction \<times> Coin list) list \<Rightarrow> UTXOSet \<Rightarrow> bool" for u0 where
  start: "utxo_run u0 [] u0"
| connect: "utxo_run u0 log u \<Longrightarrow> wf_Transaction tx \<Longrightarrow> distinct (map input_outpoint (mInputs tx)) \<Longrightarrow>
    fresh_outputs tx (coin_view u) \<Longrightarrow> ApplyTransaction tx ht (IsCoinbase tx) u = (True, spent, u') \<Longrightarrow>
    utxo_run u0 ((tx, spent) # log) u'"
| refuse: "utxo_run u0 log u \<Longrightarrow> wf_Transaction tx \<Longrightarrow> ApplyTransaction tx ht cb u = (False, spent, u') \<Longrightarrow>
    utxo_run u0 log u'"
| disconnect: "utxo_run u0 ((tx, spent) # log) u \<Longrightarrow> UndoTransaction tx spent u = (ok, u') \<Longrightarrow> utxo_run u0 log u'"
| flush: "utxo_run u0 log u \<Longrightarrow> utxo_run u0 log (FlushCache best u)"

fun log_views :: "coin_map \<Rightarrow> NoiseLeafKey set \<Rightarrow> (Transaction \<times> Coin list) list \<Rightarrow> coin_map \<Rightarrow> NoiseLeafKey set \<Rightarrow> bool" where
  "log_views m0 L0 [] m L \<longleftrightarrow> m = m0 \<and> L = L0"
| "log_views m0 L0 ((tx, spent) # log) m L \<longleftrightarrow> (\<exists>m' L' ht. log_views m0 L0 log m' L' \<and> wf_Transaction tx \<and>
     distinct (map input_outpoint (mInputs tx)) \<and> fresh_outputs tx m' \<and>
     (\<forall>c \<in> set spent. wf_Coin c \<and> \<not> cIsSpent c) \<and>
     ledger_apply tx ht (IsCoinbase tx) m' L' = Some (spent, m, L))"

definition log_leaves :: "(Transaction \<times> Coin list) list \<Rightarrow> NoiseLeafKey list" where
  "log_leaves log = concat (map (\<lambda>(tx, spent). if IsCoinbase tx then [] else tx_leaf_keys tx) log)"

lemma log_leaves_simps [simp]:
  "log_leaves [] = []"
  "log_leaves ((tx, spent) # log) = (if IsCoinbase tx then [] else tx_leaf_keys tx) @ log_leaves log"
  by (simp_all add: log_leaves_def)

lemma log_views_leaves:
  "log_views m0 L0 log m L \<Longrightarrow> distinct (log_leaves log) \<and> set (log_leaves log) \<inter> L0 = {} \<and> L = L0 \<union> set (log_leaves log)"
proof (induction log arbitrary: m L)
  case (Cons x log)
  obtain tx spent where x: "x = (tx, spent)" by (cases x)
  obtain m' L' ht where v: "log_views m0 L0 log m' L'" and a: "ledger_apply tx ht (IsCoinbase tx) m' L' = Some (spent, m, L)"
    using Cons.prems x by auto
  show ?case
    using Cons.IH [OF v] a by (auto simp: x ledger_apply_def split: if_splits)
qed simp

lemma ledger_apply_spent:
  "ledger_apply tx ht (IsCoinbase tx) m L = Some (spent, m', L') \<Longrightarrow> \<not> IsCoinbase tx \<Longrightarrow>
   length spent = length (mInputs tx) \<and> (\<forall>i \<in> set (mInputs tx). proofs_parse i)"
  by (auto simp: ledger_apply_def split: if_splits)

lemma utxo_run_views:
  assumes "utxo_run u0 log u" and "utxo_inv u0"
  shows "utxo_inv u \<and> log_views (coin_view u0) (leaf_view u0) log (coin_view u) (leaf_view u)"
  using assms
proof (induction rule: utxo_run.induct)
  case (connect log u tx ht spent u')
  then have i: "utxo_inv u" by simp
  note A = utxo.app_success [OF i connect.hyps(2,5)]
  have "\<forall>c \<in> set spent. wf_Coin c \<and> \<not> cIsSpent c"
    using A utxo.coins_wf [OF i] by (auto simp: ledger_apply_def split: if_splits)
  then show ?case using connect A by auto
next
  case (refuse log u tx ht cb spent u')
  then show ?case using utxo.app_failure [of u tx ht cb spent u'] by simp
next
  case (disconnect tx spent log u ok u')
  then obtain m' L' ht where v: "log_views (coin_view u0) (leaf_view u0) log m' L'"
    and w: "wf_Transaction tx" "distinct (map input_outpoint (mInputs tx))" "fresh_outputs tx m'"
      "\<forall>c \<in> set spent. wf_Coin c \<and> \<not> cIsSpent c"
    and a: "ledger_apply tx ht (IsCoinbase tx) m' L' = Some (spent, coin_view u, leaf_view u)" and i: "utxo_inv u"
    by auto
  have "\<exists>u'. UndoTransaction tx spent u = (True, u') \<and>
      (coin_view u', leaf_view u') = ledger_undo tx spent (coin_view u) (leaf_view u) \<and> utxo_inv u'"
    by (rule utxo.undo_refines [OF i w(1)]) (use ledger_apply_spent [OF a] w(4) in auto)
  then show ?case using disconnect.hyps(2) ledger_undo_apply [OF a w(2,3)] v by auto
next
  case (flush log u best)
  then show ?case by (simp add: FlushCache_views FlushCache_inv)
qed simp



end
