(* ===== verification/Utxo_Query.thy ===== *)
theory Utxo_Query
  imports Utxo_Flush
begin

text \<open>
  Queries over the cache and the database of a UTXO set: the coin listings and the balance
  are exactly the coins of the set, and the search for the highest consumed noise leaf sees
  the leaves held in memory only.
\<close>

section \<open>The database scan\<close>

lemma le32_byte:
  fixes b0 b1 b2 b3 :: byte
  defines "v \<equiv> (ucast b0 OR push_bit 8 (ucast b1) OR push_bit 16 (ucast b2) OR push_bit 24 (ucast b3)) :: u32"
  shows "WriteLE32 v = [b0, b1, b2, b3]"
  unfolding WriteLE32_def v_def
  by (simp add: FF_eq_mask del: mask_numeral)
    (intro conjI bit_word_eqI; auto simp: bit_simps simp del: mask_numeral dest: bit_imp_le_length)

lemma set_map_filter: "y \<in> set (List.map_filter f xs) \<longleftrightarrow> (\<exists>x \<in> set xs. f x = Some y)"
  by (induction xs) (auto simp: map_filter_simps split: option.splits)

lemma GetKey_OutPoint:
  "DBIterator_GetKey sizeof_OutPoint get_OutPoint k = Some a \<longleftrightarrow> wf_outpoint a \<and> OutPoint_image a = k"
proof
  assume a: "wf_outpoint a \<and> OutPoint_image a = k"
  then show "DBIterator_GetKey sizeof_OutPoint get_OutPoint k = Some a"
    using outpoint_key.GetKey_img [of a 36] OutPoint_image_length [of a] by (auto simp: sizeof_OutPoint_def)
next
  assume g: "DBIterator_GetKey sizeof_OutPoint get_OutPoint k = Some a"
  then have l: "length k = 36" by (auto simp: DBIterator_GetKey_def sizeof_OutPoint_def split: if_splits)
  define h where "h = take 32 k"
  have "\<exists>b0 b1 b2 b3. t = [b0, b1, b2, b3]" if "length t = Suc (Suc (Suc (Suc 0)))" for t :: "byte list"
    using that by (auto simp: length_Suc_conv)
  then obtain b0 b1 b2 b3 where d: "drop 32 k = [b0, b1, b2, b3]" using l by fastforce
  define i where "i = (ucast b0 OR push_bit 8 (ucast b1) OR push_bit 16 (ucast b2) OR push_bit 24 (ucast b3) :: u32)"
  have "k = h @ WriteLE32 i" unfolding i_def le32_byte h_def d [symmetric] by simp
  then have k: "k = OutPoint_image (OutPoint h i)" "wf_outpoint (OutPoint h i)"
    using l by (simp_all add: OutPoint_image_def h_def)
  then have "DBIterator_GetKey sizeof_OutPoint get_OutPoint k = Some (OutPoint h i)"
    using outpoint_key.GetKey_img [OF k(2), of 36] l by (simp add: sizeof_OutPoint_def)
  with g k show "wf_outpoint a \<and> OutPoint_image a = k" by simp
qed

lemma GetValue_decode: "DBIterator_GetValue get db v = decode get (mData (record_stream (mObfuscateKey db) v))"
  by (simp add: DBIterator_GetValue_def decode_def flip: record_stream_eq)

definition distinct_keys :: "DBWrapper \<Rightarrow> bool" where
  "distinct_keys db \<longleftrightarrow> distinct (map fst (mKV db))"

lemma ldb_sorted_distinct: "ldb_sorted (mKV db) \<Longrightarrow> distinct_keys db"
  unfolding distinct_keys_def ldb_sorted_def by (simp add: strict_sorted_iff)

lemma scan_entry_iff:
  "scan_entry db kv = Some (a, c) \<longleftrightarrow> wf_outpoint a \<and> OutPoint_image a = fst kv \<and>
     decode get_Coin (mData (record_stream (mObfuscateKey db) (snd kv))) = Some c"
  using GetKey_OutPoint [of "fst kv" a]
  by (auto simp: scan_entry_def GetValue_decode split: option.splits)

lemma db_scan_set:
  assumes "distinct_keys db"
  shows "(a, c) \<in> set (db_scan db) \<longleftrightarrow> wf_outpoint a \<and> db_coin db a = Some c"
proof -
  have "(a, c) \<in> set (db_scan db) \<longleftrightarrow> (\<exists>v. (OutPoint_image a, v) \<in> set (mKV db) \<and> wf_outpoint a \<and>
      decode get_Coin (mData (record_stream (mObfuscateKey db) v)) = Some c)"
    unfolding db_scan_def set_map_filter scan_entry_iff by force
  also have "\<dots> \<longleftrightarrow> wf_outpoint a \<and> db_coin db a = Some c"
    using assms
    by (auto simp: db_coin_def DBWrapper_Read_plain plain_def ldb_Get_def distinct_keys_def bind_eq_Some_conv)
  finally show ?thesis .
qed

lemma db_scan_distinct:
  assumes "distinct_keys db"
  shows "distinct (map fst (db_scan db))"
proof -
  have "distinct (map fst (List.map_filter (scan_entry db) kvs))" if "distinct (map fst kvs)" for kvs
    using that
  proof (induction kvs)
    case (Cons kv kvs)
    have n: "fst kv \<notin> fst ` set kvs" "distinct (map fst (List.map_filter (scan_entry db) kvs))" using Cons by auto
    show ?case
    proof (cases "scan_entry db kv")
      case (Some ac)
      obtain a c where ac: "ac = (a, c)" by (cases ac)
      have "a \<notin> fst ` set (List.map_filter (scan_entry db) kvs)"
      proof
        assume "a \<in> fst ` set (List.map_filter (scan_entry db) kvs)"
        then obtain c' where "(a, c') \<in> set (List.map_filter (scan_entry db) kvs)" by auto
        then obtain kv' where "kv' \<in> set kvs" "scan_entry db kv' = Some (a, c')" unfolding set_map_filter by blast
        then have "fst kv' = fst kv" "kv' \<in> set kvs" using Some ac by (auto simp: scan_entry_iff)
        then show False using n(1) by (metis imageI)
      qed
      then show ?thesis using n(2) Some ac by (simp add: map_filter_simps)
    qed (use n(2) in \<open>simp add: map_filter_simps\<close>)
  qed (simp add: map_filter_simps)
  then show ?thesis using assms by (simp add: db_scan_def distinct_keys_def)
qed

section \<open>Listings and balance\<close>

lemma map_fst_filter_distinct: "distinct (map fst xs) \<Longrightarrow> distinct (map fst (filter P xs))"
  by (induction xs) auto

definition live_coins :: "(Coin \<Rightarrow> bool) \<Rightarrow> UTXOMap \<Rightarrow> (OutPoint \<times> Coin) list" where
  "live_coins P es = List.map_filter
     (\<lambda>(outpoint, e). if \<not> cIsSpent (eCoin e) \<and> P (eCoin e) then Some (outpoint, eCoin e) else None) es"

lemma live_coins_simps [simp]:
  "live_coins P [] = []"
  "live_coins P ((a, e) # es) =
     (if \<not> cIsSpent (eCoin e) \<and> P (eCoin e) then [(a, eCoin e)] else []) @ live_coins P es"
  by (simp_all add: live_coins_def map_filter_simps)

lemma live_coins_set: "(a, c) \<in> set (live_coins P es) \<longleftrightarrow> (\<exists>e. (a, e) \<in> set es \<and> \<not> cIsSpent (eCoin e) \<and> P (eCoin e) \<and> c = eCoin e)"
  by (induction es) auto

lemma live_coins_distinct: "distinct (map fst es) \<Longrightarrow> distinct (map fst (live_coins P es))"
proof (induction es)
  case (Cons x es)
  obtain a e where x: "x = (a, e)" by (cases x)
  have "a \<notin> fst ` set (live_coins P es)" using Cons.prems x live_coins_set [of a _ P es] by force
  then show ?case using Cons x by simp
qed simp

definition listing :: "(Coin \<Rightarrow> bool) \<Rightarrow> UTXOSet \<Rightarrow> (OutPoint \<times> Coin) list" where
  "listing P u = live_coins P (uCache u) @
     filter (\<lambda>(outpoint, coin). \<not> cIsSpent coin \<and> P coin \<and> map_of (uCache u) outpoint = None) (db_scan (uDB u))"

lemma GetUTXOsForAddress_listing: "GetUTXOsForAddress pk u = listing (\<lambda>c. cPubkeyHash c = pk) u"
  by (simp add: GetUTXOsForAddress_def listing_def live_coins_def)

lemma GetUTXOsForAddresses_listing: "GetUTXOsForAddresses pks u = (if pks = {} then [] else listing (\<lambda>c. cPubkeyHash c \<in> pks) u)"
  by (simp add: GetUTXOsForAddresses_def listing_def live_coins_def)

lemma listing_exact:
  assumes inv: "utxo_inv u" and dk: "distinct_keys (uDB u)"
  shows "distinct (map fst (listing P u))" "set (listing P u) = {(a, c). coin_view u a = Some c \<and> P c}"
proof -
  have d: "distinct (map fst (uCache u))" using inv by (simp add: utxo_inv_def)
  have m: "(a, e) \<in> set (uCache u) \<longleftrightarrow> map_of (uCache u) a = Some e" for a e using d by simp
  let ?db = "filter (\<lambda>(a, c). \<not> cIsSpent c \<and> P c \<and> map_of (uCache u) a = None) (db_scan (uDB u))"
  have "fst ` set (live_coins P (uCache u)) \<inter> fst ` set ?db = {}"
    using live_coins_set [of _ _ P "uCache u"] by (force simp: m)
  then show "distinct (map fst (listing P u))"
    using live_coins_distinct [OF d] map_fst_filter_distinct [OF db_scan_distinct [OF dk]] by (simp add: listing_def)
  have w: "map_of (uCache u) a = Some e \<Longrightarrow> wf_outpoint a" for a e using cache_entry_wf [OF inv] by simp
  have "(a, c) \<in> set (listing P u) \<longleftrightarrow> coin_view u a = Some c \<and> P c" for a c
    unfolding listing_def set_append Un_iff live_coins_set set_filter mem_Collect_eq prod.case db_scan_set [OF dk] m
    using w [of a]
    by (cases "map_of (uCache u) a"; cases "db_coin (uDB u) a"; cases "wf_outpoint a")
      (auto simp: coin_view_def GetCoin_def split: if_splits)
  then show "set (listing P u) = {(a, c). coin_view u a = Some c \<and> P c}" by auto
qed

lemma GetBalance_listing: "GetBalance pk u = (\<Sum>(a, c) \<leftarrow> listing (\<lambda>c. cPubkeyHash c = pk) u. cValue c)"
proof -
  have c: "fold (\<lambda>(a, e) b. if \<not> cIsSpent (eCoin e) \<and> cPubkeyHash (eCoin e) = pk then b + cValue (eCoin e) else b) es s =
      s + (\<Sum>(a, c) \<leftarrow> live_coins (\<lambda>c. cPubkeyHash c = pk) es. cValue c)" for es s
    by (induction es arbitrary: s) auto
  have d: "fold (\<lambda>(a, c) b. if \<not> cIsSpent c \<and> cPubkeyHash c = pk then if map_of (uCache u) a = None then b + cValue c else b
        else b) xs s =
      s + (\<Sum>(a, c) \<leftarrow> filter (\<lambda>(a, c). \<not> cIsSpent c \<and> cPubkeyHash c = pk \<and> map_of (uCache u) a = None) xs. cValue c)" for xs s
    by (induction xs arbitrary: s) (auto split: if_splits)
  show ?thesis by (simp add: GetBalance_def listing_def c d Let_def)
qed


lemma sample_utxo_DB: "uDB sample_utxo = sample_db" "ldb_sorted (mKV sample_db)"
  by (simp_all add: sample_utxo_def AddCoin_def cache_put_def UTXOSet_open_def sample_db_def open_empty ldb_sorted_def
      split: option.splits)


section \<open>The highest consumed leaf\<close>

definition sizes :: "nat set" where
  "sizes = {1, 18, 36, 41}"

definition key_sizes :: "DBWrapper \<Rightarrow> bool" where
  "key_sizes db \<longleftrightarrow> (\<forall>kv \<in> set (mKV db). length (fst kv) \<in> sizes)"

definition batch_sizes :: "DBBatch \<Rightarrow> bool" where
  "batch_sizes b \<longleftrightarrow> (\<forall>k v. Put k v \<in> set (mBatch b) \<longrightarrow> length k \<in> sizes)"

lemma batch_sizes_simps [simp]:
  "batch_sizes DBBatch_init"
  "batch_sizes (DBBatch_Write obf k v b) \<longleftrightarrow> length k \<in> sizes \<and> batch_sizes b"
  "batch_sizes (DBBatch_Erase k b) \<longleftrightarrow> batch_sizes b"
  by (auto simp: batch_sizes_def DBBatch_init_def DBBatch_Write_def DBBatch_Erase_def Let_def)

lemma WriteBatch_sizes: "batch_sizes b \<Longrightarrow> key_sizes w \<Longrightarrow> key_sizes (DBWrapper_WriteBatch b w)"
proof -
  have p: "\<forall>kv \<in> set (ldb_put k v db). length (fst kv) \<in> sizes"
    if "\<forall>kv \<in> set db. length (fst kv) \<in> sizes" "length k \<in> sizes" for k v db
    using that by (induction k v db rule: ldb_put.induct) auto
  have "\<forall>kv \<in> set (fold ldb_apply ops db). length (fst kv) \<in> sizes"
    if "\<forall>kv \<in> set db. length (fst kv) \<in> sizes" "\<forall>k v. Put k v \<in> set ops \<longrightarrow> length k \<in> sizes" for ops db
    using that
  proof (induction ops arbitrary: db)
    case (Cons op ops)
    have "\<forall>kv \<in> set (ldb_apply op db). length (fst kv) \<in> sizes"
    proof (cases op)
      case (Put k v)
      then show ?thesis using p [OF Cons.prems(1), of k v] Cons.prems(2) by auto
    qed (use Cons.prems(1) in \<open>auto simp: ldb_delete_def\<close>)
    from Cons.IH [OF this] Cons.prems(2) show ?case by (metis fold_simps(2) list.set_intros(2))
  qed simp
  then show "batch_sizes b \<Longrightarrow> key_sizes w \<Longrightarrow> key_sizes (DBWrapper_WriteBatch b w)"
    by (simp add: DBWrapper_WriteBatch_def ldb_Write_def batch_sizes_def key_sizes_def)
qed

lemma fold_WriteBatch_sizes: "\<forall>b \<in> set bs. batch_sizes b \<Longrightarrow> key_sizes w \<Longrightarrow> key_sizes (fold DBWrapper_WriteBatch bs w)"
  by (induction bs arbitrary: w) (simp_all add: WriteBatch_sizes)

lemma flush_coin_sizes:
  assumes "fold (flush_coin obf) es (w, b, n) = (w', b', n')" and "\<forall>x \<in> set es. length (OutPoint_image (fst x)) \<in> sizes"
    and "\<forall>x \<in> set (w @ [b]). batch_sizes x"
  shows "\<forall>x \<in> set (w' @ [b']). batch_sizes x"
  using assms
proof (induction es arbitrary: w b n)
  case (Cons x es)
  obtain w1 b1 n1 where f: "flush_coin obf x (w, b, n) = (w1, b1, n1)" by (metis prod_cases3)
  then have "\<forall>x \<in> set (w1 @ [b1]). batch_sizes x"
    using Cons.prems(2,3) by (cases x) (auto simp: flush_coin_def Let_def split: if_splits)
  then show ?case using Cons.IH [of w1 b1 n1] Cons.prems f by simp
qed simp

lemma fold_leaf_sizes:
  "\<forall>l \<in> set ls. wf_leaf l \<Longrightarrow> batch_sizes b \<Longrightarrow>
   batch_sizes (fold (\<lambda>leaf. DBBatch_Write obf (leaf_db_key leaf) [1]) ls b)"
  "batch_sizes b \<Longrightarrow> batch_sizes (fold (\<lambda>leaf. DBBatch_Erase (leaf_db_key leaf)) ls b)"
  by (induction ls arbitrary: b) (simp_all add: string_key_length sizes_def)

lemma FlushCache_key_sizes:
  assumes inv: "utxo_inv u" and k: "key_sizes (uDB u)"
  shows "key_sizes (uDB (FlushCache best u))"
proof -
  let ?obf = "mObfuscateKey (uDB u)"
  obtain w b n where f: "fold (flush_coin ?obf) (uCache u) ([], DBBatch_init, 0) = (w, b, n)" by (metis prod_cases3)
  have "\<forall>x \<in> set (uCache u). length (OutPoint_image (fst x)) \<in> sizes"
    using OutPoint_image_length cache_keys_wf [OF inv] by (simp add: sizes_def)
  from flush_coin_sizes [OF f this] have "\<forall>x \<in> set (w @ [b]). batch_sizes x" by simp
  then have "\<forall>x \<in> set (flush_batches best u). batch_sizes x"
    using dirty_leaves_wf [OF inv]
    by (auto simp: flush_batches_def Let_def f fold_leaf_sizes sizes_def DB_UTXO_HEADS_def DB_UTXO_BEST_def)
  then show ?thesis using fold_WriteBatch_sizes [OF _ k] by (simp add: FlushCache_def)
qed

lemma highest_scan_stops:
  assumes "\<forall>kv \<in> set kvs. length (fst kv) \<noteq> sizeof_string"
  shows "highest_scan sizeof_string u kps kvs h = h"
  using assms by (cases kvs) (auto simp: DBIterator_GetKey_def split: prod.splits)

lemma consider_fold:
  "fold (\<lambda>key h. if lk_kps key = kps then consider_leaf u kps (lk_leafIndex key) h else h) ls h0 =
     fold (\<lambda>idx h. case h of None \<Rightarrow> Some idx | Some m \<Rightarrow> Some (max m idx))
       (map lk_leafIndex (filter (\<lambda>key. lk_kps key = kps \<and> key \<notin> set (uErasedLeafDirty u)) ls)) h0"
proof (induction ls arbitrary: h0)
  case (Cons key ls)
  then show ?case by (cases key) (auto simp: consider_leaf_def max_def split: option.splits)
qed simp

lemma fold_max:
  "fold (\<lambda>idx h. case h of None \<Rightarrow> Some idx | Some m \<Rightarrow> Some (max m idx)) is (Some m) = Some (Max (insert m (set is)))"
  for m :: u32
proof (induction "is" arbitrary: m)
  case (Cons a ys)
  have "Max (insert (max m a) (set ys)) = Max (insert m (insert a (set ys)))"
    by (cases "set ys = {}") (simp_all add: max.assoc)
  then show ?case using Cons by simp
qed simp

text \<open>
  \<open>GetHighestSpentNoiseLeaf\<close> answers from memory only: its database scan asks the
  iterator for a \<open>std::string\<close>, which \<open>GetKey\<close> refuses unless the stored key is exactly
  \<open>sizeof(std::string)\<close> bytes long, and no key of this database is. So the answer is the
  largest cached leaf of the KPS, and a freshly opened set answers that no leaf was spent.
\<close>

theorem GetHighestSpentNoiseLeaf_memory_only:
  assumes "utxo_inv u" and "key_sizes (uDB u)" and "sizeof_string \<notin> sizes"
  shows "GetHighestSpentNoiseLeaf sizeof_string kps u =
      (let I = lk_leafIndex ` {key \<in> set (uSpentLeafCache u). lk_kps key = kps} in if I = {} then None else Some (Max I)) \<and>
    GetHighestSpentNoiseLeaf sizeof_string kps (UTXOSet_open (uDB u)) = None"
proof -
  have n: "length (fst kv) \<noteq> sizeof_string" if "kv \<in> set (ldb_Seek k (mKV (uDB u)))" for kv k
  proof -
    have "kv \<in> set (mKV (uDB u))" using that by (auto simp: ldb_Seek_def dest: set_dropWhileD)
    then show ?thesis using assms(2,3) by (auto simp: key_sizes_def)
  qed
  let ?ls = "filter (\<lambda>key. lk_kps key = kps) (uSpentLeafCache u)"
  have "filter (\<lambda>key. lk_kps key = kps \<and> key \<notin> set (uErasedLeafDirty u)) (uSpentLeafCache u) = ?ls"
    using assms(1) by (intro filter_cong) (auto simp: utxo_inv_def)
  then have g: "GetHighestSpentNoiseLeaf sizeof_string kps u =
      fold (\<lambda>idx h. case h of None \<Rightarrow> Some idx | Some m \<Rightarrow> Some (max m idx)) (map lk_leafIndex ?ls) None"
    using n by (simp add: GetHighestSpentNoiseLeaf_def highest_scan_stops consider_fold)
  have "lk_leafIndex ` {key \<in> set (uSpentLeafCache u). lk_kps key = kps} = set (map lk_leafIndex ?ls)" by auto
  moreover have "fold (\<lambda>idx h. case h of None \<Rightarrow> Some idx | Some m \<Rightarrow> Some (max m idx)) is None =
      (if set is = {} then None else Some (Max (set is)))" for "is" :: "u32 list"
    by (cases "is") (simp_all add: fold_max)
  ultimately have "GetHighestSpentNoiseLeaf sizeof_string kps u =
      (let I = lk_leafIndex ` {key \<in> set (uSpentLeafCache u). lk_kps key = kps} in if I = {} then None else Some (Max I))"
    unfolding g Let_def by (simp add: filter_empty_conv)
  moreover have "GetHighestSpentNoiseLeaf sizeof_string kps (UTXOSet_open (uDB u)) = None"
    using n by (simp add: GetHighestSpentNoiseLeaf_def UTXOSet_open_def highest_scan_stops)
  ultimately show ?thesis by simp
qed

definition sample_leaf :: NoiseLeafKey where
  "sample_leaf = NoiseLeafKey (replicate 32 3) 5"

theorem GetHighestSpentNoiseLeaf_memory_only_witness:
  "GetHighestSpentNoiseLeaf 32 (replicate 32 3) (Flush (MarkNoiseLeafSpentLocked sample_leaf sample_utxo)) = Some 5 \<and>
   (let r = UTXOSet_open (uDB (Flush (MarkNoiseLeafSpentLocked sample_leaf sample_utxo)))
    in IsNoiseLeafSpentLocked sample_leaf r \<and> GetHighestSpentNoiseLeaf 32 (replicate 32 3) r = None)"
proof -
  let ?m = "MarkNoiseLeafSpentLocked sample_leaf sample_utxo"
  let ?u = "Flush ?m"
  have w: "wf_leaf sample_leaf" by (simp add: sample_leaf_def)
  have i: "utxo_inv ?m" "leaf_view ?m = {sample_leaf}"
    using w sample_utxo_views by (simp_all add: inv_intros view_simps)
  have "key_sizes sample_db"
    by (simp add: key_sizes_def sample_db_def open_empty sizes_def string_bytes_eq OBFUSCATE_KEY_KEY_def)
  then have k: "key_sizes (uDB ?u)"
    unfolding Flush_def by (intro FlushCache_key_sizes [OF i(1)]) (simp add: MarkNoiseLeafSpentLocked_def sample_utxo_DB)
  have "leaf_view (UTXOSet_open (uDB ?u)) = {sample_leaf}"
    using reopened_views(2) [OF FlushCache_coin [OF i(1)] FlushCache_leaf [OF i(1)] i(1)] i(2) by (simp add: Flush_def)
  then have "IsNoiseLeafSpentLocked sample_leaf (UTXOSet_open (uDB ?u))" by (auto simp: leaf_view_def)
  moreover have "uSpentLeafCache ?u = [sample_leaf]"
    by (simp add: Flush_def FlushCache_fields MarkNoiseLeafSpentLocked_def sample_utxo_def AddCoin_def cache_put_def
        UTXOSet_open_def split: option.splits)
  moreover have "utxo_inv ?u" using FlushCache_inv [OF i(1)] by (simp add: Flush_def)
  ultimately show ?thesis
    using GetHighestSpentNoiseLeaf_memory_only [OF _ k, of 32 "replicate 32 3"]
    by (simp add: Let_def sizes_def sample_leaf_def Collect_conv_if)
qed

end
