(* ===== verification/Tx_Validation.thy ===== *)
theory Tx_Validation
  imports Utxo_Ledger
begin

text \<open>
  Transaction validation, \<open>src/src/validation/tx_validation.cpp\<close>: the context-free checks,
  the checks against the UTXO set, signatures with noise proofs, and fees. A check that
  returns \<open>false\<close> has called \<open>SetInvalid\<close> exactly once, on a fresh state, so a check is a
  computation that throws, rejects with that state, or accepts.
\<close>

section \<open>Verdicts\<close>

datatype ('s, 'a) verdict = Throws fault | Rejects 's | Accepts 'a

fun vbind :: "('s, 'a) verdict \<Rightarrow> ('a \<Rightarrow> ('s, 'b) verdict) \<Rightarrow> ('s, 'b) verdict" where
  "vbind (Throws e) k = Throws e"
| "vbind (Rejects s) k = Rejects s"
| "vbind (Accepts a) k = k a"

definition reject_if :: "bool \<Rightarrow> 's \<Rightarrow> ('s, 'a) verdict \<Rightarrow> ('s, 'a) verdict" where
  "reject_if c s k = (if c then Rejects s else k)"

definition vlift :: "'a result \<Rightarrow> ('s, 'a) verdict" where
  "vlift r = (case r of Inl e \<Rightarrow> Throws e | Inr a \<Rightarrow> Accepts a)"

text \<open>\<open>catch (const std::exception&)\<close>; a read outside a buffer is no exception.\<close>

definition caught :: "'a result \<Rightarrow> 's \<Rightarrow> ('a \<Rightarrow> ('s, 'b) verdict) \<Rightarrow> ('s, 'b) verdict" where
  "caught r s k = (case r of Inl OutOfBounds \<Rightarrow> Throws OutOfBounds | Inl _ \<Rightarrow> Rejects s | Inr a \<Rightarrow> k a)"

lemma vbind_Accepts_iff [simp]: "vbind m k = Accepts b \<longleftrightarrow> (\<exists>a. m = Accepts a \<and> k a = Accepts b)"
  by (cases m) auto

lemma reject_if_Accepts_iff [simp]: "reject_if c s k = Accepts a \<longleftrightarrow> \<not> c \<and> k = Accepts a"
  by (simp add: reject_if_def)

lemma vlift_Accepts_iff [simp]: "vlift r = Accepts a \<longleftrightarrow> r = Inr a"
  by (cases r) (simp_all add: vlift_def)

lemma caught_Accepts_iff [simp]: "caught r s k = Accepts b \<longleftrightarrow> (\<exists>a. r = Inr a \<and> k a = Accepts b)"
  by (auto simp: caught_def split: sum.splits fault.splits)

text \<open>Computations that cannot throw.\<close>

definition quiet :: "('s, 'a) verdict \<Rightarrow> bool" where
  "quiet m \<longleftrightarrow> (\<forall>e. m \<noteq> Throws e)"

lemma quiet_simps [simp]:
  "quiet (Accepts a)" "quiet (Rejects s)" "\<not> quiet (Throws e)"
  "quiet (reject_if c s k) \<longleftrightarrow> (\<not> c \<longrightarrow> quiet k)" "quiet (vlift (Inr a))"
  by (simp_all add: quiet_def reject_if_def vlift_def)

lemma quiet_vbind [intro]: "quiet m \<Longrightarrow> (\<And>a. m = Accepts a \<Longrightarrow> quiet (k a)) \<Longrightarrow> quiet (vbind m k)"
  by (cases m) auto

lemma quiet_caught: "r \<noteq> Inl OutOfBounds \<Longrightarrow> (\<And>a. r = Inr a \<Longrightarrow> quiet (k a)) \<Longrightarrow> quiet (caught r s k)"
  by (auto simp: caught_def split: sum.splits fault.splits)

section \<open>Results\<close>

datatype TxValidationResult =
    VALID
  | INVALID_EMPTY_INPUTS
  | INVALID_EMPTY_OUTPUTS
  | INVALID_TOO_LARGE
  | INVALID_DUST_OUTPUT
  | INVALID_NEGATIVE_VALUE
  | INVALID_VALUE_OVERFLOW
  | INVALID_COINBASE_SIZE
  | INVALID_DOUBLE_SPEND
  | INVALID_MISSING_INPUT
  | INVALID_INSUFFICIENT_FEE
  | INVALID_BAD_SIGNATURE
  | INVALID_COINBASE_MATURITY
  | INVALID_MONEY_RANGE
  | INVALID_NOISE_PROOF
  | INVALID_SCRIPT

record TxValidationState =
  ts_result :: TxValidationResult
  ts_reason :: string
  ts_valid :: bool

type_synonym 'a tx_check = "(TxValidationState, 'a) verdict"

definition TxInvalid :: "TxValidationResult \<Rightarrow> string \<Rightarrow> TxValidationState" where
  "TxInvalid r msg = \<lparr>ts_result = r, ts_reason = msg, ts_valid = False\<rparr>"

text \<open>\<open>std::to_string\<close>.\<close>

fun digits :: "nat \<Rightarrow> string" where
  "digits n = (if n < 10 then [char_of (48 + n)] else digits (n div 10) @ [char_of (48 + n mod 10)])"

declare digits.simps [simp del]

definition to_string :: "int \<Rightarrow> string" where
  "to_string v = (if v < 0 then CHR ''-'' # digits (nat (- v)) else digits (nat v))"

section \<open>Context-free checks\<close>

definition INT64_MIN :: int where
  "INT64_MIN = - (2 ^ 63)"

definition SafeAdd :: "int \<Rightarrow> int \<Rightarrow> int option" where
  "SafeAdd a b =
     (if b > 0 \<and> a > INT64_MAX - b then None
      else if b < 0 \<and> a < INT64_MIN - b then None
      else Some (a + b))"

definition TxCheckMoneyRange :: "int \<Rightarrow> unit tx_check" where
  "TxCheckMoneyRange v =
     reject_if (v < 0) (TxInvalid INVALID_NEGATIVE_VALUE ''Transaction output value is negative'') (
     reject_if (v > MAX_MONEY) (TxInvalid INVALID_MONEY_RANGE ''Transaction output value exceeds MAX_MONEY'') (
     Accepts ()))"

definition safe_add_or :: "string \<Rightarrow> int \<Rightarrow> int \<Rightarrow> int tx_check" where
  "safe_add_or msg a b = (case SafeAdd a b of
     None \<Rightarrow> Rejects (TxInvalid INVALID_VALUE_OVERFLOW msg)
   | Some newTotal \<Rightarrow> Accepts newTotal)"

definition check_script :: "nat \<Rightarrow> TxoutType \<times> byte list list \<Rightarrow> unit tx_check" where
  "check_script i = (\<lambda>(type, solutions). case type of
     PUBKEYHASH \<Rightarrow> Accepts ()
   | NULL_DATA \<Rightarrow> (case solutions of
         [] \<Rightarrow> Throws OutOfBounds
       | payload # _ \<Rightarrow>
           reject_if (length payload > MAX_OP_RETURN_SIZE)
             (TxInvalid INVALID_SCRIPT (''OP_RETURN payload exceeds '' @ to_string (int MAX_OP_RETURN_SIZE) @
                '' bytes at index '' @ to_string (int i))) (
           Accepts ()))
   | NONSTANDARD \<Rightarrow>
       Rejects (TxInvalid INVALID_SCRIPT (''Nonstandard scriptPubKey at index '' @ to_string (int i))))"

fun outputs_loop :: "bool \<Rightarrow> nat \<Rightarrow> int \<Rightarrow> TxOutput list \<Rightarrow> unit tx_check" where
  "outputs_loop coinbase i totalOut [] = Accepts ()"
| "outputs_loop coinbase i totalOut (out # outs) =
     vbind (TxCheckMoneyRange (mValue out)) (\<lambda>_.
     vbind (vlift (Solver (mScriptPubKey out))) (\<lambda>(type, solutions).
     vbind (check_script i (type, solutions)) (\<lambda>_.
     reject_if (\<not> coinbase \<and> type = PUBKEYHASH \<and> mValue out < DUST_THRESHOLD)
       (TxInvalid INVALID_DUST_OUTPUT ''Transaction output below dust threshold'') (
     vbind (safe_add_or ''Transaction output value overflow'' totalOut (mValue out)) (\<lambda>newTotal.
     reject_if (newTotal > MAX_MONEY) (TxInvalid INVALID_MONEY_RANGE ''Total output value exceeds MAX_MONEY'') (
     outputs_loop coinbase (i + 1) newTotal outs))))))"

definition CheckTxOutputs :: "Transaction \<Rightarrow> unit tx_check" where
  "CheckTxOutputs tx =
     reject_if (mOutputs tx = []) (TxInvalid INVALID_EMPTY_OUTPUTS ''Transaction has no outputs'') (
     outputs_loop (IsCoinbase tx) 0 0 (mOutputs tx))"

fun dup_loop :: "(bytes32 \<times> u32) set \<Rightarrow> TxInput list \<Rightarrow> unit tx_check" where
  "dup_loop seenOutpoints [] = Accepts ()"
| "dup_loop seenOutpoints (input # inputs) =
     (let outpoint = (mPrevTxHash input, mOutputIndex input) in
      reject_if (outpoint \<in> seenOutpoints)
        (TxInvalid INVALID_DOUBLE_SPEND ''Duplicate input - transaction spends the same output twice'') (
      dup_loop (insert outpoint seenOutpoints) inputs))"

fun null_loop :: "TxInput list \<Rightarrow> unit tx_check" where
  "null_loop [] = Accepts ()"
| "null_loop (input # inputs) =
     reject_if (all_zero (mPrevTxHash input))
       (TxInvalid INVALID_EMPTY_INPUTS ''Non-coinbase input has null prevout hash'') (
     null_loop inputs)"

definition CheckTxInputs :: "Transaction \<Rightarrow> unit tx_check" where
  "CheckTxInputs tx =
     reject_if (mInputs tx = []) (TxInvalid INVALID_EMPTY_INPUTS ''Transaction has no inputs'') (
     if IsCoinbase tx then Accepts ()
     else vbind (dup_loop {} (mInputs tx)) (\<lambda>_. null_loop (mInputs tx)))"

definition CheckTxSize :: "Transaction \<Rightarrow> unit tx_check" where
  "CheckTxSize tx =
     reject_if (Transaction_GetSerializedSize True tx > MAX_TX_SIZE)
       (TxInvalid INVALID_TOO_LARGE ''Transaction exceeds maximum size'') (
     Accepts ())"

fun total_loop :: "string \<Rightarrow> int \<Rightarrow> TxOutput list \<Rightarrow> int tx_check" where
  "total_loop msg totalOut [] = Accepts totalOut"
| "total_loop msg totalOut (out # outs) =
     vbind (safe_add_or msg totalOut (mValue out)) (\<lambda>newTotal. total_loop msg newTotal outs)"

definition CheckCoinbase :: "Transaction \<Rightarrow> unit tx_check" where
  "CheckCoinbase tx =
     (if \<not> IsCoinbase tx then Accepts ()
      else reject_if (length (mInputs tx) \<noteq> 1)
             (TxInvalid INVALID_COINBASE_SIZE ''Coinbase must have exactly one input'') (
           reject_if (mOutputs tx = []) (TxInvalid INVALID_EMPTY_OUTPUTS ''Coinbase has no outputs'') (
           vbind (total_loop ''Coinbase output value overflow'' 0 (mOutputs tx)) (\<lambda>_. Accepts ()))))"

definition CheckTransaction :: "Transaction \<Rightarrow> unit tx_check" where
  "CheckTransaction tx =
     vbind (CheckTxSize tx) (\<lambda>_.
     vbind (CheckTxInputs tx) (\<lambda>_.
     vbind (CheckTxOutputs tx) (\<lambda>_.
     if IsCoinbase tx then CheckCoinbase tx else Accepts ())))"

section \<open>Checks against the UTXO set\<close>

definition GetMinimumFee :: "Transaction \<Rightarrow> int" where
  "GetMinimumFee tx =
     (let sizeAsInt = int (Transaction_GetSerializedSize True tx);
          sizeFee = (if MIN_FEE_PER_BYTE \<noteq> 0 \<and> sizeAsInt > INT64_MAX div MIN_FEE_PER_BYTE then INT64_MAX
                     else sizeAsInt * MIN_FEE_PER_BYTE)
      in if sizeFee > MIN_TX_FEE then sizeFee else MIN_TX_FEE)"

fun inputs_loop :: "UTXOSet \<Rightarrow> u32 \<Rightarrow> int \<Rightarrow> TxInput list \<Rightarrow> int tx_check" where
  "inputs_loop utxoSet currentHeight totalIn [] = Accepts totalIn"
| "inputs_loop utxoSet currentHeight totalIn (input # inputs) =
     (case GetCoin (input_outpoint input) utxoSet of
        None \<Rightarrow> Rejects (TxInvalid INVALID_MISSING_INPUT ''Input not found in UTXO set'')
      | Some coin \<Rightarrow>
          reject_if (cIsSpent coin)
            (TxInvalid INVALID_DOUBLE_SPEND ''Input already spent - double spend detected'') (
          reject_if (cIsCoinbase coin \<and> currentHeight < cHeight coin + COINBASE_MATURITY)
            (TxInvalid INVALID_COINBASE_MATURITY ''Coinbase output not yet mature'') (
          vbind (TxCheckMoneyRange (cValue coin)) (\<lambda>_.
          vbind (safe_add_or ''Input value overflow'' totalIn (cValue coin)) (\<lambda>newTotal.
          reject_if (newTotal > MAX_MONEY) (TxInvalid INVALID_MONEY_RANGE ''Total input value exceeds MAX_MONEY'') (
          inputs_loop utxoSet currentHeight newTotal inputs))))))"

definition CheckTransactionWithUTXO :: "Transaction \<Rightarrow> UTXOSet \<Rightarrow> u32 \<Rightarrow> unit tx_check" where
  "CheckTransactionWithUTXO tx utxoSet currentHeight =
     vbind (CheckTransaction tx) (\<lambda>_.
     if IsCoinbase tx then Accepts ()
     else vbind (inputs_loop utxoSet currentHeight 0 (mInputs tx)) (\<lambda>totalIn.
       vbind (total_loop ''Output value overflow'' 0 (mOutputs tx)) (\<lambda>totalOut.
       reject_if (totalIn < totalOut)
         (TxInvalid INVALID_INSUFFICIENT_FEE ''Input value less than output value'') (
       let fee = totalIn - totalOut;
           minRequired = GetMinimumFee tx
       in reject_if (fee < minRequired)
            (TxInvalid INVALID_INSUFFICIENT_FEE (''Transaction fee '' @ to_string fee @ '' below minimum '' @
               to_string minRequired @ '' for size '' @ to_string (int (Transaction_GetSerializedSize True tx)))) (
          Accepts ())))))"

section \<open>Signatures and noise proofs\<close>

definition noise_invalid :: "nat \<Rightarrow> string \<Rightarrow> TxValidationState" where
  "noise_invalid i msg = TxInvalid INVALID_NOISE_PROOF (''Input '' @ to_string (int i) @ msg)"

text \<open>
  The proof loop of input \<open>i\<close>: the offset after the proofs read and the leaves claimed so
  far in this scope. A rejection abandons the scope, as every caller does.
\<close>

fun proofs_verify ::
  "UTXOSet \<Rightarrow> bytes32 \<Rightarrow> nat \<Rightarrow> TxInput \<Rightarrow> u32 list \<Rightarrow> nat \<Rightarrow> (bytes32 \<times> u32) set \<Rightarrow>
   (nat \<times> (bytes32 \<times> u32) set) tx_check" where
  "proofs_verify utxoSet txHash i input [] proofOffset leafScope = Accepts (proofOffset, leafScope)"
| "proofs_verify utxoSet txHash i input (want # wanted) proofOffset leafScope =
     caught (NoiseProof_Deserialize (mNoiseProof input) proofOffset)
       (noise_invalid i '' has a malformed noise proof'') (\<lambda>(p, proofOffset).
     reject_if (leafIndex p \<noteq> want)
       (noise_invalid i '' carries a leaf the transaction does not call for'') (
     caught (VerifyProof (mKps input) txHash p NOISE_LEAF_COUNT)
       (noise_invalid i '' has a malformed noise proof'') (\<lambda>ok.
     reject_if (\<not> ok) (noise_invalid i '' has an invalid noise proof'') (
     let leafId = (mKps input, leafIndex p) in
     reject_if (leafId \<in> leafScope) (noise_invalid i '' reuses a leaf already claimed here'') (
     reject_if (IsNoiseLeafSpentLocked (NoiseLeafKey (mKps input) (leafIndex p)) utxoSet)
       (noise_invalid i '' uses a leaf that is already spent'') (
     proofs_verify utxoSet txHash i input wanted proofOffset (insert leafId leafScope)))))))"

definition verify_input ::
  "(bytes32 \<Rightarrow> bytes64 \<Rightarrow> byte list \<Rightarrow> bool) \<Rightarrow> Transaction \<Rightarrow> UTXOSet \<Rightarrow> nat \<Rightarrow> TxInput \<Rightarrow>
   (bytes32 \<times> u32) set \<Rightarrow> (bytes32 \<times> u32) set tx_check" where
  "verify_input verify tx utxoSet i input leafScope =
     (case GetCoin (input_outpoint input) utxoSet of
        None \<Rightarrow> Rejects (TxInvalid INVALID_MISSING_INPUT ''Input not found during signature verification'')
      | Some coin \<Rightarrow>
          vbind (vlift (VerifySignature verify tx i (mk_TxOutput (cValue coin) (cPubkeyHash coin)))) (\<lambda>ok.
          reject_if (\<not> ok)
            (TxInvalid INVALID_BAD_SIGNATURE (''Invalid signature for input '' @ to_string (int i))) (
          reject_if (mNoiseProof input = []) (noise_invalid i '' carries no noise proof'') (
          let wanted = DeriveLeafIndices (GetHash tx) (mKps input) (of_nat i) NOISE_PROOFS_PER_INPUT NOISE_LEAF_COUNT in
          reject_if (\<not> distinct wanted) (noise_invalid i '' derives a repeated leaf index'') (
          vbind (proofs_verify utxoSet (GetHash tx) i input wanted 0 leafScope) (\<lambda>(proofOffset, leafScope).
          reject_if (proofOffset \<noteq> length (mNoiseProof input))
            (noise_invalid i '' carries trailing bytes after its noise proofs'') (
          reject_if (all_zero (mKps input)) (noise_invalid i '' has no KPS'') (
          Accepts leafScope))))))))"

fun sig_loop ::
  "(bytes32 \<Rightarrow> bytes64 \<Rightarrow> byte list \<Rightarrow> bool) \<Rightarrow> Transaction \<Rightarrow> UTXOSet \<Rightarrow> nat \<Rightarrow> TxInput list \<Rightarrow>
   (bytes32 \<times> u32) set \<Rightarrow> (bytes32 \<times> u32) set tx_check" where
  "sig_loop verify tx utxoSet i [] leafScope = Accepts leafScope"
| "sig_loop verify tx utxoSet i (input # inputs) leafScope =
     vbind (verify_input verify tx utxoSet i input leafScope) (sig_loop verify tx utxoSet (i + 1) inputs)"

text \<open>\<open>leafScope\<close> is \<open>*usedLeaves\<close>, or the empty local set when the caller passes none.\<close>

definition VerifyTransactionSignatures ::
  "(bytes32 \<Rightarrow> bytes64 \<Rightarrow> byte list \<Rightarrow> bool) \<Rightarrow> Transaction \<Rightarrow> UTXOSet \<Rightarrow> (bytes32 \<times> u32) set \<Rightarrow>
   (bytes32 \<times> u32) set tx_check" where
  "VerifyTransactionSignatures verify tx utxoSet leafScope =
     (if IsCoinbase tx then Accepts leafScope else sig_loop verify tx utxoSet 0 (mInputs tx) leafScope)"

fun fee_inputs :: "UTXOSet \<Rightarrow> int \<Rightarrow> TxInput list \<Rightarrow> int tx_check" where
  "fee_inputs utxoSet totalIn [] = Accepts totalIn"
| "fee_inputs utxoSet totalIn (input # inputs) =
     (case GetCoin (input_outpoint input) utxoSet of
        None \<Rightarrow> Rejects (TxInvalid INVALID_MISSING_INPUT ''Input not found during fee check'')
      | Some coin \<Rightarrow>
          vbind (safe_add_or ''Input value overflow during fee check'' totalIn (cValue coin)) (\<lambda>newTotal.
          fee_inputs utxoSet newTotal inputs))"

definition CheckFee :: "Transaction \<Rightarrow> UTXOSet \<Rightarrow> int \<Rightarrow> unit tx_check" where
  "CheckFee tx utxoSet minFee =
     (if IsCoinbase tx then Accepts ()
      else vbind (fee_inputs utxoSet 0 (mInputs tx)) (\<lambda>totalIn.
        vbind (total_loop ''Output value overflow during fee check'' 0 (mOutputs tx)) (\<lambda>totalOut.
        let fee = totalIn - totalOut
        in reject_if (fee < minFee)
             (TxInvalid INVALID_INSUFFICIENT_FEE (''Fee '' @ to_string fee @ '' below minimum '' @ to_string minFee)) (
           Accepts ()))))"

fun TxResultToString :: "TxValidationResult \<Rightarrow> string" where
  "TxResultToString VALID = ''VALID''"
| "TxResultToString INVALID_EMPTY_INPUTS = ''INVALID_EMPTY_INPUTS''"
| "TxResultToString INVALID_EMPTY_OUTPUTS = ''INVALID_EMPTY_OUTPUTS''"
| "TxResultToString INVALID_TOO_LARGE = ''INVALID_TOO_LARGE''"
| "TxResultToString INVALID_DUST_OUTPUT = ''INVALID_DUST_OUTPUT''"
| "TxResultToString INVALID_NEGATIVE_VALUE = ''INVALID_NEGATIVE_VALUE''"
| "TxResultToString INVALID_VALUE_OVERFLOW = ''INVALID_VALUE_OVERFLOW''"
| "TxResultToString INVALID_COINBASE_SIZE = ''INVALID_COINBASE_SIZE''"
| "TxResultToString INVALID_DOUBLE_SPEND = ''INVALID_DOUBLE_SPEND''"
| "TxResultToString INVALID_MISSING_INPUT = ''INVALID_MISSING_INPUT''"
| "TxResultToString INVALID_INSUFFICIENT_FEE = ''INVALID_INSUFFICIENT_FEE''"
| "TxResultToString INVALID_BAD_SIGNATURE = ''INVALID_BAD_SIGNATURE''"
| "TxResultToString INVALID_COINBASE_MATURITY = ''INVALID_COINBASE_MATURITY''"
| "TxResultToString INVALID_MONEY_RANGE = ''INVALID_MONEY_RANGE''"
| "TxResultToString INVALID_NOISE_PROOF = ''INVALID_NOISE_PROOF''"
| "TxResultToString INVALID_SCRIPT = ''INVALID_SCRIPT''"

section \<open>The context-free checks, exactly\<close>

lemma SafeAdd_bounded: "0 \<le> a \<Longrightarrow> a \<le> MAX_MONEY \<Longrightarrow> 0 \<le> b \<Longrightarrow> b \<le> MAX_MONEY \<Longrightarrow> SafeAdd a b = Some (a + b)"
  by (simp add: SafeAdd_def INT64_MAX_def INT64_MIN_def MAX_MONEY_def COIN_def)

lemma SafeAdd_exact: "SafeAdd a b = Some c \<Longrightarrow> in_int64 a \<Longrightarrow> in_int64 b \<Longrightarrow> c = a + b \<and> in_int64 c"
  by (auto simp: SafeAdd_def in_int64_def INT64_MAX_def INT64_MIN_def split: if_splits)

lemma TxCheckMoneyRange_Accepts [simp]: "TxCheckMoneyRange v = Accepts () \<longleftrightarrow> 0 \<le> v \<and> v \<le> MAX_MONEY"
  by (auto simp: TxCheckMoneyRange_def)

lemma TxCheckMoneyRange_quiet [simp]: "quiet (TxCheckMoneyRange v)"
  by (simp add: TxCheckMoneyRange_def)

lemma safe_add_or_bounded:
  "0 \<le> a \<Longrightarrow> a \<le> MAX_MONEY \<Longrightarrow> 0 \<le> b \<Longrightarrow> b \<le> MAX_MONEY \<Longrightarrow> safe_add_or msg a b = Accepts (a + b)"
  by (simp add: safe_add_or_def SafeAdd_bounded)

lemma safe_add_or_quiet [simp]: "quiet (safe_add_or msg a b)"
  by (simp add: safe_add_or_def split: option.split)

text \<open>An output that may be created: in range, one of the two templates, and no dust.\<close>

definition output_ok :: "bool \<Rightarrow> TxOutput \<Rightarrow> bool" where
  "output_ok coinbase out \<longleftrightarrow> 0 \<le> mValue out \<and> mValue out \<le> MAX_MONEY \<and>
     ((\<exists>h. is_bytes32 h \<and> mScriptPubKey out = CreatePayToPubkeyHash h \<and> (coinbase \<or> DUST_THRESHOLD \<le> mValue out)) \<or>
      (\<exists>p. Solver (mScriptPubKey out) = Inr (NULL_DATA, [p]) \<and> length p \<le> MAX_OP_RETURN_SIZE))"

lemma Solver_shape:
  "(\<exists>h. is_bytes32 h \<and> s = CreatePayToPubkeyHash h \<and> Solver s = Inr (PUBKEYHASH, [h])) \<or>
   (\<exists>p. Solver s = Inr (NULL_DATA, [p])) \<or> Solver s = Inr (NONSTANDARD, [])"
proof (cases "IsPayToPubkeyHash s")
  case None
  obtain r where "payload_loop s 1 [] = Inr r" using payload_loop_total by blast
  with None show ?thesis by (cases r) (auto simp: Solver_def)
next
  case (Some h)
  then have "Solver s = Inr (PUBKEYHASH, [h])" by (simp add: Solver_def)
  with Some show ?thesis using IsPayToPubkeyHash_iff by blast
qed

lemma Solver_pay: "is_bytes32 h \<Longrightarrow> Solver (CreatePayToPubkeyHash h) = Inr (PUBKEYHASH, [h])"
  by (simp add: Solver_def IsPayToPubkeyHash_iff [THEN iffD2])

lemma check_script_Accepts:
  assumes "Solver s = Inr (type, sol)"
  shows "check_script i (type, sol) = Accepts () \<longleftrightarrow>
    type = PUBKEYHASH \<or> (\<exists>p. type = NULL_DATA \<and> sol = [p] \<and> length p \<le> MAX_OP_RETURN_SIZE)"
  using Solver_shape [of s] assms by (auto simp: check_script_def)

lemma check_script_quiet: "Solver s = Inr (type, sol) \<Longrightarrow> quiet (check_script i (type, sol))"
  using Solver_shape [of s] by (auto simp: check_script_def)

lemma output_ok_check:
  assumes "Solver (mScriptPubKey out) = Inr (type, sol)"
  shows "output_ok cb out \<longleftrightarrow> TxCheckMoneyRange (mValue out) = Accepts () \<and> check_script i (type, sol) = Accepts () \<and>
    \<not> (\<not> cb \<and> type = PUBKEYHASH \<and> mValue out < DUST_THRESHOLD)"
  using Solver_shape [of "mScriptPubKey out"] assms Solver_pay
  by (auto simp: output_ok_def check_script_Accepts [OF assms])

lemma outputs_loop_Accepts:
  assumes "0 \<le> tot" and "tot \<le> MAX_MONEY"
  shows "outputs_loop cb i tot outs = Accepts () \<longleftrightarrow>
    (\<forall>out \<in> set outs. output_ok cb out) \<and> tot + (\<Sum>out \<leftarrow> outs. mValue out) \<le> MAX_MONEY"
  using assms
proof (induction outs arbitrary: i tot)
  case (Cons out outs)
  obtain type sol where S: "Solver (mScriptPubKey out) = Inr (type, sol)" using Solver_total by blast
  have nn: "0 \<le> (\<Sum>out \<leftarrow> outs. mValue out)" if "\<forall>out \<in> set outs. output_ok cb out"
    using that by (intro sum_list_nonneg) (auto simp: output_ok_def)
  show ?case
  proof (cases "output_ok cb out")
    case True
    then have r: "0 \<le> mValue out" "mValue out \<le> MAX_MONEY" by (simp_all add: output_ok_def)
    have "outputs_loop cb i tot (out # outs) = Accepts () \<longleftrightarrow>
        tot + mValue out \<le> MAX_MONEY \<and> outputs_loop cb (i + 1) (tot + mValue out) outs = Accepts ()"
      using True Cons.prems r by (auto simp: S output_ok_check [OF S, of cb i] safe_add_or_bounded not_less)
    also have "\<dots> \<longleftrightarrow> tot + mValue out \<le> MAX_MONEY \<and>
        (\<forall>out \<in> set outs. output_ok cb out) \<and> tot + mValue out + (\<Sum>out \<leftarrow> outs. mValue out) \<le> MAX_MONEY"
      using Cons.IH [of "tot + mValue out" "i + 1"] Cons.prems(1) r by auto
    finally show ?thesis using True nn by (auto simp: algebra_simps)
  next
    case False
    then show ?thesis by (auto simp: S output_ok_check [OF S, of cb i])
  qed
qed simp

lemma outputs_loop_quiet: "quiet (outputs_loop cb i tot outs)"
proof (induction outs arbitrary: i tot)
  case (Cons out outs)
  obtain type sol where S: "Solver (mScriptPubKey out) = Inr (type, sol)" using Solver_total by blast
  show ?case using Cons.IH check_script_quiet [OF S] by (auto simp: S intro!: quiet_vbind)
qed simp

lemma dup_loop_Accepts:
  "dup_loop seen ins = Accepts () \<longleftrightarrow>
     distinct (map input_outpoint ins) \<and> (\<forall>i \<in> set ins. (mPrevTxHash i, mOutputIndex i) \<notin> seen)"
  by (induction ins arbitrary: seen) (auto simp: Let_def input_outpoint_def image_iff)

lemma null_loop_Accepts: "null_loop ins = Accepts () \<longleftrightarrow> (\<forall>i \<in> set ins. \<not> all_zero (mPrevTxHash i))"
  by (induction ins) auto

lemma input_loops_quiet: "quiet (dup_loop seen ins)" "quiet (null_loop ins)"
  by (induction ins arbitrary: seen) (auto simp: Let_def)

lemma total_loop_Accepts:
  assumes "0 \<le> tot" and "\<forall>out \<in> set outs. 0 \<le> mValue out" and "tot + (\<Sum>out \<leftarrow> outs. mValue out) \<le> MAX_MONEY"
  shows "total_loop msg tot outs = Accepts (tot + (\<Sum>out \<leftarrow> outs. mValue out))"
  using assms
proof (induction outs arbitrary: tot)
  case (Cons out outs)
  have "0 \<le> (\<Sum>out \<leftarrow> outs. mValue out)" using Cons.prems by (intro sum_list_nonneg) auto
  then have "safe_add_or msg tot (mValue out) = Accepts (tot + mValue out)"
    using Cons.prems by (intro safe_add_or_bounded) auto
  then show ?case using Cons.IH [of "tot + mValue out"] Cons.prems by (simp add: algebra_simps)
qed simp

lemma total_loop_quiet: "quiet (total_loop msg tot outs)"
  by (induction outs arbitrary: tot) (auto intro!: quiet_vbind)

definition context_free_ok :: "Transaction \<Rightarrow> bool" where
  "context_free_ok tx \<longleftrightarrow> Transaction_GetSerializedSize True tx \<le> MAX_TX_SIZE \<and>
     mInputs tx \<noteq> [] \<and> mOutputs tx \<noteq> [] \<and>
     (\<not> IsCoinbase tx \<longrightarrow> distinct (map input_outpoint (mInputs tx)) \<and>
        (\<forall>i \<in> set (mInputs tx). \<not> all_zero (mPrevTxHash i))) \<and>
     (\<forall>out \<in> set (mOutputs tx). output_ok (IsCoinbase tx) out) \<and>
     (\<Sum>out \<leftarrow> mOutputs tx. mValue out) \<le> MAX_MONEY"

lemma IsCoinbase_one: "IsCoinbase tx \<Longrightarrow> length (mInputs tx) = 1"
  by (auto simp: IsCoinbase_def split: list.splits)

lemma CheckTransaction_Accepts: "CheckTransaction tx = Accepts () \<longleftrightarrow> context_free_ok tx"
proof -
  have c: "CheckCoinbase tx = Accepts ()"
    if "\<forall>out \<in> set (mOutputs tx). output_ok (IsCoinbase tx) out" "(\<Sum>out \<leftarrow> mOutputs tx. mValue out) \<le> MAX_MONEY"
      "mOutputs tx \<noteq> []"
    using that total_loop_Accepts [of 0 "mOutputs tx" "''Coinbase output value overflow''"] IsCoinbase_one [of tx]
    by (auto simp: CheckCoinbase_def output_ok_def)
  have m: "0 \<le> MAX_MONEY" by (simp add: MAX_MONEY_def COIN_def)
  show ?thesis
    using c by (auto simp: CheckTransaction_def CheckTxSize_def CheckTxInputs_def CheckTxOutputs_def context_free_ok_def
        outputs_loop_Accepts [OF order_refl m] dup_loop_Accepts null_loop_Accepts not_less)
qed

lemma CheckTransaction_quiet: "quiet (CheckTransaction tx)"
  by (auto simp: CheckTransaction_def CheckTxSize_def CheckTxInputs_def CheckTxOutputs_def CheckCoinbase_def
      outputs_loop_quiet input_loops_quiet total_loop_quiet intro!: quiet_vbind)

section \<open>The checks against the UTXO set, exactly\<close>

definition spendable :: "UTXOSet \<Rightarrow> u32 \<Rightarrow> TxInput \<Rightarrow> bool" where
  "spendable u ht input \<longleftrightarrow> (\<exists>coin. GetCoin (input_outpoint input) u = Some coin \<and>
     (cIsCoinbase coin \<longrightarrow> cHeight coin + COINBASE_MATURITY \<le> ht) \<and> 0 \<le> cValue coin \<and> cValue coin \<le> MAX_MONEY)"

definition input_value :: "UTXOSet \<Rightarrow> TxInput \<Rightarrow> int" where
  "input_value u input = cValue (the (GetCoin (input_outpoint input) u))"

definition value_in :: "UTXOSet \<Rightarrow> Transaction \<Rightarrow> int" where
  "value_in u tx = (\<Sum>input \<leftarrow> mInputs tx. input_value u input)"

definition value_out :: "Transaction \<Rightarrow> int" where
  "value_out tx = (\<Sum>out \<leftarrow> mOutputs tx. mValue out)"

lemma GetCoin_unspent: "GetCoin a u = Some c \<Longrightarrow> \<not> cIsSpent c"
  by (auto simp: GetCoin_def split: option.splits if_splits)

lemma spendable_nonneg: "spendable u ht i \<Longrightarrow> 0 \<le> input_value u i"
  by (auto simp: spendable_def input_value_def)

lemma inputs_loop_Accepts:
  assumes "0 \<le> tot" and "tot \<le> MAX_MONEY"
  shows "inputs_loop u ht tot ins = Accepts r \<longleftrightarrow>
    (\<forall>i \<in> set ins. spendable u ht i) \<and> r = tot + (\<Sum>i \<leftarrow> ins. input_value u i) \<and> r \<le> MAX_MONEY"
  using assms
proof (induction ins arbitrary: tot)
  case (Cons i ins)
  have nn: "0 \<le> (\<Sum>i \<leftarrow> ins. input_value u i)" if "\<forall>i \<in> set ins. spendable u ht i"
    using that by (intro sum_list_nonneg) (auto intro: spendable_nonneg)
  show ?case
  proof (cases "spendable u ht i")
    case True
    then obtain c where c: "GetCoin (input_outpoint i) u = Some c" "cIsCoinbase c \<longrightarrow> cHeight c + COINBASE_MATURITY \<le> ht"
      "0 \<le> cValue c" "cValue c \<le> MAX_MONEY" by (auto simp: spendable_def)
    then have v: "input_value u i = cValue c" by (simp add: input_value_def)
    have "inputs_loop u ht tot (i # ins) = Accepts r \<longleftrightarrow>
        tot + cValue c \<le> MAX_MONEY \<and> inputs_loop u ht (tot + cValue c) ins = Accepts r"
      using c Cons.prems GetCoin_unspent [OF c(1)] by (auto simp: safe_add_or_bounded not_less)
    also have "\<dots> \<longleftrightarrow> tot + cValue c \<le> MAX_MONEY \<and>
        (\<forall>i \<in> set ins. spendable u ht i) \<and> r = tot + cValue c + (\<Sum>i \<leftarrow> ins. input_value u i) \<and> r \<le> MAX_MONEY"
      using Cons.IH [of "tot + cValue c"] Cons.prems(1) c(3) by auto
    finally show ?thesis using True nn v by (auto simp: algebra_simps)
  next
    case False
    then show ?thesis by (auto simp: spendable_def not_less split: option.splits)
  qed
qed auto

lemma inputs_loop_quiet: "quiet (inputs_loop u ht tot ins)"
  by (induction ins arbitrary: tot) (auto intro!: quiet_vbind split: option.split)

lemma GetMinimumFee_eq:
  "Transaction_GetSerializedSize True tx \<le> MAX_TX_SIZE \<Longrightarrow>
   GetMinimumFee tx = max MIN_TX_FEE (int (Transaction_GetSerializedSize True tx))"
  by (simp add: GetMinimumFee_def MIN_FEE_PER_BYTE_def INT64_MAX_def MAX_TX_SIZE_def MIN_TX_FEE_def max_def)

definition utxo_checks_ok :: "Transaction \<Rightarrow> UTXOSet \<Rightarrow> u32 \<Rightarrow> bool" where
  "utxo_checks_ok tx u ht \<longleftrightarrow> context_free_ok tx \<and> (\<forall>i \<in> set (mInputs tx). spendable u ht i) \<and>
     value_in u tx \<le> MAX_MONEY \<and>
     value_out tx + max MIN_TX_FEE (int (Transaction_GetSerializedSize True tx)) \<le> value_in u tx"

lemma CheckTransactionWithUTXO_Accepts:
  assumes "\<not> IsCoinbase tx"
  shows "CheckTransactionWithUTXO tx u ht = Accepts () \<longleftrightarrow> utxo_checks_ok tx u ht"
proof (cases "context_free_ok tx")
  case True
  have m: "0 \<le> MAX_MONEY" by (simp add: MAX_MONEY_def COIN_def)
  have t: "total_loop msg 0 (mOutputs tx) = Accepts (value_out tx)" for msg
    using True total_loop_Accepts [of 0 "mOutputs tx" msg] by (auto simp: context_free_ok_def output_ok_def value_out_def)
  have f: "GetMinimumFee tx = max MIN_TX_FEE (int (Transaction_GetSerializedSize True tx))"
    using True by (intro GetMinimumFee_eq) (simp add: context_free_ok_def)
  have p: "0 < max MIN_TX_FEE (int (Transaction_GetSerializedSize True tx))" by (simp add: MIN_TX_FEE_def max_def)
  show ?thesis
    using True assms p
    by (auto simp: CheckTransactionWithUTXO_def CheckTransaction_Accepts inputs_loop_Accepts [OF order_refl m] t f
        utxo_checks_ok_def value_in_def Let_def not_less)
next
  case False
  then show ?thesis by (simp add: CheckTransactionWithUTXO_def CheckTransaction_Accepts utxo_checks_ok_def)
qed

lemma CheckTransactionWithUTXO_quiet: "quiet (CheckTransactionWithUTXO tx u ht)"
  by (auto simp: CheckTransactionWithUTXO_def Let_def CheckTransaction_quiet inputs_loop_quiet total_loop_quiet
      intro!: quiet_vbind)

text \<open>
  C9. The contextual checks accept exactly the transactions they should. A payment passes
  when it is small enough, has inputs and outputs, names each of its outputs once and none
  with a null hash, creates only standard outputs above dust, and every coin it spends
  exists, is mature and in range, with totals within \<open>MAX_MONEY\<close> and inputs that cover the
  outputs and the fee for its size. On every other payment the check returns a reason; no
  sum in it overflows and it never throws.
\<close>

theorem CheckTransactionWithUTXO_iff:
  assumes "\<not> IsCoinbase tx"
  shows "(CheckTransactionWithUTXO tx u ht = Accepts () \<longleftrightarrow> utxo_checks_ok tx u ht) \<and>
    (\<not> utxo_checks_ok tx u ht \<longrightarrow> (\<exists>st. CheckTransactionWithUTXO tx u ht = Rejects st))"
proof -
  have "\<exists>st. m = Rejects st" if "quiet m" "m \<noteq> Accepts ()" for m :: "unit tx_check"
    using that by (cases m) auto
  then show ?thesis using CheckTransactionWithUTXO_Accepts [OF assms] CheckTransactionWithUTXO_quiet by blast
qed

theorem CheckTransactionWithUTXO_iff_witness:
  "CheckTransactionWithUTXO sample_spend sample_utxo 9 = Accepts () \<and> utxo_checks_ok sample_spend sample_utxo 9"
proof -
  have g: "GetCoin sample_outpoint sample_utxo = Some sample_coin"
    using sample_utxo_views(2) by (simp add: coin_view_def fun_eq_iff sample_outpoint_def split: if_splits)
  have i: "\<forall>i \<in> set (mInputs sample_spend). input_outpoint i = sample_outpoint"
    and l: "length (NoiseProof_Serialize sample_proof) = 72"
    by (simp_all add: sample_spend_def input_outpoint_def sample_outpoint_def mk_TxInput_def NoiseProof_Serialize_def
        sample_proof_def zero32_def)
  have z: "Transaction_GetSerializedSize True sample_spend \<le> 1000"
    using l by (simp add: Transaction_GetSerializedSize_def TxInput_GetSerializedSize_def TxOutput_GetSerializedSize_def
      sample_spend_def mk_TxInput_def mk_TxOutput_def CreatePayToPubkeyHash_def PushData_def CompactSizeLen_def zero64_def)
  have o: "\<forall>out \<in> set (mOutputs sample_spend). output_ok False out"
    by (auto simp: sample_spend_def mk_TxOutput_def output_ok_def DUST_THRESHOLD_def MAX_MONEY_def COIN_def
        intro!: exI [of _ "replicate 32 4"])
  have "context_free_ok sample_spend"
    using z o i by (simp add: context_free_ok_def sample_spend_facts(2,4) MAX_TX_SIZE_def)
      (simp add: sample_spend_def mk_TxInput_def mk_TxOutput_def all_zero_def list_all_iff MAX_MONEY_def COIN_def)
  moreover have "value_in sample_utxo sample_spend = 7000" "value_out sample_spend = 5000"
    using g by (simp_all add: value_in_def value_out_def input_value_def sample_spend_def input_outpoint_def
        sample_outpoint_def mk_TxInput_def mk_TxOutput_def sample_coin_def mk_Coin_def)
  moreover have "\<forall>i \<in> set (mInputs sample_spend). spendable sample_utxo 9 i"
    using g i by (simp add: spendable_def) (simp add: sample_coin_def mk_Coin_def MAX_MONEY_def COIN_def)
  ultimately have "utxo_checks_ok sample_spend sample_utxo 9"
    using z by (simp add: utxo_checks_ok_def MAX_MONEY_def COIN_def MIN_TX_FEE_def)
  then show ?thesis using CheckTransactionWithUTXO_iff [OF sample_spend_facts(2)] by blast
qed

section \<open>Signatures and noise proofs, exactly\<close>

definition wanted_leaves :: "Transaction \<Rightarrow> nat \<times> TxInput \<Rightarrow> u32 list" where
  "wanted_leaves tx = (\<lambda>(k, input).
     DeriveLeafIndices (GetHash tx) (mKps input) (of_nat k) NOISE_PROOFS_PER_INPUT NOISE_LEAF_COUNT)"

definition leaf_ids :: "Transaction \<Rightarrow> (nat \<times> TxInput) list \<Rightarrow> (bytes32 \<times> u32) list" where
  "leaf_ids tx kins = concat (map (\<lambda>kin. map (Pair (mKps (snd kin))) (wanted_leaves tx kin)) kins)"

text \<open>
  Input \<open>k\<close> is in order: its coin is there and its signature verifies against it, and its
  proof bytes are exactly one verifying proof for each leaf the transaction calls for.
\<close>

definition input_valid ::
  "(bytes32 \<Rightarrow> bytes64 \<Rightarrow> byte list \<Rightarrow> bool) \<Rightarrow> Transaction \<Rightarrow> UTXOSet \<Rightarrow> nat \<times> TxInput \<Rightarrow> bool" where
  "input_valid verify tx u = (\<lambda>(k, input).
     (\<exists>coin. GetCoin (input_outpoint input) u = Some coin \<and>
        VerifySignature verify tx k (mk_TxOutput (cValue coin) (cPubkeyHash coin)) = Inr True) \<and>
     mNoiseProof input \<noteq> [] \<and> \<not> all_zero (mKps input) \<and>
     (\<exists>ps. dec_n NoiseProof_Deserialize (length ps) (mNoiseProof input) 0 = Inr (ps, length (mNoiseProof input)) \<and>
        map leafIndex ps = wanted_leaves tx (k, input) \<and>
        (\<forall>p \<in> set ps. VerifyProof (mKps input) (GetHash tx) p NOISE_LEAF_COUNT = Inr True)))"

definition claimable :: "UTXOSet \<Rightarrow> (bytes32 \<times> u32) set \<Rightarrow> bytes32 \<times> u32 \<Rightarrow> bool" where
  "claimable u scope l \<longleftrightarrow> l \<notin> scope \<and> \<not> IsNoiseLeafSpentLocked (NoiseLeafKey (fst l) (snd l)) u"

lemma proofs_verify_Accepts:
  "proofs_verify u h i input wanted off scope = Accepts (off', scope') \<longleftrightarrow>
     (\<exists>ps. dec_n NoiseProof_Deserialize (length ps) (mNoiseProof input) off = Inr (ps, off') \<and>
        map leafIndex ps = wanted \<and> (\<forall>p \<in> set ps. VerifyProof (mKps input) h p NOISE_LEAF_COUNT = Inr True)) \<and>
     distinct wanted \<and> (\<forall>w \<in> set wanted. claimable u scope (mKps input, w)) \<and>
     scope' = scope \<union> Pair (mKps input) ` set wanted"
proof (induction wanted arbitrary: off scope)
  case (Cons w wanted)
  have ex: "(\<exists>ps. dec_n NoiseProof_Deserialize (length ps) d off = Inr (ps, off') \<and> map leafIndex ps = w # wanted \<and> (\<forall>p \<in> set ps. V p)) \<longleftrightarrow>
    (\<exists>p off1. NoiseProof_Deserialize d off = Inr (p, off1) \<and> leafIndex p = w \<and> V p \<and>
       (\<exists>ps. dec_n NoiseProof_Deserialize (length ps) d off1 = Inr (ps, off') \<and> map leafIndex ps = wanted \<and> (\<forall>p \<in> set ps. V p)))"
    for d V
  proof
    assume "\<exists>ps. dec_n NoiseProof_Deserialize (length ps) d off = Inr (ps, off') \<and> map leafIndex ps = w # wanted \<and> (\<forall>p \<in> set ps. V p)"
    then obtain p ps where "dec_n NoiseProof_Deserialize (Suc (length ps)) d off = Inr (p # ps, off')" "leafIndex p = w"
      "map leafIndex ps = wanted" "\<forall>p \<in> set (p # ps). V p" by (auto simp: map_eq_Cons_conv)
    then show "\<exists>p off1. NoiseProof_Deserialize d off = Inr (p, off1) \<and> leafIndex p = w \<and> V p \<and>
       (\<exists>ps. dec_n NoiseProof_Deserialize (length ps) d off1 = Inr (ps, off') \<and> map leafIndex ps = wanted \<and> (\<forall>p \<in> set ps. V p))"
      by (auto simp: rbind_eq_Inr_iff)
  next
    assume "\<exists>p off1. NoiseProof_Deserialize d off = Inr (p, off1) \<and> leafIndex p = w \<and> V p \<and>
       (\<exists>ps. dec_n NoiseProof_Deserialize (length ps) d off1 = Inr (ps, off') \<and> map leafIndex ps = wanted \<and> (\<forall>p \<in> set ps. V p))"
    then obtain p off1 ps where "NoiseProof_Deserialize d off = Inr (p, off1)" "leafIndex p = w" "V p"
      "dec_n NoiseProof_Deserialize (length ps) d off1 = Inr (ps, off')" "map leafIndex ps = wanted" "\<forall>p \<in> set ps. V p" by auto
    then show "\<exists>ps. dec_n NoiseProof_Deserialize (length ps) d off = Inr (ps, off') \<and> map leafIndex ps = w # wanted \<and> (\<forall>p \<in> set ps. V p)"
      by (intro exI [of _ "p # ps"]) simp
  qed
  show ?case
    unfolding ex by (auto simp: Let_def Cons.IH claimable_def)
qed auto

lemma verify_input_Accepts:
  "verify_input verify tx u k input scope = Accepts scope' \<longleftrightarrow>
     input_valid verify tx u (k, input) \<and> distinct (wanted_leaves tx (k, input)) \<and>
     (\<forall>w \<in> set (wanted_leaves tx (k, input)). claimable u scope (mKps input, w)) \<and>
     scope' = scope \<union> Pair (mKps input) ` set (wanted_leaves tx (k, input))"
  by (auto simp: verify_input_def Let_def proofs_verify_Accepts input_valid_def wanted_leaves_def split: option.splits)

lemma sig_loop_Accepts:
  "sig_loop verify tx u k ins scope = Accepts scope' \<longleftrightarrow>
     (\<forall>kin \<in> set (enumerate k ins). input_valid verify tx u kin) \<and>
     distinct (leaf_ids tx (enumerate k ins)) \<and>
     (\<forall>l \<in> set (leaf_ids tx (enumerate k ins)). claimable u scope l) \<and>
     scope' = scope \<union> set (leaf_ids tx (enumerate k ins))"
proof (induction ins arbitrary: k scope)
  case (Cons input ins)
  let ?w = "wanted_leaves tx (k, input)"
  define A B where "A = map (Pair (mKps input)) ?w" and "B = leaf_ids tx (enumerate (Suc k) ins)"
  have l: "leaf_ids tx ((k, input) # enumerate (Suc k) ins) = A @ B" by (simp add: leaf_ids_def A_def B_def)
  have d: "distinct A \<longleftrightarrow> distinct ?w" and m: "set A = Pair (mKps input) ` set ?w"
    and c: "(\<forall>w \<in> set ?w. claimable u scope (mKps input, w)) \<longleftrightarrow> (\<forall>l \<in> set A. claimable u scope l)"
    by (auto simp: A_def distinct_map inj_on_def)
  have "claimable u (scope \<union> set A) l \<longleftrightarrow> claimable u scope l \<and> l \<notin> set A" for l
    by (auto simp: claimable_def)
  then show ?case
    by (auto simp: l enumerate_simps verify_input_Accepts Cons.IH c simp flip: d m B_def)
qed (auto simp: leaf_ids_def)

text \<open>
  C11. Signature verification accepts exactly what it should: with at least every input's
  coin present, a valid signature for each, and proof bytes that are one verifying noise
  proof for each leaf the transaction hash calls for and nothing more, where those leaves
  are all different, unspent and unclaimed in the surrounding scope. It then returns the
  scope with exactly those leaves added.
\<close>

theorem VerifyTransactionSignatures_iff:
  assumes "\<not> IsCoinbase tx"
  shows "VerifyTransactionSignatures verify tx u scope = Accepts scope' \<longleftrightarrow>
     (\<forall>kin \<in> set (enumerate 0 (mInputs tx)). input_valid verify tx u kin) \<and>
     distinct (leaf_ids tx (enumerate 0 (mInputs tx))) \<and>
     (\<forall>l \<in> set (leaf_ids tx (enumerate 0 (mInputs tx))). claimable u scope l) \<and>
     scope' = scope \<union> set (leaf_ids tx (enumerate 0 (mInputs tx)))"
  using assms by (simp add: VerifyTransactionSignatures_def sig_loop_Accepts)

theorem VerifyTransactionSignatures_iff_witness:
  "VerifyTransactionSignatures (\<lambda>_ _ _. False) sample_spend sample_utxo {} \<noteq> Accepts {} \<and>
   VerifyTransactionSignatures (\<lambda>_ _ _. False) (Transaction_init 1) sample_utxo {([1], 2)} = Accepts {([1], 2)}"
proof -
  have "\<not> IsCoinbase (Transaction_init 1)" "leaf_ids (Transaction_init 1) [] = []" "mInputs (Transaction_init 1) = []"
    by (simp_all add: IsCoinbase_def Transaction_init_def leaf_ids_def)
  moreover have "VerifySignature (\<lambda>_ _ _. False) sample_spend 0 out \<noteq> Inr True" for out
    by (auto simp: VerifySignature_def Let_def rbind_eq_Inr_iff guard_throw_eq_Inr_iff)
  then have "\<not> input_valid (\<lambda>_ _ _. False) sample_spend sample_utxo (0, input)" for input
    by (simp add: input_valid_def)
  moreover obtain input where "mInputs sample_spend = [input]" by (simp add: sample_spend_def)
  ultimately show ?thesis
    using VerifyTransactionSignatures_iff [OF sample_spend_facts(2), of "\<lambda>_ _ _. False" sample_utxo "{}" "{}"]
      VerifyTransactionSignatures_iff [of "Transaction_init 1" "\<lambda>_ _ _. False" sample_utxo "{([1], 2)}" "{([1], 2)}"]
    by simp
qed

section \<open>What validation gives the ledger\<close>

lemma dec_n_idx_list:
  "dec_n NoiseProof_Deserialize n data off = Inr (ps, length data) \<Longrightarrow> idx_list data off = (True, map leafIndex ps)"
proof (induction n arbitrary: off ps)
  case 0
  then show ?case by (subst idx_list.simps) simp
next
  case (Suc n)
  then obtain p off' qs where p: "NoiseProof_Deserialize data off = Inr (p, off')" "ps = p # qs"
    "dec_n NoiseProof_Deserialize n data off' = Inr (qs, length data)" by (auto simp: rbind_eq_Inr_iff)
  have "off < length data" using NoiseProof_Deserialize_bounds [OF p(1)] by simp
  then show ?case using p Suc.IH [OF p(3)] by (subst idx_list.simps) simp
qed

lemma input_valid_leaves:
  assumes "input_valid verify tx u (k, input)"
  shows "leaf_keys input = map (NoiseLeafKey (mKps input)) (wanted_leaves tx (k, input))" "proofs_parse input"
    "mNoiseProof input \<noteq> []"
proof -
  obtain ps where "dec_n NoiseProof_Deserialize (length ps) (mNoiseProof input) 0 = Inr (ps, length (mNoiseProof input))"
    "map leafIndex ps = wanted_leaves tx (k, input)" using assms by (auto simp: input_valid_def)
  then show "leaf_keys input = map (NoiseLeafKey (mKps input)) (wanted_leaves tx (k, input))" "proofs_parse input"
    using dec_n_idx_list by (auto simp: leaf_keys_def proofs_parse_def)
  show "mNoiseProof input \<noteq> []" using assms by (simp add: input_valid_def)
qed

definition key_of :: "bytes32 \<times> u32 \<Rightarrow> NoiseLeafKey" where
  "key_of l = NoiseLeafKey (fst l) (snd l)"

lemma inj_key_of: "inj key_of"
  by (auto simp: inj_def key_of_def prod_eq_iff)

lemma tx_leaf_keys_ids:
  assumes "\<forall>kin \<in> set (enumerate k (mInputs tx)). input_valid verify tx' u kin"
  shows "tx_leaf_keys tx = map key_of (leaf_ids tx' (enumerate k (mInputs tx)))"
proof -
  have "concat (map leaf_keys ins) = map key_of (leaf_ids tx' (enumerate k ins))"
    if "\<forall>kin \<in> set (enumerate k ins). input_valid verify tx' u kin" for ins k
    using that
  proof (induction ins arbitrary: k)
    case (Cons input ins)
    then show ?case
      using input_valid_leaves(1) [of verify tx' u k input]
      by (simp add: enumerate_simps leaf_ids_def key_of_def comp_def)
  qed (simp add: leaf_ids_def)
  with assms show ?thesis by (simp add: tx_leaf_keys_def)
qed

text \<open>A verified payment, seen from the ledger: its leaves, all fresh, and its coins, all there.\<close>

lemma verified_payment:
  assumes v: "VerifyTransactionSignatures verify tx u scope = Accepts scope'" and nc: "\<not> IsCoinbase tx"
    and wf: "wf_Transaction tx"
  shows "\<forall>i \<in> set (mInputs tx). coin_view u (input_outpoint i) = GetCoin (input_outpoint i) u \<and>
       coin_view u (input_outpoint i) \<noteq> None \<and> mNoiseProof i \<noteq> [] \<and> proofs_parse i"
    and "distinct (tx_leaf_keys tx)" and "set (tx_leaf_keys tx) \<inter> (leaf_view u \<union> key_of ` scope) = {}"
    and "key_of ` scope' = key_of ` scope \<union> set (tx_leaf_keys tx)"
proof -
  let ?ids = "leaf_ids tx (enumerate 0 (mInputs tx))"
  have iv: "\<forall>kin \<in> set (enumerate 0 (mInputs tx)). input_valid verify tx u kin"
    and d: "distinct ?ids" and c: "\<forall>l \<in> set ?ids. claimable u scope l" and s: "scope' = scope \<union> set ?ids"
    using v nc by (auto simp: VerifyTransactionSignatures_def sig_loop_Accepts)
  note keys = tx_leaf_keys_ids [OF iv]
  show "distinct (tx_leaf_keys tx)" using d by (simp add: keys distinct_map inj_on_subset [OF inj_key_of])
  show "set (tx_leaf_keys tx) \<inter> (leaf_view u \<union> key_of ` scope) = {}"
    using c by (auto simp: keys claimable_def leaf_view_def key_of_def)
  show "key_of ` scope' = key_of ` scope \<union> set (tx_leaf_keys tx)" by (simp add: keys s image_Un)
  show "\<forall>i \<in> set (mInputs tx). coin_view u (input_outpoint i) = GetCoin (input_outpoint i) u \<and>
       coin_view u (input_outpoint i) \<noteq> None \<and> mNoiseProof i \<noteq> [] \<and> proofs_parse i"
  proof
    fix i assume i: "i \<in> set (mInputs tx)"
    then have "i \<in> snd ` set (enumerate 0 (mInputs tx))" by (simp flip: set_map)
    then obtain k where "(k, i) \<in> set (enumerate 0 (mInputs tx))" by auto
    then have v: "input_valid verify tx u (k, i)" using iv by blast
    have "wf_outpoint (input_outpoint i)" using wf i by (auto simp: wf_Transaction_def wf_TxInput_def input_outpoint_def)
    then have e: "coin_view u (input_outpoint i) = GetCoin (input_outpoint i) u" by (simp add: coin_view_def)
    have "GetCoin (input_outpoint i) u \<noteq> None" using v by (auto simp: input_valid_def)
    then show "coin_view u (input_outpoint i) = GetCoin (input_outpoint i) u \<and>
       coin_view u (input_outpoint i) \<noteq> None \<and> mNoiseProof i \<noteq> [] \<and> proofs_parse i"
      using e input_valid_leaves(2,3) [OF v] by simp
  qed
qed

end
