(* ===== verification/Genesis.thy ===== *)
theory Genesis
  imports Block Chain_Params
begin

text \<open>
  The first block: the \<open>GENESIS_*\<close> constants and \<open>BuildGenesisBlock\<close> of
  \<open>src/src/chainparams.cpp\<close>.
\<close>

definition GENESIS_MESSAGE :: string where
  "GENESIS_MESSAGE =
     ''54686520477561726469616e205765656b6c792031342f4175672f323032362047'' @
     ''6f6e6520726f6775653a20414920747269636b73206974732074657374657273''"

definition GENESIS_TIMESTAMP :: u64 where
  "GENESIS_TIMESTAMP = 1786724267"

definition GENESIS_VERSION :: u32 where
  "GENESIS_VERSION = 1"

definition GENESIS_REWARD :: int where
  "GENESIS_REWARD = 7700000000"

definition GENESIS_NONCE :: u32 where
  "GENESIS_NONCE = 1708084064"

definition GENESIS_REWARD_PUBKEYHASH_HEX :: string where
  "GENESIS_REWARD_PUBKEYHASH_HEX = ''8fb311b4e4a09e775d0e9910e2ff55325469e8b7a0b7085bd2fd1b0c80a316c5''"

definition BuildGenesisBlock :: "Block result" where
  "BuildGenesisBlock =
     (let coinbase = Transaction_init CURRENT_VERSION;
          inp = TxInput_init\<lparr>mPrevTxHash := zero32, mOutputIndex := 0xFFFFFFFF\<rparr> in
      rbind (AddInput inp coinbase) (\<lambda>coinbase.
      let rewardHash = HexToBytes32 GENESIS_REWARD_PUBKEYHASH_HEX;
          reward = mk_TxOutput GENESIS_REWARD rewardHash in
      rbind (AddOutput reward coinbase) (\<lambda>coinbase.
      let msg = map of_char GENESIS_MESSAGE;
          msgOut = \<lparr>mValue = 0, mScriptPubKey = CreateNullData msg\<rparr> in
      rbind (AddOutput msgOut coinbase) (\<lambda>coinbase.
      let b = BlockBuilder_init GENESIS_VERSION;
          b = b\<lparr>mHeader := SetPrevBlockHash zero32 (mHeader b)\<rparr>;
          b = b\<lparr>mHeader := SetTimestamp GENESIS_TIMESTAMP (mHeader b)\<rparr>;
          b = b\<lparr>mHeader := SetHeight 0 (mHeader b)\<rparr>;
          b = b\<lparr>mHeader := SetBits POW_LIMIT_COMPACT (mHeader b)\<rparr>;
          b = b\<lparr>mHeader := SetNonce GENESIS_NONCE (mHeader b)\<rparr> in
      rbind (AddCoinbase coinbase b) (\<lambda>b. Inr (BlockBuilder_Build b))))))"

end
