(* ===== verification/Block_Validation.thy ===== *)
theory Block_Validation
  imports Tx_Validation Genesis Pow
begin

text \<open>
  Block validation, \<open>src/src/validation/block_validation.cpp\<close>: header, size, Merkle root
  and transaction checks without chain state, and the checks of a block's transactions
  and reward against the UTXO set its parent left. Outcomes are verdicts as in
  \<open>Tx_Validation\<close>; the clock is an argument.
\<close>

section \<open>Results\<close>

datatype BlockValidationResult =
    BLOCK_VALID
  | INVALID_HEADER
  | INVALID_MERKLE_ROOT
  | INVALID_TIMESTAMP
  | INVALID_HEIGHT
  | INVALID_PREV_HASH
  | INVALID_POW
  | INVALID_COINBASE
  | INVALID_TRANSACTION
  | BLOCK_INVALID_TOO_LARGE
  | INVALID_DUPLICATE_TX
  | INVALID_GENESIS

record BlockValidationState =
  bs_result :: BlockValidationResult
  bs_reason :: string
  bs_valid :: bool

type_synonym 'a block_check = "(BlockValidationState, 'a) verdict"

definition BlockInvalid :: "BlockValidationResult \<Rightarrow> string \<Rightarrow> BlockValidationState" where
  "BlockInvalid r msg = \<lparr>bs_result = r, bs_reason = msg, bs_valid = False\<rparr>"

fun BlockResultToString :: "BlockValidationResult \<Rightarrow> string" where
  "BlockResultToString BLOCK_VALID = ''VALID''"
| "BlockResultToString INVALID_HEADER = ''INVALID_HEADER''"
| "BlockResultToString INVALID_MERKLE_ROOT = ''INVALID_MERKLE_ROOT''"
| "BlockResultToString INVALID_TIMESTAMP = ''INVALID_TIMESTAMP''"
| "BlockResultToString INVALID_HEIGHT = ''INVALID_HEIGHT''"
| "BlockResultToString INVALID_PREV_HASH = ''INVALID_PREV_HASH''"
| "BlockResultToString INVALID_POW = ''INVALID_POW''"
| "BlockResultToString INVALID_COINBASE = ''INVALID_COINBASE''"
| "BlockResultToString INVALID_TRANSACTION = ''INVALID_TRANSACTION''"
| "BlockResultToString BLOCK_INVALID_TOO_LARGE = ''INVALID_TOO_LARGE''"
| "BlockResultToString INVALID_DUPLICATE_TX = ''INVALID_DUPLICATE_TX''"
| "BlockResultToString INVALID_GENESIS = ''INVALID_GENESIS''"

section \<open>Checks without chain state\<close>

definition CheckBlockHeader :: "u64 \<Rightarrow> BlockHeader \<Rightarrow> unit block_check" where
  "CheckBlockHeader now hdr =
     reject_if (hVersion hdr = 0) (BlockInvalid INVALID_HEADER ''Block version is zero'') (
     reject_if (mTimestamp hdr < GENESIS_TIMESTAMP)
       (BlockInvalid INVALID_HEADER ''Block timestamp precedes the genesis block'') (
     reject_if (mTimestamp hdr = 0) (BlockInvalid INVALID_TIMESTAMP ''Block timestamp is zero'') (
     reject_if (mTimestamp hdr > now + 7200)
       (BlockInvalid INVALID_TIMESTAMP ''Block timestamp too far in the future'') (
     reject_if (all_zero (mMerkleRoot hdr)) (BlockInvalid INVALID_MERKLE_ROOT ''Block merkle root is zero'') (
     reject_if (\<not> CheckProofOfWork (BlockHeader_GetHash hdr) (mBits hdr))
       (BlockInvalid INVALID_POW ''Proof of work does not satisfy the declared target'') (
     Accepts ()))))))"

definition CheckBlockSize :: "Block \<Rightarrow> unit block_check" where
  "CheckBlockSize block =
     (let blockSize = Block_GetSerializedSize block
      in reject_if (blockSize > MAX_BLOCK_SIZE)
           (BlockInvalid BLOCK_INVALID_TOO_LARGE (''Block size '' @ to_string (int blockSize) @
              '' exceeds maximum '' @ to_string (int MAX_BLOCK_SIZE))) (
         Accepts ()))"

definition CheckMerkleRoot :: "Block \<Rightarrow> unit block_check" where
  "CheckMerkleRoot block =
     reject_if (Block_ComputeMerkleRoot block \<noteq> mMerkleRoot (mHeader block))
       (BlockInvalid INVALID_MERKLE_ROOT ''Merkle root mismatch'') (
     Accepts ())"

text \<open>A failed transaction check, reported with its reason; an exception passes through.\<close>

fun tx_failed :: "(TxValidationState \<Rightarrow> string) \<Rightarrow> 'a tx_check \<Rightarrow> 'a block_check" where
  "tx_failed msg (Throws e) = Throws e"
| "tx_failed msg (Rejects txState) = Rejects (BlockInvalid INVALID_TRANSACTION (msg txState))"
| "tx_failed msg (Accepts a) = Accepts a"

fun block_txs_loop :: "nat \<Rightarrow> Transaction list \<Rightarrow> unit block_check" where
  "block_txs_loop i [] = Accepts ()"
| "block_txs_loop i (tx # txs) =
     reject_if (IsCoinbase tx) (BlockInvalid INVALID_COINBASE ''Only first transaction can be coinbase'') (
     vbind (tx_failed (\<lambda>txState. ''Transaction '' @ to_string (int i) @ '' invalid: '' @ ts_reason txState)
       (CheckTransaction tx)) (\<lambda>_.
     block_txs_loop (i + 1) txs))"

definition CheckBlockTransactions :: "Block \<Rightarrow> unit block_check" where
  "CheckBlockTransactions block = (case mTransactions block of
     [] \<Rightarrow> Rejects (BlockInvalid INVALID_TRANSACTION ''Block has no transactions'')
   | coinbase # txs \<Rightarrow>
       reject_if (\<not> IsCoinbase coinbase)
         (BlockInvalid INVALID_COINBASE ''First transaction must be coinbase'') (
       block_txs_loop 1 txs))"

fun dup_tx_loop :: "nat \<Rightarrow> bytes32 set \<Rightarrow> Transaction list \<Rightarrow> unit block_check" where
  "dup_tx_loop i txHashes [] = Accepts ()"
| "dup_tx_loop i txHashes (tx # txs) =
     reject_if (GetHash tx \<in> txHashes)
       (BlockInvalid INVALID_DUPLICATE_TX (''Duplicate transaction at index '' @ to_string (int i))) (
     dup_tx_loop (i + 1) (insert (GetHash tx) txHashes) txs)"

definition CheckDuplicateTransactions :: "Block \<Rightarrow> unit block_check" where
  "CheckDuplicateTransactions block = dup_tx_loop 0 {} (mTransactions block)"

definition CheckCoinbaseTransaction :: "Block \<Rightarrow> u32 \<Rightarrow> unit block_check" where
  "CheckCoinbaseTransaction block ht = (case mTransactions block of
     [] \<Rightarrow> Accepts ()
   | coinbase # _ \<Rightarrow>
       reject_if (\<not> IsCoinbase coinbase) (BlockInvalid INVALID_COINBASE ''First transaction is not coinbase'') (
       vbind (vlift (GetValueOut coinbase)) (\<lambda>totalCoinbaseOut.
       reject_if (totalCoinbaseOut < 0) (BlockInvalid INVALID_COINBASE ''Coinbase output value is negative'') (
       Accepts ()))))"

definition CheckBlock :: "u64 \<Rightarrow> Block \<Rightarrow> unit block_check" where
  "CheckBlock now block =
     vbind (CheckBlockHeader now (mHeader block)) (\<lambda>_.
     vbind (CheckBlockSize block) (\<lambda>_.
     vbind (CheckMerkleRoot block) (\<lambda>_.
     vbind (CheckBlockTransactions block) (\<lambda>_.
     CheckDuplicateTransactions block))))"

section \<open>Checks against the UTXO set\<close>

definition MinerFeesAtHeight :: "u32 \<Rightarrow> u64 \<Rightarrow> u64" where
  "MinerFeesAtHeight ht blockFees = (if ht < FEES_TO_MINER_HEIGHT then 0 else blockFees)"

fun block_outpoints :: "nat \<Rightarrow> (bytes32 \<times> u32) set \<Rightarrow> TxInput list \<Rightarrow> (bytes32 \<times> u32) set block_check" where
  "block_outpoints i blockOutpoints [] = Accepts blockOutpoints"
| "block_outpoints i blockOutpoints (input # inputs) =
     (let outpoint = (mPrevTxHash input, mOutputIndex input) in
      reject_if (outpoint \<in> blockOutpoints)
        (BlockInvalid INVALID_TRANSACTION (''Transaction '' @ to_string (int i) @
           '' spends an output already spent within this block'')) (
      block_outpoints i (insert outpoint blockOutpoints) inputs))"

fun tx_in_loop :: "UTXOSet \<Rightarrow> nat \<Rightarrow> u64 \<Rightarrow> TxInput list \<Rightarrow> u64 block_check" where
  "tx_in_loop utxoSet i txIn [] = Accepts txIn"
| "tx_in_loop utxoSet i txIn (input # inputs) =
     (case GetCoin (input_outpoint input) utxoSet of
        None \<Rightarrow> Rejects (BlockInvalid INVALID_TRANSACTION (''Transaction '' @ to_string (int i) @
                   '' input missing during fee accounting''))
      | Some coin \<Rightarrow>
          let newIn = txIn + of_int (cValue coin) in
          reject_if (newIn < txIn)
            (BlockInvalid INVALID_TRANSACTION ''Input value overflow during fee accounting'') (
          tx_in_loop utxoSet i newIn inputs))"

fun fees_loop ::
  "(bytes32 \<Rightarrow> bytes64 \<Rightarrow> byte list \<Rightarrow> bool) \<Rightarrow> UTXOSet \<Rightarrow> u32 \<Rightarrow> nat \<Rightarrow> Transaction list \<Rightarrow>
   (bytes32 \<times> u32) set \<Rightarrow> (bytes32 \<times> u32) set \<Rightarrow> u64 \<Rightarrow> u64 block_check" where
  "fees_loop verify utxoSet currentHeight i [] blockOutpoints blockLeaves totalFees = Accepts totalFees"
| "fees_loop verify utxoSet currentHeight i (tx # txs) blockOutpoints blockLeaves totalFees =
     vbind (block_outpoints i blockOutpoints (mInputs tx)) (\<lambda>blockOutpoints.
     vbind (tx_failed (\<lambda>txState. ''Transaction '' @ to_string (int i) @ '' UTXO check failed: '' @ ts_reason txState)
       (CheckTransactionWithUTXO tx utxoSet currentHeight)) (\<lambda>_.
     vbind (tx_failed (\<lambda>txState. ''Transaction '' @ to_string (int i) @ '' signature verification failed: '' @
         ts_reason txState) (VerifyTransactionSignatures verify tx utxoSet blockLeaves)) (\<lambda>blockLeaves.
     vbind (tx_in_loop utxoSet i 0 (mInputs tx)) (\<lambda>txIn.
     let txOut = fold (\<lambda>out txOut. txOut + of_int (mValue out)) (mOutputs tx) 0 in
     reject_if (txIn < txOut)
       (BlockInvalid INVALID_TRANSACTION (''Transaction '' @ to_string (int i) @ '' outputs exceed inputs'')) (
     let newTotalFees = totalFees + (txIn - txOut) in
     reject_if (newTotalFees < totalFees)
       (BlockInvalid INVALID_TRANSACTION ''Accumulated block fees out of range'') (
     fees_loop verify utxoSet currentHeight (i + 1) txs blockOutpoints blockLeaves newTotalFees))))))"

definition CheckBlockTransactionsWithUTXO ::
  "(bytes32 \<Rightarrow> bytes64 \<Rightarrow> byte list \<Rightarrow> bool) \<Rightarrow> Block \<Rightarrow> UTXOSet \<Rightarrow> u32 \<Rightarrow> unit block_check" where
  "CheckBlockTransactionsWithUTXO verify block utxoSet currentHeight =
     vbind (fees_loop verify utxoSet currentHeight 1 (drop 1 (mTransactions block)) {} {} 0) (\<lambda>totalFees.
     let subsidy = GetBlockSubsidy (ucast currentHeight);
         allowed = subsidy + MinerFeesAtHeight currentHeight totalFees in
     reject_if (allowed < subsidy) (BlockInvalid INVALID_COINBASE ''Block reward overflow (subsidy + fees)'') (
     case mTransactions block of
       [] \<Rightarrow> Throws OutOfBounds
     | coinbase # _ \<Rightarrow>
         vbind (vlift (GetValueOut coinbase)) (\<lambda>coinbaseOut.
         reject_if (coinbaseOut < 0) (BlockInvalid INVALID_COINBASE ''Coinbase output value is negative'') (
         reject_if (of_int coinbaseOut > allowed)
           (BlockInvalid INVALID_COINBASE (''Coinbase output '' @ to_string coinbaseOut @
              '' exceeds allowed subsidy plus fees '' @ to_string (uint allowed))) (
         Accepts ())))))"

definition CheckBlockReveals :: "Block \<Rightarrow> UTXOSet \<Rightarrow> u32 \<Rightarrow> unit block_check" where
  "CheckBlockReveals block utxoSet currentHeight =
     reject_if (\<not> ComputeLeafRoot block = mLeafRoot (mHeader block))
       (BlockInvalid INVALID_MERKLE_ROOT ''Leaf root does not match the noise proofs in this block'') (
     Accepts ())"

definition ValidateBlock ::
  "(bytes32 \<Rightarrow> bytes64 \<Rightarrow> byte list \<Rightarrow> bool) \<Rightarrow> u64 \<Rightarrow> Block \<Rightarrow> UTXOSet \<Rightarrow> u32 \<Rightarrow> unit block_check" where
  "ValidateBlock verify now block utxoSet ht =
     vbind (CheckBlock now block) (\<lambda>_.
     vbind (CheckBlockReveals block utxoSet ht) (\<lambda>_.
     CheckBlockTransactionsWithUTXO verify block utxoSet ht))"

definition CheckGenesisBlock :: "Block \<Rightarrow> unit block_check" where
  "CheckGenesisBlock block = (case mTransactions block of
     [] \<Rightarrow> Rejects (BlockInvalid INVALID_GENESIS ''Genesis block has no transactions'')
   | coinbase # _ \<Rightarrow>
       reject_if (\<not> IsCoinbase coinbase)
         (BlockInvalid INVALID_GENESIS ''Genesis block first transaction is not coinbase'') (
       reject_if (mHeight (mHeader block) \<noteq> 0) (BlockInvalid INVALID_GENESIS ''Genesis block height must be zero'') (
       reject_if (\<not> all_zero (mPrevBlockHash (mHeader block)))
         (BlockInvalid INVALID_GENESIS ''Genesis block prev hash must be zero'') (
       reject_if (mTimestamp (mHeader block) \<noteq> GENESIS_TIMESTAMP)
         (BlockInvalid INVALID_GENESIS ''Genesis block timestamp mismatch'') (
       Accepts ())))))"

section \<open>What an accepted list of payments satisfies\<close>

lemma tx_failed_Accepts [simp]: "tx_failed msg m = Accepts a \<longleftrightarrow> m = Accepts a"
  by (cases m) auto

definition op_of :: "bytes32 \<times> u32 \<Rightarrow> OutPoint" where
  "op_of p = OutPoint (fst p) (snd p)"

lemma block_outpoints_Accepts:
  "block_outpoints i S ins = Accepts S' \<Longrightarrow>
   distinct (map input_outpoint ins) \<and> input_outpoint ` set ins \<inter> op_of ` S = {} \<and>
   op_of ` S' = op_of ` S \<union> input_outpoint ` set ins"
proof (induction ins arbitrary: S)
  case (Cons input ins)
  let ?p = "(mPrevTxHash input, mOutputIndex input)"
  have p: "?p \<notin> S" "block_outpoints i (insert ?p S) ins = Accepts S'" using Cons.prems by (auto simp: Let_def)
  have e: "op_of ?p = input_outpoint input" by (simp add: op_of_def input_outpoint_def)
  have "input_outpoint input \<notin> op_of ` S" using p(1) by (auto simp: op_of_def input_outpoint_def)
  then show ?case using Cons.IH [OF p(2)] e by auto
qed auto

lemma uint_add_exact:
  assumes "0 \<le> v" and "uint (w :: u64) + v < 2 ^ 64"
  shows "uint (w + of_int v) = uint w + v"
  using assms uint_ge_0 [of w] by (simp add: uint_word_ariths uint_word_of_int take_bit_int_def mod_simps)

lemma tx_in_loop_exact:
  assumes "\<forall>i \<in> set ins. spendable u ht i" and "uint t + (\<Sum>i \<leftarrow> ins. input_value u i) < 2 ^ 64"
  shows "\<exists>r. tx_in_loop u k t ins = Accepts r \<and> uint r = uint t + (\<Sum>i \<leftarrow> ins. input_value u i)"
  using assms
proof (induction ins arbitrary: t)
  case (Cons i ins)
  obtain c where c: "GetCoin (input_outpoint i) u = Some c" "0 \<le> cValue c" "input_value u i = cValue c"
    using Cons.prems(1) by (auto simp: spendable_def input_value_def)
  have nn: "0 \<le> (\<Sum>i \<leftarrow> ins. input_value u i)"
    using Cons.prems(1) by (intro sum_list_nonneg) (auto intro: spendable_nonneg)
  have e: "uint (t + of_int (cValue c)) = uint t + cValue c"
    using Cons.prems(2) c nn by (intro uint_add_exact) auto
  then have "\<not> t + of_int (cValue c) < t" using c(2) by (simp add: word_less_def)
  then show ?case using Cons.IH [of "t + of_int (cValue c)"] Cons.prems c e by (simp add: Let_def algebra_simps)
qed simp

lemma out_fold_exact:
  assumes "\<forall>out \<in> set outs. 0 \<le> mValue out" and "uint (t :: u64) + (\<Sum>out \<leftarrow> outs. mValue out) < 2 ^ 64"
  shows "uint (fold (\<lambda>out txOut. txOut + of_int (mValue out)) outs t) = uint t + (\<Sum>out \<leftarrow> outs. mValue out)"
  using assms
proof (induction outs arbitrary: t)
  case (Cons out outs)
  have "0 \<le> (\<Sum>out \<leftarrow> outs. mValue out)" using Cons.prems(1) by (intro sum_list_nonneg) auto
  then have "uint (t + of_int (mValue out)) = uint t + mValue out"
    using Cons.prems by (intro uint_add_exact) auto
  then show ?case using Cons.IH [of "t + of_int (mValue out)"] Cons.prems by (simp add: algebra_simps)
qed simp

lemma uint_add_checked: "\<not> (f :: u64) + d < f \<Longrightarrow> uint (f + d) = uint f + uint d"
  by (metis linorder_not_less no_olen_add uint_plus_simple)

text \<open>The payments of a block against the set its parent left.\<close>

definition payment_ok :: "UTXOSet \<Rightarrow> u32 \<Rightarrow> Transaction \<Rightarrow> bool" where
  "payment_ok u ht tx \<longleftrightarrow> utxo_checks_ok tx u ht \<and>
     (\<forall>i \<in> set (mInputs tx). coin_view u (input_outpoint i) = GetCoin (input_outpoint i) u \<and>
        coin_view u (input_outpoint i) \<noteq> None \<and> mNoiseProof i \<noteq> [] \<and> proofs_parse i)"

definition block_payments_ok :: "UTXOSet \<Rightarrow> u32 \<Rightarrow> Transaction list \<Rightarrow> OutPoint set \<Rightarrow> NoiseLeafKey set \<Rightarrow> bool" where
  "block_payments_ok u ht txs spent used \<longleftrightarrow> (\<forall>tx \<in> set txs. payment_ok u ht tx) \<and>
     distinct (concat (map (\<lambda>tx. map input_outpoint (mInputs tx)) txs)) \<and> (\<Union>tx \<in> set txs. spends tx) \<inter> spent = {} \<and>
     distinct (concat (map tx_leaf_keys txs)) \<and> (\<Union>tx \<in> set txs. set (tx_leaf_keys tx)) \<inter> (leaf_view u \<union> used) = {}"

lemma block_payments_Cons:
  "block_payments_ok u ht (tx # txs) spent used \<longleftrightarrow> payment_ok u ht tx \<and>
     distinct (map input_outpoint (mInputs tx)) \<and> spends tx \<inter> spent = {} \<and>
     distinct (tx_leaf_keys tx) \<and> set (tx_leaf_keys tx) \<inter> (leaf_view u \<union> used) = {} \<and>
     block_payments_ok u ht txs (spent \<union> spends tx) (used \<union> set (tx_leaf_keys tx))"
proof -
  have o: "set (concat (map (\<lambda>tx. map input_outpoint (mInputs tx)) txs)) = (\<Union>tx \<in> set txs. spends tx)"
    "set (map input_outpoint (mInputs tx)) = spends tx"
    and k: "set (concat (map tx_leaf_keys txs)) = (\<Union>tx \<in> set txs. set (tx_leaf_keys tx))"
    by (simp_all add: spends_def)
  have "spends tx \<inter> A = {} \<and> (spends tx \<union> A) \<inter> spent = {} \<longleftrightarrow> spends tx \<inter> spent = {} \<and> A \<inter> (spent \<union> spends tx) = {}" for A
    by blast
  moreover have "B \<inter> C = {} \<and> (B \<union> C) \<inter> (V \<union> used) = {} \<longleftrightarrow> B \<inter> (V \<union> used) = {} \<and> C \<inter> (V \<union> (used \<union> B)) = {}"
    for B C V :: "NoiseLeafKey set" by blast
  ultimately show ?thesis
    unfolding block_payments_ok_def list.set map_append list.map concat.simps distinct_append o k ball_simps UN_insert by metis
qed

lemma fees_loop_sound:
  assumes "fees_loop verify u ht i txs ops lvs f = Accepts f'" and "\<forall>tx \<in> set txs. \<not> IsCoinbase tx \<and> wf_Transaction tx"
  shows "block_payments_ok u ht txs (op_of ` ops) (key_of ` lvs) \<and>
    uint f' = uint f + (\<Sum>tx \<leftarrow> txs. value_in u tx - value_out tx)"
  using assms
proof (induction txs arbitrary: i ops lvs f)
  case Nil
  then show ?case by (simp add: block_payments_ok_def)
next
  case (Cons tx txs)
  have nc: "\<not> IsCoinbase tx" and wf: "wf_Transaction tx" using Cons.prems(2) by auto
  obtain ops2 lvs2 txIn where B: "block_outpoints i ops (mInputs tx) = Accepts ops2"
    and U: "CheckTransactionWithUTXO tx u ht = Accepts ()"
    and V: "VerifyTransactionSignatures verify tx u lvs = Accepts lvs2"
    and I: "tx_in_loop u i 0 (mInputs tx) = Accepts txIn"
    and le: "\<not> txIn < fold (\<lambda>out txOut. txOut + of_int (mValue out)) (mOutputs tx) 0"
    and nf: "\<not> f + (txIn - fold (\<lambda>out txOut. txOut + of_int (mValue out)) (mOutputs tx) 0) < f"
    and R: "fees_loop verify u ht (i + 1) txs ops2 lvs2
      (f + (txIn - fold (\<lambda>out txOut. txOut + of_int (mValue out)) (mOutputs tx) 0)) = Accepts f'"
    using Cons.prems(1) by (auto simp: Let_def)
  have ok: "utxo_checks_ok tx u ht" using U CheckTransactionWithUTXO_Accepts [OF nc] by simp
  have m: "MAX_MONEY < 2 ^ 64" by (simp add: MAX_MONEY_def COIN_def)
  have "value_in u tx \<le> MAX_MONEY" "\<forall>i \<in> set (mInputs tx). spendable u ht i" using ok by (auto simp: utxo_checks_ok_def)
  then have eI: "uint txIn = value_in u tx"
    using tx_in_loop_exact [of "mInputs tx" u ht 0 i] I m by (auto simp: value_in_def)
  have "value_out tx \<le> MAX_MONEY" "\<forall>out \<in> set (mOutputs tx). 0 \<le> mValue out"
    using ok by (auto simp: utxo_checks_ok_def context_free_ok_def value_out_def output_ok_def)
  then have eO: "uint (fold (\<lambda>out txOut. txOut + of_int (mValue out)) (mOutputs tx) (0 :: u64)) = value_out tx"
    using out_fold_exact [of "mOutputs tx" 0] m by (simp add: value_out_def)
  have "uint (txIn - fold (\<lambda>out txOut. txOut + of_int (mValue out)) (mOutputs tx) 0) = value_in u tx - value_out tx"
    using le eI eO by (simp add: uint_minus_simple_alt [THEN iffD1] word_less_def word_le_def uint_sub_lem not_less)
  then have ef: "uint (f + (txIn - fold (\<lambda>out txOut. txOut + of_int (mValue out)) (mOutputs tx) 0)) =
      uint f + (value_in u tx - value_out tx)"
    using uint_add_checked [OF nf] by simp
  note P = verified_payment [OF V nc wf]
  note IH = Cons.IH [OF R]
  show ?case
  proof
    show "uint f' = uint f + (\<Sum>tx \<leftarrow> tx # txs. value_in u tx - value_out tx)" using IH Cons.prems(2) ef by simp
    have "block_payments_ok u ht txs (op_of ` ops2) (key_of ` lvs2)" using IH Cons.prems(2) by simp
    moreover have "payment_ok u ht tx" unfolding payment_ok_def using P(1) ok by blast
    ultimately show "block_payments_ok u ht (tx # txs) (op_of ` ops) (key_of ` lvs)"
      using block_outpoints_Accepts [OF B] P(2-4) by (simp add: block_payments_Cons flip: spends_def)
  qed
qed

section \<open>Accepted blocks\<close>

definition block_fees :: "UTXOSet \<Rightarrow> Transaction list \<Rightarrow> int" where
  "block_fees u txs = (\<Sum>tx \<leftarrow> txs. value_in u tx - value_out tx)"

lemma fees_nonneg: "block_payments_ok u ht txs spent used \<Longrightarrow> 0 \<le> block_fees u txs"
  unfolding block_fees_def
proof (intro sum_list_nonneg)
  fix f assume "f \<in> set (map (\<lambda>tx. value_in u tx - value_out tx) txs)" and "block_payments_ok u ht txs spent used"
  then obtain tx where "f = value_in u tx - value_out tx" "utxo_checks_ok tx u ht"
    by (auto simp: block_payments_ok_def payment_ok_def)
  then show "0 \<le> f" by (auto simp: utxo_checks_ok_def)
qed

lemma GetValueOut_sum:
  "GetValueOut tx = Inr v \<Longrightarrow> v = value_out tx \<and> (\<forall>out \<in> set (mOutputs tx). 0 \<le> mValue out)"
proof -
  have "sum_values neg over tot outs = Inr v \<Longrightarrow>
      v = tot + (\<Sum>out \<leftarrow> outs. mValue out) \<and> (\<forall>out \<in> set outs. 0 \<le> mValue out)" for neg over tot outs
    by (induction outs arbitrary: tot) (simp, fastforce simp: guard_throw_eq_Inr_iff)
  then show "GetValueOut tx = Inr v \<Longrightarrow> v = value_out tx \<and> (\<forall>out \<in> set (mOutputs tx). 0 \<le> mValue out)"
    by (fastforce simp: GetValueOut_def value_out_def)
qed

lemma GetValueOut_bound: "GetValueOut tx = Inr v \<Longrightarrow> v \<le> INT64_MAX"
proof -
  have "sum_values neg over tot outs = Inr v \<Longrightarrow> tot \<le> INT64_MAX \<Longrightarrow> v \<le> INT64_MAX" for neg over tot outs
    by (induction outs arbitrary: tot) (auto simp: guard_throw_eq_Inr_iff)
  then show "GetValueOut tx = Inr v \<Longrightarrow> v \<le> INT64_MAX" by (fastforce simp: GetValueOut_def INT64_MAX_def)
qed

lemma subsidy_bound: "uint (GetBlockSubsidy h) \<le> 7700000000"
  using GetBlockSubsidy_unat [of h] by (simp add: uint_nat)

lemma CheckBlockTransactionsWithUTXO_sound:
  assumes "CheckBlockTransactionsWithUTXO verify block u ht = Accepts ()" and "mTransactions block = cb # txs"
    and "\<forall>tx \<in> set txs. \<not> IsCoinbase tx \<and> wf_Transaction tx"
  shows "block_payments_ok u ht txs {} {} \<and> (\<forall>out \<in> set (mOutputs cb). 0 \<le> mValue out) \<and>
    value_out cb \<le> uint (GetBlockSubsidy (ucast ht)) + (if ht < FEES_TO_MINER_HEIGHT then 0 else block_fees u txs)"
proof -
  let ?s = "GetBlockSubsidy (ucast ht)"
  obtain f v where F: "fees_loop verify u ht 1 txs {} {} 0 = Accepts f"
    and no: "\<not> ?s + MinerFeesAtHeight ht f < ?s" and V: "GetValueOut cb = Inr v" "\<not> v < 0"
    and le: "\<not> of_int v > ?s + MinerFeesAtHeight ht f"
    using assms(1,2) by (auto simp: CheckBlockTransactionsWithUTXO_def Let_def)
  have P: "block_payments_ok u ht txs {} {}" "uint f = block_fees u txs"
    using fees_loop_sound [OF F assms(3)] by (simp_all add: block_fees_def)
  have "uint (of_int v :: u64) = v"
    using V(2) GetValueOut_bound [OF V(1)] by (simp add: INT64_MAX_def uint_word_of_int take_bit_int_def)
  then have "v \<le> uint ?s + uint (MinerFeesAtHeight ht f)"
    using le uint_add_checked [OF no] by (simp add: word_less_def not_less)
  then show ?thesis
    using P GetValueOut_sum [OF V(1)] by (auto simp: MinerFeesAtHeight_def split: if_splits)
qed

lemma block_txs_loop_Accepts:
  "block_txs_loop i txs = Accepts () \<longleftrightarrow> (\<forall>tx \<in> set txs. \<not> IsCoinbase tx \<and> context_free_ok tx)"
  by (induction txs arbitrary: i) (auto simp: CheckTransaction_Accepts)

lemma dup_tx_loop_Accepts:
  "dup_tx_loop i seen txs = Accepts () \<longleftrightarrow> distinct (map GetHash txs) \<and> GetHash ` set txs \<inter> seen = {}"
  by (induction txs arbitrary: i seen) auto

lemma CheckBlock_Accepts:
  "CheckBlock now block = Accepts () \<longleftrightarrow>
     hVersion (mHeader block) \<noteq> 0 \<and> GENESIS_TIMESTAMP \<le> mTimestamp (mHeader block) \<and>
     mTimestamp (mHeader block) \<le> now + 7200 \<and> \<not> all_zero (mMerkleRoot (mHeader block)) \<and>
     CheckProofOfWork (BlockHeader_GetHash (mHeader block)) (mBits (mHeader block)) \<and>
     Block_GetSerializedSize block \<le> MAX_BLOCK_SIZE \<and>
     Block_ComputeMerkleRoot block = mMerkleRoot (mHeader block) \<and>
     (\<exists>cb txs. mTransactions block = cb # txs \<and> IsCoinbase cb \<and>
        (\<forall>tx \<in> set txs. \<not> IsCoinbase tx \<and> context_free_ok tx)) \<and>
     distinct (map GetHash (mTransactions block))"
proof -
  have "mTimestamp h \<noteq> 0" if "GENESIS_TIMESTAMP \<le> mTimestamp h" for h :: BlockHeader
    using that by (auto simp: GENESIS_TIMESTAMP_def)
  then show ?thesis
    by (auto simp: CheckBlock_def CheckBlockHeader_def CheckBlockSize_def CheckMerkleRoot_def CheckBlockTransactions_def
        CheckDuplicateTransactions_def dup_tx_loop_Accepts block_txs_loop_Accepts Let_def not_less split: list.splits)
qed

end
