(* ===== verification/Block_Undo.thy ===== *)
theory Block_Undo
  imports Utxo_Set Block
begin

text \<open>
  Undo data, \<open>src/src/storage/block_undo.cpp\<close>: the coins a block spent, transaction by
  transaction, and their file format.
\<close>

section \<open>Format\<close>

record TxUndo =
  spentCoins :: "Coin list"

record BlockUndo =
  txUndo :: "TxUndo list"

definition COIN_BLOB_SIZE :: nat where
  "COIN_BLOB_SIZE = 8 + 4 + 1 + 1 + 32"

definition WriteCoin :: "Coin \<Rightarrow> byte list" where
  "WriteCoin c =
     WriteLE64 (of_int (cValue c)) @ WriteLE32 (cHeight c) @
     [if cIsCoinbase c then 1 else 0, if cIsSpent c then 1 else 0] @ cPubkeyHash c"

definition ReadCoin :: "byte list \<Rightarrow> nat \<Rightarrow> (Coin \<times> nat) result" where
  "ReadCoin data offset =
     rbind (ReadLE64 data offset) (\<lambda>(v, offset).
     rbind (ReadLE32 data offset) (\<lambda>(h, offset).
     rbind (rd8 data offset) (\<lambda>cb. let offset = offset + 1 in
     rbind (rd8 data offset) (\<lambda>sp. let offset = offset + 1 in
     rbind (rd_bytes 32 data offset) (\<lambda>pk. let offset = offset + 32 in
       Inr (\<lparr>cValue = sint v, cPubkeyHash = pk, cHeight = h, cIsCoinbase = cb \<noteq> 0, cIsSpent = sp \<noteq> 0\<rparr>, offset))))))"

definition TxUndo_Serialize :: "TxUndo \<Rightarrow> byte list" where
  "TxUndo_Serialize tu = WriteLE32 (of_nat (length (spentCoins tu))) @ concat (map WriteCoin (spentCoins tu))"

definition BlockUndo_Serialize :: "BlockUndo \<Rightarrow> byte list" where
  "BlockUndo_Serialize undo =
     WriteLE32 (of_nat (length (txUndo undo))) @ concat (map TxUndo_Serialize (txUndo undo))"

definition TxUndo_Deserialize :: "byte list \<Rightarrow> nat \<Rightarrow> (TxUndo \<times> nat) result" where
  "TxUndo_Deserialize data offset =
     guard_throw (offset + 4 > length data) (RuntimeError ''BlockUndo: truncated at input count'') (
     rbind (ReadLE32 data offset) (\<lambda>(coinCount, offset).
     guard_throw (unat coinCount > MAX_TRANSACTIONS) (RuntimeError ''BlockUndo: coin count implausible'') (
     guard_throw (offset + unat coinCount * COIN_BLOB_SIZE > length data)
       (RuntimeError ''BlockUndo: truncated inside coins'') (
     rbind (dec_n ReadCoin (unat coinCount) data offset) (\<lambda>(coins, offset).
       Inr (\<lparr>spentCoins = coins\<rparr>, offset))))))"

definition BlockUndo_Deserialize :: "byte list \<Rightarrow> BlockUndo result" where
  "BlockUndo_Deserialize data =
     guard_throw (length data < 4) (RuntimeError ''BlockUndo: data too short'') (
     rbind (ReadLE32 data 0) (\<lambda>(txCount, offset).
     guard_throw (unat txCount > MAX_TRANSACTIONS) (RuntimeError ''BlockUndo: transaction count implausible'') (
     rbind (dec_n TxUndo_Deserialize (unat txCount) data offset) (\<lambda>(tus, offset).
       Inr \<lparr>txUndo = tus\<rparr>))))"

section \<open>Coins\<close>

lemma WriteCoin_length: "wf_Coin c \<Longrightarrow> length (WriteCoin c) = COIN_BLOB_SIZE"
  by (simp add: WriteCoin_def COIN_BLOB_SIZE_def wf_Coin_def)

lemma ReadCoin_at:
  assumes wf: "wf_Coin c" and a: "at_off data off (WriteCoin c @ s)"
  shows "ReadCoin data off = Inr (c, off + COIN_BLOB_SIZE)"
proof -
  have p: "length (cPubkeyHash c) = 32" and v: "sint (of_int (cValue c) :: u64) = cValue c"
    using wf by (simp_all add: wf_Coin_def sint_of_int64)
  note a0 = a [unfolded WriteCoin_def append_assoc]
  note a1 = at_off_step [OF a0 length_WriteLE64] note a2 = at_off_step [OF a1 length_WriteLE32, unfolded append_Cons append_Nil]
  note a3 = at_off_Cons [OF a2] note a4 = at_off_Cons [OF a3]
  show ?thesis
    using ReadLE64_at [OF a0] ReadLE32_at [OF a1] rd8_here [OF a2] rd8_here [OF a3] rd_bytes_at [OF a4 p] v
    by (simp add: ReadCoin_def COIN_BLOB_SIZE_def Let_def)
qed

lemma ReadCoin_total:
  assumes "off + COIN_BLOB_SIZE \<le> length data"
  shows "\<exists>c. ReadCoin data off = Inr (c, off + COIN_BLOB_SIZE) \<and> wf_Coin c"
proof -
  have "ReadCoin data off \<noteq> Inl OutOfBounds" "\<And>e. ReadCoin data off = Inl e \<Longrightarrow> e = OutOfBounds"
    using assms by (auto simp: ReadCoin_def COIN_BLOB_SIZE_def Let_def oob_simps rbind_def ReadLE64_def ReadLE32_def
      rd8_def rd_bytes_def split: sum.splits if_splits)
  then obtain c off' where r: "ReadCoin data off = Inr (c, off')" by (cases "ReadCoin data off") auto
  then obtain v :: u64 where "off' = off + COIN_BLOB_SIZE" "cValue c = sint v" "is_bytes32 (cPubkeyHash c)"
    by (auto simp: ReadCoin_def Let_def rbind_eq_Inr_iff COIN_BLOB_SIZE_def
      dest!: ReadLE64_off ReadLE32_off rd_bytes_length)
  then show ?thesis using r sint_ge [of v] sint_lt [of v] by (simp add: wf_Coin_def)
qed

lemma dec_n_ReadCoin:
  "off + n * COIN_BLOB_SIZE \<le> length data \<Longrightarrow>
   \<exists>cs. dec_n ReadCoin n data off = Inr (cs, off + n * COIN_BLOB_SIZE) \<and> length cs = n \<and> (\<forall>c \<in> set cs. wf_Coin c)"
proof (induction n arbitrary: off)
  case (Suc n)
  obtain c where c: "ReadCoin data off = Inr (c, off + COIN_BLOB_SIZE)" "wf_Coin c"
    using ReadCoin_total [of off data] Suc.prems by auto
  have "off + COIN_BLOB_SIZE + n * COIN_BLOB_SIZE \<le> length data" using Suc.prems by simp
  from Suc.IH [OF this] obtain cs where
    "dec_n ReadCoin n data (off + COIN_BLOB_SIZE) = Inr (cs, off + COIN_BLOB_SIZE + n * COIN_BLOB_SIZE)"
    "length cs = n" "\<forall>c \<in> set cs. wf_Coin c" by blast
  then show ?case using c by (intro exI [of _ "c # cs"]) (simp add: algebra_simps)
qed simp

lemma dec_n_ReadCoin_at:
  "\<forall>c \<in> set cs. wf_Coin c \<Longrightarrow> at_off data off (concat (map WriteCoin cs) @ s) \<Longrightarrow>
   dec_n ReadCoin (length cs) data off = Inr (cs, off + length cs * COIN_BLOB_SIZE)"
proof (induction cs arbitrary: off)
  case (Cons c cs)
  have a: "at_off data off (WriteCoin c @ concat (map WriteCoin cs) @ s)" using Cons.prems(2) by simp
  have w: "wf_Coin c" using Cons.prems by simp
  show ?case
    using ReadCoin_at [OF w a] Cons.IH [OF _ at_off_step [OF a WriteCoin_length [OF w]]] Cons.prems(1)
    by (simp add: algebra_simps)
qed simp

section \<open>Undo records\<close>

definition wf_TxUndo :: "TxUndo \<Rightarrow> bool" where
  "wf_TxUndo tu \<longleftrightarrow> length (spentCoins tu) \<le> MAX_TRANSACTIONS \<and> (\<forall>c \<in> set (spentCoins tu). wf_Coin c)"

definition wf_BlockUndo :: "BlockUndo \<Rightarrow> bool" where
  "wf_BlockUndo undo \<longleftrightarrow> length (txUndo undo) \<le> MAX_TRANSACTIONS \<and> (\<forall>tu \<in> set (txUndo undo). wf_TxUndo tu)"

lemma undo_count: "n \<le> MAX_TRANSACTIONS \<Longrightarrow> unat (of_nat n :: u32) = n"
  by (simp add: MAX_TRANSACTIONS_def unat_of_nat)

lemma coins_length: "\<forall>c \<in> set cs. wf_Coin c \<Longrightarrow> length (concat (map WriteCoin cs)) = length cs * COIN_BLOB_SIZE"
  by (induction cs) (simp_all add: WriteCoin_length)

lemma TxUndo_at:
  assumes wf: "wf_TxUndo tu" and a: "at_off data off (TxUndo_Serialize tu @ s)"
  shows "TxUndo_Deserialize data off = Inr (tu, off + length (TxUndo_Serialize tu))"
proof -
  let ?cs = "spentCoins tu"
  have w: "\<forall>c \<in> set ?cs. wf_Coin c" "length ?cs \<le> MAX_TRANSACTIONS" using wf by (auto simp: wf_TxUndo_def)
  note a0 = a [unfolded TxUndo_Serialize_def append_assoc]
  note a1 = at_off_step [OF a0 length_WriteLE32]
  show ?thesis
    unfolding TxUndo_Deserialize_def
    using ReadLE32_at [OF a0] dec_n_ReadCoin_at [OF w(1) a1] at_off_length [OF a1] w(2)
    by (simp add: undo_count [OF w(2)] coins_length [OF w(1)] TxUndo_Serialize_def)
qed

lemma TxUndo_Deserialize_safe: "TxUndo_Deserialize data off \<noteq> Inl OutOfBounds"
proof -
  have "dec_n ReadCoin n data off \<noteq> Inl OutOfBounds" if "\<not> length data < off + n * COIN_BLOB_SIZE" for n off
    using dec_n_ReadCoin [of off n data] that by auto
  then show ?thesis
    by (auto simp: TxUndo_Deserialize_def oob_simps split: if_splits dest!: ReadLE32_off)
qed

lemma TxUndo_Deserialize_bounds:
  assumes "TxUndo_Deserialize data off = Inr (tu, off')"
  shows "wf_TxUndo tu \<and> off \<le> off' \<and> off' \<le> length data"
proof -
  obtain n :: u32 and cs where n: "unat n \<le> MAX_TRANSACTIONS" "off + 4 + unat n * COIN_BLOB_SIZE \<le> length data"
    "dec_n ReadCoin (unat n) data (off + 4) = Inr (cs, off')" "spentCoins tu = cs"
    using assms by (auto simp: TxUndo_Deserialize_def rbind_eq_Inr_iff not_less dest!: ReadLE32_off)
  then show ?thesis using dec_n_ReadCoin [OF n(2)] by (auto simp: wf_TxUndo_def)
qed

interpretation tx_undo: codec TxUndo_Serialize TxUndo_Deserialize wf_TxUndo
proof unfold_locales
  show "TxUndo_Deserialize (pre @ TxUndo_Serialize x @ post) (length pre) =
      Inr (x, length pre + length (TxUndo_Serialize x))" if "wf_TxUndo x" for x pre post
    by (rule TxUndo_at [OF that at_offI])
qed (use TxUndo_Deserialize_safe TxUndo_Deserialize_bounds in force)+

lemma BlockUndo_Deserialize_Serialize:
  assumes "wf_BlockUndo undo"
  shows "BlockUndo_Deserialize (BlockUndo_Serialize undo @ post) = Inr undo"
proof -
  let ?d = "BlockUndo_Serialize undo @ post"
  have w: "\<forall>tu \<in> set (txUndo undo). wf_TxUndo tu" "length (txUndo undo) \<le> MAX_TRANSACTIONS"
    using assms by (auto simp: wf_BlockUndo_def)
  have a0: "at_off ?d 0 (WriteLE32 (of_nat (length (txUndo undo))) @ concat (map TxUndo_Serialize (txUndo undo)) @ post)"
    by (simp add: at_off_def BlockUndo_Serialize_def)
  note a1 = at_off_step [OF a0 length_WriteLE32]
  show ?thesis
    using ReadLE32_at [OF a0] tx_undo.dec_n_at [OF w(1) a1, of "length (txUndo undo)"] at_off_length [OF a1] w(2)
    by (simp add: BlockUndo_Deserialize_def undo_count [OF w(2)])
qed

text \<open>
  Undo data survives the disk: the serialisation of a well-formed record, whatever
  follows it in the buffer, parses back to the record; arbitrary bytes are parsed without
  reading outside the buffer, although \<open>ReadCoin\<close> itself checks nothing, and only
  well-formed records come out.
\<close>

theorem BlockUndo_round_trip:
  assumes "wf_BlockUndo undo"
  shows "BlockUndo_Deserialize (BlockUndo_Serialize undo @ post) = Inr undo \<and>
    BlockUndo_Deserialize data \<noteq> Inl OutOfBounds \<and>
    (\<forall>undo'. BlockUndo_Deserialize data = Inr undo' \<longrightarrow> wf_BlockUndo undo')"
proof (intro conjI allI impI)
  show "BlockUndo_Deserialize (BlockUndo_Serialize undo @ post) = Inr undo"
    by (rule BlockUndo_Deserialize_Serialize [OF assms])
  show "BlockUndo_Deserialize data \<noteq> Inl OutOfBounds"
    by (auto simp: BlockUndo_Deserialize_def oob_simps tx_undo.dec_n_safe split: if_splits dest!: ReadLE32_off)
  show "wf_BlockUndo undo'" if "BlockUndo_Deserialize data = Inr undo'" for undo'
    using that by (auto simp: BlockUndo_Deserialize_def rbind_eq_Inr_iff wf_BlockUndo_def not_less
      dest!: ReadLE32_off tx_undo.dec_n_bounds [rotated])
qed

theorem BlockUndo_round_trip_witness:
  "BlockUndo_Deserialize (BlockUndo_Serialize \<lparr>txUndo = [\<lparr>spentCoins = [mk_Coin 5 (replicate 32 1) 2 True]\<rparr>]\<rparr> @ []) =
     Inr \<lparr>txUndo = [\<lparr>spentCoins = [mk_Coin 5 (replicate 32 1) 2 True]\<rparr>]\<rparr>"
  using BlockUndo_round_trip [of "\<lparr>txUndo = [\<lparr>spentCoins = [mk_Coin 5 (replicate 32 1) 2 True]\<rparr>]\<rparr>" "[]" "[]"]
  by (simp add: wf_BlockUndo_def wf_TxUndo_def wf_Coin_def mk_Coin_def MAX_TRANSACTIONS_def)

end
