(* ===== verification/Block_Connect.thy ===== *)
theory Block_Connect
  imports Block_Validation Block_Undo Utxo_Flush
begin

text \<open>
  Connecting and disconnecting the transactions of a block, the first part of
  \<open>src/src/storage/chain_state.cpp\<close>: \<open>ApplyBlockTwoPhase\<close> with its rollback,
  \<open>UndoBlockTwoPhase\<close> and the older pair \<open>ApplyBlockTransactions\<close> and
  \<open>UndoBlockTransactions\<close>. They act on the UTXO set alone, which is passed and returned,
  also when an exception leaves them.
\<close>

section \<open>Applying a block\<close>

fun gather_coins :: "UTXOSet \<Rightarrow> TxInput list \<Rightarrow> Coin list option" where
  "gather_coins u [] = Some []"
| "gather_coins u (input # ins) = (case GetCoin (input_outpoint input) u of
     None \<Rightarrow> None
   | Some c \<Rightarrow> (case gather_coins u ins of None \<Rightarrow> None | Some coins \<Rightarrow> Some (c # coins)))"

fun value_in_loop :: "int \<Rightarrow> Coin list \<Rightarrow> int option" where
  "value_in_loop valueIn [] = Some valueIn"
| "value_in_loop valueIn (coin # coins) =
     (if cValue coin < 0 \<or> \<not> CheckMoneyRange (of_int (cValue coin)) then None
      else let nxt = valueIn + cValue coin in
        if nxt < valueIn \<or> \<not> CheckMoneyRange (of_int nxt) then None
        else value_in_loop nxt coins)"

text \<open>The lambda \<open>rollback\<close>; \<open>coinbase\<close> is the first transaction once it has been applied.\<close>

definition rollback_applied :: "Transaction option \<Rightarrow> (Transaction \<times> Coin list) list \<Rightarrow> UTXOSet \<Rightarrow> UTXOSet" where
  "rollback_applied coinbase appliedHere u =
     (let u = fold (\<lambda>(tx, spent) u. snd (UndoTransaction tx spent u)) (rev appliedHere) u
      in case coinbase of None \<Rightarrow> u | Some cb \<Rightarrow> snd (UndoTransaction cb [] u))"

fun apply_payments ::
  "u32 \<Rightarrow> Transaction option \<Rightarrow> (Transaction \<times> Coin list) list \<Rightarrow> TxUndo list \<Rightarrow> Transaction list \<Rightarrow> UTXOSet \<Rightarrow>
   bool result \<times> TxUndo list \<times> UTXOSet" where
  "apply_payments ht coinbase appliedHere undo [] u = (Inr True, undo, u)"
| "apply_payments ht coinbase appliedHere undo (tx # txs) u =
     (case gather_coins u (mInputs tx) of
        None \<Rightarrow> (Inr False, undo, rollback_applied coinbase appliedHere u)
      | Some coins \<Rightarrow> (case value_in_loop 0 coins of
          None \<Rightarrow> (Inr False, undo, rollback_applied coinbase appliedHere u)
        | Some valueIn \<Rightarrow> (case GetValueOut tx of
            Inl e \<Rightarrow> (Inl e, undo, u)
          | Inr valueOut \<Rightarrow>
              if valueOut < 0 \<or> valueIn < valueOut
              then (Inr False, undo, rollback_applied coinbase appliedHere u)
              else (case ApplyTransaction tx ht False u of
                  (False, spentHere, u) \<Rightarrow> (Inr False, undo, rollback_applied coinbase appliedHere u)
                | (True, spentHere, u) \<Rightarrow>
                    apply_payments ht coinbase (appliedHere @ [(tx, spentHere)])
                      (undo @ [\<lparr>spentCoins = spentHere\<rparr>]) txs u))))"

definition ApplyBlockTwoPhase :: "Block \<Rightarrow> u32 \<Rightarrow> UTXOSet \<Rightarrow> bool result \<times> BlockUndo \<times> UTXOSet" where
  "ApplyBlockTwoPhase block ht u =
     (let wrap = (\<lambda>(r, undo, u). (r, \<lparr>txUndo = undo\<rparr>, u)) in
      case mTransactions block of
        [] \<Rightarrow> wrap (Inr True, [], u)
      | tx # txs \<Rightarrow>
          if IsCoinbase tx then
            (case ApplyTransaction tx ht True u of
               (False, spent, u) \<Rightarrow> wrap (Inr False, [], u)
             | (True, spent, u) \<Rightarrow> wrap (apply_payments ht (Some tx) [] [] txs u))
          else wrap (apply_payments ht None [] [] (tx # txs) u))"

section \<open>Undoing a block\<close>

definition payments :: "Transaction list \<Rightarrow> Transaction list" where
  "payments txs = (case txs of [] \<Rightarrow> [] | tx # rest \<Rightarrow> if IsCoinbase tx then rest else txs)"

fun undo_payments :: "(Transaction \<times> TxUndo) list \<Rightarrow> UTXOSet \<Rightarrow> bool \<times> UTXOSet" where
  "undo_payments [] u = (True, u)"
| "undo_payments ((tx, tu) # rest) u = (case UndoTransaction tx (spentCoins tu) u of
     (False, u) \<Rightarrow> (False, u)
   | (True, u) \<Rightarrow> undo_payments rest u)"

definition UndoBlockTwoPhase :: "Block \<Rightarrow> BlockUndo \<Rightarrow> UTXOSet \<Rightarrow> bool \<times> UTXOSet" where
  "UndoBlockTwoPhase block undo u =
     (let txs = mTransactions block in
      if length (txUndo undo) \<noteq> length (payments txs) then (False, u)
      else (case undo_payments (rev (zip (payments txs) (txUndo undo))) u of
          (False, u) \<Rightarrow> (False, u)
        | (True, u) \<Rightarrow> (case txs of
            [] \<Rightarrow> (True, u)
          | tx # _ \<Rightarrow> if IsCoinbase tx then UndoTransaction tx [] u else (True, u))))"

section \<open>The single-phase pair\<close>

fun apply_all ::
  "u32 \<Rightarrow> bool \<Rightarrow> (Transaction \<times> Coin list) list \<Rightarrow> Transaction list \<Rightarrow> UTXOSet \<Rightarrow>
   (Transaction \<times> Coin list) list option \<times> UTXOSet" where
  "apply_all ht first applied [] u = (Some applied, u)"
| "apply_all ht first applied (tx # txs) u =
     (case ApplyTransaction tx ht (first \<and> IsCoinbase tx) u of
        (False, spent, u) \<Rightarrow> (None, fold (\<lambda>(tx, spent) u. snd (UndoTransaction tx spent u)) (rev applied) u)
      | (True, spent, u) \<Rightarrow> apply_all ht False (applied @ [(tx, spent)]) txs u)"

text \<open>\<open>tipHeight\<close> is \<open>mBestChain.height\<close>.\<close>

definition ApplyBlockTransactions :: "u32 \<Rightarrow> Block \<Rightarrow> UTXOSet \<Rightarrow> bool \<times> BlockUndo \<times> UTXOSet" where
  "ApplyBlockTransactions tipHeight block u =
     (case apply_all (tipHeight + 1) True [] (mTransactions block) u of
        (None, u) \<Rightarrow> (False, \<lparr>txUndo = []\<rparr>, u)
      | (Some applied, u) \<Rightarrow>
          (True, \<lparr>txUndo = map (\<lambda>(tx, spent). \<lparr>spentCoins = spent\<rparr>)
             (case applied of [] \<Rightarrow> [] | (tx, spent) # rest \<Rightarrow> if IsCoinbase tx then rest else applied)\<rparr>, u))"

fun undo_all :: "Transaction list \<Rightarrow> TxUndo list \<Rightarrow> UTXOSet \<Rightarrow> bool \<times> UTXOSet" where
  "undo_all [] tus u = (True, u)"
| "undo_all (tx # txs) tus u =
     (if IsCoinbase tx then
        (case UndoTransaction tx [] u of (False, u) \<Rightarrow> (False, u) | (True, u) \<Rightarrow> undo_all txs tus u)
      else (case tus of
          [] \<Rightarrow> (False, u)
        | tu # tus \<Rightarrow> (case UndoTransaction tx (spentCoins tu) u of
            (False, u) \<Rightarrow> (False, u)
          | (True, u) \<Rightarrow> undo_all txs tus u)))"

definition UndoBlockTransactions :: "Block \<Rightarrow> BlockUndo \<Rightarrow> UTXOSet \<Rightarrow> bool \<times> UTXOSet" where
  "UndoBlockTransactions block undo u =
     (let txs = mTransactions block in
      if length (txUndo undo) \<noteq> length (filter (\<lambda>t. \<not> IsCoinbase t) txs) then (False, u)
      else undo_all (rev txs) (rev (txUndo undo)) u)"

section \<open>Connecting is all or nothing, and undoing inverts it\<close>

lemma disconnect_ok:
  assumes "utxo_run u0 ((tx, spent) # log) u" and "utxo_inv u0"
  shows "\<exists>u'. UndoTransaction tx spent u = (True, u') \<and> utxo_run u0 log u'"
proof -
  obtain m' L' ht where w: "wf_Transaction tx" "\<forall>c \<in> set spent. wf_Coin c \<and> \<not> cIsSpent c"
    and a: "ledger_apply tx ht (IsCoinbase tx) m' L' = Some (spent, coin_view u, leaf_view u)" and i: "utxo_inv u"
    using utxo_run_views [OF assms] by auto
  have "\<exists>u'. UndoTransaction tx spent u = (True, u') \<and>
      (coin_view u', leaf_view u') = ledger_undo tx spent (coin_view u) (leaf_view u) \<and> utxo_inv u'"
    by (rule utxo.undo_refines [OF i w(1)]) (use ledger_apply_spent [OF a] w(2) in auto)
  then show ?thesis using utxo_run.disconnect [OF assms(1)] by blast
qed

lemma rollback_run:
  "utxo_run u0 (rev xs @ log) u \<Longrightarrow> utxo_run u0 log (fold (\<lambda>(tx, spent) u. snd (UndoTransaction tx spent u)) (rev xs) u)"
proof (induction xs arbitrary: u rule: rev_induct)
  case (snoc x xs)
  obtain tx spent where x: "x = (tx, spent)" by (cases x)
  have "utxo_run u0 (rev xs @ log) (snd (UndoTransaction tx spent u))"
    using snoc.prems x by (auto intro: utxo_run.disconnect [OF _ surjective_pairing])
  from snoc.IH [OF this] show ?case by (simp add: x)
qed simp

definition coinbase_log :: "Transaction option \<Rightarrow> (Transaction \<times> Coin list) list" where
  "coinbase_log cb = (case cb of None \<Rightarrow> [] | Some tx \<Rightarrow> [(tx, [])])"

lemma rollback_applied_run:
  "utxo_run u0 (rev xs @ coinbase_log cb) u \<Longrightarrow> utxo_run u0 [] (rollback_applied cb xs u)"
  using rollback_run [of u0 xs "coinbase_log cb" u]
  by (auto simp: rollback_applied_def coinbase_log_def Let_def split: option.splits
      intro: utxo_run.disconnect [OF _ surjective_pairing])

lemma outpoints_disjoint: "GetHash tx \<noteq> GetHash tx' \<Longrightarrow> outpoints_of tx \<inter> outpoints_of tx' = {}"
  by (auto simp: outpoints_of_def)

lemma fresh_after:
  assumes "ledger_apply tx ht cb m L = Some (spent, m', L')" and "fresh_outputs tx' m" and "GetHash tx \<noteq> GetHash tx'"
  shows "fresh_outputs tx' m'"
proof -
  have "created tx ht cb a = None" if "a \<in> outpoints_of tx'" for a
    using that outpoints_disjoint [OF assms(3)] dom_created [of tx ht cb] by auto
  then show ?thesis
    using assms(1,2) by (auto simp: fresh_outputs_def ledger_apply_def map_add_def restrict_map_def split: if_splits option.splits)
qed

definition payment_shape :: "Transaction \<Rightarrow> bool" where
  "payment_shape tx \<longleftrightarrow> wf_Transaction tx \<and> \<not> IsCoinbase tx \<and> distinct (map input_outpoint (mInputs tx)) \<and>
     (\<exists>v. GetValueOut tx = Inr v)"

definition apply_outcome ::
  "UTXOSet \<Rightarrow> (Transaction \<times> Coin list) list \<Rightarrow> TxUndo list \<Rightarrow> Transaction list \<Rightarrow>
   bool result \<times> TxUndo list \<times> UTXOSet \<Rightarrow> bool" where
  "apply_outcome u0 log undo txs = (\<lambda>(r, undo', u'). case r of
     Inl e \<Rightarrow> False
   | Inr ok \<Rightarrow> if ok then \<exists>spents. length spents = length txs \<and> undo' = undo @ map (\<lambda>s. \<lparr>spentCoins = s\<rparr>) spents \<and>
         utxo_run u0 (rev (zip txs spents) @ log) u'
       else utxo_run u0 [] u')"

lemma apply_outcome_back: "utxo_run u0 [] u' \<Longrightarrow> apply_outcome u0 log undo txs (Inr False, undo', u')"
  by (simp add: apply_outcome_def)

lemma apply_outcome_Cons:
  assumes "apply_outcome u0 ((tx, sp) # log) (undo @ [\<lparr>spentCoins = sp\<rparr>]) txs r"
  shows "apply_outcome u0 log undo (tx # txs) r"
proof -
  obtain q undo' u' where r: "r = (q, undo', u')" by (cases r)
  show ?thesis
  proof (cases "q = Inr True")
    case True
    then obtain spents where "length spents = length txs" "undo' = (undo @ [\<lparr>spentCoins = sp\<rparr>]) @ map (\<lambda>s. \<lparr>spentCoins = s\<rparr>) spents"
      "utxo_run u0 (rev (zip txs spents) @ (tx, sp) # log) u'"
      using assms by (auto simp: apply_outcome_def r)
    then have "length (sp # spents) = length (tx # txs) \<and> undo' = undo @ map (\<lambda>s. \<lparr>spentCoins = s\<rparr>) (sp # spents) \<and>
      utxo_run u0 (rev (zip (tx # txs) (sp # spents)) @ log) u'" by simp
    then show ?thesis using True by (simp only: apply_outcome_def r prod.case sum.case if_True) blast
  next
    case False
    then show ?thesis using assms by (cases q) (auto simp: apply_outcome_def r)
  qed
qed

lemma apply_payments_run:
  assumes "utxo_run u0 (rev dn @ coinbase_log cb) u" and "utxo_inv u0"
    and "\<forall>tx \<in> set txs. payment_shape tx" and "distinct (map GetHash txs)" and "\<forall>tx \<in> set txs. fresh_outputs tx (coin_view u)"
  shows "apply_outcome u0 (rev dn @ coinbase_log cb) undo txs (apply_payments ht cb dn undo txs u)"
  using assms(1,3-5)
proof (induction txs arbitrary: dn undo u)
  case (Cons tx txs)
  have sh: "wf_Transaction tx" "\<not> IsCoinbase tx" "distinct (map input_outpoint (mInputs tx))"
    and fr: "fresh_outputs tx (coin_view u)" using Cons.prems(2,4) by (auto simp: payment_shape_def)
  obtain v where v: "GetValueOut tx = Inr v" using Cons.prems(2) by (auto simp: payment_shape_def)
  note bk = apply_outcome_back [OF rollback_applied_run [OF Cons.prems(1)]]
  have inv: "utxo_inv u" using utxo_run_views [OF Cons.prems(1) assms(2)] by simp
  obtain ok sp u' where A: "ApplyTransaction tx ht False u = (ok, sp, u')" by (cases "ApplyTransaction tx ht False u") auto
  have "apply_outcome u0 (rev dn @ coinbase_log cb) undo (tx # txs)
      (case (ok, sp, u') of
         (False, spentHere, u) \<Rightarrow> (Inr False, undo, rollback_applied cb dn u)
       | (True, spentHere, u) \<Rightarrow> apply_payments ht cb (dn @ [(tx, spentHere)]) (undo @ [\<lparr>spentCoins = spentHere\<rparr>]) txs u)"
  proof (cases ok)
    case True
    note A' = A [unfolded eqTrueI [OF True]]
    have l: "ledger_apply tx ht False (coin_view u) (leaf_view u) = Some (sp, coin_view u', leaf_view u')"
      using utxo.app_success [OF inv sh(1) A'] by simp
    have run: "utxo_run u0 (rev (dn @ [(tx, sp)]) @ coinbase_log cb) u'"
      using utxo_run.connect [OF Cons.prems(1) sh(1,3) fr, of ht sp u'] A' sh(2) by simp
    have "\<forall>t \<in> set txs. fresh_outputs t (coin_view u')"
      using Cons.prems(3,4) fresh_after [OF l] by (auto simp: image_iff)
    from Cons.IH [OF run _ _ this, of "undo @ [\<lparr>spentCoins = sp\<rparr>]"] Cons.prems(2,3)
    have "apply_outcome u0 ((tx, sp) # rev dn @ coinbase_log cb) (undo @ [\<lparr>spentCoins = sp\<rparr>]) txs
        (apply_payments ht cb (dn @ [(tx, sp)]) (undo @ [\<lparr>spentCoins = sp\<rparr>]) txs u')" by simp
    from apply_outcome_Cons [OF this] True show ?thesis by simp
  next
    case False
    then have "u' = u" using utxo.app_failure [OF inv sh(1), of ht False sp u'] A by simp
    then show ?thesis using bk False by simp
  qed
  then show ?case
    using bk by (auto simp: v A simp del: prod.case split: option.split)
qed (auto simp: apply_outcome_def)

lemma undo_payments_run:
  assumes "utxo_run u0 (xs @ log) u" and "utxo_inv u0"
  shows "\<exists>u'. undo_payments (map (\<lambda>(tx, s). (tx, \<lparr>spentCoins = s\<rparr>)) xs) u = (True, u') \<and> utxo_run u0 log u'"
  using assms(1)
proof (induction xs arbitrary: u)
  case (Cons x xs)
  obtain tx sp where x: "x = (tx, sp)" by (cases x)
  obtain u' where "UndoTransaction tx sp u = (True, u')" "utxo_run u0 (xs @ log) u'"
    using disconnect_ok [of u0 tx sp "xs @ log" u] Cons.prems assms(2) by (auto simp: x)
  then show ?case using Cons.IH [of u'] by (simp add: x)
qed simp

lemma coinbase_applies:
  assumes "utxo_inv u" and "wf_Transaction cb" and "IsCoinbase cb" and "fresh_outputs cb (coin_view u)"
  shows "\<exists>u'. ApplyTransaction cb ht True u = (True, [], u') \<and> utxo_run u [(cb, [])] u' \<and> utxo_inv u' \<and>
    coin_view u' = coin_view u ++ created cb ht True \<and> leaf_view u' = leaf_view u"
proof -
  obtain u' where u': "ApplyTransaction cb ht True u = (True, [], u')" "utxo_inv u'"
    "coin_view u' = coin_view u ++ created cb ht True" "leaf_view u' = leaf_view u"
    using utxo.app_refines [OF assms(1,2), of ht True] by (auto simp: ledger_apply_def)
  have "distinct (map input_outpoint (mInputs cb))" using IsCoinbase_one [OF assms(3)] by (cases "mInputs cb") auto
  then have "utxo_run u [(cb, [])] u'"
    using utxo_run.connect [OF utxo_run.start [of u] assms(2) _ assms(4), of ht "[]" u'] u'(1) assms(3) by simp
  with u' show ?thesis by blast
qed

definition block_shape :: "Block \<Rightarrow> bool" where
  "block_shape block \<longleftrightarrow> (\<exists>cb txs. mTransactions block = cb # txs \<and> IsCoinbase cb \<and> wf_Transaction cb \<and>
     (\<forall>tx \<in> set txs. payment_shape tx)) \<and> distinct (map GetHash (mTransactions block))"

definition block_fresh :: "Block \<Rightarrow> coin_map \<Rightarrow> bool" where
  "block_fresh block m \<longleftrightarrow> (\<forall>tx \<in> set (mTransactions block). fresh_outputs tx m)"

lemma ApplyBlockTwoPhase_run:
  assumes "utxo_inv u" and "block_shape block" and "block_fresh block (coin_view u)" and "mTransactions block = cb # txs"
  shows "case ApplyBlockTwoPhase block ht u of (r, undo, u') \<Rightarrow> apply_outcome u [(cb, [])] [] txs (r, txUndo undo, u')"
proof -
  have S: "IsCoinbase cb" "wf_Transaction cb" "\<forall>tx \<in> set txs. payment_shape tx" "distinct (map GetHash (cb # txs))"
    and F: "fresh_outputs cb (coin_view u)" "\<forall>tx \<in> set txs. fresh_outputs tx (coin_view u)"
    using assms(2-4) by (auto simp: block_shape_def block_fresh_def)
  obtain u' where u': "ApplyTransaction cb ht True u = (True, [], u')" "utxo_run u [(cb, [])] u'"
    using coinbase_applies [OF assms(1) S(2,1) F(1)] by blast
  have l: "ledger_apply cb ht True (coin_view u) (leaf_view u) = Some ([], coin_view u', leaf_view u')"
    using utxo.app_success [OF assms(1) S(2) u'(1)] by simp
  have "\<forall>tx \<in> set txs. fresh_outputs tx (coin_view u')" using S(4) F(2) fresh_after [OF l] by (auto simp: image_iff)
  then have "apply_outcome u [(cb, [])] [] txs (apply_payments ht (Some cb) [] [] txs u')"
    using apply_payments_run [of u "[]" "Some cb" u' txs "[]" ht] u'(2) assms(1) S(3,4) by (simp add: coinbase_log_def)
  then show ?thesis using assms(4) S(1) u'(1) by (simp add: ApplyBlockTwoPhase_def Let_def case_prod_beta)
qed

lemma UndoBlockTwoPhase_run:
  assumes run: "utxo_run u0 (rev (zip txs spents) @ [(cb, [])]) u" and inv: "utxo_inv u0"
    and b: "mTransactions block = cb # txs" "IsCoinbase cb" and l: "length spents = length txs"
  shows "\<exists>u'. UndoBlockTwoPhase block \<lparr>txUndo = map (\<lambda>s. \<lparr>spentCoins = s\<rparr>) spents\<rparr> u = (True, u') \<and> utxo_run u0 [] u'"
proof -
  have z: "rev (zip txs (map (\<lambda>s. \<lparr>spentCoins = s\<rparr>) spents)) = map (\<lambda>(tx, s). (tx, \<lparr>spentCoins = s\<rparr>)) (rev (zip txs spents))"
    by (simp add: zip_map2 rev_map)
  obtain u1 where u1: "undo_payments (map (\<lambda>(tx, s). (tx, \<lparr>spentCoins = s\<rparr>)) (rev (zip txs spents))) u = (True, u1)"
    "utxo_run u0 [(cb, [])] u1" using undo_payments_run [OF run inv] by blast
  obtain u2 where "UndoTransaction cb [] u1 = (True, u2)" "utxo_run u0 [] u2" using disconnect_ok [OF u1(2) inv] by blast
  then show ?thesis using b l u1(1) by (simp add: UndoBlockTwoPhase_def payments_def z)
qed

lemma utxo_run_empty:
  "utxo_run u0 [] u \<Longrightarrow> utxo_inv u0 \<Longrightarrow> utxo_inv u \<and> coin_view u = coin_view u0 \<and> leaf_view u = leaf_view u0"
  using utxo_run_views [of u0 "[]" u] by simp

lemma context_free_value:
  assumes "context_free_ok tx"
  shows "GetValueOut tx = Inr (value_out tx)"
proof -
  have "sum_values neg over tot outs = Inr (tot + (\<Sum>out \<leftarrow> outs. mValue out))"
    if "0 \<le> tot" "\<forall>out \<in> set outs. 0 \<le> mValue out" "tot + (\<Sum>out \<leftarrow> outs. mValue out) \<le> MAX_MONEY" for neg over tot outs
    using that
  proof (induction outs arbitrary: tot)
    case (Cons out outs)
    have "0 \<le> (\<Sum>out \<leftarrow> outs. mValue out)" using Cons.prems(2) by (intro sum_list_nonneg) auto
    then show ?case using Cons.IH [of "tot + mValue out"] Cons.prems
      by (simp add: guard_throw_def INT64_MAX_def MAX_MONEY_def COIN_def algebra_simps)
  qed simp
  then show ?thesis using assms by (auto simp: GetValueOut_def context_free_ok_def output_ok_def value_out_def)
qed

lemma CheckBlock_shape:
  assumes "CheckBlock now block = Accepts ()" and "\<forall>tx \<in> set (mTransactions block). wf_Transaction tx"
  shows "block_shape block"
proof -
  have "payment_shape tx" if "context_free_ok tx" "\<not> IsCoinbase tx" "wf_Transaction tx" for tx
    using that context_free_value [OF that(1)] by (simp add: payment_shape_def context_free_ok_def)
  then show ?thesis using assms by (auto simp: CheckBlock_Accepts block_shape_def)
qed

text \<open>
  C2. Connecting a block is all or nothing. For a block that passed \<open>CheckBlock\<close> and whose
  transactions create no output that is in the set already, \<open>ApplyBlockTwoPhase\<close> never
  throws; when it refuses the block its rollback leaves every coin and every noise leaf as
  they were; and when it succeeds, \<open>UndoBlockTwoPhase\<close> with the undo record it made succeeds
  and restores them.
\<close>

theorem ApplyBlockTwoPhase_atomic:
  assumes inv: "utxo_inv u" and c: "CheckBlock now block = Accepts ()"
    and wf: "\<forall>tx \<in> set (mTransactions block). wf_Transaction tx" and fr: "block_fresh block (coin_view u)"
  shows "\<exists>ok undo u'. ApplyBlockTwoPhase block ht u = (Inr ok, undo, u') \<and> utxo_inv u' \<and>
    (if ok then \<exists>u''. UndoBlockTwoPhase block undo u' = (True, u'') \<and> utxo_inv u'' \<and>
         coin_view u'' = coin_view u \<and> leaf_view u'' = leaf_view u
     else coin_view u' = coin_view u \<and> leaf_view u' = leaf_view u)"
proof -
  note sh = CheckBlock_shape [OF c wf]
  obtain cb txs where b: "mTransactions block = cb # txs" "IsCoinbase cb" using sh by (auto simp: block_shape_def)
  obtain r undo u' where A: "ApplyBlockTwoPhase block ht u = (r, undo, u')" by (cases "ApplyBlockTwoPhase block ht u")
  have O: "apply_outcome u [(cb, [])] [] txs (r, txUndo undo, u')"
    using ApplyBlockTwoPhase_run [OF inv sh fr b(1), of ht] by (simp add: A)
  then obtain ok where r: "r = Inr ok" by (cases r) (auto simp: apply_outcome_def)
  show ?thesis
  proof (cases ok)
    case True
    then obtain spents where s: "length spents = length txs" "txUndo undo = map (\<lambda>s. \<lparr>spentCoins = s\<rparr>) spents"
      and run: "utxo_run u (rev (zip txs spents) @ [(cb, [])]) u'" using O by (auto simp: apply_outcome_def r)
    have "undo = \<lparr>txUndo = map (\<lambda>s. \<lparr>spentCoins = s\<rparr>) spents\<rparr>" using s(2) by simp
    then obtain u'' where "UndoBlockTwoPhase block undo u' = (True, u'')" "utxo_run u [] u''"
      using UndoBlockTwoPhase_run [OF run inv b s(1)] by blast
    then show ?thesis using A r True utxo_run_empty [OF _ inv] utxo_run_views [OF run inv] by auto
  next
    case False
    then have "utxo_run u [] u'" using O by (simp add: apply_outcome_def r)
    then show ?thesis using A r False utxo_run_empty [OF _ inv] by auto
  qed
qed

text \<open>A block of one coinbase, with cached identifiers: the transaction id repeats the byte \<open>b\<close>.\<close>

definition mined_block :: "byte \<Rightarrow> Block" where
  "mined_block b = \<lparr>mHeader = (BlockHeader_init 1)\<lparr>mTimestamp := GENESIS_TIMESTAMP, mBits := 0x1d00ffff,
     mMerkleRoot := replicate 32 b, mBlockHash := zero32, hHashCached := True\<rparr>,
     mTransactions = [sample_coinbase\<lparr>mTxHash := replicate 32 b\<rparr>]\<rparr>"

lemma mined_coinbase:
  "GetHash (sample_coinbase\<lparr>mTxHash := replicate 32 b\<rparr>) = replicate 32 b"
  "IsCoinbase (sample_coinbase\<lparr>mTxHash := replicate 32 b\<rparr>)"
  "wf_Transaction (sample_coinbase\<lparr>mTxHash := replicate 32 b\<rparr>)"
  using sample_coinbase_valid
  by (simp_all add: GetHash_def GetHash_st_def IsCoinbase_def wf_Transaction_def sample_coinbase_def)

lemma mined_pow: "CheckProofOfWork zero32 0x1d00ffff"
  by code_simp

lemma mined_block_accepted:
  assumes "b \<noteq> 0"
  shows "CheckBlock GENESIS_TIMESTAMP (mined_block b) = Accepts ()"
    and "\<forall>tx \<in> set (mTransactions (mined_block b)). wf_Transaction tx"
proof -
  let ?cb = "sample_coinbase\<lparr>mTxHash := replicate 32 b\<rparr>"
  have size: "Transaction_GetSerializedSize True ?cb \<le> 1000"
    by (simp add: Transaction_GetSerializedSize_def sample_coinbase_def TxInput_init_def mk_TxOutput_def
        TxInput_GetSerializedSize_def TxOutput_GetSerializedSize_def CompactSizeLen_def
        CreatePayToPubkeyHash_def PushData_def Let_def)
  have hash: "BlockHeader_GetHash (mHeader (mined_block b)) = zero32"
    by (simp add: mined_block_def BlockHeader_GetHash_def BlockHeader_GetHash_st_def)
  show "CheckBlock GENESIS_TIMESTAMP (mined_block b) = Accepts ()"
    unfolding CheckBlock_Accepts hash using assms size mined_pow mined_coinbase [of b]
    by (simp add: mined_block_def BlockHeader_init_def all_zero_def list_all_iff GENESIS_TIMESTAMP_def Block_ComputeMerkleRoot_def
        ComputeMerkleRoot_def Block_GetSerializedSize_def SERIALIZED_SIZE_def MAX_BLOCK_SIZE_def)
  show "\<forall>tx \<in> set (mTransactions (mined_block b)). wf_Transaction tx"
    using mined_coinbase by (simp add: mined_block_def)
qed

theorem ApplyBlockTwoPhase_atomic_witness:
  "\<exists>ok undo u'. ApplyBlockTwoPhase (mined_block 1) 1 sample_utxo = (Inr ok, undo, u') \<and> utxo_inv u'"
proof -
  have "block_fresh (mined_block 1) (coin_view sample_utxo)"
    using mined_coinbase(1) [of 1]
    by (simp add: block_fresh_def mined_block_def fresh_outputs_def outpoints_of_def sample_utxo_views(2) sample_outpoint_def
        replicate_eq_replicate)
  from ApplyBlockTwoPhase_atomic [OF sample_utxo_views(1) mined_block_accepted [of 1, simplified] this, of 1]
  show ?thesis by blast
qed

end
