(* ===== verification/Money_Supply.thy ===== *)
theory Money_Supply
  imports Block_Connect
begin

text \<open>
  The money supply: the total value of the unspent coins, how an accepted block changes it,
  and the cap on it along a chain. The definitions here are specifications; the code they
  are about is in \<open>Block_Validation\<close> and \<open>Block_Connect\<close>.
\<close>

section \<open>The total value of a ledger\<close>

definition total_supply :: "coin_map \<Rightarrow> int" where
  "total_supply m = (\<Sum>a \<in> dom m. cValue (the (m a)))"

definition coins_nonneg :: "coin_map \<Rightarrow> bool" where
  "coins_nonneg m \<longleftrightarrow> (\<forall>a c. m a = Some c \<longrightarrow> 0 \<le> cValue c)"

lemma supply_empty [simp]: "total_supply Map.empty = 0"
  by (simp add: total_supply_def)

lemma supply_update:
  assumes "finite (dom m)" and "coins_nonneg m"
  shows "total_supply (m(a \<mapsto> c)) \<le> total_supply m + cValue c"
proof -
  have "total_supply (m(a \<mapsto> c)) = cValue c + (\<Sum>b \<in> dom m - {a}. cValue (the (m b)))"
    using assms(1) by (simp add: total_supply_def sum.insert_remove)
  moreover have "(\<Sum>b \<in> dom m - {a}. cValue (the (m b))) \<le> total_supply m"
    using assms by (auto simp: total_supply_def coins_nonneg_def intro!: sum_mono2)
  ultimately show ?thesis by simp
qed

lemma supply_add:
  assumes "finite (dom m)" and "finite (dom n)" and "coins_nonneg m"
  shows "total_supply (m ++ n) \<le> total_supply m + total_supply n"
proof -
  have "total_supply (m ++ n) = (\<Sum>a \<in> dom n. cValue (the ((m ++ n) a))) + (\<Sum>a \<in> dom m - dom n. cValue (the ((m ++ n) a)))"
    unfolding total_supply_def using assms(1,2) by (subst sum.union_disjoint [symmetric]) (auto simp: Un_commute)
  also have "(\<Sum>a \<in> dom n. cValue (the ((m ++ n) a))) = total_supply n"
    by (auto simp: total_supply_def map_add_dom_app_simps intro!: sum.cong)
  also have "(\<Sum>a \<in> dom m - dom n. cValue (the ((m ++ n) a))) = (\<Sum>a \<in> dom m - dom n. cValue (the (m a)))"
    by (auto simp: map_add_dom_app_simps intro!: sum.cong)
  also have "\<dots> \<le> total_supply m"
    using assms(1,3) by (auto simp: total_supply_def coins_nonneg_def intro!: sum_mono2)
  finally show ?thesis by simp
qed

lemma supply_spend:
  assumes "finite (dom m)" and "set as \<subseteq> dom m" and "distinct as"
  shows "total_supply (m |` (- set as)) = total_supply m - (\<Sum>a \<leftarrow> as. cValue (the (m a)))"
proof -
  have "total_supply m = (\<Sum>a \<in> dom m - set as. cValue (the (m a))) + (\<Sum>a \<in> set as. cValue (the (m a)))"
    unfolding total_supply_def using assms by (intro sum.subset_diff)
  moreover have "total_supply (m |` (- set as)) = (\<Sum>a \<in> dom m - set as. cValue (the (m a)))"
    by (auto simp: total_supply_def intro!: sum.cong)
  moreover have "(\<Sum>a \<in> set as. cValue (the (m a))) = (\<Sum>a \<leftarrow> as. cValue (the (m a)))"
    using assms(3) by (simp add: sum_list_distinct_conv_sum_set)
  ultimately show ?thesis by simp
qed

lemma coins_nonneg_add: "coins_nonneg m \<Longrightarrow> coins_nonneg n \<Longrightarrow> coins_nonneg (m ++ n)"
  by (auto simp: coins_nonneg_def map_add_Some_iff)

lemma coins_nonneg_restrict: "coins_nonneg m \<Longrightarrow> coins_nonneg (m |` S)"
  by (auto simp: coins_nonneg_def restrict_map_def)

lemma supply_map_of:
  "\<forall>(a, c) \<in> set kvs. 0 \<le> cValue c \<Longrightarrow>
   coins_nonneg (map_of kvs) \<and> total_supply (map_of kvs) \<le> (\<Sum>(a, c) \<leftarrow> kvs. cValue c)"
proof (induction kvs)
  case (Cons kv kvs)
  obtain a c where kv: "kv = (a, c)" by (cases kv)
  have "coins_nonneg (map_of kvs)" "total_supply (map_of kvs) \<le> (\<Sum>(a, c) \<leftarrow> kvs. cValue c)" "0 \<le> cValue c"
    using Cons by (auto simp: kv)
  moreover have "total_supply ((map_of kvs)(a \<mapsto> c)) \<le> total_supply (map_of kvs) + cValue c"
    using calculation(1) by (intro supply_update) (simp_all add: finite_dom_map_of)
  moreover have "coins_nonneg ((map_of kvs)(a \<mapsto> c))" using calculation(1,3) by (simp add: coins_nonneg_def)
  ultimately show ?case by (simp add: kv del: fun_upd_apply)
qed (simp add: coins_nonneg_def)

lemma created_coins_total:
  "\<forall>out \<in> set outs. 0 \<le> mValue out \<Longrightarrow>
   (\<forall>(a, c) \<in> set (created_coins h ht cb i outs). 0 \<le> cValue c) \<and>
   (\<Sum>(a, c) \<leftarrow> created_coins h ht cb i outs. cValue c) \<le> (\<Sum>out \<leftarrow> outs. mValue out)"
proof (induction outs arbitrary: i)
  case (Cons out outs)
  have o: "0 \<le> mValue out" "\<forall>out \<in> set outs. 0 \<le> mValue out" using Cons.prems by auto
  have c: "cValue coin = mValue out" if "output_coin ht cb out = Some coin" for coin
    using that by (auto simp: output_coin_def mk_Coin_def split: if_splits option.splits)
  show ?case
    using Cons.IH [OF o(2), of "i + 1"] o(1) c by (cases "output_coin ht cb out") auto
qed simp

lemma supply_created:
  assumes "\<forall>out \<in> set (mOutputs tx). 0 \<le> mValue out"
  shows "total_supply (created tx ht cb) \<le> value_out tx" "coins_nonneg (created tx ht cb)" "finite (dom (created tx ht cb))"
proof -
  let ?k = "created_coins (GetHash tx) ht cb 0 (mOutputs tx)"
  have "(\<Sum>(a, c) \<leftarrow> rev ?k. cValue c) = (\<Sum>(a, c) \<leftarrow> ?k. cValue c)" by (simp add: sum_list_rev rev_map flip: rev_map)
  then show "total_supply (created tx ht cb) \<le> value_out tx" "coins_nonneg (created tx ht cb)"
    using supply_map_of [of "rev ?k"] created_coins_total [OF assms, of "GetHash tx" ht cb 0]
    by (auto simp: created_def value_out_def)
  show "finite (dom (created tx ht cb))" by (simp add: created_def finite_dom_map_of)
qed

text \<open>A payment moves value from its inputs to its outputs and fee.\<close>

lemma payment_supply:
  assumes a: "ledger_apply tx ht False m L = Some (spent, m', L')" and d: "distinct (map input_outpoint (mInputs tx))"
    and f: "finite (dom m)" and n: "coins_nonneg m" and o: "\<forall>out \<in> set (mOutputs tx). 0 \<le> mValue out"
  shows "total_supply m' \<le> total_supply m - (\<Sum>i \<leftarrow> mInputs tx. cValue (the (m (input_outpoint i)))) + value_out tx \<and>
    coins_nonneg m' \<and> finite (dom m')"
proof -
  have m': "m' = (m |` (- spends tx)) ++ created tx ht False" and i: "spends tx \<subseteq> dom m"
    using a by (auto simp: ledger_apply_def spends_def split: if_splits)
  have s: "spends tx = set (map input_outpoint (mInputs tx))" by (simp add: spends_def)
  have "total_supply (m |` (- spends tx)) = total_supply m - (\<Sum>i \<leftarrow> mInputs tx. cValue (the (m (input_outpoint i))))"
    using supply_spend [OF f, of "map input_outpoint (mInputs tx)"] i d by (simp add: s comp_def)
  moreover have "total_supply m' \<le> total_supply (m |` (- spends tx)) + total_supply (created tx ht False)"
    unfolding m' using f n supply_created(3) [OF o] by (intro supply_add) (simp_all add: coins_nonneg_restrict)
  moreover have "coins_nonneg m' \<and> finite (dom m')"
    unfolding m' using f n supply_created(2,3) [OF o] by (auto intro: coins_nonneg_add coins_nonneg_restrict)
  ultimately show ?thesis using supply_created(1) [OF o, of ht False] by simp
qed

lemma finite_coin_view: "finite (dom (coin_view u))"
proof -
  have "inj OutPoint_image" by (auto simp: inj_def OutPoint_image_inj)
  then have "finite (OutPoint_image -` fst ` set (mKV (uDB u)))" by (intro finite_vimageI) simp
  moreover have "dom (coin_view u) \<subseteq> fst ` set (uCache u) \<union> OutPoint_image -` fst ` set (mKV (uDB u))"
  proof
    fix a assume "a \<in> dom (coin_view u)"
    then have "map_of (uCache u) a \<noteq> None \<or> db_coin (uDB u) a \<noteq> None"
      by (auto simp: coin_view_def GetCoin_def split: if_splits option.splits)
    then have "map_of (uCache u) a \<noteq> None \<or> map_of (mKV (uDB u)) (OutPoint_image a) \<noteq> None"
      by (auto simp: db_coin_def DBWrapper_Read_def ldb_Get_def split: option.splits)
    then show "a \<in> fst ` set (uCache u) \<union> OutPoint_image -` fst ` set (mKV (uDB u))"
      by (auto simp: map_of_eq_None_iff)
  qed
  ultimately show ?thesis by (auto intro: finite_subset)
qed

section \<open>An accepted block connects, and mints at most the subsidy\<close>

lemma gather_coins_Some:
  "\<forall>i \<in> set ins. GetCoin (input_outpoint i) u = Some (f i) \<Longrightarrow> gather_coins u ins = Some (map f ins)"
  by (induction ins) auto

lemma CheckMoneyRange_of_int: "0 \<le> v \<Longrightarrow> v \<le> MAX_MONEY \<Longrightarrow> CheckMoneyRange (of_int v)"
  by (simp add: CheckMoneyRange_def word_le_def uint_word_of_int MAX_MONEY_def COIN_def take_bit_int_def)

lemma value_in_loop_Some:
  assumes "0 \<le> tot" and "\<forall>c \<in> set coins. 0 \<le> cValue c" and "tot + (\<Sum>c \<leftarrow> coins. cValue c) \<le> MAX_MONEY"
  shows "value_in_loop tot coins = Some (tot + (\<Sum>c \<leftarrow> coins. cValue c))"
  using assms
proof (induction coins arbitrary: tot)
  case (Cons c coins)
  have "0 \<le> (\<Sum>c \<leftarrow> coins. cValue c)" using Cons.prems(2) by (intro sum_list_nonneg) auto
  then have "0 \<le> cValue c" "cValue c \<le> MAX_MONEY" "tot + cValue c \<le> MAX_MONEY" using Cons.prems by auto
  then have "CheckMoneyRange (of_int (cValue c))" "CheckMoneyRange (of_int (tot + cValue c))"
    using Cons.prems(1) by (intro CheckMoneyRange_of_int; linarith)+
  then show ?case using Cons.IH [of "tot + cValue c"] Cons.prems by (simp add: Let_def algebra_simps)
qed simp

lemma payment_ok_view:
  assumes "payment_ok u0 ht tx" and "\<forall>a \<in> spends tx. coin_view u a = coin_view u0 a"
  shows "\<forall>i \<in> set (mInputs tx). \<exists>c. coin_view u (input_outpoint i) = Some c \<and> GetCoin (input_outpoint i) u = Some c \<and>
      0 \<le> cValue c \<and> input_value u0 i = cValue c"
proof
  fix i assume i: "i \<in> set (mInputs tx)"
  then obtain c where c: "GetCoin (input_outpoint i) u0 = Some c" "0 \<le> cValue c"
    using assms(1) by (fastforce simp: payment_ok_def utxo_checks_ok_def spendable_def)
  have "coin_view u (input_outpoint i) = Some c" using assms i c by (auto simp: payment_ok_def spends_def)
  moreover have "GetCoin (input_outpoint i) u = Some c" using calculation by (simp add: coin_view_def split: if_splits)
  ultimately show "\<exists>c. coin_view u (input_outpoint i) = Some c \<and> GetCoin (input_outpoint i) u = Some c \<and>
      0 \<le> cValue c \<and> input_value u0 i = cValue c"
    using c by (simp add: input_value_def)
qed

lemma payment_connects:
  assumes pay: "payment_ok u0 ht tx" and wf: "wf_Transaction tx" and inv: "utxo_inv u" and n: "coins_nonneg (coin_view u)"
    and d: "distinct (map input_outpoint (mInputs tx))" and k: "distinct (tx_leaf_keys tx)" "set (tx_leaf_keys tx) \<inter> leaf_view u = {}"
    and ag: "\<forall>a \<in> spends tx. coin_view u a = coin_view u0 a"
  shows "\<exists>sp u'. apply_payments ht cb dn undo (tx # txs) u = apply_payments ht cb (dn @ [(tx, sp)]) (undo @ [\<lparr>spentCoins = sp\<rparr>]) txs u' \<and>
    utxo_inv u' \<and> coin_view u' = (coin_view u |` (- spends tx)) ++ created tx ht False \<and>
    leaf_view u' = leaf_view u \<union> set (tx_leaf_keys tx) \<and> coins_nonneg (coin_view u') \<and>
    total_supply (coin_view u') \<le> total_supply (coin_view u) - (value_in u0 tx - value_out tx)"
proof -
  note V = payment_ok_view [OF pay ag]
  have ok: "utxo_checks_ok tx u0 ht" using pay by (simp add: payment_ok_def)
  then have cf: "context_free_ok tx" and vi: "value_in u0 tx \<le> MAX_MONEY" "value_out tx \<le> value_in u0 tx"
    by (auto simp: utxo_checks_ok_def max_def MIN_TX_FEE_def split: if_splits)
  have vo: "GetValueOut tx = Inr (value_out tx)" "0 \<le> value_out tx" "\<forall>out \<in> set (mOutputs tx). 0 \<le> mValue out"
    using context_free_value [OF cf] cf by (auto simp: value_out_def context_free_ok_def output_ok_def intro!: sum_list_nonneg)
  obtain sp u' where A: "ApplyTransaction tx ht False u = (True, sp, u')"
    and l: "ledger_apply tx ht False (coin_view u) (leaf_view u) = Some (sp, coin_view u', leaf_view u')" and inv': "utxo_inv u'"
  proof -
    have c: "(\<forall>i \<in> set (mInputs tx). coin_view u (input_outpoint i) \<noteq> None \<and> mNoiseProof i \<noteq> [] \<and> proofs_parse i) \<and>
        distinct (tx_leaf_keys tx) \<and> set (tx_leaf_keys tx) \<inter> leaf_view u = {}"
      using V pay k by (fastforce simp: payment_ok_def)
    then show thesis using utxo.app_refines [OF inv wf, of ht False] that by (auto simp: ledger_apply_def)
  qed
  let ?coin = "\<lambda>i. the (GetCoin (input_outpoint i) u)"
  have W: "\<forall>i \<in> set (mInputs tx). GetCoin (input_outpoint i) u = Some (?coin i) \<and> coin_view u (input_outpoint i) = Some (?coin i) \<and>
      0 \<le> cValue (?coin i) \<and> input_value u0 i = cValue (?coin i)" using V by force
  have e: "(\<Sum>c \<leftarrow> map ?coin (mInputs tx). cValue c) = value_in u0 tx"
    "(\<Sum>i \<leftarrow> mInputs tx. cValue (the (coin_view u (input_outpoint i)))) = value_in u0 tx"
    unfolding value_in_def map_map comp_def using W by (auto intro!: arg_cong [of _ _ sum_list])
  have "gather_coins u (mInputs tx) = Some (map ?coin (mInputs tx))" using W by (intro gather_coins_Some) auto
  moreover have "value_in_loop 0 (map ?coin (mInputs tx)) = Some (value_in u0 tx)"
    using value_in_loop_Some [of 0 "map ?coin (mInputs tx)"] W vi(1) e(1) by simp
  ultimately have "apply_payments ht cb dn undo (tx # txs) u =
      apply_payments ht cb (dn @ [(tx, sp)]) (undo @ [\<lparr>spentCoins = sp\<rparr>]) txs u'"
    using A vo vi(2) by simp
  moreover have "coin_view u' = (coin_view u |` (- spends tx)) ++ created tx ht False"
    "leaf_view u' = leaf_view u \<union> set (tx_leaf_keys tx)" using l by (auto simp: ledger_apply_def split: if_splits)
  ultimately show ?thesis
    using inv' payment_supply [OF l d finite_coin_view n vo(3)] unfolding e(2) by (intro exI [of _ sp] exI [of _ u']) simp
qed

lemma apply_payments_supply:
  assumes "block_payments_ok u0 ht txs spent used" and "\<forall>tx \<in> set txs. wf_Transaction tx"
    and "utxo_inv u" and "coins_nonneg (coin_view u)"
    and "\<forall>a \<in> (\<Union>tx \<in> set txs. spends tx). coin_view u a = coin_view u0 a"
    and "(\<Union>tx \<in> set txs. set (tx_leaf_keys tx)) \<inter> leaf_view u = {}"
    and "(\<Union>tx \<in> set txs. outpoints_of tx) \<inter> (\<Union>tx \<in> set txs. spends tx) = {}"
  shows "\<exists>undo' u'. apply_payments ht cb dn undo txs u = (Inr True, undo', u') \<and> utxo_inv u' \<and>
    coins_nonneg (coin_view u') \<and> total_supply (coin_view u') \<le> total_supply (coin_view u) - block_fees u0 txs"
  using assms
proof (induction txs arbitrary: u dn undo spent used)
  case (Cons tx txs)
  note B = Cons.prems(1) [unfolded block_payments_Cons]
  have P: "\<exists>sp u'. apply_payments ht cb dn undo (tx # txs) u = apply_payments ht cb (dn @ [(tx, sp)]) (undo @ [\<lparr>spentCoins = sp\<rparr>]) txs u' \<and>
    utxo_inv u' \<and> coin_view u' = (coin_view u |` (- spends tx)) ++ created tx ht False \<and>
    leaf_view u' = leaf_view u \<union> set (tx_leaf_keys tx) \<and> coins_nonneg (coin_view u') \<and>
    total_supply (coin_view u') \<le> total_supply (coin_view u) - (value_in u0 tx - value_out tx)"
    by (rule payment_connects) (use B Cons.prems(2-6) in auto)
  obtain sp u' where S: "apply_payments ht cb dn undo (tx # txs) u = apply_payments ht cb (dn @ [(tx, sp)]) (undo @ [\<lparr>spentCoins = sp\<rparr>]) txs u'"
    "utxo_inv u'" "coin_view u' = (coin_view u |` (- spends tx)) ++ created tx ht False"
    "leaf_view u' = leaf_view u \<union> set (tx_leaf_keys tx)" "coins_nonneg (coin_view u')"
    "total_supply (coin_view u') \<le> total_supply (coin_view u) - (value_in u0 tx - value_out tx)"
    using P by blast
  have dj: "(\<Union>tx \<in> set txs. spends tx) \<inter> spends tx = {}"
    "(\<Union>tx \<in> set txs. set (tx_leaf_keys tx)) \<inter> set (tx_leaf_keys tx) = {}"
    using B by (auto simp: block_payments_ok_def)
  have ag: "\<forall>a \<in> (\<Union>tx \<in> set txs. spends tx). coin_view u' a = coin_view u0 a"
  proof
    fix a assume a: "a \<in> (\<Union>tx \<in> set txs. spends tx)"
    then have "a \<notin> spends tx" "a \<notin> outpoints_of tx" using dj(1) Cons.prems(7) by auto
    then have "created tx ht False a = None" using dom_created [of tx ht False] by auto
    then show "coin_view u' a = coin_view u0 a" using a \<open>a \<notin> spends tx\<close> Cons.prems(5) by (simp add: S(3) map_add_def)
  qed
  have "\<exists>undo' u''. apply_payments ht cb (dn @ [(tx, sp)]) (undo @ [\<lparr>spentCoins = sp\<rparr>]) txs u' = (Inr True, undo', u'') \<and>
      utxo_inv u'' \<and> coins_nonneg (coin_view u'') \<and> total_supply (coin_view u'') \<le> total_supply (coin_view u') - block_fees u0 txs"
  proof (rule Cons.IH)
    show "block_payments_ok u0 ht txs (spent \<union> spends tx) (used \<union> set (tx_leaf_keys tx))" using B by simp
    show "(\<Union>tx \<in> set txs. set (tx_leaf_keys tx)) \<inter> leaf_view u' = {}" using Cons.prems(6) dj(2) by (auto simp: S(4))
    show "(\<Union>tx \<in> set txs. outpoints_of tx) \<inter> (\<Union>tx \<in> set txs. spends tx) = {}" using Cons.prems(7) by auto
  qed (use Cons.prems(2) S(2,5) ag in auto)
  then show ?case using S(1,6) by (auto simp: block_fees_def)
qed (simp add: block_fees_def)

lemma accepted_block_supply:
  assumes inv: "utxo_inv u" and c: "CheckBlock now block = Accepts ()"
    and v: "CheckBlockTransactionsWithUTXO verify block u ht = Accepts ()"
    and wf: "\<forall>tx \<in> set (mTransactions block). wf_Transaction tx"
    and fr: "block_fresh block (coin_view u)" and n: "coins_nonneg (coin_view u)"
  shows "\<exists>undo u'. ApplyBlockTwoPhase block ht u = (Inr True, undo, u') \<and> utxo_inv u' \<and> coins_nonneg (coin_view u') \<and>
    total_supply (coin_view u') \<le> total_supply (coin_view u) + uint (GetBlockSubsidy (ucast ht))"
proof -
  obtain cb txs where b: "mTransactions block = cb # txs" "IsCoinbase cb" "\<forall>tx \<in> set txs. \<not> IsCoinbase tx"
    using c by (auto simp: CheckBlock_Accepts)
  have w: "wf_Transaction cb" "\<forall>tx \<in> set txs. wf_Transaction tx"
    and f: "fresh_outputs cb (coin_view u)" "\<forall>tx \<in> set txs. fresh_outputs tx (coin_view u)"
    using wf fr by (auto simp: b(1) block_fresh_def)
  have P: "block_payments_ok u ht txs {} {}" and o: "\<forall>out \<in> set (mOutputs cb). 0 \<le> mValue out"
    and r: "value_out cb \<le> uint (GetBlockSubsidy (ucast ht)) + (if ht < FEES_TO_MINER_HEIGHT then 0 else block_fees u txs)"
    using CheckBlockTransactionsWithUTXO_sound [OF v b(1)] b(3) w(2) by auto
  obtain u1 where u1: "ApplyTransaction cb ht True u = (True, [], u1)" "utxo_inv u1"
    "coin_view u1 = coin_view u ++ created cb ht True" "leaf_view u1 = leaf_view u"
    using coinbase_applies [OF inv w(1) b(2) f(1)] by blast
  have sp: "(\<Union>tx \<in> set txs. spends tx) \<subseteq> dom (coin_view u)"
    using P by (force simp: block_payments_ok_def payment_ok_def spends_def)
  have out: "a \<notin> dom (coin_view u)" if "a \<in> outpoints_of cb \<or> a \<in> (\<Union>tx \<in> set txs. outpoints_of tx)" for a
    using that f by (auto simp: fresh_outputs_def)
  have ag: "\<forall>a \<in> (\<Union>tx \<in> set txs. spends tx). coin_view u1 a = coin_view u a"
  proof
    fix a assume "a \<in> (\<Union>tx \<in> set txs. spends tx)"
    then have "a \<notin> dom (created cb ht True)" using sp out dom_created [of cb ht True] by blast
    then show "coin_view u1 a = coin_view u a" by (simp add: u1(3) map_add_dom_app_simps)
  qed
  have n1: "coins_nonneg (coin_view u1)" using n supply_created(2) [OF o] by (simp add: u1(3) coins_nonneg_add)
  have s1: "total_supply (coin_view u1) \<le> total_supply (coin_view u) + value_out cb"
    using supply_add [OF finite_coin_view supply_created(3) [OF o] n] supply_created(1) [OF o] unfolding u1(3)
    by (meson add_left_mono order_trans)
  have "\<exists>undo' u'. apply_payments ht (Some cb) [] [] txs u1 = (Inr True, undo', u') \<and> utxo_inv u' \<and>
      coins_nonneg (coin_view u') \<and> total_supply (coin_view u') \<le> total_supply (coin_view u1) - block_fees u txs"
  proof (rule apply_payments_supply [OF P w(2) u1(2) n1 ag])
    show "(\<Union>tx \<in> set txs. set (tx_leaf_keys tx)) \<inter> leaf_view u1 = {}"
      using P by (auto simp: u1(4) block_payments_ok_def)
    show "(\<Union>tx \<in> set txs. outpoints_of tx) \<inter> (\<Union>tx \<in> set txs. spends tx) = {}" using sp out by blast
  qed
  then obtain undo' u' where R: "apply_payments ht (Some cb) [] [] txs u1 = (Inr True, undo', u')" "utxo_inv u'"
      "coins_nonneg (coin_view u')" "total_supply (coin_view u') \<le> total_supply (coin_view u1) - block_fees u txs" by blast
  have "ApplyBlockTwoPhase block ht u = (Inr True, \<lparr>txUndo = undo'\<rparr>, u')"
    using b(1,2) u1(1) R(1) by (simp add: ApplyBlockTwoPhase_def Let_def)
  moreover have "total_supply (coin_view u') \<le> total_supply (coin_view u) + uint (GetBlockSubsidy (ucast ht))"
    using R(4) s1 r fees_nonneg [OF P] by (simp split: if_splits)
  ultimately show ?thesis using R(2,3) by blast
qed

section \<open>The cap along a chain\<close>

text \<open>
  The genesis block carries one coinbase, which pays the first subsidy. The chain state
  applies it to an empty set without validating it; every later block passes the checks
  below at its height and is then connected. \<open>block_fresh\<close> is a hypothesis on each step:
  no check of the code excludes a transaction whose identifier repeats an earlier one.
\<close>

lemma genesis_block:
  "\<exists>g cb. BuildGenesisBlock = Inr g \<and> mTransactions g = [cb] \<and> IsCoinbase cb \<and> wf_Transaction cb \<and>
     value_out cb = 7700000000 \<and> (\<forall>out \<in> set (mOutputs cb). 0 \<le> mValue out)"
  by (simp add: BuildGenesisBlock_def Let_def AddInput_def AddOutput_def AddCoinbase_def AddTransaction_def guard_throw_def
      Transaction_init_def MAX_INPUTS_def MAX_OUTPUTS_def BlockBuilder_init_def Block_init_def BlockBuilder_Build_def
      UpdateRoots_def UpdateMerkleRoot_def UpdateLeafRoot_def MAX_TRANSACTIONS_def IsCoinbase_def TxInput_init_def
      all_zero_def zero32_def zero64_def list_all_iff wf_Transaction_def wf_TxInput_def wf_TxOutput_def mk_TxOutput_def
      CreatePayToPubkeyHash_def CreateNullData_def PushData_def GENESIS_MESSAGE_def GENESIS_REWARD_def MAX_TX_SIZE_def
      MAX_SCRIPT_SIZE_def INT64_MAX_def value_out_def)

inductive accepted_chain :: "(bytes32 \<Rightarrow> bytes64 \<Rightarrow> byte list \<Rightarrow> bool) \<Rightarrow> nat \<Rightarrow> UTXOSet \<Rightarrow> bool" for verify where
  genesis: "utxo_inv u \<Longrightarrow> coin_view u = Map.empty \<Longrightarrow> BuildGenesisBlock = Inr g \<Longrightarrow>
    ApplyTransaction (hd (mTransactions g)) 0 True u = (True, spent, u') \<Longrightarrow> accepted_chain verify 1 u'"
| connect: "accepted_chain verify n u \<Longrightarrow> n < 2 ^ 32 \<Longrightarrow> CheckBlock now block = Accepts () \<Longrightarrow>
    CheckBlockTransactionsWithUTXO verify block u (of_nat n) = Accepts () \<Longrightarrow>
    \<forall>tx \<in> set (mTransactions block). wf_Transaction tx \<Longrightarrow> block_fresh block (coin_view u) \<Longrightarrow>
    ApplyBlockTwoPhase block (of_nat n) u = (r, undo, u') \<Longrightarrow> accepted_chain verify (n + 1) u'"

lemma genesis_connects:
  assumes "utxo_inv u" and "coin_view u = Map.empty" and "BuildGenesisBlock = Inr g"
  shows "\<exists>u'. ApplyTransaction (hd (mTransactions g)) 0 True u = (True, [], u') \<and> utxo_inv u' \<and>
    coin_view u' = created (hd (mTransactions g)) 0 True"
proof -
  obtain cb where cb: "mTransactions g = [cb]" "IsCoinbase cb" "wf_Transaction cb" using genesis_block assms(3) by (metis sum.inject(2))
  have "fresh_outputs cb (coin_view u)" by (simp add: fresh_outputs_def assms(2))
  from coinbase_applies [OF assms(1) cb(3,2) this] show ?thesis by (auto simp: cb(1) assms(2))
qed

lemma subsidy_step: "n < 2 ^ 32 \<Longrightarrow> int (emission (n + 1)) = int (emission n) + uint (GetBlockSubsidy (ucast (of_nat n :: u32)))"
proof -
  assume n: "n < 2 ^ 32"
  then have "(ucast (of_nat n :: u32) :: u64) = of_nat n" by (simp add: unsigned_of_nat take_bit_nat_eq_self)
  then show ?thesis by (simp add: emission_def)
qed

lemma accepted_chain_supply:
  "accepted_chain verify n u \<Longrightarrow>
   utxo_inv u \<and> coins_nonneg (coin_view u) \<and> n \<le> 2 ^ 32 \<and> total_supply (coin_view u) \<le> int (emission n)"
proof (induction rule: accepted_chain.induct)
  case (genesis u g spent u')
  obtain cb where cb: "mTransactions g = [cb]" "value_out cb = 7700000000" "\<forall>out \<in> set (mOutputs cb). 0 \<le> mValue out"
    using genesis_block genesis(3) by (metis sum.inject(2))
  have "utxo_inv u'" "coin_view u' = created cb 0 True"
    using genesis_connects [OF genesis(1-3)] genesis(4) by (auto simp: cb(1))
  moreover have "int (emission 1) = 7700000000" by (simp add: emission_def GetBlockSubsidy_unat)
  ultimately show ?case using supply_created [OF cb(3), of 0 True] cb(2) by simp
next
  case (connect n u now block r undo u')
  then have IH: "utxo_inv u" "coins_nonneg (coin_view u)" "total_supply (coin_view u) \<le> int (emission n)" by simp_all
  show ?case
    using accepted_block_supply [OF IH(1) connect(3,4,5,6) IH(2)] connect(2,7) IH(3) subsidy_step [OF connect(2)]
    by auto
qed

text \<open>
  C1. No inflation. Along every chain that starts with the genesis block and grows by blocks
  the node accepts, the value of all unspent coins never exceeds the subsidies issued so far,
  and so never exceeds \<open>MAX_MONEY\<close>; no coin is negative, and a further accepted block always
  connects. This covers the 64-bit fee and reward arithmetic of the block checks.
\<close>

theorem accepted_chain_capped:
  assumes "accepted_chain verify n u"
  shows "total_supply (coin_view u) \<le> int (emission n) \<and> int (emission n) \<le> MAX_MONEY \<and>
    (\<forall>a c. coin_view u a = Some c \<longrightarrow> 0 \<le> cValue c) \<and>
    (CheckBlock now block = Accepts () \<and> CheckBlockTransactionsWithUTXO verify block u ht = Accepts () \<and>
       (\<forall>tx \<in> set (mTransactions block). wf_Transaction tx) \<and> block_fresh block (coin_view u) \<longrightarrow>
     (\<exists>undo u'. ApplyBlockTwoPhase block ht u = (Inr True, undo, u')))"
proof -
  note s = accepted_chain_supply [OF assms]
  have "int (emission n) \<le> MAX_MONEY" using emission_bound [of n] s by (simp add: MAX_MONEY_def COIN_def)
  then show ?thesis using s accepted_block_supply [of u now block verify ht] by (auto simp: coins_nonneg_def)
qed

lemma mined_block_fresh:
  "dom m \<subseteq> outpoints_of tx \<Longrightarrow> GetHash tx \<noteq> replicate 32 b \<Longrightarrow> block_fresh (mined_block b) m"
  using mined_coinbase(1) [of b]
  by (auto simp: block_fresh_def mined_block_def fresh_outputs_def outpoints_of_def dom_def)

lemma mined_block_pays:
  "CheckBlockTransactionsWithUTXO verify (mined_block b) u 1 = Accepts ()"
proof -
  have "GetBlockSubsidy 1 = 7700000000" by (simp add: word_unat_eq_iff GetBlockSubsidy_unat)
  moreover have "GetValueOut (sample_coinbase\<lparr>mTxHash := replicate 32 b\<rparr>) = Inr 5000"
    by (simp add: GetValueOut_def sample_coinbase_def mk_TxOutput_def INT64_MAX_def)
  ultimately show ?thesis
    by (simp add: CheckBlockTransactionsWithUTXO_def mined_block_def Let_def MinerFeesAtHeight_def)
qed

theorem accepted_chain_capped_witness:
  "\<exists>u. accepted_chain (\<lambda>_ _ _. True) 2 u \<and> total_supply (coin_view u) \<le> MAX_MONEY"
proof -
  obtain g where g: "BuildGenesisBlock = Inr g" using genesis_block by blast
  let ?cb = "hd (mTransactions g)"
  obtain u1 where u1: "ApplyTransaction ?cb 0 True (UTXOSet_open sample_db) = (True, [], u1)" "utxo_inv u1"
    "coin_view u1 = created ?cb 0 True" using genesis_connects [OF fresh_set(1,2) g] by blast
  have c1: "accepted_chain (\<lambda>_ _ _. True) 1 u1" by (rule accepted_chain.genesis [OF fresh_set(1,2) g u1(1)])
  define b :: byte where "b = (if GetHash ?cb = replicate 32 1 then 2 else 1)"
  have b: "b \<noteq> 0" "GetHash ?cb \<noteq> replicate 32 b" by (auto simp: b_def replicate_eq_replicate)
  have fr: "block_fresh (mined_block b) (coin_view u1)"
    using mined_block_fresh [OF _ b(2)] dom_created [of ?cb 0 True] by (simp add: u1(3))
  obtain r undo u2 where "ApplyBlockTwoPhase (mined_block b) (of_nat 1) u1 = (r, undo, u2)" by (metis prod_cases3)
  from accepted_chain.connect [OF c1 _ mined_block_accepted(1) [OF b(1)] _ mined_block_accepted(2) [OF b(1)] fr this]
  have c2: "accepted_chain (\<lambda>_ _ _. True) 2 u2" using mined_block_pays by (simp add: one_add_one flip: One_nat_def)
  show ?thesis using accepted_chain_capped [OF c2, of 0 "mined_block b" 0] c2 by (meson order_trans)
qed

end
