(* ===== verification/Block_Data.thy ===== *)
theory Block_Data
  imports Block_Undo Chain_Params Tx_Validation
begin

text \<open>
  Block storage, \<open>src/src/storage/block_data.h\<close> and \<open>block_data.cpp\<close>: the block files, and
  the index database with block entries, undo records, the transaction index and file
  statistics. The file system is the contents of the numbered block files; whether an
  append reaches the disk is an argument of every writing operation. The flag records,
  whose key holds the memory image of a \<open>std::string\<close>, and the size estimate, which LevelDB
  computes, are not modelled.
\<close>

section \<open>Data\<close>

record DiskBlockPos =
  nFile :: int
  nPos :: u32

definition DiskBlockPos_init :: DiskBlockPos where
  "DiskBlockPos_init = \<lparr>nFile = - 1, nPos = 0\<rparr>"

definition DiskBlockPos_IsNull :: "DiskBlockPos \<Rightarrow> bool" where
  "DiskBlockPos_IsNull pos \<longleftrightarrow> nFile pos = - 1"

record BlockFileInfo =
  nBlocks :: u32
  fiSize :: u32
  nHeightFirst :: u32
  nHeightLast :: u32
  nTimeFirst :: u64
  nTimeLast :: u64

definition BlockFileInfo_init :: BlockFileInfo where
  "BlockFileInfo_init = \<lparr>nBlocks = 0, fiSize = 0, nHeightFirst = 0, nHeightLast = 0, nTimeFirst = 0, nTimeLast = 0\<rparr>"

record BlockIndexEntry =
  nVersion :: u32
  hashPrev :: bytes32
  hashMerkleRoot :: bytes32
  nTime :: u64
  nHeight :: u32
  nBits :: u32
  nNonce :: u32
  nChainWork :: bytes32
  blockPos :: DiskBlockPos
  nTx :: u32
  hasData :: bool

record BlockData =
  bdIndex :: DBWrapper
  bdBlocksDir :: string
  bdFiles :: "int \<rightharpoonup> byte list"
  bdLastBlockFile :: int

text \<open>How one append to a block file ends; a failed write may leave a prefix behind.\<close>

datatype disk_io = DiskOk | OpenFails | WriteFails nat

definition MAX_BLOCK_FILE_SIZE :: u32 where
  "MAX_BLOCK_FILE_SIZE = 128 * 1024 * 1024"

section \<open>Keys and memory images\<close>

definition DB_BLOCK_INDEX :: byte where "DB_BLOCK_INDEX = 0x62"
definition DB_BLOCK_FILES :: byte where "DB_BLOCK_FILES = 0x66"
definition DB_LAST_BLOCK :: byte where "DB_LAST_BLOCK = 0x6C"
definition DB_BEST_BLOCK :: byte where "DB_BEST_BLOCK = 0x42"
definition DB_REINDEX_FLAG :: byte where "DB_REINDEX_FLAG = 0x52"
definition DB_BLOCK_UNDO :: byte where "DB_BLOCK_UNDO = 0x75"
definition DB_TX_INDEX :: byte where "DB_TX_INDEX = 0x74"

text \<open>
  A \<open>std::pair<char, bytes32>\<close> key is 33 bytes without padding. A \<open>std::pair<char, int32_t>\<close>
  has three padding bytes after the \<open>char\<close> that no constructor sets: whatever they held
  is part of the key, so every operation that builds one takes them as the argument \<open>pad\<close>.
  The padding of the two structures below is in the stored value, and the reader ignores it.
\<close>

definition hash_key :: "byte \<Rightarrow> bytes32 \<Rightarrow> byte list" where
  "hash_key tag h = tag # h"

definition file_key :: "byte list \<Rightarrow> int \<Rightarrow> byte list" where
  "file_key pad n = DB_BLOCK_FILES # pad @ WriteLE32 (of_int n)"

definition BlockIndexEntry_image :: "BlockIndexEntry \<Rightarrow> byte list" where
  "BlockIndexEntry_image e =
     WriteLE32 (nVersion e) @ hashPrev e @ hashMerkleRoot e @ [0, 0, 0, 0] @ WriteLE64 (nTime e) @
     WriteLE32 (nHeight e) @ WriteLE32 (nBits e) @ WriteLE32 (nNonce e) @ nChainWork e @
     WriteLE32 (of_int (nFile (blockPos e))) @ WriteLE32 (nPos (blockPos e)) @ WriteLE32 (nTx e) @
     [bool_byte (hasData e)] @ [0, 0, 0, 0, 0, 0, 0]"

definition get_BlockIndexEntry :: "DataStream \<Rightarrow> (BlockIndexEntry \<times> DataStream) result" where
  "get_BlockIndexEntry ds =
     rbind (get_raw 144 ds) (\<lambda>(raw, ds).
     rbind (ReadLE32 raw 0) (\<lambda>(ver, _).
     rbind (rd_bytes 32 raw 4) (\<lambda>prev.
     rbind (rd_bytes 32 raw 36) (\<lambda>merkle.
     rbind (ReadLE64 raw 72) (\<lambda>(tm, _).
     rbind (ReadLE32 raw 80) (\<lambda>(ht, _).
     rbind (ReadLE32 raw 84) (\<lambda>(bits, _).
     rbind (ReadLE32 raw 88) (\<lambda>(nonce, _).
     rbind (rd_bytes 32 raw 92) (\<lambda>work.
     rbind (ReadLE32 raw 124) (\<lambda>(file, _).
     rbind (ReadLE32 raw 128) (\<lambda>(pos, _).
     rbind (ReadLE32 raw 132) (\<lambda>(ntx, _).
     rbind (rd8 raw 136) (\<lambda>has.
       Inr (\<lparr>nVersion = ver, hashPrev = prev, hashMerkleRoot = merkle, nTime = tm, nHeight = ht, nBits = bits,
             nNonce = nonce, nChainWork = work, blockPos = \<lparr>nFile = sint file, nPos = pos\<rparr>, nTx = ntx,
             hasData = has \<noteq> 0\<rparr>, ds))))))))))))))"

definition BlockFileInfo_image :: "BlockFileInfo \<Rightarrow> byte list" where
  "BlockFileInfo_image i =
     WriteLE32 (nBlocks i) @ WriteLE32 (fiSize i) @ WriteLE32 (nHeightFirst i) @ WriteLE32 (nHeightLast i) @
     WriteLE64 (nTimeFirst i) @ WriteLE64 (nTimeLast i)"

definition get_BlockFileInfo :: "DataStream \<Rightarrow> (BlockFileInfo \<times> DataStream) result" where
  "get_BlockFileInfo ds =
     rbind (get_raw 32 ds) (\<lambda>(raw, ds).
     rbind (ReadLE32 raw 0) (\<lambda>(n, _).
     rbind (ReadLE32 raw 4) (\<lambda>(sz, _).
     rbind (ReadLE32 raw 8) (\<lambda>(hf, _).
     rbind (ReadLE32 raw 12) (\<lambda>(hl, _).
     rbind (ReadLE64 raw 16) (\<lambda>(tf, _).
     rbind (ReadLE64 raw 24) (\<lambda>(tl, _).
       Inr (\<lparr>nBlocks = n, fiSize = sz, nHeightFirst = hf, nHeightLast = hl, nTimeFirst = tf, nTimeLast = tl\<rparr>, ds))))))))"

section \<open>Single records\<close>

definition bd_put :: "byte list \<Rightarrow> byte list \<Rightarrow> BlockData \<Rightarrow> BlockData" where
  "bd_put k v bd = bd\<lparr>bdIndex := DBWrapper_Write k v (bdIndex bd)\<rparr>"

definition WriteBlockIndex :: "bytes32 \<Rightarrow> BlockIndexEntry \<Rightarrow> BlockData \<Rightarrow> BlockData" where
  "WriteBlockIndex blockHash entry bd = bd_put (hash_key DB_BLOCK_INDEX blockHash) (BlockIndexEntry_image entry) bd"

definition ReadBlockIndex :: "bytes32 \<Rightarrow> BlockData \<Rightarrow> BlockIndexEntry option" where
  "ReadBlockIndex blockHash bd = DBWrapper_Read get_BlockIndexEntry (hash_key DB_BLOCK_INDEX blockHash) (bdIndex bd)"

definition HasBlock :: "bytes32 \<Rightarrow> BlockData \<Rightarrow> bool" where
  "HasBlock blockHash bd \<longleftrightarrow> ReadBlockIndex blockHash bd \<noteq> None"

definition WriteTxIndex :: "bytes32 \<Rightarrow> bytes32 \<Rightarrow> BlockData \<Rightarrow> BlockData" where
  "WriteTxIndex txid blockHash bd = bd_put (hash_key DB_TX_INDEX txid) blockHash bd"

definition ReadTxIndex :: "bytes32 \<Rightarrow> BlockData \<Rightarrow> bytes32 option" where
  "ReadTxIndex txid bd = DBWrapper_Read (get_raw 32) (hash_key DB_TX_INDEX txid) (bdIndex bd)"

definition WriteBlockUndo :: "bytes32 \<Rightarrow> BlockUndo \<Rightarrow> BlockData \<Rightarrow> BlockData" where
  "WriteBlockUndo blockHash undo bd =
     bd_put (hash_key DB_BLOCK_UNDO blockHash) (vector_bytes (BlockUndo_Serialize undo)) bd"

definition ReadBlockUndo :: "bytes32 \<Rightarrow> BlockData \<Rightarrow> BlockUndo option" where
  "ReadBlockUndo blockHash bd =
     (case DBWrapper_Read get_vector (hash_key DB_BLOCK_UNDO blockHash) (bdIndex bd) of
        None \<Rightarrow> None
      | Some blob \<Rightarrow> (case BlockUndo_Deserialize blob of Inl _ \<Rightarrow> None | Inr undo \<Rightarrow> Some undo))"

definition HasBlockUndo :: "bytes32 \<Rightarrow> BlockData \<Rightarrow> bool" where
  "HasBlockUndo blockHash bd = DBWrapper_Exists (hash_key DB_BLOCK_UNDO blockHash) (bdIndex bd)"

definition WriteBestBlock :: "bytes32 \<Rightarrow> BlockData \<Rightarrow> BlockData" where
  "WriteBestBlock blockHash bd = bd_put [DB_BEST_BLOCK] blockHash bd"

definition ReadBestBlock :: "BlockData \<Rightarrow> bytes32 option" where
  "ReadBestBlock bd = DBWrapper_Read (get_raw 32) [DB_BEST_BLOCK] (bdIndex bd)"

definition WriteLastBlockFile :: "int \<Rightarrow> BlockData \<Rightarrow> BlockData" where
  "WriteLastBlockFile n bd = bd_put [DB_LAST_BLOCK] (WriteLE32 (of_int n)) (bd\<lparr>bdLastBlockFile := n\<rparr>)"

definition ReadLastBlockFile :: "DBWrapper \<Rightarrow> int option" where
  "ReadLastBlockFile db =
     (case DBWrapper_Read (get_raw 4) [DB_LAST_BLOCK] db of
        None \<Rightarrow> None
      | Some raw \<Rightarrow> (case ReadLE32 raw 0 of Inl _ \<Rightarrow> None | Inr (n, _) \<Rightarrow> Some (sint n)))"

definition WriteBlockFileInfo :: "byte list \<Rightarrow> int \<Rightarrow> BlockFileInfo \<Rightarrow> BlockData \<Rightarrow> BlockData" where
  "WriteBlockFileInfo pad n info bd = bd_put (file_key pad n) (BlockFileInfo_image info) bd"

definition ReadBlockFileInfo :: "byte list \<Rightarrow> int \<Rightarrow> BlockData \<Rightarrow> BlockFileInfo option" where
  "ReadBlockFileInfo pad n bd = DBWrapper_Read get_BlockFileInfo (file_key pad n) (bdIndex bd)"

definition WriteReindexing :: "bool \<Rightarrow> BlockData \<Rightarrow> BlockData" where
  "WriteReindexing fReindexing bd =
     (if fReindexing then bd_put [DB_REINDEX_FLAG] [0x31] bd
      else bd\<lparr>bdIndex := DBWrapper_Erase [DB_REINDEX_FLAG] (bdIndex bd)\<rparr>)"

definition ReadReindexing :: "BlockData \<Rightarrow> bool" where
  "ReadReindexing bd = DBWrapper_Exists [DB_REINDEX_FLAG] (bdIndex bd)"

definition BlockData_Flush :: "BlockData \<Rightarrow> BlockData" where
  "BlockData_Flush bd = bd\<lparr>bdIndex := DBWrapper_Sync (bdIndex bd)\<rparr>"

text \<open>The constructor on an opened index database and the files found in the blocks directory.\<close>

definition BlockData_open :: "DBWrapper \<Rightarrow> string \<Rightarrow> (int \<rightharpoonup> byte list) \<Rightarrow> BlockData" where
  "BlockData_open db dir files =
     \<lparr>bdIndex = db, bdBlocksDir = dir, bdFiles = files,
      bdLastBlockFile = (case ReadLastBlockFile db of None \<Rightarrow> 0 | Some n \<Rightarrow> n)\<rparr>"

section \<open>Block files\<close>

definition GetBlockFilePath :: "int \<Rightarrow> BlockData \<Rightarrow> string" where
  "GetBlockFilePath n bd =
     (let s = to_string n
      in bdBlocksDir bd @ ''/'' @ ''blk'' @ replicate (5 - length s) (CHR ''0'') @ s @ ''.dat'')"

definition file_bytes :: "int \<Rightarrow> BlockData \<Rightarrow> byte list" where
  "file_bytes n bd = (case bdFiles bd n of None \<Rightarrow> [] | Some bytes \<Rightarrow> bytes)"

definition append_file :: "int \<Rightarrow> byte list \<Rightarrow> BlockData \<Rightarrow> BlockData" where
  "append_file n bytes bd = bd\<lparr>bdFiles := (bdFiles bd)(n \<mapsto> file_bytes n bd @ bytes)\<rparr>"

definition block_record :: "Block \<Rightarrow> byte list" where
  "block_record block =
     (let data = Block_Serialize block;
          dataSize = of_nat (length data) :: u32
      in MAINNET_MAGIC @
         [ucast (dataSize AND 0xFF), ucast (drop_bit 8 dataSize AND 0xFF),
          ucast (drop_bit 16 dataSize AND 0xFF), ucast (drop_bit 24 dataSize AND 0xFF)] @ data)"

definition WriteBlockToDisk :: "disk_io \<Rightarrow> Block \<Rightarrow> BlockData \<Rightarrow> DiskBlockPos result \<times> BlockData" where
  "WriteBlockToDisk io block bd =
     (let data = Block_Serialize block;
          dataSize = of_nat (length data) :: u32;
          currentSize = of_nat (length (file_bytes (bdLastBlockFile bd) bd)) :: u32;
          (bd, currentSize) =
            (if currentSize + dataSize + 8 > MAX_BLOCK_FILE_SIZE
             then (WriteLastBlockFile (bdLastBlockFile bd + 1) bd, 0)
             else (bd, currentSize));
          n = bdLastBlockFile bd
      in case io of
           OpenFails \<Rightarrow> (Inl (RuntimeError (''Failed to open block file: '' @ GetBlockFilePath n bd)), bd)
         | WriteFails k \<Rightarrow> (Inl (RuntimeError ''Failed to write block to disk''), append_file n (take k (block_record block)) bd)
         | DiskOk \<Rightarrow> (Inr \<lparr>nFile = n, nPos = currentSize\<rparr>, append_file n (block_record block) bd))"

definition ReadBlockFromDisk :: "DiskBlockPos \<Rightarrow> BlockData \<Rightarrow> Block option" where
  "ReadBlockFromDisk pos bd =
     (if DiskBlockPos_IsNull pos then None
      else (case bdFiles bd (nFile pos) of
          None \<Rightarrow> None
        | Some bytes \<Rightarrow>
            let hdr = take 8 (drop (unat (nPos pos)) bytes) in
            if length hdr < 8 then None
            else if \<not> VerifyNetworkMagic (Some hdr) then None
            else (case ReadLE32 hdr 4 of
                Inl _ \<Rightarrow> None
              | Inr (dataSize, _) \<Rightarrow>
                  if dataSize = 0 \<or> unat dataSize > MAX_BLOCK_SIZE then None
                  else let data = take (unat dataSize) (drop (unat (nPos pos) + 8) bytes) in
                    if length data < unat dataSize then None
                    else (case Block_Deserialize data of Inl _ \<Rightarrow> None | Inr block \<Rightarrow> Some block))))"

definition ReadBlock :: "DiskBlockPos \<Rightarrow> BlockData \<Rightarrow> Block option" where
  "ReadBlock pos bd = ReadBlockFromDisk pos bd"

section \<open>Storing a block\<close>

definition index_entry :: "Block \<Rightarrow> u32 \<Rightarrow> bytes32 \<Rightarrow> DiskBlockPos \<Rightarrow> BlockIndexEntry" where
  "index_entry block ht chainWork pos =
     (let hdr = mHeader block
      in \<lparr>nVersion = hVersion hdr, hashPrev = mPrevBlockHash hdr, hashMerkleRoot = mMerkleRoot hdr,
          nTime = mTimestamp hdr, nHeight = ht, nBits = mBits hdr, nNonce = mNonce hdr, nChainWork = chainWork,
          blockPos = pos, nTx = of_nat (length (mTransactions block)), hasData = True\<rparr>)"

definition updated_info :: "byte list \<Rightarrow> BlockIndexEntry \<Rightarrow> BlockData \<Rightarrow> BlockFileInfo" where
  "updated_info pad e bd =
     (let ht = nHeight e;
          info = (case ReadBlockFileInfo pad (nFile (blockPos e)) bd of None \<Rightarrow> BlockFileInfo_init | Some i \<Rightarrow> i);
          info = info\<lparr>nBlocks := nBlocks info + 1, fiSize := nPos (blockPos e)\<rparr>;
          info = (if nBlocks info = 1 \<or> ht < nHeightFirst info then info\<lparr>nHeightFirst := ht\<rparr> else info);
          info = (if nBlocks info = 1 \<or> ht > nHeightLast info then info\<lparr>nHeightLast := ht\<rparr> else info);
          info = (if nBlocks info = 1 \<or> nTime e < nTimeFirst info then info\<lparr>nTimeFirst := nTime e\<rparr> else info)
      in if nBlocks info = 1 \<or> nTime e > nTimeLast info then info\<lparr>nTimeLast := nTime e\<rparr> else info)"

definition WriteBlock :: "disk_io \<Rightarrow> byte list \<Rightarrow> byte list \<Rightarrow> Block \<Rightarrow> u32 \<Rightarrow> bytes32 \<Rightarrow> BlockData \<Rightarrow> DiskBlockPos result \<times> BlockData" where
  "WriteBlock io padR padW block ht chainWork bd =
     (case WriteBlockToDisk io block bd of
        (Inl e, bd) \<Rightarrow> (Inl e, bd)
      | (Inr pos, bd) \<Rightarrow>
          let entry = index_entry block ht chainWork pos;
              blockHash = BlockHeader_GetHash (mHeader block);
              bd = WriteBlockIndex blockHash entry bd;
              bd = fold (\<lambda>tx. WriteTxIndex (GetHash tx) blockHash) (mTransactions block) bd
          in (Inr pos, WriteBlockFileInfo padW (nFile pos) (updated_info padR entry bd) bd))"

definition WriteBlockConnected ::
  "disk_io \<Rightarrow> byte list \<Rightarrow> byte list \<Rightarrow> Block \<Rightarrow> u32 \<Rightarrow> bytes32 \<Rightarrow> BlockUndo \<Rightarrow> BlockData \<Rightarrow> DiskBlockPos result \<times> BlockData" where
  "WriteBlockConnected io padR padW block ht chainWork undo bd =
     (case WriteBlockToDisk io block bd of
        (Inl e, bd) \<Rightarrow> (Inl e, bd)
      | (Inr pos, bd) \<Rightarrow>
          let entry = index_entry block ht chainWork pos;
              blockHash = BlockHeader_GetHash (mHeader block);
              info = updated_info padR entry bd;
              obf = mObfuscateKey (bdIndex bd);
              batch = DBBatch_Write obf (hash_key DB_BLOCK_INDEX blockHash) (BlockIndexEntry_image entry) DBBatch_init;
              batch = DBBatch_Write obf (hash_key DB_BLOCK_UNDO blockHash) (vector_bytes (BlockUndo_Serialize undo)) batch;
              batch = fold (\<lambda>tx. DBBatch_Write obf (hash_key DB_TX_INDEX (GetHash tx)) blockHash) (mTransactions block) batch;
              batch = DBBatch_Write obf (file_key padW (nFile pos)) (BlockFileInfo_image info) batch
          in (Inr pos, bd\<lparr>bdIndex := DBWrapper_WriteBatch batch (bdIndex bd)\<rparr>))"

section \<open>Stored structures read back\<close>

definition wf_pos :: "DiskBlockPos \<Rightarrow> bool" where
  "wf_pos pos \<longleftrightarrow> - (2 ^ 31) \<le> nFile pos \<and> nFile pos < 2 ^ 31"

definition wf_entry :: "BlockIndexEntry \<Rightarrow> bool" where
  "wf_entry e \<longleftrightarrow> is_bytes32 (hashPrev e) \<and> is_bytes32 (hashMerkleRoot e) \<and> is_bytes32 (nChainWork e) \<and>
     wf_pos (blockPos e)"

lemma sint_of_int32: "- (2 ^ 31) \<le> v \<Longrightarrow> v < 2 ^ 31 \<Longrightarrow> sint (of_int v :: u32) = v"
  by (simp add: sint_sbintrunc' signed_take_bit_int_eq_self)

interpretation info_value: record_codec BlockFileInfo_image get_BlockFileInfo "\<lambda>_. True"
proof unfold_locales
  fix i :: BlockFileInfo
  have a0: "at_off (BlockFileInfo_image i) 0 (WriteLE32 (nBlocks i) @ WriteLE32 (fiSize i) @ WriteLE32 (nHeightFirst i) @
     WriteLE32 (nHeightLast i) @ WriteLE64 (nTimeFirst i) @ WriteLE64 (nTimeLast i) @ [])"
    by (simp add: at_off_def BlockFileInfo_image_def)
  note a1 = at_off_step [OF a0 length_WriteLE32] note a2 = at_off_step [OF a1 length_WriteLE32]
  note a3 = at_off_step [OF a2 length_WriteLE32] note a4 = at_off_step [OF a3 length_WriteLE32]
  note a5 = at_off_step [OF a4 length_WriteLE64]
  show "\<exists>s. get_BlockFileInfo \<lparr>mData = BlockFileInfo_image i, mReadPos = 0\<rparr> = Inr (i, s)"
    using ReadLE32_at [OF a0] ReadLE32_at [OF a1] ReadLE32_at [OF a2] ReadLE32_at [OF a3] ReadLE64_at [OF a4]
      ReadLE64_at [OF a5] at_off_length [OF a0]
    by (simp add: get_BlockFileInfo_def get_raw_def ReadRaw_def)
qed

interpretation entry_value: record_codec BlockIndexEntry_image get_BlockIndexEntry wf_entry
proof unfold_locales
  fix e :: BlockIndexEntry assume wf: "wf_entry e"
  then have p: "length (hashPrev e) = 32" "length (hashMerkleRoot e) = 32" "length (nChainWork e) = 32"
    and f: "sint (of_int (nFile (blockPos e)) :: u32) = nFile (blockPos e)"
    by (simp_all add: wf_entry_def wf_pos_def sint_of_int32)
  let ?d = "BlockIndexEntry_image e"
  have a0: "at_off ?d 0 (WriteLE32 (nVersion e) @ hashPrev e @ hashMerkleRoot e @ [0, 0, 0, 0] @ WriteLE64 (nTime e) @
     WriteLE32 (nHeight e) @ WriteLE32 (nBits e) @ WriteLE32 (nNonce e) @ nChainWork e @
     WriteLE32 (of_int (nFile (blockPos e))) @ WriteLE32 (nPos (blockPos e)) @ WriteLE32 (nTx e) @
     bool_byte (hasData e) # [0, 0, 0, 0, 0, 0, 0])"
    by (simp add: at_off_def BlockIndexEntry_image_def)
  have pad: "length [0, 0, 0, 0 :: byte] = 4" by simp
  note a1 = at_off_step [OF a0 length_WriteLE32] note a2 = at_off_step [OF a1 p(1)]
  note a3 = at_off_step [OF a2 p(2)] note a4 = at_off_step [OF a3 pad]
  note a5 = at_off_step [OF a4 length_WriteLE64] note a6 = at_off_step [OF a5 length_WriteLE32]
  note a7 = at_off_step [OF a6 length_WriteLE32] note a8 = at_off_step [OF a7 length_WriteLE32]
  note a9 = at_off_step [OF a8 p(3)] note a10 = at_off_step [OF a9 length_WriteLE32]
  note a11 = at_off_step [OF a10 length_WriteLE32] note a12 = at_off_step [OF a11 length_WriteLE32]
  show "\<exists>s. get_BlockIndexEntry \<lparr>mData = ?d, mReadPos = 0\<rparr> = Inr (e, s)"
    using ReadLE32_at [OF a0] rd_bytes_at [OF a1 p(1)] rd_bytes_at [OF a2 p(2)] ReadLE64_at [OF a4] ReadLE32_at [OF a5]
      ReadLE32_at [OF a6] ReadLE32_at [OF a7] rd_bytes_at [OF a8 p(3)] ReadLE32_at [OF a9] ReadLE32_at [OF a10]
      ReadLE32_at [OF a11] rd8_here [OF a12] at_off_length [OF a0] p f
    by (simp add: get_BlockIndexEntry_def get_raw_def ReadRaw_def bool_byte_def)
qed

section \<open>The block files\<close>

text \<open>
  The invariant of the files: the current file is the last one, its number fits
  \<open>int32_t\<close>, and no file is longer than the limit the writer observes.
\<close>

definition files_ok :: "BlockData \<Rightarrow> bool" where
  "files_ok bd \<longleftrightarrow> 0 \<le> bdLastBlockFile bd \<and> bdLastBlockFile bd < 2 ^ 31 - 1 \<and>
     (\<forall>n bytes. bdFiles bd n = Some bytes \<longrightarrow> n \<le> bdLastBlockFile bd \<and> length bytes \<le> unat MAX_BLOCK_FILE_SIZE)"

definition storable :: "Block \<Rightarrow> bool" where
  "storable block \<longleftrightarrow> wf_Block block \<and> Block_GetSerializedSize block \<le> MAX_BLOCK_SIZE"

text \<open>Files only grow: what a position reads does not change when bytes are appended.\<close>

definition files_extend :: "BlockData \<Rightarrow> BlockData \<Rightarrow> bool" where
  "files_extend bd bd' \<longleftrightarrow> (\<forall>n bytes. bdFiles bd n = Some bytes \<longrightarrow> (\<exists>more. bdFiles bd' n = Some (bytes @ more)))"

lemma files_extend_append: "files_extend bd (append_file n bytes bd)"
  by (auto simp: files_extend_def append_file_def file_bytes_def)

lemma bd_put_fields [simp]:
  "bdFiles (bd_put k v bd) = bdFiles bd" "bdLastBlockFile (bd_put k v bd) = bdLastBlockFile bd"
  "bdBlocksDir (bd_put k v bd) = bdBlocksDir bd"
  by (simp_all add: bd_put_def)

lemma plain_bd_put: "plain (bdIndex (bd_put k v bd)) = (plain (bdIndex bd))(k \<mapsto> v)"
  by (simp add: bd_put_def db_map.view_write)

lemma ReadBlock_extend:
  assumes "files_extend bd bd'" and "ReadBlock pos bd = Some block"
  shows "ReadBlock pos bd' = Some block"
proof -
  obtain bytes where b: "bdFiles bd (nFile pos) = Some bytes"
    using assms(2) by (auto simp: ReadBlock_def ReadBlockFromDisk_def split: if_splits option.splits)
  then obtain more where b': "bdFiles bd' (nFile pos) = Some (bytes @ more)"
    using assms(1) by (auto simp: files_extend_def)
  let ?p = "unat (nPos pos)"
  obtain n off where h: "\<not> DiskBlockPos_IsNull pos" "?p + 8 \<le> length bytes"
    "VerifyNetworkMagic (Some (take 8 (drop ?p bytes)))" "ReadLE32 (take 8 (drop ?p bytes)) 4 = Inr (n, off)"
    "n \<noteq> 0" "unat n \<le> MAX_BLOCK_SIZE" "?p + 8 + unat n \<le> length bytes"
    "Block_Deserialize (take (unat n) (drop (?p + 8) bytes)) = Inr block"
    using assms(2) unfolding ReadBlock_def ReadBlockFromDisk_def b
    by (fastforce simp: Let_def not_less min_def split: if_splits sum.splits)
  have "take k (drop p (bytes @ more)) = take k (drop p bytes)" if "p + k \<le> length bytes" for k p
    using that by simp
  note t = this [OF h(2)] this [OF h(7)]
  show ?thesis
    unfolding ReadBlock_def ReadBlockFromDisk_def b' option.case Let_def t
    using h(1-6) h(7) by (auto simp: t(2) h(8) min_def simp del: drop_append take_append)
qed

lemma block_record_eq:
  "block_record block = MAINNET_MAGIC @ WriteLE32 (of_nat (length (Block_Serialize block))) @ Block_Serialize block"
  by (simp add: block_record_def Let_def WriteLE32_def)

lemma storable_length:
  "storable block \<Longrightarrow> length (Block_Serialize block) \<le> MAX_BLOCK_SIZE \<and> 0 < length (Block_Serialize block)"
  by (auto simp: storable_def Block_Serialize_length Block_GetSerializedSize_def SERIALIZED_SIZE_def)

lemma ReadBlock_record:
  assumes st: "storable block" and f: "bdFiles bd (nFile pos) = Some (pre @ block_record block @ post)"
    and p: "unat (nPos pos) = length pre" "nFile pos \<noteq> - 1"
  shows "ReadBlock pos bd = Some (uncached_block block)"
proof -
  let ?n = "length (Block_Serialize block)"
  have n: "unat (of_nat ?n :: u32) = ?n" "?n \<le> MAX_BLOCK_SIZE" "0 < ?n"
    using storable_length [OF st] by (auto simp: MAX_BLOCK_SIZE_def unat_of_nat32)
  then have nz: "(of_nat ?n :: u32) \<noteq> 0" by (metis unat_0 less_irrefl)
  let ?h = "MAINNET_MAGIC @ WriteLE32 (of_nat ?n)"
  have h: "take 8 (drop (length pre) (pre @ block_record block @ post)) = ?h"
    by (simp add: block_record_eq MAINNET_MAGIC_def)
  have a: "at_off ?h 4 (WriteLE32 (of_nat ?n) @ [])" by (simp add: at_off_def MAINNET_MAGIC_def)
  have d: "take ?n (drop (length pre + 8) (pre @ block_record block @ post)) = Block_Serialize block"
    by (simp add: block_record_eq MAINNET_MAGIC_def)
  have "Block_Deserialize (Block_Serialize block) = Inr (uncached_block block)"
    using Block_Deserialize_Serialize [of block "[]"] st by (simp add: storable_def)
  moreover have "length ?h = 8" "VerifyNetworkMagic (Some ?h)"
    by (simp_all add: MAINNET_MAGIC_def VerifyNetworkMagic_def)
  ultimately show ?thesis
    unfolding ReadBlock_def ReadBlockFromDisk_def DiskBlockPos_IsNull_def f option.case p(1) h Let_def
    using p(2) n nz ReadLE32_at [OF a] d by simp
qed

section \<open>Appending a block\<close>

lemma WriteLastBlockFile_fields [simp]:
  "bdFiles (WriteLastBlockFile n bd) = bdFiles bd" "bdLastBlockFile (WriteLastBlockFile n bd) = n"
  by (simp_all add: WriteLastBlockFile_def)

lemma append_file_fields [simp]:
  "bdIndex (append_file n bytes bd) = bdIndex bd" "bdLastBlockFile (append_file n bytes bd) = bdLastBlockFile bd"
  by (simp_all add: append_file_def)

lemma plain_WriteLastBlockFile:
  "k \<noteq> [DB_LAST_BLOCK] \<Longrightarrow> plain (bdIndex (WriteLastBlockFile n bd)) k = plain (bdIndex bd) k"
  by (simp add: WriteLastBlockFile_def plain_bd_put)

lemma block_record_length: "length (block_record block) = 8 + length (Block_Serialize block)"
  by (simp add: block_record_eq MAINNET_MAGIC_def)

text \<open>
  Where the record goes: the current file while it has room, otherwise the next one,
  which the invariant makes empty. The 32-bit sum of the guard does not wrap.
\<close>

definition target_file :: "Block \<Rightarrow> BlockData \<Rightarrow> BlockData" where
  "target_file block bd =
     (if unat MAX_BLOCK_FILE_SIZE < length (file_bytes (bdLastBlockFile bd) bd) + length (block_record block)
      then WriteLastBlockFile (bdLastBlockFile bd + 1) bd else bd)"

lemma target_file_spec:
  assumes ok: "files_ok bd" and st: "storable block"
  defines "bd1 \<equiv> target_file block bd"
  shows "length (file_bytes (bdLastBlockFile bd1) bd1) + length (block_record block) \<le> unat MAX_BLOCK_FILE_SIZE"
    and "bdFiles bd1 = bdFiles bd" and "bdLastBlockFile bd \<le> bdLastBlockFile bd1"
    and "bdLastBlockFile bd1 \<le> bdLastBlockFile bd + 1"
    and "WriteBlockToDisk io block bd =
      (case io of
         OpenFails \<Rightarrow> (Inl (RuntimeError (''Failed to open block file: '' @ GetBlockFilePath (bdLastBlockFile bd1) bd1)), bd1)
       | WriteFails k \<Rightarrow> (Inl (RuntimeError ''Failed to write block to disk''),
           append_file (bdLastBlockFile bd1) (take k (block_record block)) bd1)
       | DiskOk \<Rightarrow> (Inr \<lparr>nFile = bdLastBlockFile bd1, nPos = of_nat (length (file_bytes (bdLastBlockFile bd1) bd1))\<rparr>,
           append_file (bdLastBlockFile bd1) (block_record block) bd1))"
proof -
  let ?c = "length (file_bytes (bdLastBlockFile bd) bd)" and ?n = "length (Block_Serialize block)"
  have c: "?c \<le> 134217728"
    using ok by (auto simp: files_ok_def file_bytes_def MAX_BLOCK_FILE_SIZE_def split: option.splits)
  have n: "?n \<le> 6291456" using storable_length [OF st] by (simp add: MAX_BLOCK_SIZE_def)
  have e: "bdFiles bd (bdLastBlockFile bd + 1) = None"
    using ok by (cases "bdFiles bd (bdLastBlockFile bd + 1)") (fastforce simp: files_ok_def)+
  have "(of_nat ?c + of_nat ?n + 8 :: u32) = of_nat (?c + ?n + 8)" by simp
  moreover have "unat (of_nat (?c + ?n + 8) :: u32) = ?c + ?n + 8"
    using c n by (intro unat_of_nat32) simp
  ultimately have "unat (of_nat ?c + of_nat ?n + 8 :: u32) = ?c + ?n + 8" by (simp only:)
  then have g: "(of_nat ?c + of_nat ?n + 8 :: u32) > MAX_BLOCK_FILE_SIZE \<longleftrightarrow>
      unat MAX_BLOCK_FILE_SIZE < ?c + length (block_record block)"
    by (simp add: word_less_nat_alt block_record_length add_ac)
  show "length (file_bytes (bdLastBlockFile bd1) bd1) + length (block_record block) \<le> unat MAX_BLOCK_FILE_SIZE"
    using n e by (auto simp: bd1_def target_file_def file_bytes_def block_record_length MAX_BLOCK_FILE_SIZE_def)
  show "bdFiles bd1 = bdFiles bd" "bdLastBlockFile bd \<le> bdLastBlockFile bd1"
    "bdLastBlockFile bd1 \<le> bdLastBlockFile bd + 1" by (simp_all add: bd1_def target_file_def)
  show "WriteBlockToDisk io block bd =
      (case io of
         OpenFails \<Rightarrow> (Inl (RuntimeError (''Failed to open block file: '' @ GetBlockFilePath (bdLastBlockFile bd1) bd1)), bd1)
       | WriteFails k \<Rightarrow> (Inl (RuntimeError ''Failed to write block to disk''),
           append_file (bdLastBlockFile bd1) (take k (block_record block)) bd1)
       | DiskOk \<Rightarrow> (Inr \<lparr>nFile = bdLastBlockFile bd1, nPos = of_nat (length (file_bytes (bdLastBlockFile bd1) bd1))\<rparr>,
           append_file (bdLastBlockFile bd1) (block_record block) bd1))"
    using e unfolding WriteBlockToDisk_def Let_def g bd1_def target_file_def
    by (auto simp: file_bytes_def split: disk_io.splits)
qed

lemma WriteBlockToDisk_other:
  assumes "files_ok bd" and "storable block" and "WriteBlockToDisk io block bd = (r, bd')"
  shows "files_extend bd bd'" and "k \<noteq> [DB_LAST_BLOCK] \<Longrightarrow> plain (bdIndex bd') k = plain (bdIndex bd) k"
  using assms(3) target_file_spec(2) [OF assms(1,2)] files_extend_append
    plain_WriteLastBlockFile [of k "bdLastBlockFile bd + 1" bd]
  unfolding target_file_spec(5) [OF assms(1,2)]
  by (auto simp: files_extend_def append_file_def file_bytes_def target_file_def split: disk_io.splits if_splits)

lemma WriteBlockToDisk_stored:
  assumes "files_ok bd" and "storable block" and "WriteBlockToDisk io block bd = (Inr pos, bd')"
  shows "ReadBlock pos bd' = Some (uncached_block block)" and "wf_pos pos" and "io = DiskOk"
proof -
  define bd1 where "bd1 = target_file block bd"
  note t = target_file_spec [OF assms(1,2), folded bd1_def]
  have r: "io = DiskOk" "pos = \<lparr>nFile = bdLastBlockFile bd1, nPos = of_nat (length (file_bytes (bdLastBlockFile bd1) bd1))\<rparr>"
    "bd' = append_file (bdLastBlockFile bd1) (block_record block) bd1"
    using assms(3) unfolding t(5) by (auto split: disk_io.splits)
  have l: "0 \<le> bdLastBlockFile bd1" "bdLastBlockFile bd1 < 2 ^ 31" using t(3,4) assms(1) by (auto simp: files_ok_def)
  have "unat (of_nat (length (file_bytes (bdLastBlockFile bd1) bd1)) :: u32) = length (file_bytes (bdLastBlockFile bd1) bd1)"
    using t(1) by (intro unat_of_nat32) (simp add: MAX_BLOCK_FILE_SIZE_def)
  then show "ReadBlock pos bd' = Some (uncached_block block)"
    using ReadBlock_record [OF assms(2), of bd' pos "file_bytes (bdLastBlockFile bd1) bd1" "[]"] r l
    by (simp add: append_file_def)
  show "wf_pos pos" "io = DiskOk" using r l by (simp_all add: wf_pos_def)
qed

section \<open>The index\<close>

lemma hash_key_simps [simp]:
  "hash_key t h = hash_key t' h' \<longleftrightarrow> t = t' \<and> h = h'"
  "hash_key t h = file_key pad n \<longleftrightarrow> t = DB_BLOCK_FILES \<and> h = pad @ WriteLE32 (of_int n)"
  "hash_key t h = [b] \<longleftrightarrow> t = b \<and> h = []"
  by (auto simp: hash_key_def file_key_def)

lemmas tag_defs = DB_BLOCK_INDEX_def DB_BLOCK_FILES_def DB_LAST_BLOCK_def DB_BLOCK_UNDO_def DB_TX_INDEX_def

lemma batch_effect_fold_Write:
  "batch_effect obf (fold (\<lambda>x. DBBatch_Write obf (f x) v) xs b) m k =
     (if k \<in> f ` set xs then Some v else batch_effect obf b m k)"
  by (induction xs arbitrary: b) (auto simp: db_simps)

lemma BlockHeader_GetHash_length: "wf_BlockHeader h \<Longrightarrow> length (BlockHeader_GetHash h) = 32"
  by (simp add: BlockHeader_GetHash_def BlockHeader_GetHash_st_def BlockHeader_ComputeHash_def wf_BlockHeader_def Let_def
      flip: sha256_Raw_def)

text \<open>What the one batch of a connected block leaves in the index.\<close>

lemma WriteBlockConnected_index:
  assumes "WriteBlockToDisk io block bd = (Inr pos, bd1)"
    and "WriteBlockConnected io padR padW block ht chainWork undo bd = (r, bd')"
  defines "h \<equiv> BlockHeader_GetHash (mHeader block)" and "e \<equiv> index_entry block ht chainWork pos"
  shows "r = Inr pos" and "bdFiles bd' = bdFiles bd1" and "bdLastBlockFile bd' = bdLastBlockFile bd1"
    and "plain (bdIndex bd') (hash_key DB_BLOCK_INDEX x) =
      (if x = h then Some (BlockIndexEntry_image e) else plain (bdIndex bd1) (hash_key DB_BLOCK_INDEX x))"
    and "plain (bdIndex bd') (hash_key DB_BLOCK_UNDO x) =
      (if x = h then Some (vector_bytes (BlockUndo_Serialize undo)) else plain (bdIndex bd1) (hash_key DB_BLOCK_UNDO x))"
    and "plain (bdIndex bd') (hash_key DB_TX_INDEX x) =
      (if x \<in> GetHash ` set (mTransactions block) then Some h else plain (bdIndex bd1) (hash_key DB_TX_INDEX x))"
  using assms(2) unfolding WriteBlockConnected_def assms(1) h_def e_def
  by (auto simp: Let_def db_simps batch_effect_fold_Write tag_defs)

lemma WriteBlockConnected_failed:
  "WriteBlockToDisk io block bd = (Inl x, bd1) \<Longrightarrow>
   WriteBlockConnected io padR padW block ht chainWork undo bd = (Inl x, bd1)"
  by (simp add: WriteBlockConnected_def)

lemmas index_reads = ReadBlockIndex_def ReadBlockUndo_def ReadTxIndex_def DBWrapper_Read_plain

definition same_index :: "(bytes32 \<Rightarrow> bool) \<Rightarrow> (bytes32 \<Rightarrow> bool) \<Rightarrow> BlockData \<Rightarrow> BlockData \<Rightarrow> bool" where
  "same_index blocks txs bd bd' \<longleftrightarrow>
     (\<forall>h. blocks h \<longrightarrow> ReadBlockIndex h bd' = ReadBlockIndex h bd \<and> ReadBlockUndo h bd' = ReadBlockUndo h bd) \<and>
     (\<forall>t. txs t \<longrightarrow> ReadTxIndex t bd' = ReadTxIndex t bd)"

lemma WriteBlockToDisk_index:
  assumes "files_ok bd" and "storable block" and "WriteBlockToDisk io block bd = (r, bd')"
  shows "same_index (\<lambda>_. True) (\<lambda>_. True) bd bd'"
  using WriteBlockToDisk_other(2) [OF assms] by (simp add: same_index_def index_reads tag_defs)

lemma index_entry_wf:
  "wf_Block block \<Longrightarrow> is_bytes32 chainWork \<Longrightarrow> wf_pos pos \<Longrightarrow> wf_entry (index_entry block ht chainWork pos)"
  by (simp add: wf_entry_def index_entry_def Let_def wf_Block_def wf_BlockHeader_def)

lemma WriteBlockConnected_reads:
  assumes ok: "files_ok bd" "storable block" and cw: "is_bytes32 chainWork"
    and u: "wf_BlockUndo undo" "length (BlockUndo_Serialize undo) < 2 ^ 32"
    and d: "WriteBlockToDisk io block bd = (Inr pos, bd1)"
    and w: "WriteBlockConnected io padR padW block ht chainWork undo bd = (r, bd')"
  defines "h \<equiv> BlockHeader_GetHash (mHeader block)"
  shows "ReadBlockIndex h bd' = Some (index_entry block ht chainWork pos)" and "ReadBlockUndo h bd' = Some undo"
    and "tx \<in> set (mTransactions block) \<Longrightarrow> ReadTxIndex (GetHash tx) bd' = Some h"
    and "same_index (\<lambda>x. x \<noteq> h) (\<lambda>t. t \<notin> GetHash ` set (mTransactions block)) bd bd'"
proof -
  note i = WriteBlockConnected_index [OF d w, folded h_def]
  have wf: "wf_Block block" using ok(2) by (simp add: storable_def)
  show "ReadBlockIndex h bd' = Some (index_entry block ht chainWork pos)"
    unfolding ReadBlockIndex_def
    by (rule entry_value.read_img [OF index_entry_wf [OF wf cw WriteBlockToDisk_stored(2) [OF ok d]]]) (simp add: i)
  have "DBWrapper_Read get_vector (hash_key DB_BLOCK_UNDO h) (bdIndex bd') = Some (BlockUndo_Serialize undo)"
    by (rule vector_value.read_img [OF u(2)]) (simp add: i)
  then show "ReadBlockUndo h bd' = Some undo"
    using BlockUndo_Deserialize_Serialize [OF u(1), of "[]"] by (simp add: ReadBlockUndo_def)
  have "length h = 32" using wf by (simp add: h_def wf_Block_def BlockHeader_GetHash_length)
  then show "ReadTxIndex (GetHash tx) bd' = Some h" if "tx \<in> set (mTransactions block)"
    unfolding ReadTxIndex_def by (rule raw_value.read_img) (simp add: i that)
  show "same_index (\<lambda>x. x \<noteq> h) (\<lambda>t. t \<notin> GetHash ` set (mTransactions block)) bd bd'"
    using WriteBlockToDisk_index [OF ok d] by (simp add: same_index_def index_reads i)
qed

text \<open>
  C10. Storing a connected block is all or nothing in the index. Whatever the disk does,
  every block that could be read before can still be read at its position. If the append
  fails, no index entry, undo record or transaction record changes. If it succeeds, the
  position returned reads back the block, and the index holds its entry, its undo data
  and the location of each of its transactions, with every other record as before.
\<close>

theorem WriteBlockConnected_stores:
  assumes "files_ok bd" and "storable block" and "is_bytes32 chainWork"
    and "wf_BlockUndo undo" and "length (BlockUndo_Serialize undo) < 2 ^ 32"
    and "WriteBlockConnected io padR padW block ht chainWork undo bd = (r, bd')"
  shows "(\<forall>p b. ReadBlock p bd = Some b \<longrightarrow> ReadBlock p bd' = Some b) \<and>
    (io = DiskOk \<longleftrightarrow> (\<exists>pos. r = Inr pos)) \<and>
    (case r of
       Inl _ \<Rightarrow> same_index (\<lambda>_. True) (\<lambda>_. True) bd bd'
     | Inr pos \<Rightarrow>
         let h = BlockHeader_GetHash (mHeader block) in
         ReadBlock pos bd' = Some (uncached_block block) \<and>
         ReadBlockIndex h bd' = Some (index_entry block ht chainWork pos) \<and>
         ReadBlockUndo h bd' = Some undo \<and>
         (\<forall>tx \<in> set (mTransactions block). ReadTxIndex (GetHash tx) bd' = Some h) \<and>
         same_index (\<lambda>x. x \<noteq> h) (\<lambda>t. t \<notin> GetHash ` set (mTransactions block)) bd bd')"
proof -
  obtain q bd1 where d: "WriteBlockToDisk io block bd = (q, bd1)" by fastforce
  have io: "io = DiskOk \<longleftrightarrow> (\<exists>pos. q = Inr pos)"
    using d unfolding target_file_spec(5) [OF assms(1,2)] by (auto split: disk_io.splits)
  note ext = WriteBlockToDisk_other(1) [OF assms(1,2) d]
  show ?thesis
  proof (cases q)
    case (Inl x)
    have "r = Inl x" "bd' = bd1" using WriteBlockConnected_failed [OF d [unfolded Inl]] assms(6) by simp_all
    then show ?thesis
      using ReadBlock_extend [OF ext] WriteBlockToDisk_index [OF assms(1,2) d] io Inl by simp
  next
    case (Inr pos)
    note d' = d [unfolded Inr] note i = WriteBlockConnected_index [OF d' assms(6)]
    have same: "ReadBlock p bd' = ReadBlock p bd1" for p by (simp add: ReadBlock_def ReadBlockFromDisk_def i(2))
    show ?thesis
      using ReadBlock_extend [OF ext] WriteBlockToDisk_stored(1) [OF assms(1,2) d'] io Inr i(1)
        WriteBlockConnected_reads [OF assms(1-5) d' assms(6)]
      by (simp add: same Let_def)
  qed
qed

definition empty_store :: BlockData where
  "empty_store = BlockData_open (DBWrapper_open [] False []) ''blocks'' Map.empty"

lemma empty_store_ok: "files_ok empty_store"
  by (simp add: files_ok_def empty_store_def BlockData_open_def ReadLastBlockFile_def DBWrapper_Read_def
      DBWrapper_open_def ldb_Get_def DB_LAST_BLOCK_def OBFUSCATE_KEY_KEY_def OBFUSCATE_KEY_NUM_BYTES_def)

lemma coinbase_block_storable: "storable coinbase_block"
  using coinbase_block_valid(1,2) by (simp add: storable_def Block_IsValid_def split: if_splits)

theorem WriteBlockConnected_stores_witness:
  "\<exists>pos bd'. WriteBlockConnected DiskOk [0, 0, 0] [7, 7, 7] coinbase_block 1 zero32 \<lparr>txUndo = []\<rparr> empty_store = (Inr pos, bd') \<and>
     ReadBlock pos bd' = Some (uncached_block coinbase_block) \<and>
     ReadBlockUndo (BlockHeader_GetHash (mHeader coinbase_block)) bd' = Some \<lparr>txUndo = []\<rparr>"
proof -
  obtain r bd' where w:
    "WriteBlockConnected DiskOk [0, 0, 0] [7, 7, 7] coinbase_block 1 zero32 \<lparr>txUndo = []\<rparr> empty_store = (r, bd')"
    by fastforce
  have "is_bytes32 zero32" "wf_BlockUndo \<lparr>txUndo = []\<rparr>" "length (BlockUndo_Serialize \<lparr>txUndo = []\<rparr>) < 2 ^ 32"
    by (simp_all add: zero32_def wf_BlockUndo_def BlockUndo_Serialize_def)
  from WriteBlockConnected_stores [OF empty_store_ok coinbase_block_storable this w] w
  show ?thesis by (auto simp: Let_def)
qed

text \<open>
  Without the invariant the returned position can be wrong: rolling over to a file that
  already has content, the writer reports position 0 but appends behind that content.
\<close>

lemma WriteBlockToDisk_occupied_next_file:
  assumes "of_nat (length (file_bytes (bdLastBlockFile bd) bd)) + of_nat (length (Block_Serialize block)) + 8 > MAX_BLOCK_FILE_SIZE"
    and "bdFiles bd (bdLastBlockFile bd + 1) = Some old"
    and "WriteBlockToDisk DiskOk block bd = (Inr pos, bd')"
  shows "pos = \<lparr>nFile = bdLastBlockFile bd + 1, nPos = 0\<rparr> \<and> bdFiles bd' (nFile pos) = Some (old @ block_record block)"
  using assms by (auto simp: WriteBlockToDisk_def Let_def append_file_def file_bytes_def)

end
