(* ===== verification/Chain_Index.thy ===== *)
theory Chain_Index
  imports Block_Data Block_Connect Pow "HOL-Library.Stream"
begin

text \<open>
  The state of the chain and everything that only reads it,
  \<open>src/src/storage/chain_state.h\<close> and \<open>chain_state.cpp\<close>: walks over the block index, the
  table of hashes by height, median time past, the expected difficulty, locators and
  lookups. The mutex serialises the operations and has no counterpart. The queue \<open>csDisk\<close>
  holds, for each block append still to come, how the disk answers it and the padding
  bytes of the two keys it builds.
\<close>

section \<open>State\<close>

record ChainTip =
  blockHash :: bytes32
  height :: u32
  timestamp :: u64
  bits :: u32
  chainWork :: bytes32

definition ChainTip_init :: ChainTip where
  "ChainTip_init = \<lparr>blockHash = zero32, height = 0, timestamp = 0, bits = 0, chainWork = zero32\<rparr>"

record ChainState =
  csDB :: DBWrapper
  csBlockData :: BlockData
  csUTXOSet :: UTXOSet
  csBestChain :: ChainTip
  csInitialized :: bool
  csChainByHeight :: "bytes32 list"
  csInvalidBlocks :: "bytes32 set"
  csSyncConnected :: "Transaction list"
  csSyncDisconnected :: "Transaction list"
  csSyncDisconnectedBytes :: nat
  csDisk :: "(disk_io \<times> byte list \<times> byte list) stream"

definition MEDIAN_TIME_SPAN :: nat where
  "MEDIAN_TIME_SPAN = 11"

definition MAX_DISCONNECTED_TX_BYTES :: nat where
  "MAX_DISCONNECTED_TX_BYTES = 20 * 1000 * 1000"

definition DB_CHAIN_BEST :: byte where "DB_CHAIN_BEST = 0x42"
definition DB_CHAIN_GENESIS :: byte where "DB_CHAIN_GENESIS = 0x47"

abbreviation tip_hash :: "ChainState \<Rightarrow> bytes32" where
  "tip_hash cs \<equiv> blockHash (csBestChain cs)"

abbreviation tip_height :: "ChainState \<Rightarrow> u32" where
  "tip_height cs \<equiv> height (csBestChain cs)"

abbreviation index_of :: "ChainState \<Rightarrow> bytes32 \<Rightarrow> BlockIndexEntry option" where
  "index_of cs h \<equiv> ReadBlockIndex h (csBlockData cs)"

section \<open>Walking the block index\<close>

text \<open>
  The walk that several operations share: \<open>n\<close> steps to the parent, each reading the index
  entry of the block it leaves.
\<close>

fun walk_back :: "BlockData \<Rightarrow> nat \<Rightarrow> bytes32 \<Rightarrow> bytes32 option" where
  "walk_back bd 0 cursor = Some cursor"
| "walk_back bd (Suc n) cursor =
     (case ReadBlockIndex cursor bd of None \<Rightarrow> None | Some entry \<Rightarrow> walk_back bd n (hashPrev entry))"

definition GetBlockHashByHeightLocked :: "u32 \<Rightarrow> ChainState \<Rightarrow> bytes32 option" where
  "GetBlockHashByHeightLocked ht cs =
     (if \<not> csInitialized cs then None
      else if ht > tip_height cs then None
      else if ht = tip_height cs then Some (tip_hash cs)
      else if length (csChainByHeight cs) > unat ht \<and>
          length (csChainByHeight cs) = unat (tip_height cs) + 1
        then Some (csChainByHeight cs ! unat ht)
      else walk_back (csBlockData cs) (unat (tip_height cs) - unat ht) (tip_hash cs))"

fun height_walk :: "BlockData \<Rightarrow> nat \<Rightarrow> bytes32 \<Rightarrow> bytes32 list option" where
  "height_walk bd 0 cursor = Some [cursor]"
| "height_walk bd (Suc h) cursor =
     (case ReadBlockIndex cursor bd of
        None \<Rightarrow> None
      | Some entry \<Rightarrow> map_option (Cons cursor) (height_walk bd h (hashPrev entry)))"

definition BuildHeightIndexLocked :: "ChainState \<Rightarrow> ChainState" where
  "BuildHeightIndexLocked cs =
     (if all_zero (tip_hash cs) then cs\<lparr>csChainByHeight := []\<rparr>
      else (case height_walk (csBlockData cs) (unat (tip_height cs)) (tip_hash cs) of
          None \<Rightarrow> cs\<lparr>csChainByHeight := []\<rparr>
        | Some reversed \<Rightarrow> cs\<lparr>csChainByHeight := rev reversed\<rparr>))"

fun active_walk :: "BlockData \<Rightarrow> bytes32 \<Rightarrow> nat \<Rightarrow> bytes32 \<Rightarrow> bool" where
  "active_walk bd target 0 cursor = False"
| "active_walk bd target (Suc h) cursor =
     (if cursor = target then True
      else (case ReadBlockIndex cursor bd of None \<Rightarrow> False | Some e \<Rightarrow> active_walk bd target h (hashPrev e)))"

definition IsOnActiveChainLocked :: "bytes32 \<Rightarrow> ChainState \<Rightarrow> bool" where
  "IsOnActiveChainLocked h cs = active_walk (csBlockData cs) h (unat (tip_height cs)) (tip_hash cs)"

text \<open>\<open>steps\<close> is what is left of \<open>maxSteps\<close>.\<close>

fun ancestor_steps :: "BlockData \<Rightarrow> nat \<Rightarrow> bytes32 \<Rightarrow> bytes32 \<Rightarrow> bytes32 list option" where
  "ancestor_steps bd 0 to cursor = None"
| "ancestor_steps bd (Suc steps) to cursor =
     (case ReadBlockIndex cursor bd of
        None \<Rightarrow> None
      | Some entry \<Rightarrow>
          if hashPrev entry = to then Some [cursor]
          else if nHeight entry = 0 then None
          else map_option (Cons cursor) (ancestor_steps bd steps to (hashPrev entry)))"

definition max_steps :: "ChainState \<Rightarrow> nat" where
  "max_steps cs = unat (tip_height cs) + 2"

definition AncestorPathLocked :: "bytes32 \<Rightarrow> bytes32 \<Rightarrow> ChainState \<Rightarrow> bytes32 list option" where
  "AncestorPathLocked frm to cs =
     (if frm = to then Some [] else ancestor_steps (csBlockData cs) (max_steps cs) to frm)"

text \<open>Lower the first cursor to the height of the second, at most \<open>steps\<close> times.\<close>

fun lower_to :: "BlockData \<Rightarrow> nat \<Rightarrow> u32 \<Rightarrow> bytes32 \<times> BlockIndexEntry \<Rightarrow> (bytes32 \<times> BlockIndexEntry) option" where
  "lower_to bd 0 ht c = Some c"
| "lower_to bd (Suc steps) ht (cursor, e) =
     (if nHeight e > ht then
        (case ReadBlockIndex (hashPrev e) bd of None \<Rightarrow> None | Some e' \<Rightarrow> lower_to bd steps ht (hashPrev e, e'))
      else Some (cursor, e))"

fun meet :: "BlockData \<Rightarrow> nat \<Rightarrow> bytes32 \<times> BlockIndexEntry \<Rightarrow> bytes32 \<times> BlockIndexEntry \<Rightarrow> bytes32 option" where
  "meet bd 0 a b = None"
| "meet bd (Suc steps) (ca, ea) (cb, eb) =
     (if ca = cb then Some ca
      else if nHeight ea = 0 \<or> nHeight eb = 0 then None
      else (case ReadBlockIndex (hashPrev ea) bd of
          None \<Rightarrow> None
        | Some ea' \<Rightarrow> (case ReadBlockIndex (hashPrev eb) bd of
              None \<Rightarrow> None
            | Some eb' \<Rightarrow> meet bd steps (hashPrev ea, ea') (hashPrev eb, eb'))))"

definition LastCommonAncestorLocked :: "bytes32 \<Rightarrow> bytes32 \<Rightarrow> ChainState \<Rightarrow> bytes32 option" where
  "LastCommonAncestorLocked a b cs =
     (let bd = csBlockData cs; n = max_steps cs in
      Option.bind (ReadBlockIndex a bd) (\<lambda>ea.
      Option.bind (ReadBlockIndex b bd) (\<lambda>eb.
      Option.bind (lower_to bd n (nHeight eb) (a, ea)) (\<lambda>(ca, ea).
      Option.bind (lower_to bd n (nHeight ea) (b, eb)) (\<lambda>(cb, eb).
      meet bd n (ca, ea) (cb, eb))))))"

fun mtp_times :: "BlockData \<Rightarrow> nat \<Rightarrow> bytes32 \<Rightarrow> u64 list" where
  "mtp_times bd 0 cursor = []"
| "mtp_times bd (Suc n) cursor =
     (case ReadBlockIndex cursor bd of
        None \<Rightarrow> []
      | Some entry \<Rightarrow> nTime entry # (if all_zero (hashPrev entry) then [] else mtp_times bd n (hashPrev entry)))"

definition GetMedianTimePastLocked :: "bytes32 \<Rightarrow> ChainState \<Rightarrow> u64" where
  "GetMedianTimePastLocked h cs =
     (let times = mtp_times (csBlockData cs) MEDIAN_TIME_SPAN h
      in if times = [] then GENESIS_TIMESTAMP else sort times ! (length times div 2))"

section \<open>Difficulty and checkpoints\<close>

fun checkpoint_height :: "BlockData \<Rightarrow> (u64 \<times> string) list \<Rightarrow> u32 option" where
  "checkpoint_height bd [] = None"
| "checkpoint_height bd ((_, hex) # older) =
     (case ReadBlockIndex (HexToBytes32 hex) bd of Some entry \<Rightarrow> Some (nHeight entry) | None \<Rightarrow> checkpoint_height bd older)"

definition LastCheckpointHeight :: "BlockData \<Rightarrow> u32 option" where
  "LastCheckpointHeight bd = checkpoint_height bd (rev MAINNET_CHECKPOINTS)"

definition GetExpectedBitsLocked :: "u32 \<Rightarrow> ChainState \<Rightarrow> u32 result" where
  "GetExpectedBitsLocked ht cs =
     (let best = csBestChain cs; entry_at = (\<lambda>n. Option.bind (GetBlockHashByHeightLocked n cs) (index_of cs)) in
      if height best = 0 \<or> bits best = 0 then Inr POW_LIMIT_COMPACT
      else if IsAsertHeight (ucast ht) then
        if height best + 1 \<noteq> ht \<or> height best < ASERT_ANCHOR_HEIGHT then Inr (bits best)
        else (case entry_at ASERT_ANCHOR_HEIGHT of
            None \<Rightarrow> Inr (bits best)
          | Some anchor \<Rightarrow> (case entry_at (ASERT_ANCHOR_HEIGHT - 1) of
                None \<Rightarrow> Inr (bits best)
              | Some anchorParent \<Rightarrow>
                  Inr (CalculateASERTBits (nBits anchor) (nTime anchorParent) (timestamp best) (ucast (height best)))))
      else if \<not> IsRetargetHeight (ucast ht) then Inr (bits best)
      else if height best + 1 < DIFFICULTY_ADJUSTMENT_INTERVAL then Inr (bits best)
      else (case entry_at (height best - (DIFFICULTY_ADJUSTMENT_INTERVAL - 1)) of
          None \<Rightarrow> Inr (bits best)
        | Some firstEntry \<Rightarrow> CalculateNextWorkRequired (bits best) (timestamp best) (nTime firstEntry)))"

section \<open>Queries\<close>

definition GetNextBits :: "ChainState \<Rightarrow> u32 result" where
  "GetNextBits cs = GetExpectedBitsLocked (tip_height cs + 1) cs"

definition GetMedianTimePast :: "ChainState \<Rightarrow> u64" where
  "GetMedianTimePast cs =
     (if \<not> csInitialized cs \<or> tip_height cs = 0 then 0 else GetMedianTimePastLocked (tip_hash cs) cs)"

definition GetBlock :: "bytes32 \<Rightarrow> ChainState \<Rightarrow> Block option" where
  "GetBlock h cs = Option.bind (index_of cs h) (\<lambda>entry. ReadBlock (blockPos entry) (csBlockData cs))"

definition GetTransaction :: "bytes32 \<Rightarrow> ChainState \<Rightarrow> (Transaction \<times> bytes32 \<times> u32) option" where
  "GetTransaction txid cs =
     Option.bind (ReadTxIndex txid (csBlockData cs)) (\<lambda>h.
     Option.bind (index_of cs h) (\<lambda>entry.
     Option.bind (ReadBlock (blockPos entry) (csBlockData cs)) (\<lambda>block.
     map_option (\<lambda>tx. (tx, h, nHeight entry)) (find (\<lambda>tx. GetHash tx = txid) (mTransactions block)))))"

definition IsGenesisBlock :: "bytes32 \<Rightarrow> ChainState \<Rightarrow> bool" where
  "IsGenesisBlock h cs =
     (case DBWrapper_Read (get_raw 32) [DB_CHAIN_GENESIS] (csDB cs) of None \<Rightarrow> False | Some storedGenesis \<Rightarrow> storedGenesis = h)"

text \<open>
  The locator loop, with the height as the signed 64-bit and the step as the unsigned
  32-bit variable they are; the result \<open>None\<close> would be a loop that does not end.
\<close>

partial_function (option) locator_loop ::
  "(u32 \<Rightarrow> bytes32 option) \<Rightarrow> u32 \<Rightarrow> int \<Rightarrow> bytes32 list \<Rightarrow> bytes32 list option" where
  "locator_loop hashAt step ht locator =
     (if ht < 0 then Some locator
      else (case hashAt (of_int ht) of
          None \<Rightarrow> Some locator
        | Some h \<Rightarrow>
            let locator = locator @ [h] in
            if ht = 0 then Some locator
            else let step = (if length locator > 10 then step * 2 else step);
                     ht = ht - uint step
                 in locator_loop hashAt step (if ht < 0 then 0 else ht) locator))"

definition GetBlockLocator :: "ChainState \<Rightarrow> bytes32 list option" where
  "GetBlockLocator cs =
     (if \<not> csInitialized cs then Some []
      else locator_loop (\<lambda>ht. GetBlockHashByHeightLocked ht cs) 1 (uint (tip_height cs)) [])"

fun fork_scan :: "ChainState \<Rightarrow> bytes32 list \<Rightarrow> u32 option" where
  "fork_scan cs [] = None"
| "fork_scan cs (h # locator) =
     (case index_of cs h of
        None \<Rightarrow> fork_scan cs locator
      | Some entry \<Rightarrow> (case GetBlockHashByHeightLocked (nHeight entry) cs of
            None \<Rightarrow> fork_scan cs locator
          | Some onChain \<Rightarrow> if onChain \<noteq> h then fork_scan cs locator else Some (nHeight entry)))"

definition FindForkPoint :: "bytes32 list \<Rightarrow> ChainState \<Rightarrow> u32 option" where
  "FindForkPoint locator cs = (if \<not> csInitialized cs then None else fork_scan cs locator)"

fun tail_walk :: "BlockData \<Rightarrow> nat \<Rightarrow> bytes32 \<Rightarrow> (bytes32 list \<times> bytes32) option" where
  "tail_walk bd 0 cursor = Some ([], cursor)"
| "tail_walk bd (Suc n) cursor =
     (case ReadBlockIndex cursor bd of
        None \<Rightarrow> None
      | Some entry \<Rightarrow> map_option (\<lambda>(reversed, c). (cursor # reversed, c)) (tail_walk bd n (hashPrev entry)))"

text \<open>
  The counter \<open>h\<close> of the table loop is a \<open>uint32_t\<close> compared with the tip height, so the
  model assumes what holds of every chain, that the tip is below the largest height.
\<close>

definition GetBlockHashesAfter :: "bytes32 \<Rightarrow> nat \<Rightarrow> ChainState \<Rightarrow> bytes32 list" where
  "GetBlockHashesAfter after maxn cs =
     (if \<not> csInitialized cs \<or> maxn = 0 then []
      else if after = tip_hash cs then []
      else (case index_of cs after of
          None \<Rightarrow> []
        | Some entry \<Rightarrow>
            let fromHeight = nHeight entry in
            (case GetBlockHashByHeightLocked fromHeight cs of
               None \<Rightarrow> []
             | Some atSameHeight \<Rightarrow>
                 if atSameHeight \<noteq> after then []
                 else let want = (if tip_height cs > fromHeight then unat (tip_height cs - fromHeight) else 0) in
                   if want = 0 then []
                   else if length (csChainByHeight cs) = unat (tip_height cs) + 1
                     then take maxn (map (\<lambda>h. csChainByHeight cs ! h) [unat fromHeight + 1..<unat (tip_height cs) + 1])
                   else (case tail_walk (csBlockData cs) (unat (tip_height cs) - unat fromHeight) (tip_hash cs) of
                       None \<Rightarrow> []
                     | Some (reversed, cursor) \<Rightarrow> if cursor \<noteq> after then [] else take maxn (rev reversed)))))"

section \<open>The active chain and its table\<close>

text \<open>
  The reference: the hashes from genesis to the tip that the block index describes. The
  table is coherent when it either is out of step, and so unused, or is that list.
\<close>

definition active_chain :: "ChainState \<Rightarrow> bytes32 list option" where
  "active_chain cs = map_option rev (height_walk (csBlockData cs) (unat (tip_height cs)) (tip_hash cs))"

definition table_ok :: "ChainState \<Rightarrow> bool" where
  "table_ok cs \<longleftrightarrow> (length (csChainByHeight cs) = unat (tip_height cs) + 1 \<longrightarrow> active_chain cs = Some (csChainByHeight cs))"

lemma height_walk_steps:
  "height_walk bd n cursor = Some xs \<Longrightarrow>
   length xs = n + 1 \<and> (\<forall>k \<le> n. walk_back bd k cursor = Some (xs ! k) \<and> tail_walk bd k cursor = Some (take k xs, xs ! k))"
proof (induction n arbitrary: cursor xs)
  case (Suc n)
  then obtain e ys where e: "ReadBlockIndex cursor bd = Some e" "height_walk bd n (hashPrev e) = Some ys" "xs = cursor # ys"
    by (auto split: option.splits)
  have "walk_back bd k cursor = Some (xs ! k) \<and> tail_walk bd k cursor = Some (take k xs, xs ! k)" if "k \<le> Suc n" for k
    using that Suc.IH [OF e(2)] e(1,3) by (cases k) auto
  then show ?case using Suc.IH [OF e(2)] e(3) by simp
qed auto

lemma active_chain_length: "active_chain cs = Some chain \<Longrightarrow> length chain = unat (tip_height cs) + 1"
  by (auto simp: active_chain_def dest: height_walk_steps)

lemma active_chain_walk:
  assumes "active_chain cs = Some chain" and "i \<le> unat (tip_height cs)"
  shows "walk_back (csBlockData cs) (unat (tip_height cs) - i) (tip_hash cs) = Some (chain ! i)"
    and "tail_walk (csBlockData cs) (unat (tip_height cs) - i) (tip_hash cs) = Some (rev (drop (i + 1) chain), chain ! i)"
proof -
  let ?n = "unat (tip_height cs)"
  obtain xs where xs: "height_walk (csBlockData cs) ?n (tip_hash cs) = Some xs" "chain = rev xs"
    using assms(1) by (auto simp: active_chain_def)
  note h = height_walk_steps [OF xs(1)]
  have n: "chain ! i = xs ! (?n - i)" using h assms(2) by (simp add: xs(2) rev_nth)
  have "rev (drop (i + 1) chain) = take (?n - i) xs" using h assms(2) by (simp add: xs(2) rev_drop)
  then show "walk_back (csBlockData cs) (?n - i) (tip_hash cs) = Some (chain ! i)"
    "tail_walk (csBlockData cs) (?n - i) (tip_hash cs) = Some (rev (drop (i + 1) chain), chain ! i)"
    using h n by simp_all
qed

lemma active_chain_tip: "active_chain cs = Some chain \<Longrightarrow> chain ! unat (tip_height cs) = tip_hash cs"
  using active_chain_walk(1) [of cs chain "unat (tip_height cs)"] by simp

lemma BuildHeightIndexLocked_ok: "table_ok (BuildHeightIndexLocked cs)"
  by (auto simp: BuildHeightIndexLocked_def table_ok_def active_chain_def split: option.splits)

lemma height_lookup:
  assumes "csInitialized cs" and "active_chain cs = Some chain" and "table_ok cs"
  shows "GetBlockHashByHeightLocked ht cs = (if unat ht < length chain then Some (chain ! unat ht) else None)"
proof -
  have l: "length chain = unat (tip_height cs) + 1" by (rule active_chain_length [OF assms(2)])
  show ?thesis
  proof (cases "ht > tip_height cs")
    case True
    then show ?thesis using l assms(1) by (simp add: GetBlockHashByHeightLocked_def word_less_nat_alt)
  next
    case False
    then have "unat ht \<le> unat (tip_height cs)" by (simp add: word_less_nat_alt)
    then show ?thesis
      using False assms l active_chain_walk(1) [OF assms(2), of "unat ht"] active_chain_tip [OF assms(2)]
      by (auto simp: GetBlockHashByHeightLocked_def table_ok_def)
  qed
qed

text \<open>
  The table of hashes by height is only a cache. In an initialised state whose table was
  built by \<open>BuildHeightIndexLocked\<close> or is out of step, every lookup by height gives the
  hash on the chain the block index describes, and nothing above the tip; and the hashes
  after a block of that chain are exactly the ones that follow it, at most as many as
  asked for, whether they come from the table or from a walk.
\<close>

theorem height_table_transparent:
  assumes "csInitialized cs" and "active_chain cs = Some chain" and "table_ok cs"
  shows "GetBlockHashByHeightLocked ht cs = (if unat ht < length chain then Some (chain ! unat ht) else None) \<and>
    table_ok (BuildHeightIndexLocked cs') \<and>
    (index_of cs h = Some e \<and> unat (nHeight e) < length chain \<and> h = chain ! unat (nHeight e) \<and> distinct chain \<longrightarrow>
     GetBlockHashesAfter h maxn cs = take maxn (drop (unat (nHeight e) + 1) chain))"
proof (intro conjI impI)
  show "GetBlockHashByHeightLocked ht cs = (if unat ht < length chain then Some (chain ! unat ht) else None)"
    by (rule height_lookup [OF assms])
  show "table_ok (BuildHeightIndexLocked cs')" by (rule BuildHeightIndexLocked_ok)
  assume a: "index_of cs h = Some e \<and> unat (nHeight e) < length chain \<and> h = chain ! unat (nHeight e) \<and> distinct chain"
  let ?i = "unat (nHeight e)" and ?n = "unat (tip_height cs)"
  have l: "length chain = ?n + 1" by (rule active_chain_length [OF assms(2)])
  then have i: "?i \<le> ?n" using a by simp
  have at: "GetBlockHashByHeightLocked (nHeight e) cs = Some h" using a by (simp add: height_lookup [OF assms])
  show "GetBlockHashesAfter h maxn cs = take maxn (drop (?i + 1) chain)"
  proof (cases "?i = ?n")
    case True
    then show ?thesis using a l active_chain_tip [OF assms(2)] by (simp add: GetBlockHashesAfter_def)
  next
    case False
    then have lt: "?i < ?n" using i by simp
    then have "h \<noteq> tip_hash cs" using a l active_chain_tip [OF assms(2)] by (metis False nth_eq_iff_index_eq lessI Suc_eq_plus1)
    moreover have "tip_height cs > nHeight e" using lt by (simp add: word_less_nat_alt)
    moreover from this have "unat (tip_height cs - nHeight e) = ?n - ?i" by (simp add: unat_sub word_le_nat_alt word_less_nat_alt)
    moreover have "map (\<lambda>k. chain ! k) [?i + 1..<?n + 1] = drop (?i + 1) chain" 
      by (metis l drop_map drop_upt map_nth add_0)
    ultimately show ?thesis
      using a at assms lt active_chain_walk(2) [OF assms(2) i]
      by (auto simp: GetBlockHashesAfter_def Let_def table_ok_def)
  qed
qed

section \<open>The locator\<close>

text \<open>
  The step doubles once eleven hashes are collected. It cannot wrap: what is left of the
  height and twice the step stay within 32 bits together.
\<close>

lemma locator_loop_tail:
  assumes "\<And>n. n \<le> mx \<Longrightarrow> hashAt (of_int (int n)) = Some (chain ! n)" and "n \<le> mx" and "j \<le> 31"
    and "int n + 2 * 2 ^ j \<le> 2 ^ 32" and "10 \<le> length loc"
  shows "\<exists>hs. locator_loop hashAt (2 ^ j) (int n) loc = Some (loc @ map (\<lambda>k. chain ! k) hs) \<and> hs \<noteq> [] \<and> hd hs = n \<and>
    last hs = 0 \<and> sorted_wrt (>) hs \<and> length hs \<le> 33 - j"
  using assms(2-5)
proof (induction n arbitrary: j loc rule: less_induct)
  case (less n)
  show ?case
  proof (cases "n = 0")
    case True
    then show ?thesis using assms(1) [of 0] less.prems(2)
      by (intro exI [of _ "[0]"]) (simp add: locator_loop.simps)
  next
    case False
    have j: "j < 31"
    proof (rule ccontr)
      assume "\<not> j < 31"
      then have "j = 31" using less.prems(2) by simp
      then show False using less.prems(3) False by simp
    qed
    then have p: "(2 :: int) ^ (j + 1) < 2 ^ 32" by (intro power_strict_increasing) auto
    have w: "(2 ^ j :: u32) * 2 = 2 ^ (j + 1)" by simp
    have "uint (of_int (2 ^ (j + 1)) :: u32) = 2 ^ (j + 1)"
      using p by (simp only: uint_word_of_int_eq) (simp add: take_bit_int_eq_self)
    then have u: "uint (2 ^ (j + 1) :: u32) = 2 ^ (j + 1)" by (simp only: of_int_power of_int_numeral)
    define n' where "n' = n - 2 ^ (j + 1)"
    have n': "n' < n" "int n' = (if int n - 2 ^ (j + 1) < 0 then 0 else int n - 2 ^ (j + 1))"
      using False diff_less [of "2 ^ (j + 1)" n] of_nat_power [of 2 "j + 1", where 'a = int]
      by (auto simp: n'_def simp del: power_Suc)
    have "int n' + 2 * 2 ^ (j + 1) \<le> 2 ^ 32"
      using less.prems(3) n'(2) j power_increasing [of "j + 2" 32 "2 :: int"] by (auto split: if_splits)
    then obtain hs where hs: "locator_loop hashAt (2 ^ (j + 1)) (int n') (loc @ [chain ! n]) =
        Some ((loc @ [chain ! n]) @ map (\<lambda>k. chain ! k) hs)" "hs \<noteq> []" "hd hs = n'" "last hs = 0" "sorted_wrt (>) hs"
      "length hs \<le> 33 - (j + 1)"
      using less.IH [OF n'(1), of "j + 1" "loc @ [chain ! n]"] less.prems(1,4) n'(1) j by auto
    have "locator_loop hashAt (2 ^ j) (int n) loc = locator_loop hashAt (2 ^ (j + 1)) (int n') (loc @ [chain ! n])"
      using False assms(1) [OF less.prems(1)] less.prems(4) w u n'(2)
      by (subst locator_loop.simps) (simp add: Let_def del: power_Suc)
    moreover have "\<forall>k \<in> set hs. k < n" using hs(2,3,5) n'(1) by (cases hs) auto
    ultimately show ?thesis using hs j by (intro exI [of _ "n # hs"]) auto
  qed
qed

lemma locator_loop_head:
  assumes "\<And>n. n \<le> mx \<Longrightarrow> hashAt (of_int (int n)) = Some (chain ! n)" and "n \<le> mx" and "length loc < 10"
    and "int n < 2 ^ 32"
  shows "\<exists>hs. locator_loop hashAt 1 (int n) loc = Some (loc @ map (\<lambda>k. chain ! k) hs) \<and> hs \<noteq> [] \<and> hd hs = n \<and>
    last hs = 0 \<and> sorted_wrt (>) hs \<and> length hs \<le> 43 - length loc"
  using assms(2-4)
proof (induction n arbitrary: loc)
  case 0
  then show ?case using assms(1) [of 0] by (intro exI [of _ "[0]"]) (simp add: locator_loop.simps)
next
  case (Suc n)
  let ?loc = "loc @ [chain ! Suc n]"
  have s: "locator_loop hashAt 1 (int (Suc n)) loc = locator_loop hashAt 1 (int n) ?loc"
    using assms(1) [OF Suc.prems(1)] Suc.prems(2) by (subst locator_loop.simps) (simp add: Let_def)
  have "\<exists>hs. locator_loop hashAt 1 (int n) ?loc = Some (?loc @ map (\<lambda>k. chain ! k) hs) \<and> hs \<noteq> [] \<and> hd hs = n \<and>
    last hs = 0 \<and> sorted_wrt (>) hs \<and> length hs \<le> 42 - length loc"
  proof (cases "length ?loc < 10")
    case True
    then show ?thesis using Suc.IH [OF _ True] Suc.prems by auto
  next
    case False
    then have "length loc = 9" using Suc.prems(2) by simp
    then show ?thesis using locator_loop_tail [OF assms(1), of mx n 0 ?loc] Suc.prems by auto
  qed
  then obtain hs where hs: "locator_loop hashAt 1 (int n) ?loc = Some (?loc @ map (\<lambda>k. chain ! k) hs)" "hs \<noteq> []" "hd hs = n"
    "last hs = 0" "sorted_wrt (>) hs" "length hs \<le> 42 - length loc" by blast
  moreover have "\<forall>k \<in> set hs. k < Suc n" using hs(2,3,5) by (cases hs) auto
  ultimately show ?case using s Suc.prems(2) by (intro exI [of _ "Suc n # hs"]) auto
qed

text \<open>
  \<open>GetBlockLocator\<close> always returns. Its 32-bit step doubles without ever wrapping to
  zero, whatever the height; the locator lists hashes of the active chain from the tip
  down to genesis, strictly descending, and has at most 43 entries.
\<close>

theorem GetBlockLocator_terminates:
  assumes "csInitialized cs" and "active_chain cs = Some chain" and "table_ok cs"
  shows "\<exists>hs. GetBlockLocator cs = Some (map (\<lambda>k. chain ! k) hs) \<and> hs \<noteq> [] \<and> hd hs = unat (tip_height cs) \<and>
    last hs = 0 \<and> sorted_wrt (>) hs \<and> length hs \<le> 43"
proof -
  let ?n = "unat (tip_height cs)" and ?at = "\<lambda>ht. GetBlockHashByHeightLocked ht cs"
  have b: "?n < 2 ^ 32" using unsigned_less [of "tip_height cs"] by simp
  have "?at (of_int (int k)) = Some (chain ! k)" if "k \<le> ?n" for k
    using that b active_chain_length [OF assms(2)] by (simp add: height_lookup [OF assms] unat_of_nat32)
  from locator_loop_head [of ?n ?at chain ?n "[]", OF this] b show ?thesis
    using assms(1) uint_lt2p [of "tip_height cs"] by (auto simp: GetBlockLocator_def)
qed

section \<open>A concrete chain\<close>

lemma ReadBlockIndex_WriteBlockIndex:
  "wf_entry e \<Longrightarrow> ReadBlockIndex h (WriteBlockIndex h' e bd) = (if h = h' then Some e else ReadBlockIndex h bd)"
  by (auto simp: ReadBlockIndex_def WriteBlockIndex_def plain_bd_put DBWrapper_Read_plain entry_value.decode_img)

definition sample_entry :: "bytes32 \<Rightarrow> u32 \<Rightarrow> BlockIndexEntry" where
  "sample_entry prev ht = \<lparr>nVersion = 1, hashPrev = prev, hashMerkleRoot = zero32, nTime = 1786724267 + ucast ht, nHeight = ht,
     nBits = 0x1d00ffff, nNonce = 0, nChainWork = zero32, blockPos = \<lparr>nFile = 0, nPos = 0\<rparr>, nTx = 1, hasData = True\<rparr>"

text \<open>Three blocks whose hashes repeat the bytes 1, 2 and 3, the last one the tip.\<close>

definition sample_chain :: ChainState where
  "sample_chain = BuildHeightIndexLocked
     \<lparr>csDB = DBWrapper_open [] False [],
      csBlockData = WriteBlockIndex (replicate 32 3) (sample_entry (replicate 32 2) 2)
        (WriteBlockIndex (replicate 32 2) (sample_entry (replicate 32 1) 1)
        (WriteBlockIndex (replicate 32 1) (sample_entry zero32 0) empty_store)),
      csUTXOSet = UTXOSet_open sample_db,
      csBestChain = \<lparr>blockHash = replicate 32 3, height = 2, timestamp = 1786724269, bits = 0x1d00ffff, chainWork = zero32\<rparr>,
      csInitialized = True, csChainByHeight = [], csInvalidBlocks = {}, csSyncConnected = [], csSyncDisconnected = [],
      csSyncDisconnectedBytes = 0, csDisk = sconst (DiskOk, [0, 0, 0], [0, 0, 0])\<rparr>"

lemma sample_entry_wf: "length prev = 32 \<Longrightarrow> wf_entry (sample_entry prev ht)"
  by (simp add: wf_entry_def sample_entry_def wf_pos_def zero32_def)

lemma sample_chain_ok:
  "csInitialized sample_chain" "active_chain sample_chain = Some [replicate 32 1, replicate 32 2, replicate 32 3]"
  "table_ok sample_chain" "tip_height sample_chain = 2"
  "index_of sample_chain (replicate 32 2) = Some (sample_entry (replicate 32 1) 1)"
proof -
  note r = ReadBlockIndex_WriteBlockIndex [OF sample_entry_wf] and f = replicate_eq_replicate
  show "table_ok sample_chain" unfolding sample_chain_def by (rule BuildHeightIndexLocked_ok)
  show "csInitialized sample_chain" "tip_height sample_chain = 2"
    by (simp_all add: sample_chain_def BuildHeightIndexLocked_def split: option.splits)
  show "index_of sample_chain (replicate 32 2) = Some (sample_entry (replicate 32 1) 1)"
    by (simp add: sample_chain_def BuildHeightIndexLocked_def r f zero32_def split: option.splits)
  let ?bd = "csBlockData sample_chain"
  have bd: "?bd = WriteBlockIndex (replicate 32 3) (sample_entry (replicate 32 2) 2)
      (WriteBlockIndex (replicate 32 2) (sample_entry (replicate 32 1) 1)
      (WriteBlockIndex (replicate 32 1) (sample_entry zero32 0) empty_store))"
    "tip_hash sample_chain = replicate 32 3" "unat (tip_height sample_chain) = Suc (Suc 0)"
    by (simp_all add: sample_chain_def BuildHeightIndexLocked_def split: option.splits)
  have p: "hashPrev (sample_entry prev ht) = prev" for prev ht by (simp add: sample_entry_def)
  have "height_walk ?bd (Suc (Suc 0)) (replicate 32 3) = Some [replicate 32 3, replicate 32 2, replicate 32 1]"
    unfolding bd(1) by (simp add: r f p)
  then show "active_chain sample_chain = Some [replicate 32 1, replicate 32 2, replicate 32 3]"
    unfolding active_chain_def bd(2,3) by simp
qed

theorem height_table_transparent_witness:
  "GetBlockHashByHeightLocked 1 sample_chain = Some (replicate 32 2) \<and>
   GetBlockHashesAfter (replicate 32 2) 5 sample_chain = [replicate 32 3]"
  using height_table_transparent [OF sample_chain_ok(1-3), of 1 sample_chain "replicate 32 2" "sample_entry (replicate 32 1) 1" 5]
    sample_chain_ok(5)
  by (simp add: sample_entry_def replicate_eq_replicate)

theorem GetBlockLocator_terminates_witness:
  "\<exists>hs. GetBlockLocator sample_chain = Some (map (\<lambda>k. [replicate 32 1, replicate 32 2, replicate 32 3] ! k) hs) \<and>
     hd hs = 2 \<and> last hs = 0"
  using GetBlockLocator_terminates [OF sample_chain_ok(1-3)] sample_chain_ok(4) by auto

end
