(* ===== verification/Chain_State.thy ===== *)
theory Chain_State
  imports Chain_Index
begin

text \<open>
  The operations of \<open>src/src/storage/chain_state.cpp\<close> that change the chain: starting up,
  replaying blocks after an interrupted commit, connecting and disconnecting the tip,
  accepting a block and reorganising. Exceptions are \<open>Inl\<close> results; an operation that
  throws or fails returns the state as it was left, partial changes included. The two
  unbounded loops are partial functions, whose value \<open>None\<close> is not returning.
\<close>

section \<open>Stored tip\<close>

text \<open>The memory image of \<open>ChainTip\<close>, 88 bytes with two gaps of padding the reader ignores.\<close>

definition ChainTip_image :: "ChainTip \<Rightarrow> byte list" where
  "ChainTip_image t =
     blockHash t @ WriteLE32 (height t) @ [0, 0, 0, 0] @ WriteLE64 (timestamp t) @ WriteLE32 (bits t) @ chainWork t @ [0, 0, 0, 0]"

definition get_ChainTip :: "DataStream \<Rightarrow> (ChainTip \<times> DataStream) result" where
  "get_ChainTip ds =
     rbind (get_raw 88 ds) (\<lambda>(raw, ds).
     rbind (rd_bytes 32 raw 0) (\<lambda>h.
     rbind (ReadLE32 raw 32) (\<lambda>(ht, _).
     rbind (ReadLE64 raw 40) (\<lambda>(tm, _).
     rbind (ReadLE32 raw 48) (\<lambda>(b, _).
     rbind (rd_bytes 32 raw 52) (\<lambda>w.
       Inr (\<lparr>blockHash = h, height = ht, timestamp = tm, bits = b, chainWork = w\<rparr>, ds)))))))"

definition write_best :: "ChainState \<Rightarrow> ChainState" where
  "write_best cs = cs\<lparr>csDB := DBWrapper_Write [DB_CHAIN_BEST] (ChainTip_image (csBestChain cs)) (csDB cs)\<rparr>"

definition write_genesis :: "bytes32 \<Rightarrow> ChainState \<Rightarrow> ChainState" where
  "write_genesis h cs = cs\<lparr>csDB := DBWrapper_Write [DB_CHAIN_GENESIS] h (csDB cs)\<rparr>"

text \<open>\<open>SetBestBlock\<close> followed by \<open>Flush\<close>, as every change of the tip ends.\<close>

definition commit_utxo :: "ChainState \<Rightarrow> ChainState" where
  "commit_utxo cs = cs\<lparr>csUTXOSet := Flush (SetBestBlock (tip_hash cs) (csUTXOSet cs))\<rparr>"

section \<open>Queues for the memory pool\<close>

definition QueueConnectedLocked :: "Block \<Rightarrow> ChainState \<Rightarrow> ChainState" where
  "QueueConnectedLocked block cs =
     cs\<lparr>csSyncConnected := csSyncConnected cs @ filter (\<lambda>tx. \<not> IsCoinbase tx) (mTransactions block)\<rparr>"

fun evict_loop :: "Transaction list \<Rightarrow> nat \<Rightarrow> Transaction list \<times> nat" where
  "evict_loop [] n = ([], n)"
| "evict_loop (tx # txs) n =
     (if n > MAX_DISCONNECTED_TX_BYTES then evict_loop txs (n - Transaction_GetSerializedSize True tx) else (tx # txs, n))"

definition QueueDisconnectedLocked :: "Block \<Rightarrow> ChainState \<Rightarrow> ChainState" where
  "QueueDisconnectedLocked block cs =
     (let txs = filter (\<lambda>tx. \<not> IsCoinbase tx) (rev (mTransactions block));
          n = csSyncDisconnectedBytes cs + (\<Sum>tx \<leftarrow> txs. Transaction_GetSerializedSize True tx);
          (queue, n) = evict_loop (csSyncDisconnected cs @ txs) n
      in cs\<lparr>csSyncDisconnected := queue, csSyncDisconnectedBytes := n\<rparr>)"

definition TakeMempoolSync :: "ChainState \<Rightarrow> Transaction list \<times> Transaction list \<times> ChainState" where
  "TakeMempoolSync cs =
     (csSyncConnected cs, rev (csSyncDisconnected cs),
      cs\<lparr>csSyncConnected := [], csSyncDisconnected := [], csSyncDisconnectedBytes := 0\<rparr>)"

section \<open>Connecting and disconnecting the tip\<close>

definition set_tip :: "ChainTip \<Rightarrow> ChainState \<Rightarrow> ChainState" where
  "set_tip t cs = cs\<lparr>csBestChain := t\<rparr>"

definition push_height :: "bytes32 \<Rightarrow> u32 \<Rightarrow> ChainState \<Rightarrow> ChainState" where
  "push_height h newHeight cs =
     (if length (csChainByHeight cs) = unat newHeight then cs\<lparr>csChainByHeight := csChainByHeight cs @ [h]\<rparr>
      else cs\<lparr>csChainByHeight := []\<rparr>)"

definition pop_height :: "u32 \<Rightarrow> ChainState \<Rightarrow> ChainState" where
  "pop_height parentHeight cs =
     (if length (csChainByHeight cs) = unat parentHeight + 2 then cs\<lparr>csChainByHeight := butlast (csChainByHeight cs)\<rparr>
      else cs\<lparr>csChainByHeight := []\<rparr>)"

text \<open>The checks of \<open>ConnectBlockLocked\<close> that precede any change.\<close>

definition connect_checks :: "Block \<Rightarrow> ChainState \<Rightarrow> bool result" where
  "connect_checks block cs =
     (let hdr = mHeader block; newHeight = tip_height cs + 1 in
      if mHeight hdr \<noteq> newHeight then Inr False
      else if tip_height cs = 0 \<and> mPrevBlockHash hdr \<noteq> GetGenesisHash then Inr False
      else if tip_height cs \<noteq> 0 \<and> mPrevBlockHash hdr \<noteq> tip_hash cs then Inr False
      else if tip_height cs \<noteq> 0 \<and> mTimestamp hdr \<le> GetMedianTimePastLocked (tip_hash cs) cs then Inr False
      else rbind (GetExpectedBitsLocked newHeight cs) (\<lambda>expectedBits.
        if mBits hdr \<noteq> expectedBits then Inr False
        else Inr (CheckProofOfWork (BlockHeader_GetHash hdr) (mBits hdr))))"

text \<open>What follows once the block is on disk.\<close>

definition connect_finish :: "Block \<Rightarrow> bytes32 \<Rightarrow> ChainState \<Rightarrow> ChainState" where
  "connect_finish block work cs =
     (let hdr = mHeader block; newHeight = tip_height cs + 1; h = BlockHeader_GetHash hdr;
          cs = set_tip \<lparr>blockHash = h, height = newHeight, timestamp = mTimestamp hdr, bits = mBits hdr, chainWork = work\<rparr> cs;
          cs = push_height h newHeight cs;
          cs = commit_utxo (write_best cs);
          cs = (if newHeight = 1 then write_genesis (mPrevBlockHash hdr) cs else cs)
      in QueueConnectedLocked block cs)"

definition ConnectBlockLocked :: "Block \<Rightarrow> ChainState \<Rightarrow> bool result \<times> ChainState" where
  "ConnectBlockLocked block cs =
     (let hdr = mHeader block; newHeight = tip_height cs + 1 in
      case connect_checks block cs of
        Inl e \<Rightarrow> (Inl e, cs)
      | Inr False \<Rightarrow> (Inr False, cs)
      | Inr True \<Rightarrow>
          (case ApplyBlockTwoPhase block newHeight (csUTXOSet cs) of (applied, undo, u) \<Rightarrow>
            let cs = cs\<lparr>csUTXOSet := u\<rparr> in
            (case applied of
               Inl e \<Rightarrow> (Inl e, cs)
             | Inr False \<Rightarrow> (Inr False, cs)
             | Inr True \<Rightarrow>
                 (case AddChainWork (chainWork (csBestChain cs)) (mBits hdr) of
                    Inl e \<Rightarrow> (Inl e, cs)
                  | Inr work \<Rightarrow>
                      (case shd (csDisk cs) of (io, padR, padW) \<Rightarrow>
                        case WriteBlockConnected io padR padW block newHeight work undo (csBlockData cs) of (written, bd) \<Rightarrow>
                          let cs = cs\<lparr>csBlockData := bd, csDisk := stl (csDisk cs)\<rparr> in
                          (case written of
                             Inl e \<Rightarrow> (Inl e, cs)
                           | Inr pos \<Rightarrow> (Inr True, connect_finish block work cs)))))))"

definition ConnectBlock :: "Block \<Rightarrow> ChainState \<Rightarrow> bool result \<times> ChainState" where
  "ConnectBlock block cs = (if \<not> csInitialized cs then (Inr False, cs) else ConnectBlockLocked block cs)"

definition DisconnectTipLocked :: "ChainState \<Rightarrow> bool \<times> ChainState" where
  "DisconnectTipLocked cs =
     (let h = tip_hash cs; bd = csBlockData cs in
      if tip_height cs = 0 then (False, cs)
      else (case ReadBlockIndex h bd of
          None \<Rightarrow> (False, cs)
        | Some entry \<Rightarrow> (case ReadBlock (blockPos entry) bd of
              None \<Rightarrow> (False, cs)
            | Some block \<Rightarrow> (case ReadBlockUndo h bd of
                  None \<Rightarrow> (False, cs)
                | Some undo \<Rightarrow> (case UndoBlockTwoPhase block undo (csUTXOSet cs) of (undone, u) \<Rightarrow>
                      let cs = cs\<lparr>csUTXOSet := u\<rparr> in
                      if \<not> undone then (False, cs)
                      else (case ReadBlockIndex (hashPrev entry) bd of
                          None \<Rightarrow> (False, cs)
                        | Some parent \<Rightarrow>
                            let cs = set_tip \<lparr>blockHash = hashPrev entry, height = nHeight parent, timestamp = nTime parent,
                                  bits = nBits parent, chainWork = nChainWork parent\<rparr> cs;
                                cs = pop_height (nHeight parent) cs;
                                cs = commit_utxo (write_best cs)
                            in (True, QueueDisconnectedLocked block cs)))))))"

definition DisconnectBlock :: "bytes32 \<Rightarrow> ChainState \<Rightarrow> bool \<times> ChainState" where
  "DisconnectBlock h cs =
     (if \<not> csInitialized cs then (False, cs) else if h \<noteq> tip_hash cs then (False, cs) else DisconnectTipLocked cs)"

section \<open>Reorganisation\<close>

datatype fork_search = MissingBlock | ForkAt bytes32 "bytes32 list" | ForkIsGenesis "bytes32 list"

text \<open>The walk from the new tip to the active chain; the branch is collected tip first.\<close>

partial_function (option) branch_walk :: "ChainState \<Rightarrow> bytes32 \<Rightarrow> bytes32 list \<Rightarrow> fork_search option" where
  "branch_walk cs cursor newBranch =
     (case index_of cs cursor of
        None \<Rightarrow> Some MissingBlock
      | Some e \<Rightarrow>
          if IsOnActiveChainLocked cursor cs then Some (ForkAt cursor newBranch)
          else if hashPrev e = GetGenesisHash then Some (ForkIsGenesis (newBranch @ [cursor]))
          else branch_walk cs (hashPrev e) (newBranch @ [cursor]))"

fun reconnect_loop :: "bytes32 list \<Rightarrow> ChainState \<Rightarrow> bool \<times> ChainState" where
  "reconnect_loop [] cs = (True, cs)"
| "reconnect_loop (h # hs) cs =
     (case index_of cs h of
        None \<Rightarrow> (False, cs)
      | Some e \<Rightarrow> (case ReadBlock (blockPos e) (csBlockData cs) of
            None \<Rightarrow> (False, cs)
          | Some blk \<Rightarrow> (case ConnectBlockLocked blk cs of
                (Inr True, cs) \<Rightarrow> reconnect_loop hs cs
              | (_, cs) \<Rightarrow> (False, cs))))"

text \<open>\<open>restoreOld\<close>: \<open>before\<close> is the state the attempt started from, for its tip and queues.\<close>

definition restore_old :: "ChainState \<Rightarrow> bytes32 list \<Rightarrow> ChainState \<Rightarrow> ChainState" where
  "restore_old before disconnected cs =
     (case reconnect_loop (rev disconnected) cs of (back, cs) \<Rightarrow>
        if back \<and> tip_hash cs = tip_hash before
        then cs\<lparr>csSyncConnected := csSyncConnected before, csSyncDisconnected := csSyncDisconnected before,
               csSyncDisconnectedBytes := csSyncDisconnectedBytes before\<rparr>
        else cs)"

definition at_fork :: "bytes32 option \<Rightarrow> ChainState \<Rightarrow> bool" where
  "at_fork fork cs = (case fork of None \<Rightarrow> tip_height cs = 0 | Some h \<Rightarrow> tip_hash cs = h)"

partial_function (option) rewind :: "bytes32 option \<Rightarrow> bytes32 list \<Rightarrow> ChainState \<Rightarrow> (bool \<times> bytes32 list \<times> ChainState) option" where
  "rewind fork disconnected cs =
     (if at_fork fork cs then Some (True, disconnected, cs)
      else if tip_height cs = 0 then Some (False, disconnected, cs)
      else (case DisconnectTipLocked cs of (left, cs') \<Rightarrow>
          if \<not> left then Some (False, disconnected, cs') else rewind fork (disconnected @ [tip_hash cs]) cs'))"

text \<open>
  One block of the new branch: read it, validate it against the UTXO set unless that was
  done, connect it. The flag of a failure tells whether the block itself is to blame.
\<close>

definition connect_branch_block ::
  "(bytes32 \<Rightarrow> bytes64 \<Rightarrow> byte list \<Rightarrow> bool) \<Rightarrow> bool \<Rightarrow> bytes32 \<Rightarrow> ChainState \<Rightarrow> bool option \<times> ChainState" where
  "connect_branch_block verify skipValidation h cs =
     (case index_of cs h of
        None \<Rightarrow> (Some False, cs)
      | Some e \<Rightarrow> (case ReadBlock (blockPos e) (csBlockData cs) of
            None \<Rightarrow> (Some False, cs)
          | Some blk \<Rightarrow>
              (case (if skipValidation then Accepts ()
                     else CheckBlockTransactionsWithUTXO verify blk (csUTXOSet cs) (tip_height cs + 1)) of
                 Throws _ \<Rightarrow> (Some False, cs)
               | Rejects _ \<Rightarrow> (Some True, cs)
               | Accepts _ \<Rightarrow> (case ConnectBlockLocked blk cs of
                     (Inl _, cs) \<Rightarrow> (Some False, cs)
                   | (Inr False, cs) \<Rightarrow> (Some True, cs)
                   | (Inr True, cs) \<Rightarrow> (None, cs)))))"

fun RollbackConnectedLocked :: "bytes32 list \<Rightarrow> ChainState \<Rightarrow> ChainState" where
  "RollbackConnectedLocked [] cs = cs"
| "RollbackConnectedLocked (h # hs) cs =
     (case DisconnectTipLocked cs of (left, cs) \<Rightarrow> if \<not> left then cs else RollbackConnectedLocked hs cs)"

text \<open>
  The branch loop, on the branch from the fork upwards; \<open>connected\<close> is kept newest first,
  the order in which \<open>RollbackConnectedLocked\<close> goes through it.
\<close>

fun connect_branch ::
  "(bytes32 \<Rightarrow> bytes64 \<Rightarrow> byte list \<Rightarrow> bool) \<Rightarrow> bool \<Rightarrow> ChainState \<Rightarrow> bytes32 list \<Rightarrow> bytes32 list \<Rightarrow> bytes32 list \<Rightarrow> ChainState \<Rightarrow>
   bool \<times> ChainState" where
  "connect_branch verify skipValidation before disconnected connected [] cs = (True, cs)"
| "connect_branch verify skipValidation before disconnected connected (h # hs) cs =
     (case connect_branch_block verify skipValidation h cs of
        (None, cs) \<Rightarrow> connect_branch verify skipValidation before disconnected (h # connected) hs cs
      | (Some invalid, cs) \<Rightarrow>
          let cs = (if invalid then cs\<lparr>csInvalidBlocks := csInvalidBlocks cs \<union> set (h # hs)\<rparr> else cs)
          in (False, restore_old before disconnected (RollbackConnectedLocked connected cs)))"

definition ActivateBestChainLocked ::
  "(bytes32 \<Rightarrow> bytes64 \<Rightarrow> byte list \<Rightarrow> bool) \<Rightarrow> bytes32 \<Rightarrow> bool \<Rightarrow> ChainState \<Rightarrow> (bool \<times> ChainState) option" where
  "ActivateBestChainLocked verify newTipHash tipValidated cs =
     Option.bind (branch_walk cs newTipHash []) (\<lambda>found.
     case found of
       MissingBlock \<Rightarrow> Some (False, cs)
     | _ \<Rightarrow>
         let (fork, newBranch) = (case found of ForkAt h br \<Rightarrow> (Some h, br) | ForkIsGenesis br \<Rightarrow> (None, br) | MissingBlock \<Rightarrow> (None, [])) in
         Option.bind (rewind fork [] cs) (\<lambda>(reached, disconnected, cs').
           if \<not> reached then Some (False, restore_old cs disconnected cs')
           else Some (connect_branch verify (tipValidated \<and> disconnected = [] \<and> length newBranch = 1)
                  cs disconnected [] (rev newBranch) cs')))"

section \<open>Accepting a block\<close>

definition coinbase_in_range :: "Block \<Rightarrow> bool" where
  "coinbase_in_range block =
     (case mTransactions block of
        [] \<Rightarrow> False
      | coinbase # _ \<Rightarrow> (case GetValueOut coinbase of Inl _ \<Rightarrow> False | Inr cbOut \<Rightarrow> cbOut \<ge> 0 \<and> CheckMoneyRange (of_int cbOut)))"

definition kept_tx_index :: "Block \<Rightarrow> BlockData \<Rightarrow> (bytes32 \<times> bytes32) list" where
  "kept_tx_index block bd =
     List.map_filter (\<lambda>tx. map_option (Pair (GetHash tx)) (ReadTxIndex (GetHash tx) bd)) (mTransactions block)"

definition mark_invalid :: "bytes32 \<Rightarrow> ChainState \<Rightarrow> ChainState" where
  "mark_invalid h cs = cs\<lparr>csInvalidBlocks := insert h (csInvalidBlocks cs)\<rparr>"

text \<open>Storing the accepted block and choosing the better chain.\<close>

definition accept_store ::
  "(bytes32 \<Rightarrow> bytes64 \<Rightarrow> byte list \<Rightarrow> bool) \<Rightarrow> Block \<Rightarrow> u32 \<Rightarrow> bytes32 \<Rightarrow> ChainState \<Rightarrow> (bool result \<times> ChainState) option" where
  "accept_store verify block blockHeight parentWork cs =
     (let hdr = mHeader block; h = BlockHeader_GetHash hdr; extendsTip = (mPrevBlockHash hdr = tip_hash cs) in
      case AddChainWork parentWork (mBits hdr) of
        Inl e \<Rightarrow> Some (Inl e, cs)
      | Inr blockWork \<Rightarrow>
          let keepTxIndex = (if extendsTip then [] else kept_tx_index block (csBlockData cs)) in
          (case shd (csDisk cs) of (io, padR, padW) \<Rightarrow>
            case WriteBlock io padR padW block blockHeight blockWork (csBlockData cs) of (written, bd) \<Rightarrow>
              let cs = cs\<lparr>csBlockData := bd, csDisk := stl (csDisk cs)\<rparr> in
              (case written of
                 Inl e \<Rightarrow> Some (Inl e, cs)
               | Inr pos \<Rightarrow>
                   let cs = cs\<lparr>csBlockData := fold (\<lambda>(txid, indexed). WriteTxIndex txid indexed) keepTxIndex (csBlockData cs)\<rparr> in
                   if CompareWork blockWork (chainWork (csBestChain cs)) \<le> 0 then Some (Inr True, cs)
                   else map_option (apfst Inr) (ActivateBestChainLocked verify h extendsTip cs))))"

definition AcceptBlock ::
  "(bytes32 \<Rightarrow> bytes64 \<Rightarrow> byte list \<Rightarrow> bool) \<Rightarrow> u64 \<Rightarrow> Block \<Rightarrow> ChainState \<Rightarrow> (bool result \<times> ChainState) option" where
  "AcceptBlock verify now block cs =
     (let hdr = mHeader block; h = BlockHeader_GetHash hdr; prevHash = mPrevBlockHash hdr; bd = csBlockData cs in
      if \<not> csInitialized cs then Some (Inr False, cs)
      else if HasBlock h bd then Some (Inr True, cs)
      else if h \<in> csInvalidBlocks cs then Some (Inr False, cs)
      else (case ReadBlockIndex prevHash bd of
          None \<Rightarrow> Some (Inr False, cs)
        | Some parent \<Rightarrow>
            let blockHeight = nHeight parent + 1 in
            if mHeight hdr \<noteq> blockHeight then Some (Inr False, cs)
            else if \<not> CheckProofOfWork h (mBits hdr) then Some (Inr False, cs)
            else if prevHash \<in> csInvalidBlocks cs then Some (Inr False, mark_invalid h cs)
            else if (case LastCheckpointHeight bd of None \<Rightarrow> False | Some lastCheckpoint \<Rightarrow> blockHeight < lastCheckpoint) then Some (Inr False, cs)
            else (case vbind (CheckBlock now block) (\<lambda>_. CheckBlockReveals block (csUTXOSet cs) blockHeight) of
                Throws e \<Rightarrow> Some (Inl e, cs)
              | Rejects _ \<Rightarrow> Some (Inr False, cs)
              | Accepts _ \<Rightarrow>
                  if \<not> coinbase_in_range block then Some (Inr False, mark_invalid h cs)
                  else (case (if prevHash = tip_hash cs
                              then CheckBlockTransactionsWithUTXO verify block (csUTXOSet cs) blockHeight else Accepts ()) of
                      Throws e \<Rightarrow> Some (Inl e, cs)
                    | Rejects _ \<Rightarrow> Some (Inr False, mark_invalid h cs)
                    | Accepts _ \<Rightarrow> accept_store verify block blockHeight (nChainWork parent) cs))))"

section \<open>Starting up\<close>

definition LoadBestChain :: "ChainState \<Rightarrow> bool \<times> ChainState" where
  "LoadBestChain cs =
     (case DBWrapper_Read get_ChainTip [DB_CHAIN_BEST] (csDB cs) of
        None \<Rightarrow> (False, cs\<lparr>csBestChain := ChainTip_init, csChainByHeight := []\<rparr>)
      | Some t \<Rightarrow> (True, cs\<lparr>csBestChain := t\<rparr>))"

definition VerifyGenesisBlock :: "ChainState \<Rightarrow> bool" where
  "VerifyGenesisBlock cs =
     (if all_zero GetGenesisHash then True
      else (case DBWrapper_Read (get_raw 32) [DB_CHAIN_GENESIS] (csDB cs) of
          None \<Rightarrow> True | Some storedGenesis \<Rightarrow> storedGenesis = GetGenesisHash))"

fun apply_genesis :: "bool \<Rightarrow> Transaction list \<Rightarrow> UTXOSet \<Rightarrow> bool \<times> UTXOSet" where
  "apply_genesis first [] u = (True, u)"
| "apply_genesis first (tx # txs) u =
     (case ApplyTransaction tx 0 (first \<and> IsCoinbase tx) u of (ok, _, u) \<Rightarrow>
        if \<not> ok then (False, u) else apply_genesis False txs u)"

definition InitializeGenesisLocked :: "ChainState \<Rightarrow> bool result \<times> ChainState" where
  "InitializeGenesisLocked cs =
     (if all_zero GetGenesisHash then (Inr True, cs)
      else (case BuildGenesisBlock of
          Inl e \<Rightarrow> (Inl e, cs)
        | Inr genesis \<Rightarrow>
            let hdr = mHeader genesis in
            if BlockHeader_GetHash hdr \<noteq> GetGenesisHash then (Inr False, cs)
            else (case apply_genesis True (mTransactions genesis) (csUTXOSet cs) of (ok, u) \<Rightarrow>
              let cs = cs\<lparr>csUTXOSet := u\<rparr> in
              if \<not> ok then (Inr False, cs)
              else (case AddChainWork zero32 (mBits hdr) of
                  Inl e \<Rightarrow> (Inl e, cs)
                | Inr work \<Rightarrow>
                    (case shd (csDisk cs) of (io, padR, padW) \<Rightarrow>
                      case WriteBlock io padR padW genesis 0 work (csBlockData cs) of (written, bd) \<Rightarrow>
                        let cs = cs\<lparr>csBlockData := bd, csDisk := stl (csDisk cs)\<rparr> in
                        (case written of
                           Inl e \<Rightarrow> (Inl e, cs)
                         | Inr pos \<Rightarrow>
                             let cs = set_tip \<lparr>blockHash = GetGenesisHash, height = 0, timestamp = mTimestamp hdr,
                                   bits = mBits hdr, chainWork = work\<rparr> cs;
                                 cs = cs\<lparr>csChainByHeight := [GetGenesisHash]\<rparr>
                             in (Inr True, commit_utxo (write_genesis GetGenesisHash (write_best cs)))))))))"

fun replay_txs :: "u32 \<Rightarrow> bool \<Rightarrow> Transaction list \<Rightarrow> UTXOSet \<Rightarrow> bool \<times> UTXOSet" where
  "replay_txs ht first [] u = (True, u)"
| "replay_txs ht first (tx # txs) u =
     (case ApplyTransactionForReplay tx ht (first \<and> IsCoinbase tx) u of (ok, u) \<Rightarrow>
        if \<not> ok then (False, u) else replay_txs ht False txs u)"

definition RollforwardBlockLocked :: "bytes32 \<Rightarrow> u32 \<Rightarrow> ChainState \<Rightarrow> bool \<times> ChainState" where
  "RollforwardBlockLocked h ht cs =
     (case index_of cs h of
        None \<Rightarrow> (False, cs)
      | Some entry \<Rightarrow> (case ReadBlock (blockPos entry) (csBlockData cs) of
            None \<Rightarrow> (False, cs)
          | Some block \<Rightarrow>
              if BlockHeader_GetHash (mHeader block) \<noteq> h then (False, cs)
              else (case replay_txs ht True (mTransactions block) (csUTXOSet cs) of (ok, u) \<Rightarrow> (ok, cs\<lparr>csUTXOSet := u\<rparr>))))"

definition RollbackBlockLocked :: "bytes32 \<Rightarrow> u32 \<Rightarrow> ChainState \<Rightarrow> bool \<times> ChainState" where
  "RollbackBlockLocked h ht cs =
     (if ht = 0 then (True, cs)
      else (case index_of cs h of
          None \<Rightarrow> (False, cs)
        | Some entry \<Rightarrow> (case ReadBlock (blockPos entry) (csBlockData cs) of
              None \<Rightarrow> (False, cs)
            | Some block \<Rightarrow> (case ReadBlockUndo h (csBlockData cs) of
                  None \<Rightarrow> (False, cs)
                | Some undo \<Rightarrow>
                    (case UndoBlockTwoPhase block undo (csUTXOSet cs) of (ok, u) \<Rightarrow> (ok, cs\<lparr>csUTXOSet := u\<rparr>))))))"

text \<open>Run a step over a list of blocks, with the height of each index entry.\<close>

fun replay_each :: "(bytes32 \<Rightarrow> u32 \<Rightarrow> ChainState \<Rightarrow> bool \<times> ChainState) \<Rightarrow> bytes32 list \<Rightarrow> ChainState \<Rightarrow> bool \<times> ChainState" where
  "replay_each f [] cs = (True, cs)"
| "replay_each f (h # hs) cs =
     (case index_of cs h of
        None \<Rightarrow> (False, cs)
      | Some entry \<Rightarrow> (case f h (nHeight entry) cs of (ok, cs) \<Rightarrow> if \<not> ok then (False, cs) else replay_each f hs cs))"

fun genesis_walk :: "BlockData \<Rightarrow> nat \<Rightarrow> bytes32 \<Rightarrow> bytes32 list option" where
  "genesis_walk bd 0 cursor = None"
| "genesis_walk bd (Suc steps) cursor =
     (if cursor = GetGenesisHash then Some [cursor]
      else (case ReadBlockIndex cursor bd of
          None \<Rightarrow> None | Some entry \<Rightarrow> map_option (Cons cursor) (genesis_walk bd steps (hashPrev entry))))"

text \<open>The blocks to undo and the blocks to apply, each in the order the loops take them.\<close>

definition replay_paths :: "bytes32 \<Rightarrow> bytes32 \<Rightarrow> ChainState \<Rightarrow> (bytes32 list \<times> bytes32 list) option" where
  "replay_paths source target cs =
     (if all_zero source then map_option (\<lambda>p. ([], rev p)) (genesis_walk (csBlockData cs) (max_steps cs) target)
      else Option.bind (LastCommonAncestorLocked source target cs) (\<lambda>fork.
        Option.bind (AncestorPathLocked source fork cs) (\<lambda>rollback.
        map_option (\<lambda>rollforward. (rollback, rev rollforward)) (AncestorPathLocked target fork cs))))"

definition ReplayBlocksLocked :: "ChainState \<Rightarrow> bool \<times> ChainState" where
  "ReplayBlocksLocked cs =
     (let marker = ReadHeadBlocksLocked (csUTXOSet cs);
          target = tip_hash cs;
          source = (case marker of Some (markedNew, markedOld) \<Rightarrow> markedOld | None \<Rightarrow> uBestBlock (csUTXOSet cs)) in
      if \<not> all_zero source \<and> source = target
      then (True, if marker = None then cs else cs\<lparr>csUTXOSet := Flush (csUTXOSet cs)\<rparr>)
      else (case replay_paths source target cs of
          None \<Rightarrow> (False, cs)
        | Some (rollback, rollforward) \<Rightarrow>
            (case replay_each RollbackBlockLocked rollback cs of
               (False, cs) \<Rightarrow> (False, cs)
             | (True, cs) \<Rightarrow>
                 (case replay_each RollforwardBlockLocked rollforward cs of
                    (False, cs) \<Rightarrow> (False, cs)
                  | (True, cs) \<Rightarrow>
                      let cs = cs\<lparr>csUTXOSet := Flush (SetBestBlock target (csUTXOSet cs))\<rparr>
                      in (uBestBlock (csUTXOSet cs) = target, cs)))))"

definition Initialize :: "ChainState \<Rightarrow> bool result \<times> ChainState" where
  "Initialize cs =
     (if \<not> VerifyGenesisBlock cs
      then (Inl (RuntimeError ''Genesis block mismatch - chain data does not belong to this network''), cs)
      else
        let (started, cs) = (case LoadBestChain cs of (True, cs) \<Rightarrow> (Inr True, cs) | (False, cs) \<Rightarrow> InitializeGenesisLocked cs) in
        (case started of
           Inl e \<Rightarrow> (Inl e, cs)
         | Inr False \<Rightarrow> (Inl (RuntimeError
             ''Failed to initialize genesis block - chainparams do not reproduce the genesis hash?''), cs)
         | Inr True \<Rightarrow>
             let (ok, cs) =
               (if ReadHeadBlocksLocked (csUTXOSet cs) \<noteq> None \<or> uBestBlock (csUTXOSet cs) \<noteq> tip_hash cs
                then ReplayBlocksLocked cs else (True, cs)) in
             if \<not> ok then (Inl (RuntimeError
               ''Chain tip and UTXO set disagree - the recorded block is not an ancestor of the tip''), cs)
             else (Inr True, BuildHeightIndexLocked (cs\<lparr>csInitialized := True\<rparr>))))"

definition ChainState_Flush :: "ChainState \<Rightarrow> ChainState" where
  "ChainState_Flush cs =
     cs\<lparr>csBlockData := BlockData_Flush (csBlockData cs), csUTXOSet := Flush (csUTXOSet cs), csDB := DBWrapper_Sync (csDB cs)\<rparr>"

definition ChainState_Sync :: "ChainState \<Rightarrow> ChainState" where
  "ChainState_Sync cs =
     cs\<lparr>csBlockData := BlockData_Flush (csBlockData cs), csUTXOSet := Sync (csUTXOSet cs), csDB := DBWrapper_Sync (csDB cs)\<rparr>"

end
