(* ===== verification/Chain_Progress.thy ===== *)
theory Chain_Progress
  imports Chain_State
begin

text \<open>
  The two unbounded loops of a reorganisation end: the walk from the new tip to the
  active chain and the rewinding of the tip. What they rely on is that the block index
  is linked, every entry but genesis having its parent one height below, and that
  accepting and storing a block keeps it so.
\<close>

section \<open>A linked index\<close>

definition index_linked :: "BlockData \<Rightarrow> bool" where
  "index_linked bd \<longleftrightarrow> (\<forall>h e. ReadBlockIndex h bd = Some e \<longrightarrow>
     h = GetGenesisHash \<or> (\<exists>p. ReadBlockIndex (hashPrev e) bd = Some p \<and> unat (nHeight e) = unat (nHeight p) + 1))"

definition tip_indexed :: "ChainState \<Rightarrow> bool" where
  "tip_indexed cs \<longleftrightarrow> (\<exists>e. index_of cs (tip_hash cs) = Some e \<and> nHeight e = tip_height cs) \<and>
     (tip_hash cs = GetGenesisHash \<longrightarrow> tip_height cs = 0)"

lemma next_height: "(ht :: u32) \<noteq> 0xFFFFFFFF \<Longrightarrow> unat (ht + 1) = unat ht + 1"
proof -
  assume "ht \<noteq> 0xFFFFFFFF"
  moreover have "ht = - 1" if "1 + ht = 0" using that by (simp add: eq_neg_iff_add_eq_0 add.commute)
  ultimately have "1 + ht \<noteq> 0" by auto
  then show ?thesis using unatSuc [of ht] by (simp add: add.commute)
qed

lemma index_linkedD:
  "index_linked bd \<Longrightarrow> ReadBlockIndex h bd = Some e \<Longrightarrow> h \<noteq> GetGenesisHash \<Longrightarrow>
   \<exists>p. ReadBlockIndex (hashPrev e) bd = Some p \<and> unat (nHeight e) = unat (nHeight p) + 1"
  by (auto simp: index_linked_def)

lemma branch_walk_returns:
  assumes "index_linked (csBlockData cs)" and "index_of cs cursor = Some e" and "cursor \<noteq> GetGenesisHash"
  shows "\<exists>found. branch_walk cs cursor br = Some found \<and> found \<noteq> MissingBlock"
  using assms(2,3)
proof (induction "unat (nHeight e)" arbitrary: cursor e br rule: less_induct)
  case less
  obtain p where p: "index_of cs (hashPrev e) = Some p" "unat (nHeight e) = unat (nHeight p) + 1"
    using index_linkedD [OF assms(1) less.prems] by blast
  show ?case
  proof (cases "IsOnActiveChainLocked cursor cs \<or> hashPrev e = GetGenesisHash")
    case True
    then show ?thesis using less.prems by (subst branch_walk.simps) auto
  next
    case False
    then show ?thesis using less.hyps [OF _ p(1), of "br @ [cursor]"] p(2) less.prems(1)
      by (subst branch_walk.simps) auto
  qed
qed

lemma DisconnectTipLocked_index: "DisconnectTipLocked cs = (ok, cs') \<Longrightarrow> csBlockData cs' = csBlockData cs"
  by (auto simp: DisconnectTipLocked_def Let_def QueueDisconnectedLocked_def commit_utxo_def write_best_def pop_height_def
      set_tip_def split: if_splits option.splits prod.splits)

lemma DisconnectTipLocked_tip:
  assumes "DisconnectTipLocked cs = (True, cs')"
  obtains e p where "index_of cs (tip_hash cs) = Some e" "index_of cs (hashPrev e) = Some p"
    "tip_hash cs' = hashPrev e" "tip_height cs' = nHeight p" "tip_height cs \<noteq> 0"
  using assms
  by (auto simp: DisconnectTipLocked_def Let_def QueueDisconnectedLocked_def commit_utxo_def write_best_def pop_height_def
      set_tip_def split: if_splits option.splits prod.splits)

lemma DisconnectTipLocked_lower:
  assumes "index_linked (csBlockData cs)" and "tip_indexed cs" and "DisconnectTipLocked cs = (True, cs')"
    and "index_of cs GetGenesisHash = Some g" and "nHeight g = 0"
  shows "unat (tip_height cs) = unat (tip_height cs') + 1" and "tip_indexed cs'"
proof -
  obtain e p where e: "index_of cs (tip_hash cs) = Some e" "index_of cs (hashPrev e) = Some p"
    "tip_hash cs' = hashPrev e" "tip_height cs' = nHeight p" "tip_height cs \<noteq> 0"
    using DisconnectTipLocked_tip [OF assms(3)] by blast
  have "tip_hash cs \<noteq> GetGenesisHash" using assms(2) e(5) by (auto simp: tip_indexed_def)
  then show "unat (tip_height cs) = unat (tip_height cs') + 1"
    using index_linkedD [OF assms(1) e(1)] e assms(2) by (auto simp: tip_indexed_def)
  show "tip_indexed cs'"
    using e assms(4,5) DisconnectTipLocked_index [OF assms(3)] by (auto simp: tip_indexed_def)
qed

lemma rewind_returns:
  assumes "index_linked (csBlockData cs)" and "tip_indexed cs" and "index_of cs GetGenesisHash = Some g" and "nHeight g = 0"
  shows "\<exists>r. rewind fork dis cs = Some r"
  using assms
proof (induction "unat (tip_height cs)" arbitrary: cs dis rule: less_induct)
  case less
  obtain ok cs' where d: "DisconnectTipLocked cs = (ok, cs')" by fastforce
  show ?case
  proof (cases "at_fork fork cs \<or> tip_height cs = 0 \<or> \<not> ok")
    case True
    then show ?thesis using d by (subst rewind.simps) auto
  next
    case False
    then have d': "DisconnectTipLocked cs = (True, cs')" using d by simp
    note l = DisconnectTipLocked_lower [OF less.prems(1,2) d' less.prems(3,4)]
    then show ?thesis
      using less.hyps [of cs' "dis @ [tip_hash cs]"] less.prems DisconnectTipLocked_index [OF d'] False d'
      by (subst rewind.simps) auto
  qed
qed

lemma ActivateBestChainLocked_returns:
  assumes "index_linked (csBlockData cs)" and "tip_indexed cs" and "index_of cs GetGenesisHash = Some g" and "nHeight g = 0"
    and "index_of cs h = Some e" and "h \<noteq> GetGenesisHash"
  shows "\<exists>r. ActivateBestChainLocked verify h tv cs = Some r"
proof -
  obtain found where f: "branch_walk cs h [] = Some found" "found \<noteq> MissingBlock"
    using branch_walk_returns [OF assms(1,5,6)] by blast
  obtain r where "rewind (case found of ForkAt h br \<Rightarrow> Some h | _ \<Rightarrow> None) [] cs = Some r"
    using rewind_returns [OF assms(1-4)] by blast
  then show ?thesis using f by (cases found) (auto simp: ActivateBestChainLocked_def split: prod.splits)
qed

section \<open>Storing a block keeps the index linked\<close>

lemma fold_WriteTxIndex_other:
  "plain (bdIndex (fold (\<lambda>(t, b). WriteTxIndex t b) kvs bd)) (hash_key DB_BLOCK_INDEX h) =
   plain (bdIndex bd) (hash_key DB_BLOCK_INDEX h)"
  by (induction kvs arbitrary: bd) (auto simp: WriteTxIndex_def plain_bd_put tag_defs)

lemma fold_WriteTxIndex_block:
  "plain (bdIndex (fold (\<lambda>tx. WriteTxIndex (GetHash tx) b) txs bd)) (hash_key DB_BLOCK_INDEX h) =
   plain (bdIndex bd) (hash_key DB_BLOCK_INDEX h)"
  by (induction txs arbitrary: bd) (auto simp: WriteTxIndex_def plain_bd_put tag_defs)

lemma index_tag: "DB_BLOCK_INDEX \<noteq> DB_BLOCK_FILES" "DB_BLOCK_INDEX \<noteq> DB_LAST_BLOCK"
  by (simp_all add: tag_defs)

lemma WriteBlock_index:
  assumes "files_ok bd" and "storable block" and "is_bytes32 work"
    and "WriteBlock io padR padW block ht work bd = (Inr pos, bd')"
  shows "ReadBlockIndex h bd' = (if h = BlockHeader_GetHash (mHeader block) then Some (index_entry block ht work pos)
    else ReadBlockIndex h bd)"
proof -
  obtain bd1 where d: "WriteBlockToDisk io block bd = (Inr pos, bd1)"
    using assms(4) by (auto simp: WriteBlock_def Let_def split: prod.splits sum.splits)
  have wf: "wf_entry (index_entry block ht work pos)"
    using index_entry_wf [OF _ assms(3) WriteBlockToDisk_stored(2) [OF assms(1,2) d]] assms(2) by (simp add: storable_def)
  have "plain (bdIndex bd') (hash_key DB_BLOCK_INDEX h) =
      (if h = BlockHeader_GetHash (mHeader block) then Some (BlockIndexEntry_image (index_entry block ht work pos))
       else plain (bdIndex bd) (hash_key DB_BLOCK_INDEX h))"
    using assms(4) d WriteBlockToDisk_other(2) [OF assms(1,2) d, of "hash_key DB_BLOCK_INDEX h"] index_tag
    by (auto simp: WriteBlock_def Let_def WriteBlockFileInfo_def WriteBlockIndex_def plain_bd_put fold_WriteTxIndex_block)
  then show ?thesis by (simp add: ReadBlockIndex_def DBWrapper_Read_plain entry_value.decode_img [OF wf])
qed

lemma index_linked_insert:
  assumes "index_linked bd" and "ReadBlockIndex h bd = None" and "ReadBlockIndex (hashPrev e) bd = Some p"
    and "unat (nHeight e) = unat (nHeight p) + 1"
    and "\<And>x. ReadBlockIndex x bd' = (if x = h then Some e else ReadBlockIndex x bd)"
  shows "index_linked bd'"
  unfolding index_linked_def
proof (intro allI impI)
  fix x ex assume x: "ReadBlockIndex x bd' = Some ex"
  show "x = GetGenesisHash \<or> (\<exists>p. ReadBlockIndex (hashPrev ex) bd' = Some p \<and> unat (nHeight ex) = unat (nHeight p) + 1)"
  proof (cases "x = h")
    case True
    then show ?thesis using x assms by (auto simp: assms(5))
  next
    case False
    then have "ReadBlockIndex x bd = Some ex" using x by (simp add: assms(5))
    then show ?thesis using index_linkedD [OF assms(1)] assms(2) by (fastforce simp: assms(5))
  qed
qed

lemma AddChainWork_length: "AddChainWork w b = Inr work \<Longrightarrow> is_bytes32 work"
  by (auto simp: AddChainWork_def rbind_eq_Inr_iff)

lemma accept_store_returns:
  assumes lk: "index_linked (csBlockData cs)" and tip: "tip_indexed cs"
    and g: "index_of cs GetGenesisHash = Some g" "nHeight g = 0"
    and f: "files_ok (csBlockData cs)" and st: "storable block"
    and p: "index_of cs (mPrevBlockHash (mHeader block)) = Some p" "unat ht = unat (nHeight p) + 1"
    and new: "index_of cs (BlockHeader_GetHash (mHeader block)) = None"
  shows "\<exists>r. accept_store verify block ht work cs = Some r"
proof (cases "AddChainWork work (mBits (mHeader block))")
  case (Inr bw)
  let ?h = "BlockHeader_GetHash (mHeader block)" and ?bd = "csBlockData cs"
  obtain io padR padW where io: "shd (csDisk cs) = (io, padR, padW)" by (cases "shd (csDisk cs)")
  obtain w bd where w: "WriteBlock io padR padW block ht bw ?bd = (w, bd)" by fastforce
  show ?thesis
  proof (cases w)
    case Inr': (Inr pos)
    define bd' where "bd' = fold (\<lambda>(t, b). WriteTxIndex t b)
      (if mPrevBlockHash (mHeader block) = tip_hash cs then [] else kept_tx_index block ?bd) bd"
    let ?e = "index_entry block ht bw pos" and ?cs = "cs\<lparr>csDisk := stl (csDisk cs), csBlockData := bd'\<rparr>"
    have idx: "ReadBlockIndex x bd' = (if x = ?h then Some ?e else ReadBlockIndex x ?bd)" for x
      using WriteBlock_index [OF f st AddChainWork_length [OF Inr] w [unfolded Inr'], of x]
      by (simp add: bd'_def ReadBlockIndex_def DBWrapper_Read_plain fold_WriteTxIndex_other)
    have e: "hashPrev ?e = mPrevBlockHash (mHeader block)" "nHeight ?e = ht" by (simp_all add: index_entry_def Let_def)
    have "index_linked bd'" using index_linked_insert [OF lk new _ _ idx, of p] p e by simp
    moreover have ne: "?h \<noteq> GetGenesisHash" "?h \<noteq> tip_hash cs" using new g tip by (auto simp: tip_indexed_def)
    moreover have "tip_indexed ?cs" using tip ne(2) by (auto simp: tip_indexed_def idx)
    ultimately have "\<exists>r. ActivateBestChainLocked verify ?h tv ?cs = Some r" for tv
      using ActivateBestChainLocked_returns [of ?cs g ?h ?e verify tv] g by (simp add: idx)
    then obtain r where r: "\<And>tv. ActivateBestChainLocked verify ?h tv ?cs = Some (r tv)" by metis
    show ?thesis
    proof (cases "mPrevBlockHash (mHeader block) = tip_hash cs")
      case True
      then show ?thesis using Inr Inr' io w r [of True] by (simp add: accept_store_def Let_def bd'_def)
    next
      case False
      then show ?thesis using Inr Inr' io w r [of False] by (simp add: accept_store_def Let_def bd'_def)
    qed
  qed (use Inr io w in \<open>simp add: accept_store_def Let_def\<close>)
qed (simp add: accept_store_def Let_def)

text \<open>
  C3. Accepting a block always returns. On a linked block index that holds genesis and the
  tip, and with a well-formed block, \<open>AcceptBlock\<close> ends with an answer or an exception whatever
  the disk does and whatever the branch looks like: neither the search for the fork nor
  the rewinding of the active chain can run forever.
\<close>

theorem AcceptBlock_returns:
  assumes "index_linked (csBlockData cs)" and "tip_indexed cs"
    and "index_of cs GetGenesisHash = Some g" and "nHeight g = 0" and "files_ok (csBlockData cs)" and "wf_Block block"
    and "\<And>h e. index_of cs h = Some e \<Longrightarrow> nHeight e \<noteq> 0xFFFFFFFF"
  shows "\<exists>r cs'. AcceptBlock verify now block cs = Some (r, cs')"
proof -
  have "\<exists>r. AcceptBlock verify now block cs = Some r"
  proof (cases "index_of cs (mPrevBlockHash (mHeader block))")
    case (Some p)
    have h: "unat (nHeight p + 1) = unat (nHeight p) + 1" by (rule next_height [OF assms(7) [OF Some]])
    have "\<exists>r. accept_store verify block (nHeight p + 1) (nChainWork p) cs = Some r"
      if "\<not> HasBlock (BlockHeader_GetHash (mHeader block)) (csBlockData cs)" "CheckBlock now block = Accepts ()"
      using accept_store_returns [OF assms(1-5) _ Some h] that assms(6)
      by (simp add: storable_def CheckBlock_Accepts HasBlock_def)
    then show ?thesis
      using Some by (auto simp: AcceptBlock_def Let_def split: verdict.splits option.splits)
  qed (simp add: AcceptBlock_def Let_def)
  then show ?thesis by auto
qed

definition genesis_chain :: ChainState where
  "genesis_chain = sample_chain
     \<lparr>csBlockData := WriteBlockIndex GetGenesisHash (sample_entry zero32 0) empty_store,
      csBestChain := \<lparr>blockHash = GetGenesisHash, height = 0, timestamp = 1786724267, bits = 0x1d00ffff, chainWork = zero32\<rparr>,
      csChainByHeight := [GetGenesisHash]\<rparr>"

definition first_block :: Block where
  "first_block = mined_block 1\<lparr>mHeader := (mHeader (mined_block 1))\<lparr>mPrevBlockHash := GetGenesisHash, mHeight := 1\<rparr>\<rparr>"

lemma empty_store_index: "ReadBlockIndex h empty_store = None"
  by (simp add: ReadBlockIndex_def DBWrapper_Read_def empty_store_def BlockData_open_def DBWrapper_open_def ldb_Get_def
      OBFUSCATE_KEY_KEY_def OBFUSCATE_KEY_NUM_BYTES_def)

lemma genesis_chain_index: "index_of genesis_chain h = (if h = GetGenesisHash then Some (sample_entry zero32 0) else None)"
  by (simp add: genesis_chain_def ReadBlockIndex_WriteBlockIndex [OF sample_entry_wf] empty_store_index zero32_def)

lemma genesis_chain_files: "files_ok (csBlockData genesis_chain)"
  using empty_store_ok by (simp add: genesis_chain_def files_ok_def WriteBlockIndex_def)

lemma first_block_wf: "wf_Block first_block"
  using mined_coinbase(3) [of 1]
  by (simp add: first_block_def mined_block_def wf_Block_def wf_BlockHeader_def BlockHeader_init_def zero32_def
      MAX_TRANSACTIONS_def GetGenesisHash_def)

theorem AcceptBlock_returns_witness:
  "\<exists>r cs'. AcceptBlock (\<lambda>_ _ _. True) GENESIS_TIMESTAMP first_block genesis_chain = Some (r, cs')"
proof (rule AcceptBlock_returns [where g = "sample_entry zero32 0"])
  show "tip_indexed genesis_chain"
    by (simp add: tip_indexed_def genesis_chain_index) (simp add: genesis_chain_def sample_entry_def)
  show "nHeight e \<noteq> 0xFFFFFFFF" if "index_of genesis_chain h = Some e" for h e
    using that by (auto simp: genesis_chain_index sample_entry_def split: if_splits)
qed (simp_all add: index_linked_def genesis_chain_index genesis_chain_files first_block_wf sample_entry_def)

end
