(* ===== verification/Chain_Tip.thy ===== *)
theory Chain_Tip
  imports Chain_Progress
begin

text \<open>
  Connecting and disconnecting the tip, end to end: validation of the linkage, the two
  phases on the UTXO set, the block file, the index, the undo record, the stored tip and
  the height table. Disconnecting works on what it reads back from disk, so the proof
  goes through the storage round trips.
\<close>

section \<open>Blocks read back\<close>

definition hashes_ok :: "Block \<Rightarrow> bool" where
  "hashes_ok block \<longleftrightarrow> (\<forall>tx \<in> set (mTransactions block). hash_ok tx)"

lemma GetHash_uncached: "hash_ok tx \<Longrightarrow> GetHash (uncached tx) = GetHash tx"
  using GetHash_hash_ok [of "uncached tx"] by (simp add: GetHash_hash_ok hash_ok_def uncached_def Transaction_Serialize_def)

lemma uncached_fields [simp]:
  "mInputs (uncached tx) = mInputs tx" "mOutputs (uncached tx) = mOutputs tx" "IsCoinbase (uncached tx) = IsCoinbase tx"
  by (simp_all add: uncached_def IsCoinbase_def)

lemma UndoTransaction_uncached: "hash_ok tx \<Longrightarrow> UndoTransaction (uncached tx) spent u = UndoTransaction tx spent u"
  by (simp add: UndoTransaction_def GetHash_uncached Let_def cong: if_cong)

lemma undo_payments_uncached:
  "\<forall>tx \<in> set (map fst tus). hash_ok tx \<Longrightarrow> undo_payments (map (apfst uncached) tus) u = undo_payments tus u"
proof (induction tus arbitrary: u)
  case (Cons tu tus)
  then show ?case by (cases tu) (simp add: UndoTransaction_uncached split: prod.split bool.split)
qed simp

lemma payments_uncached: "payments (map uncached txs) = map uncached (payments txs)"
  by (cases txs) (simp_all add: payments_def)

lemma UndoBlockTwoPhase_uncached:
  assumes "\<forall>tx \<in> set (mTransactions block). hash_ok tx"
  shows "UndoBlockTwoPhase (uncached_block block) undo u = UndoBlockTwoPhase block undo u"
proof -
  let ?p = "payments (mTransactions block)"
  have "set ?p \<subseteq> set (mTransactions block)" by (cases "mTransactions block") (auto simp: payments_def split: if_splits)
  then have "\<forall>tx \<in> set (map fst (rev (zip ?p (txUndo undo)))). hash_ok tx" using assms by (auto dest: set_zip_leftD)
  from undo_payments_uncached [OF this]
  have "undo_payments (rev (zip (map uncached ?p) (txUndo undo))) u = undo_payments (rev (zip ?p (txUndo undo))) u"
    by (simp add: zip_map1 rev_map apfst_def map_prod_def case_prod_beta)
  note u = this
  show ?thesis
  proof (cases "mTransactions block")
    case Nil
    then show ?thesis by (simp add: UndoBlockTwoPhase_def uncached_block_def)
  next
    case (Cons a list)
    then show ?thesis
      using u assms payments_uncached [of "a # list"]
      by (simp add: UndoBlockTwoPhase_def uncached_block_def UndoTransaction_uncached Let_def
        split: prod.split bool.split)
  qed
qed

section \<open>Undo records fit the store\<close>

lemma log_views_entries:
  "log_views m0 L0 log m L \<Longrightarrow> (tx, s) \<in> set log \<Longrightarrow>
   wf_Transaction tx \<and> (\<forall>c \<in> set s. wf_Coin c) \<and> (\<not> IsCoinbase tx \<longrightarrow> length s = length (mInputs tx))"
proof (induction log arbitrary: m L)
  case (Cons x log)
  obtain tx' s' where x: "x = (tx', s')" by (cases x)
  then obtain m' L' ht where v: "log_views m0 L0 log m' L'" "wf_Transaction tx'" "\<forall>c \<in> set s'. wf_Coin c \<and> \<not> cIsSpent c"
    "ledger_apply tx' ht (IsCoinbase tx') m' L' = Some (s', m, L)" using Cons.prems(1) by auto
  then show ?case using Cons.IH [OF v(1)] Cons.prems(2) ledger_apply_spent [OF v(4)] by (auto simp: x)
qed simp

definition small_undo :: "Coin list \<Rightarrow> bool" where
  "small_undo s \<longleftrightarrow> length s \<le> MAX_INPUTS \<and> (\<forall>c \<in> set s. wf_Coin c)"

lemma undo_length:
  "\<forall>s \<in> set spents. small_undo s \<Longrightarrow>
   length (concat (map TxUndo_Serialize (map (\<lambda>s. \<lparr>spentCoins = s\<rparr>) spents))) \<le> length spents * 46004"
proof (induction spents)
  case (Cons s spents)
  have "length (TxUndo_Serialize \<lparr>spentCoins = s\<rparr>) \<le> 46004"
    using Cons.prems coins_length [of s] by (simp add: TxUndo_Serialize_def small_undo_def MAX_INPUTS_def COIN_BLOB_SIZE_def)
  then show ?case using Cons by simp
qed simp

lemma undo_fits:
  assumes "\<forall>s \<in> set spents. small_undo s" and "length spents \<le> MAX_TRANSACTIONS"
  shows "wf_BlockUndo \<lparr>txUndo = map (\<lambda>s. \<lparr>spentCoins = s\<rparr>) spents\<rparr>"
    and "length (BlockUndo_Serialize \<lparr>txUndo = map (\<lambda>s. \<lparr>spentCoins = s\<rparr>) spents\<rparr>) < 2 ^ 32"
proof -
  show "wf_BlockUndo \<lparr>txUndo = map (\<lambda>s. \<lparr>spentCoins = s\<rparr>) spents\<rparr>"
    using assms by (auto simp: wf_BlockUndo_def wf_TxUndo_def small_undo_def MAX_INPUTS_def MAX_TRANSACTIONS_def)
  show "length (BlockUndo_Serialize \<lparr>txUndo = map (\<lambda>s. \<lparr>spentCoins = s\<rparr>) spents\<rparr>) < 2 ^ 32"
    using undo_length [OF assms(1)] assms(2) by (simp add: BlockUndo_Serialize_def MAX_TRANSACTIONS_def)
qed

section \<open>What a successful connect did\<close>

lemma ConnectBlockLocked_True:
  assumes "ConnectBlockLocked block cs = (Inr True, cs')"
  obtains undo u work io padR padW pos bd where "connect_checks block cs = Inr True"
    "ApplyBlockTwoPhase block (tip_height cs + 1) (csUTXOSet cs) = (Inr True, undo, u)"
    "AddChainWork (chainWork (csBestChain cs)) (mBits (mHeader block)) = Inr work"
    "WriteBlockConnected io padR padW block (tip_height cs + 1) work undo (csBlockData cs) = (Inr pos, bd)"
    "cs' = connect_finish block work (cs\<lparr>csUTXOSet := u, csBlockData := bd, csDisk := stl (csDisk cs)\<rparr>)"
  using assms by (auto simp: ConnectBlockLocked_def Let_def split: sum.splits bool.splits prod.splits)

lemma connect_checks_True:
  "connect_checks block cs = Inr True \<Longrightarrow>
   mHeight (mHeader block) = tip_height cs + 1 \<and>
   mPrevBlockHash (mHeader block) = (if tip_height cs = 0 then GetGenesisHash else tip_hash cs)"
  by (auto simp: connect_checks_def Let_def split: if_splits)

lemma Flush_SetBestBlock: "Flush (SetBestBlock h u) = FlushCache h u"
proof -
  have "ReadHeadBlocksLocked (u\<lparr>uBestBlock := h\<rparr>) = ReadHeadBlocksLocked u" by (simp add: ReadHeadBlocksLocked_def)
  then have "flush_old_tip (u\<lparr>uBestBlock := h\<rparr>) = flush_old_tip u"
    by (simp add: flush_old_tip_def split: option.split)
  then have "flush_batches h (u\<lparr>uBestBlock := h\<rparr>) = flush_batches h u" by (simp add: flush_batches_def)
  then show ?thesis by (simp add: Flush_def SetBestBlock_def FlushCache_def)
qed

lemma connect_finish_fields:
  fixes block work cs
  defines "cs' \<equiv> connect_finish block work cs"
  shows "csBestChain cs' = \<lparr>blockHash = BlockHeader_GetHash (mHeader block), height = tip_height cs + 1,
      timestamp = mTimestamp (mHeader block), bits = mBits (mHeader block), chainWork = work\<rparr>"
    and "csBlockData cs' = csBlockData cs" and "csInitialized cs' = csInitialized cs"
    and "csUTXOSet cs' = FlushCache (BlockHeader_GetHash (mHeader block)) (csUTXOSet cs)"
    and "csChainByHeight cs' = (if length (csChainByHeight cs) = unat (tip_height cs + 1)
      then csChainByHeight cs @ [BlockHeader_GetHash (mHeader block)] else [])"
  by (simp_all add: cs'_def connect_finish_def Let_def QueueConnectedLocked_def write_genesis_def commit_utxo_def write_best_def
      push_height_def set_tip_def Flush_SetBestBlock)

section \<open>The stored tip\<close>

definition wf_tip :: "ChainTip \<Rightarrow> bool" where
  "wf_tip t \<longleftrightarrow> is_bytes32 (blockHash t) \<and> is_bytes32 (chainWork t)"

interpretation tip_value: record_codec ChainTip_image get_ChainTip wf_tip
proof unfold_locales
  fix t :: ChainTip assume "wf_tip t"
  then have p: "length (blockHash t) = 32" "length (chainWork t) = 32" by (simp_all add: wf_tip_def)
  have a0: "at_off (ChainTip_image t) 0 (blockHash t @ WriteLE32 (height t) @ [0, 0, 0, 0] @ WriteLE64 (timestamp t) @
      WriteLE32 (bits t) @ chainWork t @ [0, 0, 0, 0])" by (simp add: at_off_def ChainTip_image_def)
  have pad: "length [0, 0, 0, 0 :: byte] = 4" by simp
  note a1 = at_off_step [OF a0 p(1)] note a2 = at_off_step [OF a1 length_WriteLE32] note a3 = at_off_step [OF a2 pad]
  note a4 = at_off_step [OF a3 length_WriteLE64] note a5 = at_off_step [OF a4 length_WriteLE32]
  show "\<exists>s. get_ChainTip \<lparr>mData = ChainTip_image t, mReadPos = 0\<rparr> = Inr (t, s)"
    using rd_bytes_at [OF a0 p(1)] ReadLE32_at [OF a1] ReadLE64_at [OF a3] ReadLE32_at [OF a4] rd_bytes_at [OF a5 p(2)]
      at_off_length [OF a0] p
    by (simp add: get_ChainTip_def get_raw_def ReadRaw_def)
qed

lemma write_best_read:
  "wf_tip (csBestChain cs) \<Longrightarrow>
   DBWrapper_Read get_ChainTip [DB_CHAIN_BEST] (csDB (write_best cs)) = Some (csBestChain cs)"
  by (rule tip_value.read_img) (simp_all add: write_best_def db_map.view_write)

section \<open>Connecting and disconnecting\<close>

text \<open>
  The tip agrees with its index entry: that is what disconnecting a child restores it from.
\<close>

definition tip_entry :: "ChainTip \<Rightarrow> BlockIndexEntry \<Rightarrow> bool" where
  "tip_entry t e \<longleftrightarrow> nHeight e = height t \<and> nTime e = timestamp t \<and> nBits e = bits t \<and> nChainWork e = chainWork t"

definition node_ok :: "ChainState \<Rightarrow> bool" where
  "node_ok cs \<longleftrightarrow> utxo_inv (csUTXOSet cs) \<and> files_ok (csBlockData cs) \<and> wf_tip (csBestChain cs) \<and>
     (\<exists>e. index_of cs (tip_hash cs) = Some e \<and> tip_entry (csBestChain cs) e) \<and>
     (tip_height cs = 0 \<longrightarrow> tip_hash cs = GetGenesisHash)"

definition connectable :: "Block \<Rightarrow> ChainState \<Rightarrow> bool" where
  "connectable block cs \<longleftrightarrow> storable block \<and> block_shape block \<and> hashes_ok block \<and>
     block_fresh block (coin_view (csUTXOSet cs)) \<and> BlockHeader_GetHash (mHeader block) \<noteq> tip_hash cs"

lemma connect_undo:
  assumes inv: "utxo_inv u" and c: "storable block" "block_shape block" "block_fresh block (coin_view u)"
    and A: "ApplyBlockTwoPhase block ht u = (Inr True, undo, u')"
  obtains cb txs spents where "mTransactions block = cb # txs" "IsCoinbase cb" "length spents = length txs"
    "undo = \<lparr>txUndo = map (\<lambda>s. \<lparr>spentCoins = s\<rparr>) spents\<rparr>" "utxo_run u (rev (zip txs spents) @ [(cb, [])]) u'"
    "wf_BlockUndo undo" "length (BlockUndo_Serialize undo) < 2 ^ 32"
proof -
  obtain cb txs where b: "mTransactions block = cb # txs" "IsCoinbase cb" "\<forall>tx \<in> set txs. payment_shape tx"
    using c(2) by (auto simp: block_shape_def)
  have "apply_outcome u [(cb, [])] [] txs (Inr True, txUndo undo, u')"
    using ApplyBlockTwoPhase_run [OF inv c(2,3) b(1), of ht] A by simp
  then obtain spents where s: "length spents = length txs" "txUndo undo = map (\<lambda>s. \<lparr>spentCoins = s\<rparr>) spents"
    "utxo_run u (rev (zip txs spents) @ [(cb, [])]) u'" by (auto simp: apply_outcome_def)
  have v: "log_views (coin_view u) (leaf_view u) (rev (zip txs spents) @ [(cb, [])]) (coin_view u') (leaf_view u')"
    using utxo_run_views [OF s(3) inv] by simp
  have "small_undo x" if x: "x \<in> set spents" for x
  proof -
    obtain i where i: "i < length spents" "x = spents ! i" using x by (auto simp: in_set_conv_nth)
    define tx where "tx = txs ! i"
    have t: "(tx, x) \<in> set (zip txs spents)" using i s(1) by (auto simp: set_zip tx_def)
    then have "\<not> IsCoinbase tx" using b(3) by (auto simp: payment_shape_def dest: set_zip_leftD)
    then show ?thesis using log_views_entries [OF v, of tx x] t by (auto simp: small_undo_def wf_Transaction_def)
  qed
  moreover have "length spents \<le> MAX_TRANSACTIONS" using c(1) b(1) s(1) by (simp add: storable_def wf_Block_def)
  ultimately show thesis using that [of cb txs spents] b s undo_fits [of spents] by (cases undo) auto
qed

lemma WriteBlockConnected_kept:
  assumes "files_ok bd" "storable block" "is_bytes32 work" "wf_BlockUndo undo" "length (BlockUndo_Serialize undo) < 2 ^ 32"
    and w: "WriteBlockConnected io padR padW block ht work undo bd = (Inr pos, bd')"
  defines "h \<equiv> BlockHeader_GetHash (mHeader block)"
  shows "ReadBlockIndex h bd' = Some (index_entry block ht work pos)" and "ReadBlockUndo h bd' = Some undo"
    and "ReadBlock pos bd' = Some (uncached_block block)" and "x \<noteq> h \<Longrightarrow> ReadBlockIndex x bd' = ReadBlockIndex x bd"
proof -
  obtain q bd1 where d: "WriteBlockToDisk io block bd = (q, bd1)" by fastforce
  have q: "q = Inr pos"
    using w WriteBlockConnected_failed [of io block bd] WriteBlockConnected_index(1) [of io block bd] d by (cases q) auto
  note d' = d [unfolded q]
  note R = WriteBlockConnected_reads [OF assms(1-5) d' w, folded h_def]
  show "ReadBlockIndex h bd' = Some (index_entry block ht work pos)" "ReadBlockUndo h bd' = Some undo" by (fact R(1,2))+
  show "ReadBlock pos bd' = Some (uncached_block block)"
  proof -
    have "ReadBlock pos bd' = ReadBlock pos bd1"
      by (simp add: ReadBlock_def ReadBlockFromDisk_def WriteBlockConnected_index(2) [OF d' w])
    then show ?thesis using WriteBlockToDisk_stored(1) [OF assms(1,2) d'] by simp
  qed
  show "x \<noteq> h \<Longrightarrow> ReadBlockIndex x bd' = ReadBlockIndex x bd" using R(4) by (simp add: same_index_def)
qed

lemma DisconnectTipLocked_True:
  assumes "tip_height cs \<noteq> 0" and "index_of cs (tip_hash cs) = Some e" and "ReadBlock (blockPos e) (csBlockData cs) = Some block"
    and "ReadBlockUndo (tip_hash cs) (csBlockData cs) = Some undo"
    and "UndoBlockTwoPhase block undo (csUTXOSet cs) = (True, u)" and "index_of cs (hashPrev e) = Some p"
  obtains cs' where "DisconnectTipLocked cs = (True, cs')"
    and "csBestChain cs' = \<lparr>blockHash = hashPrev e, height = nHeight p, timestamp = nTime p, bits = nBits p, chainWork = nChainWork p\<rparr>"
    and "csUTXOSet cs' = FlushCache (hashPrev e) u" and "csBlockData cs' = csBlockData cs"
    and "csChainByHeight cs' = (if length (csChainByHeight cs) = unat (nHeight p) + 2 then butlast (csChainByHeight cs) else [])"
    and "wf_tip (csBestChain cs') \<Longrightarrow> DBWrapper_Read get_ChainTip [DB_CHAIN_BEST] (csDB cs') = Some (csBestChain cs')"
proof -
  let ?t = "\<lparr>blockHash = hashPrev e, height = nHeight p, timestamp = nTime p, bits = nBits p, chainWork = nChainWork p\<rparr>"
  define c where "c = pop_height (nHeight p) (set_tip ?t (cs\<lparr>csUTXOSet := u\<rparr>))"
  define cs' where "cs' = QueueDisconnectedLocked block (commit_utxo (write_best c))"
  have c: "csBestChain c = ?t" "csUTXOSet c = u" "csBlockData c = csBlockData cs"
    "csChainByHeight c = (if length (csChainByHeight cs) = unat (nHeight p) + 2 then butlast (csChainByHeight cs) else [])"
    by (simp_all add: c_def pop_height_def set_tip_def)
  have q: "csBestChain cs' = csBestChain c" "csUTXOSet cs' = FlushCache (tip_hash c) (csUTXOSet c)"
    "csBlockData cs' = csBlockData c" "csChainByHeight cs' = csChainByHeight c" "csDB cs' = csDB (write_best c)"
    by (simp_all add: cs'_def QueueDisconnectedLocked_def Let_def commit_utxo_def write_best_def Flush_SetBestBlock case_prod_beta)
  have "DisconnectTipLocked cs = (True, cs')" using assms by (simp add: DisconnectTipLocked_def Let_def cs'_def c_def)
  then show thesis using that [of cs'] c q write_best_read [of c] by simp
qed

text \<open>
  C4. Disconnecting the tip undoes connecting it, through the disk. If \<open>ConnectBlockLocked\<close>
  accepted a block on a consistent node, then \<open>DisconnectTipLocked\<close> succeeds on the result,
  working from the block, index entry and undo record it reads back. The tip, the coins
  and the noise leaves are those before the block, the height table is too when it was in
  step with the tip, and the tip recorded in the database is the restored one.
\<close>

theorem disconnect_undoes_connect:
  assumes ok: "node_ok cs" and b: "connectable block cs" and mx: "tip_height cs \<noteq> 0xFFFFFFFF"
    and c: "ConnectBlockLocked block cs = (Inr True, cs1)"
  shows "\<exists>cs2. DisconnectTipLocked cs1 = (True, cs2) \<and> csBestChain cs2 = csBestChain cs \<and>
    coin_view (csUTXOSet cs2) = coin_view (csUTXOSet cs) \<and> leaf_view (csUTXOSet cs2) = leaf_view (csUTXOSet cs) \<and>
    utxo_inv (csUTXOSet cs2) \<and>
    (length (csChainByHeight cs) = unat (tip_height cs) + 1 \<longrightarrow> csChainByHeight cs2 = csChainByHeight cs) \<and>
    DBWrapper_Read get_ChainTip [DB_CHAIN_BEST] (csDB cs2) = Some (csBestChain cs)"
proof -
  let ?h = "BlockHeader_GetHash (mHeader block)" and ?u = "csUTXOSet cs" and ?n = "tip_height cs + 1"
  obtain p where p: "index_of cs (tip_hash cs) = Some p" "tip_entry (csBestChain cs) p" using ok by (auto simp: node_ok_def)
  have N: "utxo_inv ?u" "files_ok (csBlockData cs)" "wf_tip (csBestChain cs)" using ok by (auto simp: node_ok_def)
  have B: "storable block" "block_shape block" "block_fresh block (coin_view ?u)" "?h \<noteq> tip_hash cs"
    "\<forall>tx \<in> set (mTransactions block). hash_ok tx" using b by (auto simp: connectable_def hashes_ok_def)
  obtain undo u work io padR padW pos bd where C: "connect_checks block cs = Inr True"
    "ApplyBlockTwoPhase block ?n ?u = (Inr True, undo, u)" "AddChainWork (chainWork (csBestChain cs)) (mBits (mHeader block)) = Inr work"
    "WriteBlockConnected io padR padW block ?n work undo (csBlockData cs) = (Inr pos, bd)"
    "cs1 = connect_finish block work (cs\<lparr>csUTXOSet := u, csBlockData := bd, csDisk := stl (csDisk cs)\<rparr>)"
    using ConnectBlockLocked_True [OF c] by blast
  obtain cb txs spents where S: "mTransactions block = cb # txs" "IsCoinbase cb" "length spents = length txs"
    "undo = \<lparr>txUndo = map (\<lambda>s. \<lparr>spentCoins = s\<rparr>) spents\<rparr>" "utxo_run ?u (rev (zip txs spents) @ [(cb, [])]) u"
    "wf_BlockUndo undo" "length (BlockUndo_Serialize undo) < 2 ^ 32" using connect_undo [OF N(1) B(1-3) C(2)] by blast
  note W = WriteBlockConnected_kept [OF N(2) B(1) AddChainWork_length [OF C(3)] S(6,7) C(4)]
  note F = connect_finish_fields [of block work "cs\<lparr>csUTXOSet := u, csBlockData := bd, csDisk := stl (csDisk cs)\<rparr>", folded C(5)]
  have prev: "mPrevBlockHash (mHeader block) = tip_hash cs" using connect_checks_True [OF C(1)] ok by (auto simp: node_ok_def)
  have e: "hashPrev (index_entry block ?n work pos) = tip_hash cs" "blockPos (index_entry block ?n work pos) = pos"
    by (simp_all add: index_entry_def Let_def prev)
  have n: "unat ?n = unat (tip_height cs) + 1" "?n \<noteq> 0" using next_height [OF mx] by auto
  obtain u2 where u2: "UndoBlockTwoPhase block undo (csUTXOSet cs1) = (True, u2)" "utxo_run ?u [] u2"
    using UndoBlockTwoPhase_run [OF utxo_run.flush [OF S(5)] N(1) S(1-3)] F(4) S(4) by auto
  have T: "\<lparr>blockHash = tip_hash cs, height = nHeight p, timestamp = nTime p, bits = nBits p, chainWork = nChainWork p\<rparr> = csBestChain cs"
    using p(2) by (simp add: tip_entry_def)
  have tip: "tip_hash cs1 = ?h" "tip_height cs1 \<noteq> 0" and bd: "csBlockData cs1 = bd" using F(1,2) n(2) by simp_all
  have r: "index_of cs1 (tip_hash cs1) = Some (index_entry block ?n work pos)" "ReadBlockUndo (tip_hash cs1) (csBlockData cs1) = Some undo"
    "ReadBlock (blockPos (index_entry block ?n work pos)) (csBlockData cs1) = Some (uncached_block block)"
    "index_of cs1 (hashPrev (index_entry block ?n work pos)) = Some p"
    using W(1-3) W(4) [of "tip_hash cs"] B(4) p(1) by (simp_all add: tip(1) bd e)
  have u3: "UndoBlockTwoPhase (uncached_block block) undo (csUTXOSet cs1) = (True, u2)"
    using u2(1) by (simp add: UndoBlockTwoPhase_uncached [OF B(5)])
  obtain cs2 where D: "DisconnectTipLocked cs1 = (True, cs2)" "csBestChain cs2 = csBestChain cs"
    "csUTXOSet cs2 = FlushCache (tip_hash cs) u2"
    "csChainByHeight cs2 = (if length (csChainByHeight cs1) = unat (nHeight p) + 2 then butlast (csChainByHeight cs1) else [])"
    "wf_tip (csBestChain cs2) \<Longrightarrow> DBWrapper_Read get_ChainTip [DB_CHAIN_BEST] (csDB cs2) = Some (csBestChain cs2)"
    using DisconnectTipLocked_True [OF tip(2) r(1,3,2) u3 r(4)] unfolding e(1) T by metis
  have "csChainByHeight cs2 = csChainByHeight cs" if "length (csChainByHeight cs) = unat (tip_height cs) + 1"
    using that D(4) F(5) n(1) p(2) by (simp add: tip_entry_def)
  then show ?thesis
    using utxo_run_empty [OF utxo_run.flush [OF u2(2), of "tip_hash cs"] N(1)] D N(3) by auto
qed

text \<open>A coinbase block on genesis, whose header carries a cached hash that meets the target.\<close>

definition tip_block :: Block where
  "tip_block = first_block\<lparr>mTransactions := [uncached sample_coinbase]\<rparr>"

lemma tip_block_fields:
  "mHeight (mHeader tip_block) = 1" "mPrevBlockHash (mHeader tip_block) = GetGenesisHash" "mBits (mHeader tip_block) = 0x1d00ffff"
  "BlockHeader_GetHash (mHeader tip_block) = zero32" "mTransactions tip_block = [uncached sample_coinbase]"
  by (simp_all add: tip_block_def first_block_def mined_block_def BlockHeader_GetHash_def BlockHeader_GetHash_st_def)

lemma genesis_not_zero: "GetGenesisHash \<noteq> zero32"
proof -
  have "GetGenesisHash ! 4 = 160"
    by (simp add: GetGenesisHash_def HexToBytes32_def char_to_nibble_def upt_rec [of _ 32])
  moreover have "zero32 ! 4 = 0" by (simp add: zero32_def)
  ultimately show ?thesis by force
qed

lemma coinbase_uncached: "IsCoinbase (uncached sample_coinbase)" "wf_Transaction (uncached sample_coinbase)"
  using sample_coinbase_valid by (simp_all add: uncached_def wf_Transaction_def zero32_def IsCoinbase_def)

lemma tip_block_connectable: "connectable tip_block genesis_chain"
proof -
  have "Transaction_GetSerializedSize True (uncached sample_coinbase) \<le> 1000"
    by (simp add: Transaction_GetSerializedSize_def sample_coinbase_def uncached_def TxInput_init_def mk_TxOutput_def
        TxInput_GetSerializedSize_def TxOutput_GetSerializedSize_def CompactSizeLen_def
        CreatePayToPubkeyHash_def PushData_def Let_def)
  moreover have "wf_Block tip_block"
    using first_block_wf coinbase_uncached by (simp add: wf_Block_def tip_block_def MAX_TRANSACTIONS_def)
  ultimately have "storable tip_block"
    by (simp add: storable_def Block_GetSerializedSize_def tip_block_fields SERIALIZED_SIZE_def MAX_BLOCK_SIZE_def)
  moreover have "coin_view (csUTXOSet genesis_chain) = Map.empty"
    using fresh_set(2) by (simp add: genesis_chain_def sample_chain_def BuildHeightIndexLocked_def split: option.splits)
  moreover have "tip_hash genesis_chain = GetGenesisHash" by (simp add: genesis_chain_def)
  ultimately show ?thesis
    using coinbase_uncached genesis_not_zero
    by (simp add: connectable_def block_shape_def hashes_ok_def block_fresh_def fresh_outputs_def tip_block_fields
        hash_ok_def uncached_def)
qed

lemma genesis_chain_ok: "node_ok genesis_chain"
proof -
  have "utxo_inv (csUTXOSet genesis_chain)"
    using fresh_set(1) by (simp add: genesis_chain_def sample_chain_def BuildHeightIndexLocked_def split: option.splits)
  then show ?thesis
    using genesis_chain_files
    by (simp add: node_ok_def genesis_chain_index tip_entry_def wf_tip_def)
      (simp add: genesis_chain_def sample_entry_def zero32_def GetGenesisHash_def)
qed

lemma tip_block_connects: "\<exists>cs1. ConnectBlockLocked tip_block genesis_chain = (Inr True, cs1)"
proof -
  have g: "tip_height genesis_chain = 0" "tip_hash genesis_chain = GetGenesisHash" "chainWork (csBestChain genesis_chain) = zero32"
    "shd (csDisk genesis_chain) = (DiskOk, [0, 0, 0], [0, 0, 0])"
    by (simp_all add: genesis_chain_def sample_chain_def BuildHeightIndexLocked_def split: option.splits)
  have "GetExpectedBitsLocked 1 genesis_chain = Inr 0x1d00ffff" by (simp add: GetExpectedBitsLocked_def g Let_def POW_LIMIT_COMPACT_def)
  then have c: "connect_checks tip_block genesis_chain = Inr True"
    using mined_pow by (simp add: connect_checks_def Let_def tip_block_fields g)
  have b: "block_fresh tip_block (coin_view (csUTXOSet genesis_chain))" "utxo_inv (csUTXOSet genesis_chain)"
    and F: "files_ok (csBlockData genesis_chain)" "storable tip_block" "block_shape tip_block"
    using tip_block_connectable genesis_chain_ok by (auto simp: connectable_def node_ok_def)
  obtain undo u where A: "ApplyBlockTwoPhase tip_block 1 (csUTXOSet genesis_chain) = (Inr True, undo, u)"
    using coinbase_applies [OF b(2) coinbase_uncached(2,1), of 1] b(1)
      sample_coinbase_valid(2)
    by (auto simp: ApplyBlockTwoPhase_def tip_block_fields block_fresh_def Let_def)
  obtain work where w: "AddChainWork zero32 0x1d00ffff = Inr work"
    using GetBlockProof_spec [of "0x1d00ffff"] by (auto simp: AddChainWork_def)
  obtain r bd where W: "WriteBlockConnected DiskOk [0, 0, 0] [0, 0, 0] tip_block 1 work undo (csBlockData genesis_chain) = (r, bd)"
    by fastforce
  have "\<exists>pos. r = Inr pos"
    using W target_file_spec(5) [OF F(1,2), of DiskOk] by (auto simp: WriteBlockConnected_def Let_def)
  then show ?thesis
    using c A w W g by (auto simp: ConnectBlockLocked_def Let_def tip_block_fields)
qed

theorem disconnect_undoes_connect_witness:
  "\<exists>cs1 cs2. ConnectBlockLocked tip_block genesis_chain = (Inr True, cs1) \<and> DisconnectTipLocked cs1 = (True, cs2) \<and>
     csBestChain cs2 = csBestChain genesis_chain"
proof -
  obtain cs1 where c: "ConnectBlockLocked tip_block genesis_chain = (Inr True, cs1)" using tip_block_connects by blast
  have "tip_height genesis_chain \<noteq> 0xFFFFFFFF" by (simp add: genesis_chain_def)
  from disconnect_undoes_connect [OF genesis_chain_ok tip_block_connectable this c] c show ?thesis by blast
qed

section \<open>A failed append\<close>

text \<open>
  When the block cannot be written, the exception leaves the UTXO set with the block's
  transactions applied although the tip does not move: nothing undoes the first phase.
\<close>

lemma failed_append_keeps_coins:
  assumes "files_ok (csBlockData cs)" and "storable block" and "connect_checks block cs = Inr True"
    and "ApplyBlockTwoPhase block (tip_height cs + 1) (csUTXOSet cs) = (Inr True, undo, u)"
    and "AddChainWork (chainWork (csBestChain cs)) (mBits (mHeader block)) = Inr work"
    and "shd (csDisk cs) = (io, padR, padW)" and "io \<noteq> DiskOk"
  shows "\<exists>e cs'. ConnectBlockLocked block cs = (Inl e, cs') \<and> csBestChain cs' = csBestChain cs \<and> csUTXOSet cs' = u"
proof -
  obtain e bd where "WriteBlockToDisk io block (csBlockData cs) = (Inl e, bd)"
    using assms(7) target_file_spec(5) [OF assms(1,2), of io] by (cases io) auto
  from WriteBlockConnected_failed [OF this] show ?thesis using assms(3-6) by (simp add: ConnectBlockLocked_def Let_def)
qed

end
