(* ===== verification/Tx_Pool.thy ===== *)
theory Tx_Pool
  imports Complex_Main Tx_Validation "HOL-Library.Product_Lexorder" "HOL-Library.Monad_Syntax"
begin

text \<open>
  The memory pool (\<open>consensus/mempool.h\<close> and \<open>consensus/mempool.cpp\<close>): its
  five tables, admission with the rolling minimum fee, eviction of the cheapest
  transactions when the byte budget is exceeded, expiry, and removal of what a
  connected block confirms or conflicts with.

  An \<open>std::unordered_map\<close> is an association list read through \<open>map_of\<close>, an
  \<open>std::map\<close> a list sorted by its key. The wall clock is an argument. Double
  values are rationals, which they are; the two operations on them that round, the
  conversion from an integer and the exponential decay, are the fields of
  \<open>doubles\<close>.
\<close>

section \<open>Ordered maps\<close>

fun omap_put :: "'k::linorder \<Rightarrow> 'v \<Rightarrow> ('k \<times> 'v) list \<Rightarrow> ('k \<times> 'v) list" where
  "omap_put k v [] = [(k, v)]"
| "omap_put k v ((k', v') # m) =
     (if k < k' then (k, v) # (k', v') # m
      else if k = k' then (k, v) # m
      else (k', v') # omap_put k v m)"

definition omap_erase :: "'k \<Rightarrow> ('k \<times> 'v) list \<Rightarrow> ('k \<times> 'v) list" where
  "omap_erase k m = filter (\<lambda>p. fst p \<noteq> k) m"

section \<open>State\<close>

record Entry =
  eTx :: Transaction
  eFee :: int
  eSize :: nat
  eFeePerK :: int
  eSeq :: u64
  eEntryTime :: int
  eLeafKeys :: "byte list list"

record Mempool =
  mIndex :: "(string \<times> Entry) list"
  mByFeeRate :: "((int \<times> u64) \<times> string) list"
  mByTime :: "((int \<times> u64) \<times> string) list"
  mSpends :: "(byte list \<times> string) list"
  mLeafSpends :: "(byte list \<times> string) list"
  mSequenceCounter :: u64
  mMaxBytes :: nat
  mTotalBytes :: nat
  mRollingMinFeeRate :: rat
  mLastRollingFeeUpdate :: int
  mBlockSinceFeeBump :: bool

definition DEFAULT_MAX_BYTES :: nat where
  "DEFAULT_MAX_BYTES = 300 * 1000 * 1000"

definition MEMPOOL_EXPIRY_SECONDS :: int where
  "MEMPOOL_EXPIRY_SECONDS = 336 * 3600"

definition INCREMENTAL_FEE_PER_K :: int where
  "INCREMENTAL_FEE_PER_K = 1000"

definition MAX_ANCESTORS :: nat where
  "MAX_ANCESTORS = 25"

definition MAX_DESCENDANTS :: nat where
  "MAX_DESCENDANTS = 25"

definition ROLLING_FEE_HALFLIFE :: int where
  "ROLLING_FEE_HALFLIFE = 12 * 3600"

definition Mempool_init :: "nat \<Rightarrow> Mempool" where
  "Mempool_init maxBytes =
     \<lparr>mIndex = [], mByFeeRate = [], mByTime = [], mSpends = [], mLeafSpends = [],
      mSequenceCounter = 0, mMaxBytes = maxBytes, mTotalBytes = 0,
      mRollingMinFeeRate = 0, mLastRollingFeeUpdate = 0, mBlockSinceFeeBump = False\<rparr>"

text \<open>
  Floating point. \<open>to_double n\<close> is \<open>static_cast<double>(n)\<close> and
  \<open>decay rate dt halflife\<close> is \<open>rate / std::pow(2.0, dt / halflife)\<close>, both rounded
  as the machine rounds them. \<open>std::llround\<close> is exact: it rounds halves away from
  zero.
\<close>

record doubles =
  to_double :: "int \<Rightarrow> rat"
  decay :: "rat \<Rightarrow> int \<Rightarrow> int \<Rightarrow> rat"

definition llround :: "rat \<Rightarrow> int" where
  "llround x = (if x < 0 then - \<lfloor>- x + 1 / 2\<rfloor> else \<lfloor>x + 1 / 2\<rfloor>)"

section \<open>Keys\<close>

definition hex2 :: "byte \<Rightarrow> string" where
  "hex2 b = [kHexDigits ! unat (drop_bit 4 b), kHexDigits ! unat (b AND 0xF)]"

definition HashToKey :: "bytes32 \<Rightarrow> string" where
  "HashToKey hash = concat (map hex2 hash)"

definition OutpointKey :: "bytes32 \<Rightarrow> u32 \<Rightarrow> byte list" where
  "OutpointKey prevTxHash outputIndex = take 32 prevTxHash @
     [ucast (outputIndex AND 0xFF), ucast (drop_bit 8 outputIndex AND 0xFF),
      ucast (drop_bit 16 outputIndex AND 0xFF), ucast (drop_bit 24 outputIndex AND 0xFF)]"

definition input_key :: "TxInput \<Rightarrow> byte list" where
  "input_key input = OutpointKey (mPrevTxHash input) (mOutputIndex input)"

definition leaf_key :: "bytes32 \<Rightarrow> u32 \<Rightarrow> byte list" where
  "leaf_key kps leafIdx = take 32 kps @
     [ucast (leafIdx AND 0xFF), ucast (drop_bit 8 leafIdx AND 0xFF),
      ucast (drop_bit 16 leafIdx AND 0xFF), ucast (drop_bit 24 leafIdx AND 0xFF)]"

text \<open>
  The keys collected before a proof that does not parse stay in the output vector;
  an input without a proof is skipped.
\<close>

fun extract_inputs :: "TxInput list \<Rightarrow> byte list list \<Rightarrow> bool \<times> byte list list" where
  "extract_inputs [] leafKeys = (True, leafKeys)"
| "extract_inputs (input # inputs) leafKeys =
     (if mNoiseProof input = [] then extract_inputs inputs leafKeys
      else (case proof_loop (\<lambda>leafIdx ks. (True, ks @ [leaf_key (mKps input) leafIdx]))
                   (mNoiseProof input) 0 leafKeys of
          (False, leafKeys) \<Rightarrow> (False, leafKeys)
        | (True, leafKeys) \<Rightarrow> extract_inputs inputs leafKeys))"

definition ExtractLeafKeys :: "Transaction \<Rightarrow> bool \<times> byte list list" where
  "ExtractLeafKeys tx = extract_inputs (mInputs tx) []"

section \<open>Fee rate\<close>

definition ValidateForPool :: "Transaction \<Rightarrow> int \<Rightarrow> Mempool \<Rightarrow> bool result" where
  "ValidateForPool tx fee p =
     rbind (Transaction_IsValid tx) (\<lambda>valid.
       if \<not> valid then Inr False
       else if IsCoinbase tx then Inr False
       else if fee < 0 then Inr False
       else if map_of (mIndex p) (HashToKey (GetHash tx)) \<noteq> None then Inr False
       else rbind (GetValueOut tx) (\<lambda>valueOut.
         if valueOut < 0 then Inr False
         else if valueOut < DUST_THRESHOLD then Inr False
         else Inr True))"

definition GetMinFeeRateLocked :: "doubles \<Rightarrow> int \<Rightarrow> Mempool \<Rightarrow> int \<times> Mempool" where
  "GetMinFeeRateLocked fp now p =
     (if \<not> mBlockSinceFeeBump p \<or> mRollingMinFeeRate p = 0 then (llround (mRollingMinFeeRate p), p)
      else if now > mLastRollingFeeUpdate p + 10 then
        (let halflife = (if mTotalBytes p < mMaxBytes p div 4 then ROLLING_FEE_HALFLIFE div 4
                         else if mTotalBytes p < mMaxBytes p div 2 then ROLLING_FEE_HALFLIFE div 2
                         else ROLLING_FEE_HALFLIFE);
             rate = decay fp (mRollingMinFeeRate p) (now - mLastRollingFeeUpdate p) halflife;
             p = p\<lparr>mRollingMinFeeRate := rate, mLastRollingFeeUpdate := now\<rparr>
         in if rate < of_int INCREMENTAL_FEE_PER_K / 2 then (0, p\<lparr>mRollingMinFeeRate := 0\<rparr>)
            else (max (llround rate) INCREMENTAL_FEE_PER_K, p))
      else (max (llround (mRollingMinFeeRate p)) INCREMENTAL_FEE_PER_K, p))"

text \<open>\<open>fee * 1000\<close> is guarded against overflow; a fee that large counts as the best rate.\<close>

definition fee_per_k :: "int \<Rightarrow> nat \<Rightarrow> int" where
  "fee_per_k fee sz =
     (if fee > (2 ^ 63 - 1) div 1000 then 2 ^ 63 - 1 else (fee * 1000) div int sz)"

section \<open>Removal\<close>

definition RemoveLocked :: "string \<Rightarrow> Mempool \<Rightarrow> bool \<times> Mempool" where
  "RemoveLocked hashKey p = (case map_of (mIndex p) hashKey of
     None \<Rightarrow> (False, p)
   | Some e \<Rightarrow> (True, p\<lparr>
       mByFeeRate := omap_erase (eFeePerK e, eSeq e) (mByFeeRate p),
       mByTime := omap_erase (eEntryTime e, eSeq e) (mByTime p),
       mSpends := fold (\<lambda>input. AList.delete (input_key input)) (mInputs (eTx e)) (mSpends p),
       mLeafSpends := fold AList.delete (eLeafKeys e) (mLeafSpends p),
       mTotalBytes := mTotalBytes p - eSize e,
       mIndex := AList.delete hashKey (mIndex p)\<rparr>))"

text \<open>
  The two searches share the queue discipline: a key enters the queue the first
  time it is seen, so the set of keys seen is the set of keys queued. \<open>children\<close>
  lists the pool transactions that spend an output of an entry, in output order, and
  \<open>parents\<close> the pool transactions an entry spends from, in input order.
\<close>

definition enqueue :: "string list \<Rightarrow> string list \<Rightarrow> string list" where
  "enqueue ks queue = fold (\<lambda>k queue. if k \<in> set queue then queue else queue @ [k]) ks queue"

definition children :: "Mempool \<Rightarrow> string \<Rightarrow> string list" where
  "children p hashKey = (case map_of (mIndex p) hashKey of
     None \<Rightarrow> []
   | Some e \<Rightarrow> List.map_filter (\<lambda>i. map_of (mSpends p) (OutpointKey (GetHash (eTx e)) (of_nat i)))
       [0..<length (mOutputs (eTx e))])"

definition pool_parents :: "Mempool \<Rightarrow> Transaction \<Rightarrow> string list" where
  "pool_parents p tx = filter (\<lambda>k. map_of (mIndex p) k \<noteq> None)
     (map (\<lambda>input. HashToKey (mPrevTxHash input)) (mInputs tx))"

definition parents :: "Mempool \<Rightarrow> string \<Rightarrow> string list" where
  "parents p hashKey = (case map_of (mIndex p) hashKey of
     None \<Rightarrow> []
   | Some e \<Rightarrow> pool_parents p (eTx e))"

lemma enqueue_Nil [simp]: "enqueue [] q = q"
  by (simp add: enqueue_def)

lemma enqueue_Cons [simp]:
  "enqueue (k # ks) q = enqueue ks (if k \<in> set q then q else q @ [k])"
  by (simp add: enqueue_def)

lemma set_enqueue [simp]: "set (enqueue ks q) = set ks \<union> set q"
  by (induction ks arbitrary: q) auto

lemma distinct_enqueue [simp]: "distinct (enqueue ks q) = distinct q"
  by (induction ks arbitrary: q) auto

lemma enqueue_prefix: "\<exists>new. enqueue ks q = q @ new"
proof (induction ks arbitrary: q)
  case (Cons k ks)
  show ?case using Cons [of q] Cons [of "q @ [k]"] by auto
qed simp

text \<open>Queueing from a finite universe moves a key from the unseen to the queued.\<close>

lemma enqueue_potential:
  assumes "finite U" and "set ks \<subseteq> U"
  shows "card (U - set (enqueue ks q)) + length (enqueue ks q) = card (U - set q) + length q"
  using assms(2)
proof (induction ks arbitrary: q)
  case (Cons k ks)
  have "card (U - set (q @ [k])) + length (q @ [k]) = card (U - set q) + length q" if "k \<notin> set q"
  proof -
    have "U - set (q @ [k]) = (U - set q) - {k}" by auto
    moreover have "k \<in> U - set q" using Cons.prems that by simp
    ultimately show ?thesis
      using card_Suc_Diff1 [of "U - set q" k] assms(1) by simp
  qed
  then show ?case using Cons by simp
qed simp

lemma children_in_spends: "set (children p k) \<subseteq> snd ` set (mSpends p)"
  by (force simp: children_def List.map_filter_def dest: map_of_SomeD split: option.splits)

lemma parents_in_index: "set (parents p k) \<subseteq> fst ` set (mIndex p)"
  by (auto simp: parents_def pool_parents_def map_of_eq_None_iff split: option.splits)

function collect_loop :: "Mempool \<Rightarrow> string list \<Rightarrow> nat \<Rightarrow> string list" where
  "collect_loop p queue head =
     (if head < length queue then collect_loop p (enqueue (children p (queue ! head)) queue) (Suc head)
      else queue)"
  by pat_completeness auto

termination collect_loop
  by (relation "measure (\<lambda>(p, queue, head).
      card (snd ` set (mSpends p) - set queue) + length queue - head)")
    (simp_all del: set_enqueue add: enqueue_potential children_in_spends)

function ancestors_loop :: "Mempool \<Rightarrow> string list \<Rightarrow> nat \<Rightarrow> string list" where
  "ancestors_loop p queue head =
     (if head < length queue then ancestors_loop p (enqueue (parents p (queue ! head)) queue) (Suc head)
      else queue)"
  by pat_completeness auto

termination ancestors_loop
  by (relation "measure (\<lambda>(p, queue, head).
      card (fst ` set (mIndex p) - set queue) + length queue - head)")
    (simp_all del: set_enqueue add: enqueue_potential parents_in_index)

declare collect_loop.simps [simp del] ancestors_loop.simps [simp del]

definition CollectDescendantsLocked :: "string \<Rightarrow> Mempool \<Rightarrow> string list" where
  "CollectDescendantsLocked hashKey p = collect_loop p [hashKey] 0"

fun remove_all :: "string list \<Rightarrow> nat \<Rightarrow> Mempool \<Rightarrow> nat \<times> Mempool" where
  "remove_all [] removed p = (removed, p)"
| "remove_all (k # ks) removed p =
     (case RemoveLocked k p of (gone, p) \<Rightarrow> remove_all ks (if gone then Suc removed else removed) p)"

definition RemoveRecursiveLocked :: "string \<Rightarrow> Mempool \<Rightarrow> nat \<times> Mempool" where
  "RemoveRecursiveLocked hashKey p = remove_all (rev (CollectDescendantsLocked hashKey p)) 0 p"

definition CountAncestorsLocked :: "Transaction \<Rightarrow> Mempool \<Rightarrow> nat" where
  "CountAncestorsLocked tx p = length (ancestors_loop p (enqueue (pool_parents p tx) []) 0) + 1"

definition CountDescendantsLocked :: "string \<Rightarrow> Mempool \<Rightarrow> nat" where
  "CountDescendantsLocked hashKey p = length (CollectDescendantsLocked hashKey p)"

section \<open>Eviction and expiry\<close>

definition bump_fee :: "doubles \<Rightarrow> int \<Rightarrow> int \<Rightarrow> Mempool \<Rightarrow> Mempool" where
  "bump_fee fp now evictedRate p =
     (let bumped = to_double fp (evictedRate + INCREMENTAL_FEE_PER_K)
      in if bumped > mRollingMinFeeRate p
         then p\<lparr>mRollingMinFeeRate := bumped, mLastRollingFeeUpdate := now, mBlockSinceFeeBump := False\<rparr>
         else p)"

partial_function (option) TrimLocked :: "doubles \<Rightarrow> int \<Rightarrow> Mempool \<Rightarrow> Mempool option" where
  "TrimLocked fp now p =
     (if mTotalBytes p > mMaxBytes p \<and> mByFeeRate p \<noteq> [] then
        (let ((evictedRate, _), hashKey) = hd (mByFeeRate p)
         in TrimLocked fp now (snd (RemoveRecursiveLocked hashKey (bump_fee fp now evictedRate p))))
      else Some p)"

partial_function (option) expire_loop :: "int \<Rightarrow> nat \<Rightarrow> Mempool \<Rightarrow> (nat \<times> Mempool) option" where
  "expire_loop cutoff removed p =
     (if mByTime p \<noteq> [] \<and> fst (fst (hd (mByTime p))) < cutoff then
        expire_loop cutoff (Suc removed) (snd (RemoveLocked (snd (hd (mByTime p))) p))
      else Some (removed, p))"

definition ExpireLocked :: "int \<Rightarrow> Mempool \<Rightarrow> (nat \<times> Mempool) option" where
  "ExpireLocked now p = expire_loop (now - MEMPOOL_EXPIRY_SECONDS) 0 p"

section \<open>Admission\<close>

text \<open>
  \<open>pool_policy\<close> is the run of checks between \<open>ExpireLocked\<close> and the insertion.
  The rolling rate is mutable state, so it returns the pool as well.
\<close>

definition pool_policy ::
  "doubles \<Rightarrow> int \<Rightarrow> Transaction \<Rightarrow> int \<Rightarrow> Mempool \<Rightarrow> bool result \<times> Mempool" where
  "pool_policy fp now tx fee p = (case ValidateForPool tx fee p of
     Inl e \<Rightarrow> (Inl e, p)
   | Inr ok \<Rightarrow>
       if \<not> ok then (Inr False, p)
       else if list_ex (\<lambda>input. map_of (mSpends p) (input_key input) \<noteq> None) (mInputs tx)
       then (Inr False, p)
       else let leafKeys = snd (ExtractLeafKeys tx)
       in if list_ex (\<lambda>k. map_of (mLeafSpends p) k \<noteq> None) leafKeys \<or> \<not> distinct leafKeys
       then (Inr False, p)
       else let sz = Transaction_GetSerializedSize True tx
       in if sz = 0 then (Inr False, p)
       else case GetMinFeeRateLocked fp now p of (minRate, p) \<Rightarrow>
         if fee_per_k fee sz < minRate then (Inr False, p)
         else if CountAncestorsLocked tx p > MAX_ANCESTORS then (Inr False, p)
         else if list_ex (\<lambda>parent. CountDescendantsLocked parent p + 1 > MAX_DESCENDANTS)
                   (pool_parents p tx)
         then (Inr False, p)
         else (Inr True, p))"

definition new_entry :: "int \<Rightarrow> Transaction \<Rightarrow> int \<Rightarrow> Mempool \<Rightarrow> Entry" where
  "new_entry now tx fee p =
     (let sz = Transaction_GetSerializedSize True tx
      in \<lparr>eTx = tx, eFee = fee, eSize = sz, eFeePerK = fee_per_k fee sz,
          eSeq = mSequenceCounter p + 1, eEntryTime = now, eLeafKeys = snd (ExtractLeafKeys tx)\<rparr>)"

definition insert_entry :: "string \<Rightarrow> Entry \<Rightarrow> Mempool \<Rightarrow> Mempool" where
  "insert_entry hashKey e p = p\<lparr>
     mSequenceCounter := mSequenceCounter p + 1,
     mIndex := AList.update hashKey e (mIndex p),
     mByFeeRate := omap_put (eFeePerK e, eSeq e) hashKey (mByFeeRate p),
     mByTime := omap_put (eEntryTime e, eSeq e) hashKey (mByTime p),
     mSpends := fold (\<lambda>input. AList.update (input_key input) hashKey) (mInputs (eTx e)) (mSpends p),
     mLeafSpends := fold (\<lambda>k. AList.update k hashKey) (eLeafKeys e) (mLeafSpends p),
     mTotalBytes := mTotalBytes p + eSize e\<rparr>"

definition Mempool_AddTransaction ::
  "doubles \<Rightarrow> int \<Rightarrow> Transaction \<Rightarrow> int \<Rightarrow> Mempool \<Rightarrow> (bool result \<times> Mempool) option" where
  "Mempool_AddTransaction fp now tx fee p = do {
     (_, p) \<leftarrow> ExpireLocked now p;
     case pool_policy fp now tx fee p of
       (Inl e, p) \<Rightarrow> Some (Inl e, p)
     | (Inr False, p) \<Rightarrow> Some (Inr False, p)
     | (Inr True, p) \<Rightarrow> do {
         let hashKey = HashToKey (GetHash tx);
         p \<leftarrow> TrimLocked fp now (insert_entry hashKey (new_entry now tx fee p) p);
         Some (Inr (map_of (mIndex p) hashKey \<noteq> None), p)
       }
   }"

definition RemoveTransaction :: "bytes32 \<Rightarrow> Mempool \<Rightarrow> bool \<times> Mempool" where
  "RemoveTransaction txHash p = RemoveLocked (HashToKey txHash) p"

section \<open>Blocks and queries\<close>

definition remove_conflict :: "(byte list \<times> string) list \<Rightarrow> byte list \<Rightarrow> Mempool \<Rightarrow> Mempool" where
  "remove_conflict table k p = (case map_of table k of
     None \<Rightarrow> p
   | Some conflicting \<Rightarrow> snd (RemoveRecursiveLocked conflicting p))"

definition remove_confirmed :: "Transaction \<Rightarrow> Mempool \<Rightarrow> Mempool" where
  "remove_confirmed tx p =
     (if IsCoinbase tx then p
      else let p = snd (RemoveRecursiveLocked (HashToKey (GetHash tx)) p);
               p = fold (\<lambda>input p. remove_conflict (mSpends p) (input_key input) p) (mInputs tx) p
           in case ExtractLeafKeys tx of
                (False, _) \<Rightarrow> p
              | (True, leafKeys) \<Rightarrow> fold (\<lambda>k p. remove_conflict (mLeafSpends p) k p) leafKeys p)"

definition RemoveForBlock :: "Transaction list \<Rightarrow> Mempool \<Rightarrow> Mempool" where
  "RemoveForBlock blockTxs p = (fold remove_confirmed blockTxs p)\<lparr>mBlockSinceFeeBump := True\<rparr>"

definition Mempool_GetTransaction :: "bytes32 \<Rightarrow> Mempool \<Rightarrow> Transaction option" where
  "Mempool_GetTransaction txHash p = map_option eTx (map_of (mIndex p) (HashToKey txHash))"

definition HasTransaction :: "bytes32 \<Rightarrow> Mempool \<Rightarrow> bool" where
  "HasTransaction txHash p \<longleftrightarrow> map_of (mIndex p) (HashToKey txHash) \<noteq> None"

definition GetTransactions :: "nat \<Rightarrow> Mempool \<Rightarrow> Transaction list" where
  "GetTransactions maxCount p = take maxCount
     (List.map_filter (\<lambda>(_, k). map_option eTx (map_of (mIndex p) k)) (rev (mByFeeRate p)))"

definition GetMinFeeRate :: "doubles \<Rightarrow> int \<Rightarrow> Mempool \<Rightarrow> int \<times> Mempool" where
  "GetMinFeeRate fp now p = GetMinFeeRateLocked fp now p"

definition Mempool_Size :: "Mempool \<Rightarrow> nat" where
  "Mempool_Size p = length (mIndex p)"

definition Mempool_SizeBytes :: "Mempool \<Rightarrow> nat" where
  "Mempool_SizeBytes p = mTotalBytes p"

definition Mempool_Clear :: "Mempool \<Rightarrow> Mempool" where
  "Mempool_Clear p = p\<lparr>mIndex := [], mByFeeRate := [], mByTime := [], mSpends := [], mLeafSpends := [],
     mTotalBytes := 0\<rparr>"

section \<open>The queue searches\<close>

definition edges :: "(string \<Rightarrow> string list) \<Rightarrow> (string \<times> string) set" where
  "edges f = {(a, b). b \<in> set (f a)}"

text \<open>
  What both searches rely on: neighbours come from a finite universe, and the loop
  takes the next queued key until none is left.
\<close>

locale worklist =
  fixes neighbours :: "string \<Rightarrow> string list"
    and search :: "string list \<Rightarrow> nat \<Rightarrow> string list"
    and U :: "string set"
  assumes finite_U: "finite U"
    and neighbours_U: "set (neighbours k) \<subseteq> U"
    and search_eq: "search q h =
      (if h < length q then search (enqueue (neighbours (q ! h)) q) (Suc h) else q)"
begin

lemma search_induct [case_names halt step]:
  assumes stop: "\<And>q h. \<not> h < length q \<Longrightarrow> P q h"
    and step: "\<And>q h. h < length q \<Longrightarrow> P (enqueue (neighbours (q ! h)) q) (Suc h) \<Longrightarrow> P q h"
  shows "P q h"
proof (induction "card (U - set q) + length q - h" arbitrary: q h rule: less_induct)
  case less
  show ?case
  proof (cases "h < length q")
    case True
    have "P (enqueue (neighbours (q ! h)) q) (Suc h)"
      using True less [of "enqueue (neighbours (q ! h)) q" "Suc h"]
      by (simp del: set_enqueue add: enqueue_potential finite_U neighbours_U)
    then show ?thesis using step True by blast
  qed (rule stop)
qed

lemma search_distinct: "distinct (search q h) = distinct q"
  by (induction q h rule: search_induct) (subst search_eq, simp)+

lemma search_start: "set q \<subseteq> set (search q h)"
  by (induction q h rule: search_induct) (subst search_eq, simp)+

lemma search_closed:
  assumes "\<forall>j < h. set (neighbours (q ! j)) \<subseteq> set q" and "h \<le> length q" and "k \<in> set (search q h)"
  shows "set (neighbours k) \<subseteq> set (search q h)"
  using assms
proof (induction q h rule: search_induct)
  case (halt q h)
  then have "search q h = q" using search_eq [of q h] by simp
  then show ?case using halt by (metis in_set_conv_nth le_antisym not_less)
next
  case (step q h)
  let ?q = "enqueue (neighbours (q ! h)) q"
  obtain new where new: "?q = q @ new" using enqueue_prefix by blast
  have "\<forall>j < Suc h. set (neighbours (?q ! j)) \<subseteq> set ?q"
  proof (intro allI impI)
    fix j assume j: "j < Suc h"
    then have "?q ! j = q ! j" using step.hyps by (simp add: new nth_append)
    then show "set (neighbours (?q ! j)) \<subseteq> set ?q"
      using step.prems(1) j by (cases "j = h") (auto simp: less_Suc_eq)
  qed
  moreover have "Suc h \<le> length ?q" using step.hyps by (simp add: new)
  moreover have "search q h = search ?q (Suc h)" using step.hyps search_eq [of q h] by simp
  ultimately show ?case using step.IH step.prems(3) by simp
qed

lemma search_reached:
  assumes "k \<in> set (search q h)"
  shows "\<exists>s \<in> set q. (s, k) \<in> (edges neighbours)\<^sup>*"
  using assms
proof (induction q h rule: search_induct)
  case (halt q h)
  then show ?case using search_eq [of q h] by auto
next
  case (step q h)
  then obtain s where s: "s \<in> set (neighbours (q ! h)) \<union> set q" "(s, k) \<in> (edges neighbours)\<^sup>*"
    using search_eq [of q h] by auto
  show ?case
  proof (cases "s \<in> set q")
    case False
    then have "(q ! h, s) \<in> edges neighbours" using s(1) by (simp add: edges_def)
    then show ?thesis
      using s(2) step.hyps by (meson converse_rtrancl_into_rtrancl nth_mem)
  qed (use s in blast)
qed

text \<open>The search returns exactly what can be reached from the start, each key once.\<close>

lemma set_search: "set (search q 0) = (edges neighbours)\<^sup>* `` set q"
proof
  show "set (search q 0) \<subseteq> (edges neighbours)\<^sup>* `` set q" using search_reached by blast
  show "(edges neighbours)\<^sup>* `` set q \<subseteq> set (search q 0)"
  proof
    fix k assume "k \<in> (edges neighbours)\<^sup>* `` set q"
    then obtain s where "(s, k) \<in> (edges neighbours)\<^sup>*" "s \<in> set q" by blast
    then show "k \<in> set (search q 0)"
    proof (induction rule: rtrancl_induct)
      case base
      then show ?case using search_start by blast
    next
      case (step a b)
      then show ?case using search_closed [of 0 q a] by (auto simp: edges_def)
    qed
  qed
qed

end

interpretation descendants: worklist "children p" "collect_loop p" "snd ` set (mSpends p)" for p
  by unfold_locales (simp, rule children_in_spends, rule collect_loop.simps)

interpretation ancestors: worklist "parents p" "ancestors_loop p" "fst ` set (mIndex p)" for p
  by unfold_locales (simp, rule parents_in_index, rule ancestors_loop.simps)

end
