(* ===== verification/Pool_Invariant.thy ===== *)
theory Pool_Invariant
  imports Tx_Pool
begin

text \<open>
  The invariant of the memory pool, the agreement of its five tables, and that
  removal, insertion, eviction, expiry and admission keep it. The loops of eviction and
  expiry are shown to return.
\<close>

section \<open>The pool invariant\<close>

definition omap_ok :: "('k::linorder \<times> 'v) list \<Rightarrow> bool" where
  "omap_ok m \<longleftrightarrow> sorted_wrt (<) (map fst m)"

lemma set_omap_put:
  "omap_ok m \<Longrightarrow> set (omap_put k v m) = insert (k, v) {x \<in> set m. fst x \<noteq> k}"
  by (induction k v m rule: omap_put.induct) (force simp: omap_ok_def)+

lemma omap_ok_put:
  "omap_ok m \<Longrightarrow> omap_ok (omap_put k v m)"
proof (induction k v m rule: omap_put.induct)
  case (2 k v k' v' m)
  then have "omap_ok m" by (simp add: omap_ok_def)
  then have "set (omap_put k v m) \<subseteq> insert (k, v) (set m)" by (auto simp: set_omap_put)
  with 2 show ?case by (fastforce simp: omap_ok_def)
qed (simp add: omap_ok_def)

lemma omap_ok_erase: "omap_ok m \<Longrightarrow> omap_ok (omap_erase k m)"
  by (induction m) (auto simp: omap_ok_def omap_erase_def)

lemma set_omap_erase: "set (omap_erase k m) = {x \<in> set m. fst x \<noteq> k}"
  by (auto simp: omap_erase_def)

text \<open>
  What admission fixes of an entry, and the agreement of the five tables: the two
  ordered maps list every entry once under its own key, the spend tables name the
  entry that spends an outpoint or consumes a leaf, sequence numbers are unique, and
  the byte count is the sum of the sizes.
\<close>

definition pool_entry_ok :: "string \<Rightarrow> Entry \<Rightarrow> bool" where
  "pool_entry_ok k e \<longleftrightarrow> k = HashToKey (GetHash (eTx e)) \<and>
     Transaction_IsValid (eTx e) = Inr True \<and> \<not> IsCoinbase (eTx e) \<and> 0 \<le> eFee e \<and>
     eSize e = Transaction_GetSerializedSize True (eTx e) \<and> 0 < eSize e \<and>
     eFeePerK e = fee_per_k (eFee e) (eSize e) \<and>
     eLeafKeys e = snd (ExtractLeafKeys (eTx e)) \<and> distinct (eLeafKeys e)"

definition spent_keys :: "Entry \<Rightarrow> byte list set" where
  "spent_keys e = input_key ` set (mInputs (eTx e))"

definition mempool_ok :: "Mempool \<Rightarrow> bool" where
  "mempool_ok p \<longleftrightarrow>
     distinct (map fst (mIndex p)) \<and>
     (\<forall>(k, e) \<in> set (mIndex p). pool_entry_ok k e \<and> eSeq e \<le> mSequenceCounter p) \<and>
     inj_on (\<lambda>x. eSeq (snd x)) (set (mIndex p)) \<and>
     omap_ok (mByFeeRate p) \<and>
     set (mByFeeRate p) = (\<lambda>(k, e). ((eFeePerK e, eSeq e), k)) ` set (mIndex p) \<and>
     omap_ok (mByTime p) \<and>
     set (mByTime p) = (\<lambda>(k, e). ((eEntryTime e, eSeq e), k)) ` set (mIndex p) \<and>
     (\<forall>op k. map_of (mSpends p) op = Some k \<longleftrightarrow>
        (\<exists>e. (k, e) \<in> set (mIndex p) \<and> op \<in> spent_keys e)) \<and>
     (\<forall>lk k. map_of (mLeafSpends p) lk = Some k \<longleftrightarrow>
        (\<exists>e. (k, e) \<in> set (mIndex p) \<and> lk \<in> set (eLeafKeys e))) \<and>
     mTotalBytes p = (\<Sum>x \<leftarrow> mIndex p. eSize (snd x))"

lemma mempool_okD:
  assumes "mempool_ok p"
  shows "distinct (map fst (mIndex p))"
    and "(k, e) \<in> set (mIndex p) \<Longrightarrow> pool_entry_ok k e"
    and "(k, e) \<in> set (mIndex p) \<Longrightarrow> eSeq e \<le> mSequenceCounter p"
    and "inj_on (\<lambda>x. eSeq (snd x)) (set (mIndex p))"
    and "omap_ok (mByFeeRate p)"
    and "set (mByFeeRate p) = (\<lambda>(k, e). ((eFeePerK e, eSeq e), k)) ` set (mIndex p)"
    and "omap_ok (mByTime p)"
    and "set (mByTime p) = (\<lambda>(k, e). ((eEntryTime e, eSeq e), k)) ` set (mIndex p)"
    and "map_of (mSpends p) op = Some k \<longleftrightarrow> (\<exists>e. (k, e) \<in> set (mIndex p) \<and> op \<in> spent_keys e)"
    and "map_of (mLeafSpends p) lk = Some k \<longleftrightarrow>
      (\<exists>e. (k, e) \<in> set (mIndex p) \<and> lk \<in> set (eLeafKeys e))"
    and "mTotalBytes p = (\<Sum>x \<leftarrow> mIndex p. eSize (snd x))"
  using assms by (auto simp: mempool_ok_def)

lemma pool_entry_unique:
  assumes "mempool_ok p" and "(k, e) \<in> set (mIndex p)" and "(k', e') \<in> set (mIndex p)"
    and "k = k' \<or> eSeq e = eSeq e' \<or> spent_keys e \<inter> spent_keys e' \<noteq> {} \<or>
      set (eLeafKeys e) \<inter> set (eLeafKeys e') \<noteq> {}"
  shows "k = k' \<and> e = e'"
proof -
  have same_key: "e = e'" if "k = k'"
    using that assms(2,3) mempool_okD(1) [OF assms(1)] eq_key_imp_eq_value by metis
  have "k = k'" if "spent_keys e \<inter> spent_keys e' \<noteq> {}"
  proof -
    obtain op where "op \<in> spent_keys e" "op \<in> spent_keys e'" using \<open>_ \<noteq> {}\<close> by blast
    then have "map_of (mSpends p) op = Some k" "map_of (mSpends p) op = Some k'"
      using mempool_okD(9) [OF assms(1)] assms(2,3) by blast+
    then show ?thesis by simp
  qed
  moreover have "k = k'" if "set (eLeafKeys e) \<inter> set (eLeafKeys e') \<noteq> {}"
  proof -
    obtain lk where "lk \<in> set (eLeafKeys e)" "lk \<in> set (eLeafKeys e')" using \<open>_ \<noteq> {}\<close> by blast
    then have "map_of (mLeafSpends p) lk = Some k" "map_of (mLeafSpends p) lk = Some k'"
      using mempool_okD(10) [OF assms(1)] assms(2,3) by blast+
    then show ?thesis by simp
  qed
  moreover have "k = k'" if "eSeq e = eSeq e'"
    using inj_onD [OF mempool_okD(4) [OF assms(1)], of "(k, e)" "(k', e')"] that assms(2,3) by simp
  ultimately show ?thesis using assms(4) same_key by blast
qed

lemma map_of_fold_delete:
  "map_of (fold (\<lambda>x. AList.delete (f x)) xs al) k = (if k \<in> f ` set xs then None else map_of al k)"
  by (induction xs arbitrary: al) (auto simp: delete_conv')

lemma map_of_fold_update:
  "map_of (fold (\<lambda>x. AList.update (f x) v) xs al) k = (if k \<in> f ` set xs then Some v else map_of al k)"
  by (induction xs arbitrary: al) (auto simp: update_conv')

section \<open>Removal keeps the invariant\<close>

text \<open>
  \<open>without K p p'\<close>: \<open>p'\<close> is a consistent pool holding the entries of \<open>p\<close> outside
  \<open>K\<close>, with the same limit, counter and rolling rate.
\<close>

definition without :: "string set \<Rightarrow> Mempool \<Rightarrow> Mempool \<Rightarrow> bool" where
  "without K p p' \<longleftrightarrow> mempool_ok p' \<and>
     mIndex p' = filter (\<lambda>x. fst x \<notin> K) (mIndex p) \<and>
     mMaxBytes p' = mMaxBytes p \<and> mSequenceCounter p' = mSequenceCounter p \<and>
     mRollingMinFeeRate p' = mRollingMinFeeRate p \<and>
     mLastRollingFeeUpdate p' = mLastRollingFeeUpdate p \<and> mBlockSinceFeeBump p' = mBlockSinceFeeBump p"

lemma without_refl: "mempool_ok p \<Longrightarrow> K \<inter> fst ` set (mIndex p) = {} \<Longrightarrow> without K p p"
  by (auto simp: without_def filter_id_conv intro!: filter_True [symmetric])

lemma without_trans: "without K p p' \<Longrightarrow> without K' p' p'' \<Longrightarrow> without (K \<union> K') p p''"
  by (auto simp: without_def intro: filter_cong)

lemma sum_list_delete:
  assumes "distinct (map fst xs)" and "(k, e) \<in> set xs"
  shows "(\<Sum>x \<leftarrow> filter (\<lambda>x. fst x \<noteq> k) xs. f (snd x)) = (\<Sum>x \<leftarrow> xs. f (snd x)) - (f e :: nat)"
  using assms
proof (induction xs)
  case (Cons y xs)
  show ?case
  proof (cases "fst y = k")
    case True
    then have notin: "k \<notin> fst ` set xs" using Cons.prems(1) by auto
    then have "y = (k, e)" using Cons.prems(2) image_eqI [of k fst "(k, e)"] by auto
    moreover have "filter (\<lambda>x. fst x \<noteq> k) xs = xs" by (rule filter_True) (use notin in force)
    ultimately show ?thesis by simp
  next
    case False
    then have mem: "(k, e) \<in> set xs" using Cons.prems(2) by auto
    then have "f e \<in> set (map (\<lambda>x. f (snd x)) xs)" by force
    then have "f e \<le> (\<Sum>x \<leftarrow> xs. f (snd x))" by (rule member_le_sum_list) simp
    then show ?thesis using Cons.IH [OF _ mem] Cons.prems(1) False by simp
  qed
qed simp

lemma keyed_image_minus:
  assumes "\<And>k' e'. (k', e') \<in> S \<Longrightarrow> eSeq e' = eSeq e \<Longrightarrow> (k', e') = (k, e)"
  shows "{x \<in> (\<lambda>(k, e). ((g e, eSeq e), k)) ` S. fst x \<noteq> (g e, eSeq e)} =
    (\<lambda>(k, e). ((g e, eSeq e), k)) ` (S - {(k, e)})"
  using assms by fastforce

lemma delete_minus:
  assumes "distinct (map fst xs)" and "(k, e) \<in> set xs"
  shows "set (AList.delete k xs) = set xs - {(k, e)}"
  using assms by (auto simp: AList.delete_eq eq_key_imp_eq_value)

lemma RemoveLocked_without:
  assumes ok: "mempool_ok p"
  shows "without {k} p (snd (RemoveLocked k p))"
proof (cases "map_of (mIndex p) k")
  case None
  then have "{k} \<inter> fst ` set (mIndex p) = {}" by (auto simp: map_of_eq_None_iff)
  then show ?thesis using None without_refl [OF ok] by (simp add: RemoveLocked_def)
next
  case (Some e)
  let ?p = "snd (RemoveLocked k p)"
  let ?S = "set (mIndex p)"
  note d = mempool_okD [OF ok]
  have mem: "(k, e) \<in> ?S" using Some by (rule map_of_SomeD)
  have uniq: "(k', e') = (k, e)" if "(k', e') \<in> ?S" "eSeq e' = eSeq e" for k' e'
    using pool_entry_unique [OF ok that(1) mem] that(2) by simp
  have idx: "mIndex ?p = filter (\<lambda>x. fst x \<noteq> k) (mIndex p)"
    using Some by (auto simp: RemoveLocked_def AList.delete_eq intro: filter_cong)
  have S: "set (mIndex ?p) = ?S - {(k, e)}"
    using Some delete_minus [OF d(1) mem] by (simp add: RemoveLocked_def)
  have "set (mByFeeRate ?p) = (\<lambda>(k, e). ((eFeePerK e, eSeq e), k)) ` set (mIndex ?p)"
    unfolding S using Some keyed_image_minus [of ?S e k eFeePerK, OF uniq]
    by (simp add: RemoveLocked_def set_omap_erase d(6))
  moreover have "set (mByTime ?p) = (\<lambda>(k, e). ((eEntryTime e, eSeq e), k)) ` set (mIndex ?p)"
    unfolding S using Some keyed_image_minus [of ?S e k eEntryTime, OF uniq]
    by (simp add: RemoveLocked_def set_omap_erase d(8))
  moreover have "map_of (mSpends ?p) op = Some k' \<longleftrightarrow>
      (\<exists>e. (k', e) \<in> set (mIndex ?p) \<and> op \<in> spent_keys e)" for op k'
    unfolding S using Some pool_entry_unique [OF ok mem, of k']
    by (auto simp: RemoveLocked_def map_of_fold_delete d(9) spent_keys_def)
  moreover have "map_of (mLeafSpends ?p) lk = Some k' \<longleftrightarrow>
      (\<exists>e. (k', e) \<in> set (mIndex ?p) \<and> lk \<in> set (eLeafKeys e))" for lk k'
    unfolding S using Some pool_entry_unique [OF ok mem, of k']
    by (auto simp: RemoveLocked_def map_of_fold_delete [where f = id, simplified] d(10))
  moreover have "mTotalBytes ?p = (\<Sum>x \<leftarrow> mIndex ?p. eSize (snd x))"
    unfolding idx sum_list_delete [OF d(1) mem] using Some d(11) by (simp add: RemoveLocked_def)
  moreover have "omap_ok (mByFeeRate ?p)" "omap_ok (mByTime ?p)"
      "mSequenceCounter ?p = mSequenceCounter p"
    using Some d(5,7) by (simp_all add: RemoveLocked_def omap_ok_erase)
  moreover have "distinct (map fst (mIndex ?p))" "inj_on (\<lambda>x. eSeq (snd x)) (set (mIndex ?p))"
    unfolding S using d(1) inj_on_diff [OF d(4)] by (simp_all add: idx distinct_map_filter)
  moreover have "\<forall>(k, e) \<in> set (mIndex ?p). pool_entry_ok k e \<and> eSeq e \<le> mSequenceCounter p"
    unfolding S using d(2,3) by blast
  ultimately have "mempool_ok ?p" unfolding mempool_ok_def by simp
  then show ?thesis using Some by (simp add: without_def idx) (simp add: RemoveLocked_def)
qed

lemma remove_all_without:
  "mempool_ok p \<Longrightarrow> without (set ks) p (snd (remove_all ks n p))"
proof (induction ks arbitrary: n p)
  case Nil
  then show ?case by (simp add: without_refl)
next
  case (Cons k ks)
  have one: "without {k} p (snd (RemoveLocked k p))" using Cons.prems by (rule RemoveLocked_without)
  moreover from one have "mempool_ok (snd (RemoveLocked k p))" by (simp add: without_def)
  ultimately show ?case
    using without_trans [OF one Cons.IH] by (simp add: split_def)
qed

lemma RemoveRecursiveLocked_without:
  "mempool_ok p \<Longrightarrow> without (set (CollectDescendantsLocked k p)) p (snd (RemoveRecursiveLocked k p))"
  using remove_all_without [of p "rev (CollectDescendantsLocked k p)"]
  by (simp add: RemoveRecursiveLocked_def)

lemma set_CollectDescendantsLocked:
  "set (CollectDescendantsLocked k p) = (edges (children p))\<^sup>* `` {k}"
  by (simp add: CollectDescendantsLocked_def descendants.set_search)

section \<open>Insertion, eviction and expiry keep it too\<close>

lemma pool_ok_rolling [simp]:
  "mempool_ok (p\<lparr>mRollingMinFeeRate := r\<rparr>) = mempool_ok p"
  "mempool_ok (p\<lparr>mLastRollingFeeUpdate := s\<rparr>) = mempool_ok p"
  "mempool_ok (p\<lparr>mBlockSinceFeeBump := b\<rparr>) = mempool_ok p"
  by (simp_all add: mempool_ok_def)

lemma Mempool_init_ok [simp]: "mempool_ok (Mempool_init n)"
  by (simp add: mempool_ok_def Mempool_init_def omap_ok_def)

lemma Mempool_Clear_ok [simp]: "mempool_ok (Mempool_Clear p)"
  by (simp add: mempool_ok_def Mempool_Clear_def omap_ok_def)

lemma word_less_Suc:
  fixes c :: u64
  assumes "unat c + 1 < 2 ^ 64"
  shows "c < c + 1" and "unat (c + 1) = unat c + 1"
proof -
  have "c + 1 = word_of_nat (unat c + 1)" by simp
  then show eq: "unat (c + 1) = unat c + 1" using assms
    by (simp only: unsigned_of_nat take_bit_nat_eq_self len_num1 len_bit0 mult_1_right)
      (simp add: take_bit_nat_eq_self)
  then show "c < c + 1" unfolding word_less_nat_alt by linarith
qed

lemma update_new: "k \<notin> fst ` set al \<Longrightarrow> AList.update k v al = al @ [(k, v)]"
  by (induction al) auto

lemma pool_ok_insert:
  assumes ok: "mempool_ok p" and new: "k \<notin> fst ` set (mIndex p)" and e: "pool_entry_ok k e"
    and seq: "eSeq e = mSequenceCounter p + 1" "unat (mSequenceCounter p) + 1 < 2 ^ 64"
    and spends: "\<forall>op \<in> spent_keys e. map_of (mSpends p) op = None"
    and leaves: "\<forall>lk \<in> set (eLeafKeys e). map_of (mLeafSpends p) lk = None"
  shows "mempool_ok (insert_entry k e p)" and "mIndex (insert_entry k e p) = mIndex p @ [(k, e)]"
proof -
  let ?p = "insert_entry k e p"
  note d = mempool_okD [OF ok]
  have up: "mSequenceCounter p < eSeq e" using word_less_Suc(1) [OF seq(2)] seq(1) by simp
  then have fresh: "eSeq e' < eSeq e" if "(k', e') \<in> set (mIndex p)" for k' e'
    using d(3) [OF that] by simp
  have idx: "mIndex ?p = mIndex p @ [(k, e)]"
    using new by (simp add: insert_entry_def update_new)
  show "mIndex ?p = mIndex p @ [(k, e)]" by (rule idx)
  have fee: "set (mByFeeRate ?p) =
      insert ((eFeePerK e, eSeq e), k) {x \<in> set (mByFeeRate p). fst x \<noteq> (eFeePerK e, eSeq e)}"
    by (simp add: insert_entry_def set_omap_put [OF d(5)])
  have time: "set (mByTime ?p) =
      insert ((eEntryTime e, eSeq e), k) {x \<in> set (mByTime p). fst x \<noteq> (eEntryTime e, eSeq e)}"
    by (simp add: insert_entry_def set_omap_put [OF d(7)])
  have sp: "map_of (mSpends ?p) op = (if op \<in> spent_keys e then Some k else map_of (mSpends p) op)" for op
    by (simp add: insert_entry_def map_of_fold_update spent_keys_def)
  have lf: "map_of (mLeafSpends ?p) lk =
      (if lk \<in> set (eLeafKeys e) then Some k else map_of (mLeafSpends p) lk)" for lk
    by (simp add: insert_entry_def map_of_fold_update [where f = id, simplified])
  have "set (mByFeeRate ?p) = (\<lambda>(k, e). ((eFeePerK e, eSeq e), k)) ` set (mIndex ?p)"
    unfolding fee d(6) idx using fresh by fastforce
  moreover have "set (mByTime ?p) = (\<lambda>(k, e). ((eEntryTime e, eSeq e), k)) ` set (mIndex ?p)"
    unfolding time d(8) idx using fresh by fastforce
  moreover have "map_of (mSpends ?p) op = Some k' \<longleftrightarrow>
      (\<exists>e. (k', e) \<in> set (mIndex ?p) \<and> op \<in> spent_keys e)" for op k'
    unfolding sp idx using spends d(9) [of op k'] by auto
  moreover have "map_of (mLeafSpends ?p) lk = Some k' \<longleftrightarrow>
      (\<exists>e. (k', e) \<in> set (mIndex ?p) \<and> lk \<in> set (eLeafKeys e))" for lk k'
    unfolding lf idx using leaves d(10) [of lk k'] by auto
  moreover have "mTotalBytes ?p = (\<Sum>x \<leftarrow> mIndex ?p. eSize (snd x))"
    by (simp add: idx) (simp add: insert_entry_def d(11))
  moreover have "omap_ok (mByFeeRate ?p)" "omap_ok (mByTime ?p)"
    using d(5,7) by (simp_all add: insert_entry_def omap_ok_put)
  moreover have "distinct (map fst (mIndex ?p))" using d(1) new by (simp add: idx)
  moreover have "inj_on (\<lambda>x. eSeq (snd x)) (set (mIndex ?p))"
    using d(4) fresh by (force simp: idx)
  moreover have "\<forall>(k, e) \<in> set (mIndex ?p). pool_entry_ok k e \<and> eSeq e \<le> mSequenceCounter ?p"
    unfolding idx using d(2) order.strict_implies_order [OF fresh] e seq(1)
    by (auto simp: insert_entry_def)
  ultimately show "mempool_ok ?p" unfolding mempool_ok_def by simp
qed

text \<open>The head of an ordered map names an entry, so each round of the loops removes one.\<close>

lemma heads_indexed:
  assumes "mempool_ok p"
  shows "mByFeeRate p = ((r, s), k) # m \<Longrightarrow>
      \<exists>e. (k, e) \<in> set (mIndex p) \<and> eFeePerK e = r \<and> eSeq e = s"
    and "mByTime p = ((r, s), k) # m \<Longrightarrow> \<exists>e. (k, e) \<in> set (mIndex p) \<and> eEntryTime e = r \<and> eSeq e = s"
proof -
  assume "mByFeeRate p = ((r, s), k) # m"
  then have "((r, s), k) \<in> (\<lambda>(k, e). ((eFeePerK e, eSeq e), k)) ` set (mIndex p)"
    unfolding mempool_okD(6) [OF assms, symmetric] by simp
  then show "\<exists>e. (k, e) \<in> set (mIndex p) \<and> eFeePerK e = r \<and> eSeq e = s" by auto
next
  assume "mByTime p = ((r, s), k) # m"
  then have "((r, s), k) \<in> (\<lambda>(k, e). ((eEntryTime e, eSeq e), k)) ` set (mIndex p)"
    unfolding mempool_okD(8) [OF assms, symmetric] by simp
  then show "\<exists>e. (k, e) \<in> set (mIndex p) \<and> eEntryTime e = r \<and> eSeq e = s" by auto
qed

lemma without_shrinks:
  assumes "without K p p'" and "k \<in> K" and "(k, e) \<in> set (mIndex p)"
  shows "length (mIndex p') < length (mIndex p)"
  using assms length_filter_less [of "(k, e)" "mIndex p"] by (simp add: without_def)

lemma no_entries:
  assumes "mempool_ok p"
  shows "mByFeeRate p = [] \<longleftrightarrow> mIndex p = []" and "mByTime p = [] \<longleftrightarrow> mIndex p = []"
proof -
  have "set (mByFeeRate p) = {} \<longleftrightarrow> set (mIndex p) = {}" unfolding mempool_okD(6) [OF assms] by simp
  then show "mByFeeRate p = [] \<longleftrightarrow> mIndex p = []" by simp
  have "set (mByTime p) = {} \<longleftrightarrow> set (mIndex p) = {}" unfolding mempool_okD(8) [OF assms] by simp
  then show "mByTime p = [] \<longleftrightarrow> mIndex p = []" by simp
qed

definition subpool :: "Mempool \<Rightarrow> Mempool \<Rightarrow> bool" where
  "subpool p' p \<longleftrightarrow> mempool_ok p' \<and> set (mIndex p') \<subseteq> set (mIndex p) \<and>
     mMaxBytes p' = mMaxBytes p \<and> mSequenceCounter p' = mSequenceCounter p"

lemma subpool_trans: "subpool p'' p' \<Longrightarrow> subpool p' p \<Longrightarrow> subpool p'' p"
  by (auto simp: subpool_def)

lemma without_subpool: "without K p p' \<Longrightarrow> subpool p' p"
  by (auto simp: without_def subpool_def)

lemma bump_fee_tables [simp]:
  "mIndex (bump_fee fp now r p) = mIndex p" "mByFeeRate (bump_fee fp now r p) = mByFeeRate p"
  "mMaxBytes (bump_fee fp now r p) = mMaxBytes p" "mempool_ok (bump_fee fp now r p) = mempool_ok p"
  "mSequenceCounter (bump_fee fp now r p) = mSequenceCounter p" "mSpends (bump_fee fp now r p) = mSpends p"
  by (simp_all add: bump_fee_def Let_def)

lemma TrimLocked_returns:
  assumes "mempool_ok p"
  shows "\<exists>p'. TrimLocked fp now p = Some p' \<and> subpool p' p \<and> mTotalBytes p' \<le> mMaxBytes p'"
  using assms
proof (induction "length (mIndex p)" arbitrary: p rule: less_induct)
  case less
  show ?case
  proof (cases "mTotalBytes p > mMaxBytes p \<and> mByFeeRate p \<noteq> []")
    case False
    have "mTotalBytes p \<le> mMaxBytes p"
      using False no_entries(1) [OF less.prems] mempool_okD(11) [OF less.prems] by (cases "mIndex p = []") auto
    then show ?thesis
      using False less.prems by (simp add: TrimLocked.simps [of fp now p] subpool_def)
  next
    case True
    then obtain r s k m where hd: "mByFeeRate p = ((r, s), k) # m" by (cases "mByFeeRate p") auto
    obtain e where e: "(k, e) \<in> set (mIndex p)" using heads_indexed(1) [OF less.prems hd] by blast
    let ?b = "bump_fee fp now r p"
    let ?p = "snd (RemoveRecursiveLocked k ?b)"
    have w: "without (set (CollectDescendantsLocked k ?b)) ?b ?p"
      by (rule RemoveRecursiveLocked_without) (simp add: less.prems)
    have "length (mIndex ?p) < length (mIndex p)"
      using without_shrinks [OF w, of k e] e by (simp add: set_CollectDescendantsLocked Image_iff)
    moreover have sub: "subpool ?p p" using without_subpool [OF w] by (simp add: subpool_def)
    ultimately obtain p' where "TrimLocked fp now ?p = Some p'" "subpool p' ?p"
        "mTotalBytes p' \<le> mMaxBytes p'"
      using less.hyps [of ?p] by (auto simp: subpool_def)
    then show ?thesis
      using True hd subpool_trans [OF _ sub] by (auto simp: TrimLocked.simps [of fp now p])
  qed
qed

lemma TrimLocked_within: "mTotalBytes p \<le> mMaxBytes p \<Longrightarrow> TrimLocked fp now p = Some p"
  by (simp add: TrimLocked.simps [of fp now p])

text \<open>Expiry removes exactly the entries older than the cutoff.\<close>

definition stale :: "int \<Rightarrow> Mempool \<Rightarrow> string set" where
  "stale cutoff p = {k. \<exists>e. (k, e) \<in> set (mIndex p) \<and> eEntryTime e < cutoff}"

lemma no_stale:
  assumes "mempool_ok p" and "\<not> (mByTime p \<noteq> [] \<and> fst (fst (hd (mByTime p))) < cutoff)"
  shows "stale cutoff p = {}"
proof -
  have "cutoff \<le> eEntryTime e" if "(k, e) \<in> set (mIndex p)" for k e
  proof -
    have mem: "((eEntryTime e, eSeq e), k) \<in> set (mByTime p)"
      using that unfolding mempool_okD(8) [OF assms(1)] by force
    then obtain x m where m: "mByTime p = x # m" by (cases "mByTime p") auto
    have "fst x \<le> (eEntryTime e, eSeq e)"
      using mempool_okD(7) [OF assms(1)] mem unfolding m omap_ok_def by force
    then have "fst (fst x) \<le> eEntryTime e" by (cases "fst x") auto
    then show ?thesis using assms(2) m by simp
  qed
  then show ?thesis by (force simp: stale_def)
qed

lemma stale_step:
  assumes "mempool_ok p" and "(k, e) \<in> set (mIndex p)" and "eEntryTime e < cutoff" and "without {k} p p'"
  shows "{k} \<union> stale cutoff p' = stale cutoff p"
  using assms by (auto simp: stale_def without_def)

lemma expire_loop_returns:
  assumes "mempool_ok p"
  shows "\<exists>n p'. expire_loop cutoff removed p = Some (n, p') \<and> without (stale cutoff p) p p'"
  using assms
proof (induction "length (mIndex p)" arbitrary: p removed rule: less_induct)
  case less
  show ?case
  proof (cases "mByTime p \<noteq> [] \<and> fst (fst (hd (mByTime p))) < cutoff")
    case False
    then show ?thesis
      using less.prems no_stale [OF less.prems False] without_refl [OF less.prems, of "{}"]
      by (simp add: expire_loop.simps [of cutoff removed p] del: de_Morgan_conj)
  next
    case True
    then obtain r s k m where hd: "mByTime p = ((r, s), k) # m" by (cases "mByTime p") auto
    then obtain e where e: "(k, e) \<in> set (mIndex p)" "eEntryTime e < cutoff"
      using heads_indexed(2) [OF less.prems hd] True by auto
    let ?p = "snd (RemoveLocked k p)"
    have w: "without {k} p ?p" by (rule RemoveLocked_without) (rule less.prems)
    have "length (mIndex ?p) < length (mIndex p)" using without_shrinks [OF w _ e(1)] by simp
    moreover have "mempool_ok ?p" using w by (simp add: without_def)
    ultimately obtain n p' where run: "expire_loop cutoff (Suc removed) ?p = Some (n, p')"
        and w': "without (stale cutoff ?p) ?p p'"
      using less.hyps [of ?p] by blast
    have "without (stale cutoff p) p p'"
      using without_trans [OF w w'] stale_step [OF less.prems e w] by simp
    then show ?thesis
      using True hd run by (auto simp: expire_loop.simps [of cutoff removed p])
  qed
qed

section \<open>Admission\<close>

text \<open>Apart from the rolling rate, the policy checks only read the pool.\<close>

definition same_tables :: "Mempool \<Rightarrow> Mempool \<Rightarrow> bool" where
  "same_tables p' p \<longleftrightarrow>
     (\<exists>r s. p' = p\<lparr>mRollingMinFeeRate := r, mLastRollingFeeUpdate := s\<rparr>)"

lemma same_tables_refl [simp]: "same_tables p p"
  unfolding same_tables_def
  by (rule exI [of _ "mRollingMinFeeRate p"], rule exI [of _ "mLastRollingFeeUpdate p"]) simp

lemma same_tablesD:
  assumes "same_tables p' p"
  shows "mIndex p' = mIndex p" "mSpends p' = mSpends p" "mLeafSpends p' = mLeafSpends p"
    "mByFeeRate p' = mByFeeRate p" "mMaxBytes p' = mMaxBytes p" "mTotalBytes p' = mTotalBytes p"
    "mSequenceCounter p' = mSequenceCounter p" "mempool_ok p' = mempool_ok p"
  using assms by (auto simp: same_tables_def)

lemma GetMinFeeRateLocked_same: "same_tables (snd (GetMinFeeRateLocked fp now p)) p"
proof -
  have two: "same_tables (p\<lparr>mRollingMinFeeRate := r, mLastRollingFeeUpdate := s\<rparr>) p" for r s
    unfolding same_tables_def by blast
  have "p\<lparr>mLastRollingFeeUpdate := s, mRollingMinFeeRate := r\<rparr> =
      p\<lparr>mRollingMinFeeRate := r, mLastRollingFeeUpdate := s\<rparr>" for r s
    by (cases p) simp
  with two have "same_tables (p\<lparr>mLastRollingFeeUpdate := s, mRollingMinFeeRate := r\<rparr>) p" for r s
    by metis
  with two show ?thesis by (simp add: GetMinFeeRateLocked_def Let_def)
qed

lemma pool_policy_same: "same_tables (snd (pool_policy fp now tx fee p)) p"
  using GetMinFeeRateLocked_same [of fp now p]
  by (auto simp: pool_policy_def Let_def split: sum.splits prod.splits)

lemma ValidateForPool_True:
  "ValidateForPool tx fee p = Inr True \<Longrightarrow>
     Transaction_IsValid tx = Inr True \<and> \<not> IsCoinbase tx \<and> 0 \<le> fee \<and>
     HashToKey (GetHash tx) \<notin> fst ` set (mIndex p)"
  by (auto simp: ValidateForPool_def rbind_eq_Inr_iff map_of_eq_None_iff split: if_splits)

lemma pool_policy_True:
  assumes "pool_policy fp now tx fee p = (Inr True, p')"
  shows "Transaction_IsValid tx = Inr True" "\<not> IsCoinbase tx" "0 \<le> fee"
    and "HashToKey (GetHash tx) \<notin> fst ` set (mIndex p)"
    and "\<forall>input \<in> set (mInputs tx). map_of (mSpends p) (input_key input) = None"
    and "\<forall>lk \<in> set (snd (ExtractLeafKeys tx)). map_of (mLeafSpends p) lk = None"
    and "distinct (snd (ExtractLeafKeys tx))"
    and "0 < Transaction_GetSerializedSize True tx"
    and "fst (GetMinFeeRateLocked fp now p) \<le> fee_per_k fee (Transaction_GetSerializedSize True tx)"
    and "CountAncestorsLocked tx p' \<le> MAX_ANCESTORS"
    and "\<forall>parent \<in> set (pool_parents p' tx). CountDescendantsLocked parent p' < MAX_DESCENDANTS"
  using assms ValidateForPool_True [of tx fee p]
  by (auto simp: pool_policy_def Let_def list_ex_iff split: sum.splits if_splits prod.splits)

lemma new_entry_ok:
  assumes "pool_policy fp now tx fee p = (Inr True, p')"
  shows "pool_entry_ok (HashToKey (GetHash tx)) (new_entry now tx fee p')"
  using pool_policy_True [OF assms] by (simp add: pool_entry_ok_def new_entry_def Let_def)

lemma insert_new_entry:
  fixes tx defines "k \<equiv> HashToKey (GetHash tx)"
  assumes ok: "mempool_ok p" and pol: "pool_policy fp now tx fee p = (Inr True, p')"
    and room: "unat (mSequenceCounter p) + 1 < 2 ^ 64"
  shows "mempool_ok (insert_entry k (new_entry now tx fee p') p')"
    and "mIndex (insert_entry k (new_entry now tx fee p') p') = mIndex p @ [(k, new_entry now tx fee p')]"
    and "mMaxBytes (insert_entry k (new_entry now tx fee p') p') = mMaxBytes p"
    and "unat (mSequenceCounter (insert_entry k (new_entry now tx fee p') p')) =
      unat (mSequenceCounter p) + 1"
proof -
  have s: "same_tables p' p" using pool_policy_same [of fp now tx fee p] pol by simp
  note t = same_tablesD [OF s] and a = pool_policy_True [OF pol]
  have e: "eTx (new_entry now tx fee p') = tx" "eLeafKeys (new_entry now tx fee p') = snd (ExtractLeafKeys tx)"
      "eSeq (new_entry now tx fee p') = mSequenceCounter p' + 1"
    by (simp_all add: new_entry_def Let_def)
  have "\<forall>op \<in> spent_keys (new_entry now tx fee p'). map_of (mSpends p') op = None"
    using a(5) by (simp add: spent_keys_def e t)
  moreover have "\<forall>lk \<in> set (eLeafKeys (new_entry now tx fee p')). map_of (mLeafSpends p') lk = None"
    using a(6) by (simp add: e t)
  ultimately show "mempool_ok (insert_entry k (new_entry now tx fee p') p')"
      "mIndex (insert_entry k (new_entry now tx fee p') p') = mIndex p @ [(k, new_entry now tx fee p')]"
    using pool_ok_insert [of p' k "new_entry now tx fee p'"] ok a(4) new_entry_ok [OF pol] room
    by (simp_all add: t e k_def)
  show "mMaxBytes (insert_entry k (new_entry now tx fee p') p') = mMaxBytes p"
    by (simp add: insert_entry_def t)
  show "unat (mSequenceCounter (insert_entry k (new_entry now tx fee p') p')) =
      unat (mSequenceCounter p) + 1"
    using word_less_Suc(2) [OF room] by (simp add: insert_entry_def t)
qed

lemma without_bytes: "mempool_ok p \<Longrightarrow> without K p p' \<Longrightarrow> mTotalBytes p' \<le> mTotalBytes p"
  using mempool_okD(11) [of p] mempool_okD(11) [of p']
    sum_list_filter_le_nat [of "\<lambda>x. eSize (snd x)" "\<lambda>x. fst x \<notin> K" "mIndex p"]
  by (simp add: without_def)

lemma Mempool_AddTransaction_returns:
  assumes ok: "mempool_ok p" and room: "unat (mSequenceCounter p) + 1 < 2 ^ 64"
  shows "\<exists>r p'. Mempool_AddTransaction fp now tx fee p = Some (r, p') \<and> mempool_ok p' \<and>
    mMaxBytes p' = mMaxBytes p \<and> unat (mSequenceCounter p') \<le> unat (mSequenceCounter p) + 1 \<and>
    (mTotalBytes p \<le> mMaxBytes p \<longrightarrow> mTotalBytes p' \<le> mMaxBytes p')"
proof -
  obtain n q where ex: "ExpireLocked now p = Some (n, q)"
      and w: "without (stale (now - MEMPOOL_EXPIRY_SECONDS) p) p q"
    using expire_loop_returns [OF ok] unfolding ExpireLocked_def by blast
  have q: "mempool_ok q" "mMaxBytes q = mMaxBytes p" "mSequenceCounter q = mSequenceCounter p"
      "mTotalBytes q \<le> mTotalBytes p"
    using w without_bytes [OF ok w] by (simp_all add: without_def)
  obtain r q' where pol: "pool_policy fp now tx fee q = (r, q')" by (cases "pool_policy fp now tx fee q")
  note t = same_tablesD [of q' q]
  have s: "same_tables q' q" using pool_policy_same [of fp now tx fee q] pol by simp
  show ?thesis
  proof (cases "r = Inr True")
    case True
    let ?p = "insert_entry (HashToKey (GetHash tx)) (new_entry now tx fee q') q'"
    note i = insert_new_entry [OF q(1) pol [unfolded True] room [folded q(3)]]
    obtain p' where "TrimLocked fp now ?p = Some p'" "subpool p' ?p" "mTotalBytes p' \<le> mMaxBytes p'"
      using TrimLocked_returns [OF i(1)] by blast
    then show ?thesis
      using True i ex pol q by (auto simp: Mempool_AddTransaction_def Let_def subpool_def)
  next
    case False
    then have "Mempool_AddTransaction fp now tx fee p = Some (r, q')"
      using ex pol by (auto simp: Mempool_AddTransaction_def split: sum.splits bool.splits)
    then show ?thesis using q t [OF s] by auto
  qed
qed

end
