(* ===== verification/Pool_Policy.thy ===== *)
theory Pool_Policy
  imports Pool_Invariant
begin

text \<open>
  What the memory pool promises: connected blocks clear it of conflicts and of nothing
  else, eviction is a fee auction, every run of its operations keeps it consistent and
  within its byte budget, and block assembly is offered the best fee rates.
\<close>

section \<open>Connected blocks\<close>

text \<open>
  \<open>spares D p q\<close>: \<open>q\<close> is \<open>p\<close> after removals that touched only keys in \<open>D\<close>. A set
  closed under spending in \<open>p\<close> stays closed in \<open>q\<close>, so removing a member with its
  descendants spares everything else.
\<close>

definition spares :: "string set \<Rightarrow> Mempool \<Rightarrow> Mempool \<Rightarrow> bool" where
  "spares D p q \<longleftrightarrow> subpool q p \<and> (\<forall>(k, e) \<in> set (mIndex p). k \<notin> D \<longrightarrow> (k, e) \<in> set (mIndex q))"

lemma in_children:
  "c \<in> set (children p k) \<longleftrightarrow> (\<exists>e i. map_of (mIndex p) k = Some e \<and> i < length (mOutputs (eTx e)) \<and>
     map_of (mSpends p) (OutpointKey (GetHash (eTx e)) (of_nat i)) = Some c)"
  by (cases "map_of (mIndex p) k") (force simp: children_def List.map_filter_def)+

lemma subpool_children:
  assumes "mempool_ok p" and "subpool q p"
  shows "set (children q k) \<subseteq> set (children p k)"
proof
  fix c assume c: "c \<in> set (children q k)"
  have q: "mempool_ok q" "set (mIndex q) \<subseteq> set (mIndex p)" using assms(2) by (simp_all add: subpool_def)
  obtain e i where e: "map_of (mIndex q) k = Some e" "i < length (mOutputs (eTx e))"
      "map_of (mSpends q) (OutpointKey (GetHash (eTx e)) (of_nat i)) = Some c"
    using c unfolding in_children by blast
  have "map_of (mIndex p) k = Some e"
    using map_of_SomeD [OF e(1)] q(2) mempool_okD(1) [OF assms(1)] by (auto intro: map_of_is_SomeI)
  moreover have "map_of (mSpends p) (OutpointKey (GetHash (eTx e)) (of_nat i)) = Some c"
    using e(3) q(2) unfolding mempool_okD(9) [OF q(1)] mempool_okD(9) [OF assms(1)] by blast
  ultimately show "c \<in> set (children p k)"
    using e(2) unfolding in_children by blast
qed

lemma closed_reach: "f `` D \<subseteq> D \<Longrightarrow> k \<in> D \<Longrightarrow> f\<^sup>* `` {k} \<subseteq> D"
  by (metis Image_closed_trancl Image_mono empty_subsetI insert_subset subset_refl)

lemma spares_remove:
  assumes ok: "mempool_ok p" and sp: "spares D p q" and closed: "edges (children p) `` D \<subseteq> D" and k: "k \<in> D"
  shows "spares D p (snd (RemoveRecursiveLocked k q))"
    and "k \<notin> fst ` set (mIndex (snd (RemoveRecursiveLocked k q)))"
    and "subpool (snd (RemoveRecursiveLocked k q)) q"
proof -
  let ?q = "snd (RemoveRecursiveLocked k q)"
  have sub: "subpool q p" using sp by (simp add: spares_def)
  then have "mempool_ok q" by (simp add: subpool_def)
  note w = RemoveRecursiveLocked_without [OF this, of k]
  have "edges (children q) `` D \<subseteq> D"
    using closed subpool_children [OF ok sub] by (fastforce simp: edges_def)
  then have "set (CollectDescendantsLocked k q) \<subseteq> D"
    unfolding set_CollectDescendantsLocked by (rule closed_reach) (rule k)
  then show "spares D p ?q"
    using w sp subpool_trans [OF without_subpool [OF w] sub] by (auto simp: spares_def without_def)
  show "k \<notin> fst ` set (mIndex ?q)"
    using w by (auto simp: without_def set_CollectDescendantsLocked)
  show "subpool ?q q" by (rule without_subpool [OF w])
qed

text \<open>
  One loop over the outpoints or leaves of a confirmed transaction, for the table
  \<open>table\<close> that indexes the keys \<open>sel\<close> of the entries.
\<close>

lemma conflict_loop:
  assumes ok: "mempool_ok p" and closed: "edges (children p) `` D \<subseteq> D"
    and table: "\<And>q x k. mempool_ok q \<Longrightarrow>
      map_of (table q) x = Some k \<longleftrightarrow> (\<exists>e. (k, e) \<in> set (mIndex q) \<and> x \<in> sel e)"
    and D: "\<And>k e x. (k, e) \<in> set (mIndex p) \<Longrightarrow> x \<in> set xs \<Longrightarrow> x \<in> sel e \<Longrightarrow> k \<in> D"
    and sp: "spares D p q"
  shows "spares D p (fold (\<lambda>x q. remove_conflict (table q) x q) xs q) \<and>
    subpool (fold (\<lambda>x q. remove_conflict (table q) x q) xs q) q \<and>
    (\<forall>(k, e) \<in> set (mIndex (fold (\<lambda>x q. remove_conflict (table q) x q) xs q)). set xs \<inter> sel e = {})"
  using D sp
proof (induction xs arbitrary: q)
  case Nil
  then show ?case by (simp add: spares_def subpool_def)
next
  case (Cons x xs)
  let ?q = "remove_conflict (table q) x q"
  have q: "mempool_ok q" "set (mIndex q) \<subseteq> set (mIndex p)"
    using Cons.prems(2) by (simp_all add: spares_def subpool_def)
  have step: "spares D p ?q \<and> subpool ?q q \<and> (\<forall>(k, e) \<in> set (mIndex ?q). x \<notin> sel e)"
  proof (cases "map_of (table q) x")
    case None
    then have "\<not> (\<exists>k e. (k, e) \<in> set (mIndex q) \<and> x \<in> sel e)" using table [OF q(1), of x] by auto
    then show ?thesis using None Cons.prems(2) q(1) by (auto simp: remove_conflict_def subpool_def)
  next
    case (Some k0)
    then obtain e0 where "(k0, e0) \<in> set (mIndex q)" "x \<in> sel e0" using table [OF q(1)] by blast
    then have "k0 \<in> D" using Cons.prems(1) [of k0 e0 x] q(2) by auto
    note r = spares_remove [OF ok Cons.prems(2) closed this]
    have "x \<notin> sel e" if "(k, e) \<in> set (mIndex (snd (RemoveRecursiveLocked k0 q)))" for k e
    proof
      assume "x \<in> sel e"
      moreover have "(k, e) \<in> set (mIndex q)" using that r(3) by (auto simp: subpool_def)
      ultimately have "k = k0" using table [OF q(1), of x k] Some by auto
      then show False using that r(2) image_eqI [of k fst "(k, e)"] by simp
    qed
    then show ?thesis using Some r(1,3) by (auto simp: remove_conflict_def)
  qed
  have IH: "spares D p (fold (\<lambda>x q. remove_conflict (table q) x q) xs ?q) \<and>
    subpool (fold (\<lambda>x q. remove_conflict (table q) x q) xs ?q) ?q \<and>
    (\<forall>(k, e) \<in> set (mIndex (fold (\<lambda>x q. remove_conflict (table q) x q) xs ?q)). set xs \<inter> sel e = {})"
    using Cons.prems(1) step by (intro Cons.IH) auto
  let ?r = "fold (\<lambda>x q. remove_conflict (table q) x q) xs ?q"
  have "set (x # xs) \<inter> sel e = {}" if "(k, e) \<in> set (mIndex ?r)" for k e
  proof -
    have "(k, e) \<in> set (mIndex ?q)" using IH that by (auto simp: subpool_def)
    then show ?thesis using IH step that by auto
  qed
  moreover have "subpool ?r q" using IH step subpool_trans by blast
  ultimately show ?case using IH by auto
qed

text \<open>What a confirmed transaction rules out, and the roots of what a block removes.\<close>

definition ruled_out :: "Transaction \<Rightarrow> string \<Rightarrow> Entry \<Rightarrow> bool" where
  "ruled_out tx k e \<longleftrightarrow> k = HashToKey (GetHash tx) \<or>
     input_key ` set (mInputs tx) \<inter> spent_keys e \<noteq> {} \<or>
     fst (ExtractLeafKeys tx) \<and> set (snd (ExtractLeafKeys tx)) \<inter> set (eLeafKeys e) \<noteq> {}"

lemma fold_map_key: "fold (\<lambda>x. g (f x)) xs = fold g (map f xs)"
  by (simp add: fold_map comp_def)

lemma remove_confirmed_spec:
  assumes ok: "mempool_ok p" and closed: "edges (children p) `` D \<subseteq> D" and sp: "spares D p q"
    and cb: "\<not> IsCoinbase tx" and key: "HashToKey (GetHash tx) \<in> D"
    and D: "\<And>k e. (k, e) \<in> set (mIndex p) \<Longrightarrow> ruled_out tx k e \<Longrightarrow> k \<in> D"
  shows "spares D p (remove_confirmed tx q) \<and> subpool (remove_confirmed tx q) q \<and>
    (\<forall>(k, e) \<in> set (mIndex (remove_confirmed tx q)). \<not> ruled_out tx k e)"
proof -
  define q1 where "q1 = snd (RemoveRecursiveLocked (HashToKey (GetHash tx)) q)"
  define q2 where "q2 = fold (\<lambda>x q. remove_conflict (mSpends q) x q) (map input_key (mInputs tx)) q1"
  define q3 where "q3 = (if fst (ExtractLeafKeys tx)
    then fold (\<lambda>x q. remove_conflict (mLeafSpends q) x q) (snd (ExtractLeafKeys tx)) q2 else q2)"
  have eq: "remove_confirmed tx q = q3"
    using cb fold_map_key [of "\<lambda>x q. remove_conflict (mSpends q) x q" input_key "mInputs tx"]
    by (auto simp: remove_confirmed_def q1_def q2_def q3_def Let_def split_def split: bool.split)
  note r1 = spares_remove [OF ok sp closed key, folded q1_def]
  have r2: "spares D p q2 \<and> subpool q2 q1 \<and>
      (\<forall>(k, e) \<in> set (mIndex q2). set (map input_key (mInputs tx)) \<inter> spent_keys e = {})"
    unfolding q2_def
    by (rule conflict_loop [OF ok closed _ _ r1(1)], erule mempool_okD(9), rule D, assumption)
      (auto simp: ruled_out_def)
  have r3: "spares D p q3 \<and> subpool q3 q2 \<and> (fst (ExtractLeafKeys tx) \<longrightarrow>
      (\<forall>(k, e) \<in> set (mIndex q3). set (snd (ExtractLeafKeys tx)) \<inter> set (eLeafKeys e) = {}))"
  proof (cases "fst (ExtractLeafKeys tx)")
    case True
    have "spares D p (fold (\<lambda>x q. remove_conflict (mLeafSpends q) x q) (snd (ExtractLeafKeys tx)) q2) \<and>
      subpool (fold (\<lambda>x q. remove_conflict (mLeafSpends q) x q) (snd (ExtractLeafKeys tx)) q2) q2 \<and>
      (\<forall>(k, e) \<in> set (mIndex (fold (\<lambda>x q. remove_conflict (mLeafSpends q) x q)
        (snd (ExtractLeafKeys tx)) q2)). set (snd (ExtractLeafKeys tx)) \<inter> set (eLeafKeys e) = {})"
      by (rule conflict_loop [OF ok closed _ _ conjunct1 [OF r2]], erule mempool_okD(10), rule D, assumption)
        (auto simp: ruled_out_def True)
    then show ?thesis unfolding q3_def using True by simp
  next
    case False
    then show ?thesis using r2 by (simp add: q3_def subpool_def)
  qed
  have "\<not> ruled_out tx k e" if mem: "(k, e) \<in> set (mIndex q3)" for k e
  proof -
    have m2: "(k, e) \<in> set (mIndex q2)" using mem r3 by (auto simp: subpool_def)
    then have "(k, e) \<in> set (mIndex q1)" using r2 by (auto simp: subpool_def)
    then have "k \<noteq> HashToKey (GetHash tx)" using r1(2) image_eqI [of k fst "(k, e)"] by auto
    moreover have "input_key ` set (mInputs tx) \<inter> spent_keys e = {}"
      using bspec [OF conjunct2 [OF conjunct2 [OF r2]] m2] by simp
    ultimately show ?thesis using r3 mem unfolding ruled_out_def by auto
  qed
  moreover have "subpool q3 q" using r3 r2 r1(3) subpool_trans by blast
  ultimately show ?thesis unfolding eq using r3 by blast
qed

lemma fold_remove_confirmed:
  assumes ok: "mempool_ok p" and closed: "edges (children p) `` D \<subseteq> D" and "spares D p q"
    and "\<And>tx. tx \<in> set txs \<Longrightarrow> \<not> IsCoinbase tx \<Longrightarrow> HashToKey (GetHash tx) \<in> D"
    and "\<And>tx k e. tx \<in> set txs \<Longrightarrow> \<not> IsCoinbase tx \<Longrightarrow> (k, e) \<in> set (mIndex p) \<Longrightarrow>
      ruled_out tx k e \<Longrightarrow> k \<in> D"
  shows "spares D p (fold remove_confirmed txs q) \<and> subpool (fold remove_confirmed txs q) q \<and>
    (\<forall>tx \<in> set txs. \<not> IsCoinbase tx \<longrightarrow>
      (\<forall>(k, e) \<in> set (mIndex (fold remove_confirmed txs q)). \<not> ruled_out tx k e))"
  using assms(3-)
proof (induction txs arbitrary: q)
  case Nil
  then show ?case by (simp add: spares_def subpool_def)
next
  case (Cons tx txs)
  let ?q = "remove_confirmed tx q"
  let ?r = "fold remove_confirmed txs ?q"
  have step: "spares D p ?q \<and> subpool ?q q \<and>
      (\<not> IsCoinbase tx \<longrightarrow> (\<forall>(k, e) \<in> set (mIndex ?q). \<not> ruled_out tx k e))"
  proof (cases "IsCoinbase tx")
    case True
    then show ?thesis using Cons.prems(1) by (simp add: remove_confirmed_def spares_def subpool_def)
  next
    case False
    have "spares D p ?q \<and> subpool ?q q \<and> (\<forall>(k, e) \<in> set (mIndex ?q). \<not> ruled_out tx k e)"
      by (rule remove_confirmed_spec [OF ok closed Cons.prems(1) False])
        (use False Cons.prems(2,3) in \<open>auto intro: Cons.prems(2,3)\<close>)
    then show ?thesis by simp
  qed
  have IH: "spares D p ?r \<and> subpool ?r ?q \<and> (\<forall>tx \<in> set txs. \<not> IsCoinbase tx \<longrightarrow>
      (\<forall>(k, e) \<in> set (mIndex ?r). \<not> ruled_out tx k e))"
    using step Cons.prems(2,3) by (intro Cons.IH) auto
  have "subpool ?r q" using IH step subpool_trans by blast
  moreover have "\<forall>(k, e) \<in> set (mIndex ?r). \<not> ruled_out tx k e" if "\<not> IsCoinbase tx"
  proof -
    have "set (mIndex ?r) \<subseteq> set (mIndex ?q)" using IH by (simp add: subpool_def)
    then show ?thesis using step that by blast
  qed
  ultimately show ?case using IH by simp
qed

text \<open>
  The keys a block may remove: its transactions, the entries they rule out, and
  everything in the pool that spends from those.
\<close>

definition block_doomed :: "Transaction list \<Rightarrow> Mempool \<Rightarrow> string set" where
  "block_doomed txs p = (edges (children p))\<^sup>* ``
     {k. \<exists>tx \<in> set txs. \<not> IsCoinbase tx \<and>
        (k = HashToKey (GetHash tx) \<or> (\<exists>e. (k, e) \<in> set (mIndex p) \<and> ruled_out tx k e))}"

lemma block_doomed_closed: "edges (children p) `` block_doomed txs p \<subseteq> block_doomed txs p"
  unfolding block_doomed_def by (auto intro: rtrancl_into_rtrancl)

lemma RemoveForBlock_spec:
  assumes "mempool_ok p"
  shows "spares (block_doomed txs p) p (RemoveForBlock txs p) \<and>
    (\<forall>tx \<in> set txs. \<not> IsCoinbase tx \<longrightarrow>
      (\<forall>(k, e) \<in> set (mIndex (RemoveForBlock txs p)). \<not> ruled_out tx k e))"
proof -
  have start: "spares (block_doomed txs p) p p" using assms by (auto simp: spares_def subpool_def)
  have "spares (block_doomed txs p) p (fold remove_confirmed txs p) \<and>
      subpool (fold remove_confirmed txs p) p \<and> (\<forall>tx \<in> set txs. \<not> IsCoinbase tx \<longrightarrow>
      (\<forall>(k, e) \<in> set (mIndex (fold remove_confirmed txs p)). \<not> ruled_out tx k e))"
    by (rule fold_remove_confirmed [OF assms block_doomed_closed start])
      (auto simp: block_doomed_def)
  then show ?thesis by (simp add: RemoveForBlock_def spares_def subpool_def)
qed

text \<open>
  C22. After a connected block the pool conflicts with nothing in it: no remaining
  entry is one of its payments, spends an output one of them spends, or consumes a
  noise leaf one of them consumes. Nothing else is lost: an entry disappears only if
  it, or a pool transaction it descends from, was confirmed or in conflict. The
  tables stay consistent and the decay of the rolling fee is armed.
\<close>

theorem RemoveForBlock_exact:
  assumes "mempool_ok p"
  shows "mempool_ok (RemoveForBlock txs p) \<and> mBlockSinceFeeBump (RemoveForBlock txs p) \<and>
    set (mIndex (RemoveForBlock txs p)) \<subseteq> set (mIndex p) \<and>
    (\<forall>tx \<in> set txs. \<forall>(k, e) \<in> set (mIndex (RemoveForBlock txs p)).
      \<not> IsCoinbase tx \<longrightarrow> \<not> ruled_out tx k e) \<and>
    (\<forall>(k, e) \<in> set (mIndex p) - set (mIndex (RemoveForBlock txs p)).
      \<exists>tx \<in> set txs. \<exists>k0. \<not> IsCoinbase tx \<and> (k0, k) \<in> (edges (children p))\<^sup>* \<and>
        (k0 = HashToKey (GetHash tx) \<or> (\<exists>e0. (k0, e0) \<in> set (mIndex p) \<and> ruled_out tx k0 e0)))"
proof -
  note s = RemoveForBlock_spec [OF assms, of txs]
  have "mempool_ok (RemoveForBlock txs p)" "set (mIndex (RemoveForBlock txs p)) \<subseteq> set (mIndex p)"
    using s by (simp_all add: spares_def subpool_def)
  moreover have "mBlockSinceFeeBump (RemoveForBlock txs p)" by (simp add: RemoveForBlock_def)
  moreover have "\<not> ruled_out tx k e"
    if "tx \<in> set txs" "\<not> IsCoinbase tx" "(k, e) \<in> set (mIndex (RemoveForBlock txs p))" for tx k e
    using s that by auto
  moreover have "k \<in> block_doomed txs p"
    if "(k, e) \<in> set (mIndex p)" "(k, e) \<notin> set (mIndex (RemoveForBlock txs p))" for k e
    using s that by (auto simp: spares_def)
  then have "\<exists>tx \<in> set txs. \<exists>k0. \<not> IsCoinbase tx \<and> (k0, k) \<in> (edges (children p))\<^sup>* \<and>
        (k0 = HashToKey (GetHash tx) \<or> (\<exists>e0. (k0, e0) \<in> set (mIndex p) \<and> ruled_out tx k0 e0))"
    if "(k, e) \<in> set (mIndex p)" "(k, e) \<notin> set (mIndex (RemoveForBlock txs p))" for k e
    using that unfolding block_doomed_def by blast
  ultimately show ?thesis by blast
qed

section \<open>The fee auction\<close>

lemma cheapest_first:
  assumes "mempool_ok p" and "mByFeeRate p = ((r, s), k) # m" and "(k', e') \<in> set (mIndex p)"
  shows "r \<le> eFeePerK e'"
proof -
  have "((eFeePerK e', eSeq e'), k') \<in> set (mByFeeRate p)"
    using assms(3) unfolding mempool_okD(6) [OF assms(1)] by force
  then have "(r, s) \<le> (eFeePerK e', eSeq e')"
    using mempool_okD(5) [OF assms(1)] unfolding assms(2) omap_ok_def by force
  then show ?thesis by auto
qed

lemma bump_fee_rate:
  "to_double fp (r + INCREMENTAL_FEE_PER_K) \<le> mRollingMinFeeRate (bump_fee fp now r p)"
  "mRollingMinFeeRate p \<le> mRollingMinFeeRate (bump_fee fp now r p)"
  by (simp_all add: bump_fee_def Let_def)

lemma bump_fee_children [simp]: "children (bump_fee fp now r p) = children p"
  by (rule ext) (simp add: children_def split: option.split)

text \<open>
  One round evicts the cheapest entry with its descendants. \<open>evicted_by\<close> is what the
  auction guarantees of an evicted entry: it descends from one that no survivor pays
  less than, and the rolling minimum has passed the rate of that one.
\<close>

definition evicted_by :: "doubles \<Rightarrow> Mempool \<Rightarrow> Mempool \<Rightarrow> string \<Rightarrow> bool" where
  "evicted_by fp p p' k \<longleftrightarrow> (\<exists>k0 e0. (k0, e0) \<in> set (mIndex p) - set (mIndex p') \<and>
     (k0, k) \<in> (edges (children p))\<^sup>* \<and>
     (\<forall>(k', e') \<in> set (mIndex p'). eFeePerK e0 \<le> eFeePerK e') \<and>
     to_double fp (eFeePerK e0 + INCREMENTAL_FEE_PER_K) \<le> mRollingMinFeeRate p')"

lemma edges_mono: "(\<And>k. set (f k) \<subseteq> set (g k)) \<Longrightarrow> (edges f)\<^sup>* \<subseteq> (edges g)\<^sup>*"
  by (rule rtrancl_mono) (auto simp: edges_def)

lemma evicted_by_later:
  assumes "mempool_ok p" and "subpool q p" and "subpool p' q" and "evicted_by fp q p' k"
  shows "evicted_by fp p p' k"
proof -
  have "(edges (children q))\<^sup>* \<subseteq> (edges (children p))\<^sup>*"
    by (rule edges_mono) (rule subpool_children [OF assms(1,2)])
  then show ?thesis
    using assms(2,4) unfolding evicted_by_def subpool_def by blast
qed

lemma TrimLocked_evicts:
  assumes "mempool_ok p" and "TrimLocked fp now p = Some p'"
  shows "subpool p' p \<and> mRollingMinFeeRate p \<le> mRollingMinFeeRate p' \<and>
    (\<forall>(k, e) \<in> set (mIndex p) - set (mIndex p'). evicted_by fp p p' k)"
  using assms
proof (induction "length (mIndex p)" arbitrary: p rule: less_induct)
  case less
  show ?case
  proof (cases "mTotalBytes p > mMaxBytes p \<and> mByFeeRate p \<noteq> []")
    case False
    then have "p' = p" using less.prems(2) by (auto simp: TrimLocked.simps [of fp now p])
    then show ?thesis using less.prems(1) by (simp add: subpool_def)
  next
    case True
    then obtain r s k0 m where hd: "mByFeeRate p = ((r, s), k0) # m" by (cases "mByFeeRate p") auto
    obtain e0 where e0: "(k0, e0) \<in> set (mIndex p)" "eFeePerK e0 = r"
      using heads_indexed(1) [OF less.prems(1) hd] by blast
    let ?b = "bump_fee fp now r p"
    let ?q = "snd (RemoveRecursiveLocked k0 ?b)"
    have run: "TrimLocked fp now ?q = Some p'"
      using less.prems(2) True hd by (simp add: TrimLocked.simps [of fp now p])
    have w: "without (set (CollectDescendantsLocked k0 ?b)) ?b ?q"
      by (rule RemoveRecursiveLocked_without) (simp add: less.prems(1))
    have gone: "set (CollectDescendantsLocked k0 ?b) = (edges (children p))\<^sup>* `` {k0}"
      by (simp add: set_CollectDescendantsLocked)
    have sub: "subpool ?q p" using without_subpool [OF w] by (simp add: subpool_def)
    have "length (mIndex ?q) < length (mIndex p)"
      using without_shrinks [OF w, of k0 e0] e0(1) by (simp add: gone)
    then have IH: "subpool p' ?q" "mRollingMinFeeRate ?q \<le> mRollingMinFeeRate p'"
        "\<forall>(k, e) \<in> set (mIndex ?q) - set (mIndex p'). evicted_by fp ?q p' k"
      using less.hyps [OF _ _ run] sub by (auto simp: subpool_def)
    have sub': "subpool p' p" using subpool_trans [OF IH(1) sub] .
    have rate: "mRollingMinFeeRate ?q = mRollingMinFeeRate ?b" using w by (simp add: without_def)
    have "evicted_by fp p p' k" if "(k, e) \<in> set (mIndex p)" "(k, e) \<notin> set (mIndex p')" for k e
    proof (cases "(k, e) \<in> set (mIndex ?q)")
      case True
      then show ?thesis using IH(3) that(2) evicted_by_later [OF less.prems(1) sub IH(1)] by blast
    next
      case False
      then have "(k0, k) \<in> (edges (children p))\<^sup>*" using that(1) w gone by (auto simp: without_def)
      moreover have "(k0, e0) \<notin> set (mIndex p')"
        using IH(1) w gone by (auto simp: without_def subpool_def)
      moreover have "\<forall>(k', e') \<in> set (mIndex p'). eFeePerK e0 \<le> eFeePerK e'"
        using cheapest_first [OF less.prems(1) hd] sub' e0(2) by (auto simp: subpool_def)
      ultimately show ?thesis
        using e0 bump_fee_rate(1) [of fp r now p] IH(2) rate unfolding evicted_by_def by force
    qed
    then show ?thesis
      using sub' bump_fee_rate(2) [of p fp now r] IH(2) rate by auto
  qed
qed


section \<open>Every run of the pool\<close>

text \<open>
  The public operations that change the pool, with the time each reads from the
  clock, and a run of them. \<open>None\<close> is an operation that never returns.
\<close>

datatype pool_op =
    PoolAdd int Transaction int
  | PoolRemove bytes32
  | PoolBlock "Transaction list"
  | PoolMinFee int
  | PoolClear

fun run_op :: "doubles \<Rightarrow> pool_op \<Rightarrow> Mempool \<Rightarrow> Mempool option" where
  "run_op fp (PoolAdd now tx fee) p = map_option snd (Mempool_AddTransaction fp now tx fee p)"
| "run_op fp (PoolRemove h) p = Some (snd (RemoveTransaction h p))"
| "run_op fp (PoolBlock txs) p = Some (RemoveForBlock txs p)"
| "run_op fp (PoolMinFee now) p = Some (snd (GetMinFeeRate fp now p))"
| "run_op fp PoolClear p = Some (Mempool_Clear p)"

fun run_ops :: "doubles \<Rightarrow> pool_op list \<Rightarrow> Mempool \<Rightarrow> Mempool option" where
  "run_ops fp [] p = Some p"
| "run_ops fp (x # xs) p = Option.bind (run_op fp x p) (run_ops fp xs)"

lemma spares_bytes:
  assumes "mempool_ok p" and "subpool q p"
  shows "mTotalBytes q \<le> mTotalBytes p"
proof -
  have q: "mempool_ok q" "set (mIndex q) \<subseteq> set (mIndex p)" using assms(2) by (simp_all add: subpool_def)
  have total: "mTotalBytes r = (\<Sum>x \<in> set (mIndex r). eSize (snd x))" if "mempool_ok r" for r
    using mempool_okD(1,11) [OF that] by (simp add: distinct_map sum_list_distinct_conv_sum_set)
  show ?thesis unfolding total [OF assms(1)] total [OF q(1)] by (rule sum_mono2) (simp_all add: q(2))
qed

lemma run_op_ok:
  assumes ok: "mempool_ok p" and room: "unat (mSequenceCounter p) + 1 < 2 ^ 64"
    and bytes: "mTotalBytes p \<le> mMaxBytes p"
  shows "\<exists>p'. run_op fp x p = Some p' \<and> mempool_ok p' \<and> mMaxBytes p' = mMaxBytes p \<and>
    unat (mSequenceCounter p') \<le> unat (mSequenceCounter p) + 1 \<and> mTotalBytes p' \<le> mMaxBytes p'"
proof (cases x)
  case (PoolAdd now tx fee)
  then show ?thesis using Mempool_AddTransaction_returns [OF ok room, of fp now tx fee] bytes by auto
next
  case (PoolRemove h)
  then show ?thesis
    using RemoveLocked_without [OF ok, of "HashToKey h"]
      without_bytes [OF ok RemoveLocked_without [OF ok, of "HashToKey h"]] bytes
    by (simp add: RemoveTransaction_def without_def)
next
  case (PoolBlock txs)
  have sub: "subpool (RemoveForBlock txs p) p" using RemoveForBlock_spec [OF ok] by (simp add: spares_def)
  then show ?thesis
    using PoolBlock bytes spares_bytes [OF ok sub] by (simp add: subpool_def)
next
  case (PoolMinFee now)
  then show ?thesis
    using same_tablesD [OF GetMinFeeRateLocked_same [of fp now p]] ok bytes by (simp add: GetMinFeeRate_def)
next
  case PoolClear
  then show ?thesis by simp (simp add: Mempool_Clear_def)
qed

lemma run_ops_ok:
  assumes "mempool_ok p" and "unat (mSequenceCounter p) + length xs < 2 ^ 64" and "mTotalBytes p \<le> mMaxBytes p"
  shows "\<exists>p'. run_ops fp xs p = Some p' \<and> mempool_ok p' \<and> mMaxBytes p' = mMaxBytes p \<and>
    mTotalBytes p' \<le> mMaxBytes p'"
  using assms
proof (induction xs arbitrary: p)
  case (Cons x xs)
  then obtain p1 where p1: "run_op fp x p = Some p1" "mempool_ok p1" "mMaxBytes p1 = mMaxBytes p"
      "unat (mSequenceCounter p1) \<le> unat (mSequenceCounter p) + 1" "mTotalBytes p1 \<le> mMaxBytes p1"
    using run_op_ok [of p fp x] by auto
  then have "unat (mSequenceCounter p1) + length xs < 2 ^ 64" using Cons.prems(2) by simp
  from Cons.IH [OF p1(2) this p1(5)] show ?case using p1(1,3) by auto
qed simp

text \<open>
  C5. Whatever sequence of additions, removals, connected blocks, fee queries and
  clears the pool goes through (fewer than \<open>2\<^sup>6\<^sup>4\<close> of them, the range of the sequence
  counter), every operation returns, the five tables agree with each other, the byte
  count is the sum of the entry sizes and within the budget, and two different pending
  transactions never spend the same output or consume the same noise leaf.
\<close>

theorem mempool_consistent:
  assumes "length xs < 2 ^ 64"
  shows "\<exists>p. run_ops fp xs (Mempool_init maxBytes) = Some p \<and> mempool_ok p \<and>
    mTotalBytes p = (\<Sum>x \<leftarrow> mIndex p. eSize (snd x)) \<and> mTotalBytes p \<le> maxBytes \<and>
    (\<forall>(k, e) \<in> set (mIndex p). \<forall>(k', e') \<in> set (mIndex p). k \<noteq> k' \<longrightarrow>
      spent_keys e \<inter> spent_keys e' = {} \<and> set (eLeafKeys e) \<inter> set (eLeafKeys e') = {})"
proof -
  obtain p where p: "run_ops fp xs (Mempool_init maxBytes) = Some p" "mempool_ok p" "mTotalBytes p \<le> maxBytes"
    using run_ops_ok [OF Mempool_init_ok, of maxBytes xs fp] assms
    by (auto simp: Mempool_init_def [THEN arg_cong [of _ _ mTotalBytes]]
        Mempool_init_def [THEN arg_cong [of _ _ mMaxBytes]]
        Mempool_init_def [THEN arg_cong [of _ _ mSequenceCounter]])
  have "spent_keys e \<inter> spent_keys e' = {} \<and> set (eLeafKeys e) \<inter> set (eLeafKeys e') = {}"
    if "(k, e) \<in> set (mIndex p)" "(k', e') \<in> set (mIndex p)" "k \<noteq> k'" for k e k' e'
    using pool_entry_unique [OF p(2) that(1,2)] that(3) by blast
  then show ?thesis using p mempool_okD(11) [OF p(2)] by blast
qed

text \<open>The entries in the order of the fee table.\<close>

definition by_rate :: "Mempool \<Rightarrow> (string \<times> Entry) list" where
  "by_rate p = map (\<lambda>(_, k). (k, the (map_of (mIndex p) k))) (mByFeeRate p)"

lemma by_rate_elem:
  assumes "mempool_ok p" and "((r, s), k) \<in> set (mByFeeRate p)"
  shows "\<exists>e. map_of (mIndex p) k = Some e \<and> (k, e) \<in> set (mIndex p) \<and> eFeePerK e = r \<and> eSeq e = s"
proof -
  have "((r, s), k) \<in> (\<lambda>(k, e). ((eFeePerK e, eSeq e), k)) ` set (mIndex p)"
    using assms(2) unfolding mempool_okD(6) [OF assms(1)] .
  then show ?thesis using map_of_is_SomeI [OF mempool_okD(1) [OF assms(1)]] by fastforce
qed

lemma set_by_rate: "mempool_ok p \<Longrightarrow> set (by_rate p) = set (mIndex p)"
proof (intro set_eqI iffI)
  fix x assume ok: "mempool_ok p" and "x \<in> set (by_rate p)"
  then show "x \<in> set (mIndex p)" using by_rate_elem [OF ok] by (fastforce simp: by_rate_def)
next
  fix x assume ok: "mempool_ok p" and x: "x \<in> set (mIndex p)"
  then have "((eFeePerK (snd x), eSeq (snd x)), fst x) \<in> set (mByFeeRate p)"
    unfolding mempool_okD(6) [OF ok] by force
  moreover have "map_of (mIndex p) (fst x) = Some (snd x)"
    using x mempool_okD(1) [OF ok] by simp
  ultimately show "x \<in> set (by_rate p)" by (force simp: by_rate_def)
qed

lemma by_rate_sorted:
  assumes "mempool_ok p"
  shows "sorted_wrt (\<lambda>x y. (eFeePerK (snd x), eSeq (snd x)) < (eFeePerK (snd y), eSeq (snd y))) (by_rate p)"
proof -
  have key: "fst z = (eFeePerK e, eSeq e)" if "z \<in> set (mByFeeRate p)" "e = the (map_of (mIndex p) (snd z))" for z e
    using by_rate_elem [OF assms, of "fst (fst z)" "snd (fst z)" "snd z"] that by (cases z) auto
  have "sorted_wrt (\<lambda>x y. fst x < fst y) (mByFeeRate p)"
    using mempool_okD(5) [OF assms] by (simp add: omap_ok_def sorted_wrt_map)
  then show ?thesis
    unfolding by_rate_def sorted_wrt_map
    by (rule sorted_wrt_mono_rel [rotated]) (use key in \<open>fastforce split: prod.splits\<close>)
qed

lemma by_rate_distinct:
  assumes "mempool_ok p" shows "distinct (by_rate p)"
proof -
  have "sorted_wrt (<) (map (\<lambda>x. (eFeePerK (snd x), eSeq (snd x))) (by_rate p))"
    using by_rate_sorted [OF assms] by (simp add: sorted_wrt_map)
  then show ?thesis by (simp add: strict_sorted_iff distinct_map)
qed

lemma GetTransactions_by_rate:
  assumes "mempool_ok p"
  shows "GetTransactions n p = map (\<lambda>x. eTx (snd x)) (take n (rev (by_rate p)))"
proof -
  have "List.map_filter (\<lambda>(_, k). map_option eTx (map_of (mIndex p) k)) xs =
      map (\<lambda>x. eTx (snd x)) (map (\<lambda>(_, k). (k, the (map_of (mIndex p) k))) xs)"
    if "set xs \<subseteq> set (mByFeeRate p)" for xs
    using that
  proof (induction xs)
    case (Cons z xs)
    then show ?case
      using by_rate_elem [OF assms, of "fst (fst z)" "snd (fst z)" "snd z"]
      by (auto simp: List.map_filter_def split: prod.splits)
  qed (simp add: List.map_filter_def)
  from this [of "rev (mByFeeRate p)"] show ?thesis
    by (simp add: GetTransactions_def by_rate_def rev_map take_map)
qed

lemma length_by_rate: "mempool_ok p \<Longrightarrow> length (by_rate p) = length (mIndex p)"
  using distinct_card [OF by_rate_distinct [of p]] distinct_card [of "mIndex p"] mempool_okD(1) [of p]
  by (simp add: set_by_rate distinct_map)


section \<open>The properties at a concrete pool\<close>

text \<open>
  When all proofs of a transaction parse, the leaf keys of the pool are those of the
  spent-leaf set, in the same order.
\<close>

lemma run_body_collect: "run_body (\<lambda>i ks. (True, ks @ [f i])) is ks = (True, ks @ map f is)"
  by (induction "is" arbitrary: ks) auto

lemma extract_inputs_leaves:
  assumes "\<forall>i \<in> set inputs. proofs_parse i"
  shows "extract_inputs inputs ks = (True, ks @ concat (map (\<lambda>i. map (leaf_key (mKps i)) (snd (idx_list (mNoiseProof i) 0))) inputs))"
  using assms
proof (induction inputs arbitrary: ks)
  case (Cons i inputs)
  then show ?case
    by (auto simp: proof_loop_run run_body_collect proofs_parse_def)
qed simp

text \<open>
  A concrete pool: one payment admitted, with a floating point in which every integer
  is exact.
\<close>

definition exact_doubles :: doubles where
  "exact_doubles = \<lparr>to_double = rat_of_int, decay = (\<lambda>r _ _. r)\<rparr>"
lemma sample_size: "Transaction_GetSerializedSize True sample_spend = 306"
  by (simp add: Transaction_GetSerializedSize_def TxInput_GetSerializedSize_def TxOutput_GetSerializedSize_def
      sample_spend_def mk_TxInput_def mk_TxOutput_def CreatePayToPubkeyHash_def PushData_def CompactSizeLen_def
      zero64_def NoiseProof_Serialize_def sample_proof_def zero32_def)

lemma sample_valid: "Transaction_IsValid sample_spend = Inr True" "GetValueOut sample_spend = Inr 5000"
proof -
  have out: "mOutputs sample_spend = [mk_TxOutput 5000 (replicate 32 4)]" by (simp add: sample_spend_def)
  have inp: "list_all TxInput_IsValid (mInputs sample_spend)" "length (mInputs sample_spend) = 1"
    by (simp_all add: sample_spend_def mk_TxInput_def TxInput_IsValid_def all_zero_def list_all_iff)
  show v: "GetValueOut sample_spend = Inr 5000" by (simp add: GetValueOut_def out mk_TxOutput_def INT64_MAX_def)
  have "TxOutput_IsValid (mk_TxOutput 5000 (replicate 32 4))" "\<not> IsDust (mk_TxOutput 5000 (replicate 32 4))"
    by (simp_all add: TxOutput_IsValid_def IsDust_def mk_TxOutput_def DUST_THRESHOLD_def CreatePayToPubkeyHash_def
        PushData_def MAX_SCRIPT_SIZE_def)
  then show "Transaction_IsValid sample_spend = Inr True"
    using inp by (auto simp: Transaction_IsValid_def out sample_size v MAX_INPUTS_def MAX_OUTPUTS_def MAX_TX_SIZE_def)
qed

lemma sample_leaves: "ExtractLeafKeys sample_spend = (True, [leaf_key (replicate 32 3) 5])"
proof -
  obtain i where i: "mInputs sample_spend = [i]" by (simp add: sample_spend_def)
  then have k: "mKps i = replicate 32 3" by (auto simp: sample_spend_def)
  have "map (NoiseLeafKey (mKps i)) (snd (idx_list (mNoiseProof i) 0)) = [NoiseLeafKey (replicate 32 3) 5]"
    using sample_spend_facts(5) i unfolding tx_leaf_keys_def leaf_keys_def by simp
  then have l: "snd (idx_list (mNoiseProof i) 0) = [5]" unfolding k by (simp add: map_eq_Cons_conv)
  have "proofs_parse i" using sample_spend_facts(6) i by simp
  then show ?thesis
    unfolding ExtractLeafKeys_def i using extract_inputs_leaves [of "[i]" "[]"] l k by simp
qed

lemma no_ancestors: "ancestors_loop p [] 0 = []" by (subst ancestors_loop.simps) simp

lemma sample_policy: "pool_policy exact_doubles 1000 sample_spend 2000 (Mempool_init n) = (Inr True, Mempool_init n)"
proof -
  have e: "mIndex (Mempool_init n) = []" "mSpends (Mempool_init n) = []" "mLeafSpends (Mempool_init n) = []"
    "mRollingMinFeeRate (Mempool_init n) = 0" by (simp_all add: Mempool_init_def)
  have "ValidateForPool sample_spend 2000 (Mempool_init n) = Inr True"
    using sample_spend_facts(2) by (simp add: ValidateForPool_def sample_valid e DUST_THRESHOLD_def)
  moreover have "pool_parents (Mempool_init n) sample_spend = []" by (simp add: pool_parents_def e)
  ultimately show ?thesis
    by (simp add: pool_policy_def list_ex_iff sample_leaves sample_size e GetMinFeeRateLocked_def llround_def
       fee_per_k_def CountAncestorsLocked_def no_ancestors MAX_ANCESTORS_def)
qed
definition sample_pool :: Mempool where
  "sample_pool = insert_entry (HashToKey (GetHash sample_spend))
     (new_entry 1000 sample_spend 2000 (Mempool_init 1000)) (Mempool_init 1000)"

lemma sample_pool_ok: "mempool_ok sample_pool"
  and sample_pool_index: "mIndex sample_pool =
    [(HashToKey (GetHash sample_spend), new_entry 1000 sample_spend 2000 (Mempool_init 1000))]"
  and sample_pool_limit: "mMaxBytes sample_pool = 1000"
  using insert_new_entry [OF Mempool_init_ok sample_policy, of 1000]
  unfolding sample_pool_def by (simp_all add: Mempool_init_def)

lemma sample_entry: "eTx (new_entry now tx fee p) = tx"
  "eSize (new_entry now tx fee p) = Transaction_GetSerializedSize True tx"
  "eFeePerK (new_entry now tx fee p) = fee_per_k fee (Transaction_GetSerializedSize True tx)"
  by (simp_all add: new_entry_def Let_def)

lemma sample_pool_bytes: "mTotalBytes sample_pool = 306"
  using mempool_okD(11) [OF sample_pool_ok] by (simp add: sample_pool_index sample_entry sample_size)

lemma sample_pool_run:
  "run_ops exact_doubles [PoolAdd 1000 sample_spend 2000] (Mempool_init 1000) = Some sample_pool"
proof -
  have "ExpireLocked 1000 (Mempool_init 1000) = Some (0, Mempool_init 1000)"
    by (simp add: ExpireLocked_def expire_loop.simps Mempool_init_def)
  moreover have "TrimLocked exact_doubles 1000 sample_pool = Some sample_pool"
    by (rule TrimLocked_within) (simp add: sample_pool_bytes sample_pool_limit)
  ultimately show ?thesis
    by (simp add: Mempool_AddTransaction_def sample_policy Let_def flip: sample_pool_def)
qed

theorem mempool_consistent_witness:
  "run_ops exact_doubles [PoolAdd 1000 sample_spend 2000] (Mempool_init 1000) = Some sample_pool \<and>
   mempool_ok sample_pool \<and> mTotalBytes sample_pool = 306 \<and> mTotalBytes sample_pool \<le> 1000"
  using mempool_consistent [of "[PoolAdd 1000 sample_spend 2000]" exact_doubles 1000] sample_pool_run
  by (simp add: sample_pool_bytes del: run_ops.simps)

theorem RemoveForBlock_exact_witness:
  "mIndex sample_pool \<noteq> [] \<and> mIndex (RemoveForBlock [sample_spend] sample_pool) = []"
proof -
  note r = RemoveForBlock_exact [OF sample_pool_ok, of "[sample_spend]"]
  have "(k, e) \<notin> set (mIndex (RemoveForBlock [sample_spend] sample_pool))" for k e
  proof
    assume m: "(k, e) \<in> set (mIndex (RemoveForBlock [sample_spend] sample_pool))"
    then have "k = HashToKey (GetHash sample_spend)" using r by (auto simp: sample_pool_index)
    then show False using r m sample_spend_facts(2) by (auto simp: ruled_out_def)
  qed
  then have "set (mIndex (RemoveForBlock [sample_spend] sample_pool)) = {}"
    by (intro equals0I) (metis surj_pair)
  then show ?thesis by (simp add: sample_pool_index)
qed



end
