(* ===== verification/Pool_File.thy ===== *)
theory Pool_File
  imports Pool_Policy "HOL-Library.Multiset"
begin

text \<open>
  The memory pool on disk (\<open>Snapshot\<close>, \<open>Save\<close> and \<open>Load\<close> of
  \<open>consensus/mempool.cpp\<close>): the file format, the write to a temporary file that is
  renamed over the target, and the reading back, where every entry goes through the
  caller's admission check again.
\<close>

section \<open>The file format\<close>

record PersistedEntry =
  pTx :: Transaction
  pFee :: int
  pEntryTime :: int

definition PERSIST_VERSION :: u32 where
  "PERSIST_VERSION = 1"

definition PERSIST_MAX_ENTRIES :: u32 where
  "PERSIST_MAX_ENTRIES = 500000"

text \<open>
  The order in which an \<open>std::unordered_map\<close> is iterated is not specified: \<open>iter\<close> is
  what the iteration yields, some arrangement of the index. \<open>std::sort\<close> may leave equal
  times in any order, which is the order of some iteration sorted stably.
\<close>

definition Snapshot :: "(string \<times> Entry) list \<Rightarrow> PersistedEntry list" where
  "Snapshot iter = sort_key pEntryTime
     (map (\<lambda>(_, e). \<lparr>pTx = eTx e, pFee = eFee e, pEntryTime = eEntryTime e\<rparr>) iter)"

definition PutU32 :: "u32 \<Rightarrow> byte list" where
  "PutU32 v = map (\<lambda>i. ucast (drop_bit (8 * i) v AND 0xFF)) [0..<4]"

definition PutU64 :: "u64 \<Rightarrow> byte list" where
  "PutU64 v = map (\<lambda>i. ucast (drop_bit (8 * i) v AND 0xFF)) [0..<8]"

definition TakeU32 :: "byte list \<Rightarrow> nat \<Rightarrow> (u32 \<times> nat) option" where
  "TakeU32 buf off =
     (if off + 4 > length buf then None
      else Some (fold (\<lambda>i out. push_bit 8 out OR ucast (buf ! (off + i))) (rev [0..<4]) 0, off + 4))"

definition TakeU64 :: "byte list \<Rightarrow> nat \<Rightarrow> (u64 \<times> nat) option" where
  "TakeU64 buf off =
     (if off + 8 > length buf then None
      else Some (fold (\<lambda>i out. push_bit 8 out OR ucast (buf ! (off + i))) (rev [0..<8]) 0, off + 8))"

definition entry_image :: "PersistedEntry \<Rightarrow> byte list" where
  "entry_image e =
     (let raw = Transaction_Serialize True (pTx e)
      in PutU32 (of_nat (length raw)) @ raw @ PutU64 (of_int (pFee e)) @ PutU64 (of_int (pEntryTime e)) @
         PutU32 0)"

definition pool_image :: "PersistedEntry list \<Rightarrow> byte list" where
  "pool_image entries = PutU32 PERSIST_VERSION @ PutU32 (of_nat (length entries)) @
     concat (map entry_image entries)"

section \<open>Saving\<close>

text \<open>
  What the system calls may do: \<open>open\<close>, \<open>fsync\<close>, \<open>close\<close> and the rename succeed or
  fail, and \<open>write\<close> answers in turn with an interruption, an error or a number of bytes
  taken. Once the listed answers are used up, the rest is taken at once.
\<close>

datatype write_result = Interrupted | WriteError | Wrote nat

record save_io =
  ioOpens :: bool
  ioWrites :: "write_result list"
  ioSyncs :: bool
  ioCloses :: bool
  ioRenames :: bool

record pool_files =
  poolFile :: "byte list option"
  poolTemp :: "byte list option"

fun write_loop :: "write_result list \<Rightarrow> byte list \<Rightarrow> bool \<times> byte list" where
  "write_loop rs [] = (True, [])"
| "write_loop [] (b # bs) = (True, b # bs)"
| "write_loop (Interrupted # rs) (b # bs) = write_loop rs (b # bs)"
| "write_loop (WriteError # rs) (b # bs) = (False, [])"
| "write_loop (Wrote n # rs) (b # bs) =
     (if n = 0 then (False, [])
      else case write_loop rs (drop n (b # bs)) of (ok, written) \<Rightarrow> (ok, take n (b # bs) @ written))"

definition Save :: "save_io \<Rightarrow> (string \<times> Entry) list \<Rightarrow> pool_files \<Rightarrow> bool \<times> pool_files" where
  "Save io iter fs =
     (let buf = pool_image (Snapshot iter)
      in if \<not> ioOpens io then (False, fs)
         else case write_loop (ioWrites io) buf of (ok, written) \<Rightarrow>
           let fs = fs\<lparr>poolTemp := Some written\<rparr>;
               ok = (ok \<and> ioSyncs io);
               ok = (ok \<and> ioCloses io)
           in if \<not> ok then (False, fs\<lparr>poolTemp := None\<rparr>)
              else if \<not> ioRenames io then (False, fs\<lparr>poolTemp := None\<rparr>)
              else (True, fs\<lparr>poolFile := poolTemp fs, poolTemp := None\<rparr>))"

section \<open>Loading\<close>

text \<open>
  One entry of the file: \<open>None\<close> is a \<open>break\<close> out of the loop. The last field once
  carried a reveal and is skipped.
\<close>

definition parse_entry :: "byte list \<Rightarrow> nat \<Rightarrow> (Transaction \<times> int \<times> nat) option" where
  "parse_entry buf off =
     (case TakeU32 buf off of
        None \<Rightarrow> None
      | Some (txLen, off) \<Rightarrow>
          if txLen = 0 \<or> unat txLen > MAX_TX_SIZE then None
          else if off + unat txLen > length buf then None
          else case Transaction_Deserialize (take (unat txLen) (drop off buf)) of
            Inl _ \<Rightarrow> None
          | Inr tx \<Rightarrow>
              (case TakeU64 buf (off + unat txLen) of
                 None \<Rightarrow> None
               | Some (rawFee, off) \<Rightarrow>
                   (case TakeU64 buf off of
                      None \<Rightarrow> None
                    | Some (rawTime, off) \<Rightarrow>
                        (case TakeU32 buf off of
                           None \<Rightarrow> None
                         | Some (revealLen, off) \<Rightarrow>
                             if revealLen > 0 then
                               if off + unat revealLen > length buf then None
                               else Some (tx, sint rawTime, off + unat revealLen)
                             else Some (tx, sint rawTime, off)))))"

text \<open>
  What the loop carries: the number restored, the transactions handed to the
  \<open>dropped\<close> callback, and the pool. The callbacks and the clock belong to the caller;
  \<open>admit i\<close> and \<open>clock i\<close> are what they answer for the \<open>i\<close>-th entry. An exception out of
  \<open>AddTransaction\<close> ends \<open>Load\<close>; it is the first component of the outcome.
\<close>

type_synonym load_state = "nat \<times> Transaction list \<times> Mempool"

type_synonym load_outcome = "fault option \<times> load_state"

definition load_entry ::
  "doubles \<Rightarrow> (nat \<Rightarrow> int) \<Rightarrow> (nat \<Rightarrow> Transaction \<Rightarrow> int option) \<Rightarrow> int \<Rightarrow> nat \<Rightarrow> Transaction \<Rightarrow> int \<Rightarrow>
   load_state \<Rightarrow> load_outcome option" where
  "load_entry fp clock admit now i tx entryTime = (\<lambda>(restored, dropped, p).
     if entryTime > 0 \<and> now - entryTime > MEMPOOL_EXPIRY_SECONDS
     then Some (None, restored, dropped @ [tx], p)
     else case admit i tx of
       None \<Rightarrow> Some (None, restored, dropped @ [tx], p)
     | Some fee \<Rightarrow>
         if HasTransaction (GetHash tx) p then Some (None, Suc restored, dropped, p)
         else (case Mempool_AddTransaction fp (clock i) tx fee p of
             None \<Rightarrow> None
           | Some (Inl e, p) \<Rightarrow> Some (Some e, restored, dropped, p)
           | Some (Inr added, p) \<Rightarrow>
               Some (None, if added then (Suc restored, dropped, p) else (restored, dropped @ [tx], p))))"

fun load_loop ::
  "doubles \<Rightarrow> (nat \<Rightarrow> int) \<Rightarrow> (nat \<Rightarrow> Transaction \<Rightarrow> int option) \<Rightarrow> int \<Rightarrow> byte list \<Rightarrow> nat \<Rightarrow> nat \<Rightarrow> nat \<Rightarrow>
   load_state \<Rightarrow> load_outcome option" where
  "load_loop fp clock admit now buf 0 i off s = Some (None, s)"
| "load_loop fp clock admit now buf (Suc n) i off s =
     (case parse_entry buf off of
        None \<Rightarrow> Some (None, s)
      | Some (tx, entryTime, off) \<Rightarrow>
          (case load_entry fp clock admit now i tx entryTime s of
             None \<Rightarrow> None
           | Some (Some e, s) \<Rightarrow> Some (Some e, s)
           | Some (None, s) \<Rightarrow> load_loop fp clock admit now buf n (Suc i) off s))"

definition Load ::
  "doubles \<Rightarrow> (nat \<Rightarrow> int) \<Rightarrow> (nat \<Rightarrow> Transaction \<Rightarrow> int option) \<Rightarrow> int \<Rightarrow> byte list option \<Rightarrow> Mempool \<Rightarrow>
   load_outcome option" where
  "Load fp clock admit now file p = (case file of
     None \<Rightarrow> Some (None, 0, [], p)
   | Some buf \<Rightarrow>
       (case TakeU32 buf 0 of
          None \<Rightarrow> Some (None, 0, [], p)
        | Some (version, off) \<Rightarrow>
            (case TakeU32 buf off of
               None \<Rightarrow> Some (None, 0, [], p)
             | Some (cnt, off) \<Rightarrow>
                 if version \<noteq> PERSIST_VERSION then Some (None, 0, [], p)
                 else if cnt > PERSIST_MAX_ENTRIES then Some (None, 0, [], p)
                 else load_loop fp clock admit now buf (unat cnt) 0 off (0, [], p))))"

section \<open>Reading back what was written\<close>

lemma PutU32_eq: "PutU32 v = WriteLE32 v"
  by (simp add: PutU32_def WriteLE32_def upt_rec)

lemma PutU64_eq: "PutU64 v = WriteLE64 v"
  by (simp add: PutU64_def WriteLE64_def upt_rec)

lemma at_off_nth: "at_off data off (a @ s) \<Longrightarrow> i < length a \<Longrightarrow> data ! (off + i) = a ! i"
  by (erule at_off_split) (simp add: nth_append)

lemma join32: "fold (\<lambda>i out. push_bit 8 out OR ucast (WriteLE32 v ! i)) (rev [0..<4]) 0 = v"
  using le32_join_split [of v]
  by (simp add: upt_rec WriteLE32_def push_bit_or push_bit_push_bit or.assoc or.commute or.left_commute)

lemma join64: "fold (\<lambda>i out. push_bit 8 out OR ucast (WriteLE64 v ! i)) (rev [0..<8]) 0 = v"
  using le64_join_split [of v]
  by (simp add: upt_rec WriteLE64_def push_bit_or push_bit_push_bit or.assoc or.commute or.left_commute)

lemma TakeU32_at:
  assumes "at_off data off (PutU32 v @ s)"
  shows "TakeU32 data off = Some (v, off + 4)" and "at_off data (off + 4) s"
proof -
  have a: "at_off data off (WriteLE32 v @ s)" using assms by (simp add: PutU32_eq)
  have "fold (\<lambda>i out. push_bit 8 out OR ucast (data ! (off + i))) (rev [0..<4]) (0 :: u32) =
      fold (\<lambda>i out. push_bit 8 out OR ucast (WriteLE32 v ! i)) (rev [0..<4]) 0"
    by (rule fold_cong) (use at_off_nth [OF a] in auto)
  then show "TakeU32 data off = Some (v, off + 4)"
    using at_off_length [OF a] by (simp only: TakeU32_def join32) simp
  show "at_off data (off + 4) s" using at_off_step [OF a] by simp
qed

lemma TakeU64_at:
  assumes "at_off data off (PutU64 v @ s)"
  shows "TakeU64 data off = Some (v, off + 8)" and "at_off data (off + 8) s"
proof -
  have a: "at_off data off (WriteLE64 v @ s)" using assms by (simp add: PutU64_eq)
  have "fold (\<lambda>i out. push_bit 8 out OR ucast (data ! (off + i))) (rev [0..<8]) (0 :: u64) =
      fold (\<lambda>i out. push_bit 8 out OR ucast (WriteLE64 v ! i)) (rev [0..<8]) 0"
    by (rule fold_cong) (use at_off_nth [OF a] in auto)
  then show "TakeU64 data off = Some (v, off + 8)"
    using at_off_length [OF a] by (simp only: TakeU64_def join64) simp
  show "at_off data (off + 8) s" using at_off_step [OF a] by simp
qed

text \<open>
  What a saved entry must satisfy to be read back: a well-formed transaction within
  the size limit, and a time that fits the 64-bit field. Pool entries do.
\<close>

definition storable_entry :: "PersistedEntry \<Rightarrow> bool" where
  "storable_entry e \<longleftrightarrow> wf_Transaction (pTx e) \<and>
     Transaction_GetSerializedSize True (pTx e) \<le> MAX_TX_SIZE \<and>
     - (2 ^ 63) \<le> pEntryTime e \<and> pEntryTime e < 2 ^ 63"

lemma parse_entry_at:
  assumes e: "storable_entry e" and a: "at_off buf off (entry_image e @ s)"
  shows "parse_entry buf off = Some (uncached (pTx e), pEntryTime e, off + length (entry_image e))"
proof -
  let ?raw = "Transaction_Serialize True (pTx e)"
  have wf: "wf_Transaction (pTx e)" using e by (simp add: storable_entry_def)
  have len: "length ?raw = Transaction_GetSerializedSize True (pTx e)"
    using length_Transaction_Serialize wf by (simp add: wf_Transaction_def)
  then have n: "length ?raw \<le> MAX_TX_SIZE" "0 < length ?raw"
    using e by (simp_all add: storable_entry_def Transaction_GetSerializedSize_def)
  then have u: "unat (of_nat (length ?raw) :: u32) = length ?raw"
    by (simp add: unsigned_of_nat take_bit_nat_eq_self MAX_TX_SIZE_def)
  then have nz: "(of_nat (length ?raw) :: u32) \<noteq> 0" using n(2) by (metis less_irrefl unsigned_0)
  have a0: "at_off buf off (PutU32 (of_nat (length ?raw)) @ ?raw @ PutU64 (of_int (pFee e)) @
      PutU64 (of_int (pEntryTime e)) @ PutU32 0 @ s)"
    using a by (simp add: entry_image_def Let_def)
  note s1 = TakeU32_at [OF a0]
  note s2 = at_off_append [OF s1(2)]
  note s3 = TakeU64_at [OF s2]
  note s4 = TakeU64_at [OF s3(2)]
  note s5 = TakeU32_at [OF s4(2)]
  have raw: "take (length ?raw) (drop (off + 4) buf) = ?raw" "off + 4 + length ?raw \<le> length buf"
    using s1(2) at_off_length [OF s1(2)] by (auto simp: at_off_def)
  have "sint (of_int (pEntryTime e) :: u64) = pEntryTime e"
    using e by (intro sint_of_int64) (simp_all add: storable_entry_def)
  then show ?thesis
    using n nz raw s1(1) s3(1) s4(1) s5(1) Transaction_Deserialize_Serialize [OF wf, of "[]"]
    by (simp add: parse_entry_def u entry_image_def Let_def PutU32_eq PutU64_eq)
qed

text \<open>Loading, on the list of entries instead of on their bytes.\<close>

fun load_list ::
  "doubles \<Rightarrow> (nat \<Rightarrow> int) \<Rightarrow> (nat \<Rightarrow> Transaction \<Rightarrow> int option) \<Rightarrow> int \<Rightarrow> nat \<Rightarrow> PersistedEntry list \<Rightarrow>
   load_state \<Rightarrow> load_outcome option" where
  "load_list fp clock admit now i [] s = Some (None, s)"
| "load_list fp clock admit now i (e # es) s =
     (case load_entry fp clock admit now i (uncached (pTx e)) (pEntryTime e) s of
        None \<Rightarrow> None
      | Some (Some err, s) \<Rightarrow> Some (Some err, s)
      | Some (None, s) \<Rightarrow> load_list fp clock admit now (Suc i) es s)"

lemma load_loop_at:
  assumes "\<forall>e \<in> set es. storable_entry e" and "at_off buf off (concat (map entry_image es))"
  shows "load_loop fp clock admit now buf (length es) i off s = load_list fp clock admit now i es s"
  using assms
proof (induction es arbitrary: i off s)
  case (Cons e es)
  then have a: "at_off buf off (entry_image e @ concat (map entry_image es))" by simp
  have p: "parse_entry buf off = Some (uncached (pTx e), pEntryTime e, off + length (entry_image e))"
    using Cons.prems(1) a by (intro parse_entry_at) simp_all
  have "load_loop fp clock admit now buf (length es) (Suc i) (off + length (entry_image e)) s =
      load_list fp clock admit now (Suc i) es s" for s
    using Cons.prems(1) at_off_append [OF a] by (intro Cons.IH) simp_all
  then show ?case by (simp add: p split: option.split prod.split)
qed simp

lemma Load_image:
  assumes "\<forall>e \<in> set es. storable_entry e" and "length es \<le> 500000"
  shows "Load fp clock admit now (Some (pool_image es)) p = load_list fp clock admit now 0 es (0, [], p)"
proof -
  have u: "unat (of_nat (length es) :: u32) = length es"
    using assms(2) by (simp add: unsigned_of_nat take_bit_nat_eq_self)
  then have c: "\<not> of_nat (length es) > PERSIST_MAX_ENTRIES"
    using assms(2) by (simp add: PERSIST_MAX_ENTRIES_def word_less_nat_alt)
  have a: "at_off (pool_image es) 0 (PutU32 PERSIST_VERSION @ PutU32 (of_nat (length es)) @
      concat (map entry_image es))" by (simp add: pool_image_def at_off_0)
  note s1 = TakeU32_at [OF a] and s2 = TakeU32_at [OF TakeU32_at(2) [OF a]]
  show ?thesis
    using s1(1) s2 c load_loop_at [OF assms(1) s2(2)] by (simp add: Load_def u)
qed

lemma write_loop_complete: "fst (write_loop rs bs) \<Longrightarrow> snd (write_loop rs bs) = bs"
  by (induction rs bs rule: write_loop.induct) (auto split: if_splits prod.splits)

lemma Save_outcome:
  "(fst (Save io iter fs) \<longrightarrow> snd (Save io iter fs) = \<lparr>poolFile = Some (pool_image (Snapshot iter)), poolTemp = None\<rparr>) \<and>
   (\<not> fst (Save io iter fs) \<longrightarrow> poolFile (snd (Save io iter fs)) = poolFile fs)"
  using write_loop_complete [of "ioWrites io" "pool_image (Snapshot iter)"]
  by (cases fs) (auto simp: Save_def Let_def split: prod.splits)

lemma Snapshot_entries:
  assumes "mset iter = mset (mIndex p)"
  shows "mset (map (\<lambda>e. (pTx e, pFee e, pEntryTime e)) (Snapshot iter)) =
    mset (map (\<lambda>x. (eTx (snd x), eFee (snd x), eEntryTime (snd x))) (mIndex p))"
    and "sorted (map pEntryTime (Snapshot iter))" and "length (Snapshot iter) = length (mIndex p)"
proof -
  have "mset (map (\<lambda>e. (pTx e, pFee e, pEntryTime e)) (Snapshot iter)) =
      image_mset (\<lambda>x. (eTx (snd x), eFee (snd x), eEntryTime (snd x))) (mset iter)"
    by (simp add: Snapshot_def multiset.map_comp comp_def split_def)
  then show "mset (map (\<lambda>e. (pTx e, pFee e, pEntryTime e)) (Snapshot iter)) =
      mset (map (\<lambda>x. (eTx (snd x), eFee (snd x), eEntryTime (snd x))) (mIndex p))"
    using assms by simp
  show "sorted (map pEntryTime (Snapshot iter))" by (simp add: Snapshot_def)
  show "length (Snapshot iter) = length (mIndex p)"
    using assms by (simp add: Snapshot_def flip: size_mset)
qed

lemma Snapshot_storable:
  assumes "mempool_ok p" and "mset iter = mset (mIndex p)"
    and "\<forall>(k, e) \<in> set (mIndex p). wf_Transaction (eTx e) \<and> - (2 ^ 63) \<le> eEntryTime e \<and> eEntryTime e < 2 ^ 63"
  shows "\<forall>e \<in> set (Snapshot iter). storable_entry e"
proof
  fix e assume "e \<in> set (Snapshot iter)"
  moreover have "set iter = set (mIndex p)" using assms(2) by (metis set_mset_mset)
  ultimately obtain k x where x: "(k, x) \<in> set (mIndex p)" "pTx e = eTx x" "pEntryTime e = eEntryTime x"
    by (auto simp: Snapshot_def)
  then have "Transaction_IsValid (eTx x) = Inr True" using mempool_okD(2) [OF assms(1) x(1)] by (simp add: pool_entry_ok_def)
  then have "Transaction_GetSerializedSize True (eTx x) \<le> MAX_TX_SIZE"
    by (auto simp: Transaction_IsValid_def split: if_splits)
  then show "storable_entry e" using assms(3) x by (auto simp: storable_entry_def)
qed


section \<open>Damaged files\<close>

lemma load_entry_ok:
  assumes "mempool_ok p" and "unat (mSequenceCounter p) + 1 < 2 ^ 64" and "mTotalBytes p \<le> mMaxBytes p"
  shows "\<exists>err r d p'. load_entry fp clock admit now i tx t (n, ds, p) = Some (err, r, d, p') \<and> mempool_ok p' \<and>
    r + length d \<le> Suc (n + length ds) \<and> mMaxBytes p' = mMaxBytes p \<and> mTotalBytes p' \<le> mMaxBytes p' \<and>
    unat (mSequenceCounter p') \<le> unat (mSequenceCounter p) + 1"
proof (cases "(t > 0 \<and> now - t > MEMPOOL_EXPIRY_SECONDS) \<or> admit i tx = None \<or> HasTransaction (GetHash tx) p")
  case True
  then show ?thesis using assms by (auto simp: load_entry_def split: option.splits)
next
  case False
  then obtain fee where fee: "admit i tx = Some fee" by auto
  obtain r p' where "Mempool_AddTransaction fp (clock i) tx fee p = Some (r, p')" "mempool_ok p'"
      "mMaxBytes p' = mMaxBytes p" "unat (mSequenceCounter p') \<le> unat (mSequenceCounter p) + 1"
      "mTotalBytes p' \<le> mMaxBytes p'"
    using Mempool_AddTransaction_returns [OF assms(1,2), of fp "clock i" tx fee] assms(3) by auto
  then show ?thesis
    using False fee by (cases r) (auto simp: load_entry_def)
qed

lemma load_loop_ok:
  assumes "mempool_ok p" and "unat (mSequenceCounter p) + n < 2 ^ 64" and "mTotalBytes p \<le> mMaxBytes p"
  shows "\<exists>err r d p'. load_loop fp clock admit now buf n i off (m, ds, p) = Some (err, r, d, p') \<and> mempool_ok p' \<and>
    r + length d \<le> n + m + length ds \<and> mMaxBytes p' = mMaxBytes p \<and> mTotalBytes p' \<le> mMaxBytes p'"
  using assms
proof (induction n arbitrary: i off m ds p)
  case (Suc n)
  show ?case
  proof (cases "parse_entry buf off")
    case None
    then show ?thesis using Suc.prems by simp
  next
    case (Some a)
    then obtain tx t off' where parsed: "parse_entry buf off = Some (tx, t, off')" by (cases a) auto
    have room: "unat (mSequenceCounter p) + 1 < 2 ^ 64" using Suc.prems(2) by simp
    obtain err r d p1 where e: "load_entry fp clock admit now i tx t (m, ds, p) = Some (err, r, d, p1)"
        "mempool_ok p1" "r + length d \<le> Suc (m + length ds)" "mMaxBytes p1 = mMaxBytes p"
        "mTotalBytes p1 \<le> mMaxBytes p1" "unat (mSequenceCounter p1) \<le> unat (mSequenceCounter p) + 1"
      using load_entry_ok [OF Suc.prems(1) room Suc.prems(3)] by blast
    show ?thesis
    proof (cases err)
      case None
      have "unat (mSequenceCounter p1) + n < 2 ^ 64" using e(6) Suc.prems(2) by simp
      from Suc.IH [OF e(2) this e(5), of "Suc i" off' r d] show ?thesis
        using parsed e None by auto
    next
      case (Some x)
      then show ?thesis using parsed e by simp
    qed
  qed
qed simp

text \<open>
  No file can hurt the pool: whatever bytes the pool file holds and whatever the
  admission check answers, loading ends, at most half a million entries are restored or
  reported dropped, and the pool stays consistent and within its byte budget.
\<close>

theorem Load_total:
  assumes "mempool_ok p" and "unat (mSequenceCounter p) + 500000 < 2 ^ 64" and "mTotalBytes p \<le> mMaxBytes p"
  shows "\<exists>err r d p'. Load fp clock admit now file p = Some (err, r, d, p') \<and> mempool_ok p' \<and>
    r + length d \<le> 500000 \<and> mMaxBytes p' = mMaxBytes p \<and> mTotalBytes p' \<le> mMaxBytes p'"
proof -
  have "\<exists>err r d p'. load_loop fp clock admit now buf (unat c) 0 off (0, [], p) = Some (err, r, d, p') \<and> mempool_ok p' \<and>
      r + length d \<le> 500000 \<and> mMaxBytes p' = mMaxBytes p \<and> mTotalBytes p' \<le> mMaxBytes p'"
    if "\<not> c > PERSIST_MAX_ENTRIES" for buf off c
  proof -
    have c: "unat c \<le> 500000" using that by (simp add: PERSIST_MAX_ENTRIES_def word_less_nat_alt)
    then have "unat (mSequenceCounter p) + unat c < 2 ^ 64" using assms(2) by simp
    from load_loop_ok [OF assms(1) this assms(3), of fp clock admit now buf 0 off 0 "[]"]
    show ?thesis using c by auto
  qed
  then show ?thesis using assms by (auto simp: Load_def split: option.split)
qed

section \<open>The properties at a concrete file\<close>

definition working_io :: save_io where
  "working_io = \<lparr>ioOpens = True, ioWrites = [Interrupted, Wrote 3, Wrote 100], ioSyncs = True, ioCloses = True,
     ioRenames = True\<rparr>"

lemma write_loop_partial: "fst (write_loop [Interrupted, Wrote 3, Wrote 100] bs)"
  by (cases bs; cases "drop 3 bs"; cases "drop 100 (drop 3 bs)") auto

lemma working_io_saves: "fst (Save working_io iter fs)"
  using write_loop_partial [of "pool_image (Snapshot iter)"]
  by (auto simp: Save_def working_io_def Let_def split: prod.splits)


lemma sample_pool_counter: "mSequenceCounter sample_pool = 1"
  by (simp add: sample_pool_def insert_entry_def Mempool_init_def)

theorem Load_total_witness:
  "\<exists>err r d p'. Load exact_doubles (\<lambda>_. 1000) (\<lambda>_ _. Some 2000) 1000 (Some [1, 0, 0, 0, 255]) sample_pool =
     Some (err, r, d, p') \<and> mempool_ok p' \<and> r + length d \<le> 500000"
  using Load_total [OF sample_pool_ok, of exact_doubles "\<lambda>_. 1000" "\<lambda>_ _. Some 2000" 1000 "Some [1, 0, 0, 0, 255]"]
  by (auto simp: sample_pool_bytes sample_pool_limit sample_pool_counter)

end
