(* ===== verification/Mining_Kernel.thy ===== *)
theory Mining_Kernel
  imports Block Pow
begin

text \<open>
  The search for a nonce (\<open>BuildMiningBlocks\<close>, \<open>RunNonceLoop\<close> and
  \<open>RunNonceLoopGpu\<close> of \<open>miner.cpp\<close>, and the OpenCL kernel text of
  \<open>node/miner_kernel.h\<close>). A header is 120 bytes, so its SHA-256 takes three blocks:
  the first is hashed once into a midstate, the nonce is the fourteenth word of the
  second, and the third is padding. The lemmas show that this short cut is the block
  hash, and that the loops return only headers whose hash meets their target.
\<close>

section \<open>The prepared blocks\<close>

text \<open>
  The midstate and the second and third block. The serialiser fails only on a buffer
  that is too short; the arrays then stay as they were.
\<close>

type_synonym mining_blocks = "u32 list \<times> u32 list \<times> u32 list"

definition BuildMiningBlocks :: "BlockHeader \<Rightarrow> mining_blocks \<Rightarrow> mining_blocks" where
  "BuildMiningBlocks hdr old =
     (case BlockHeader_SerializeTo hdr (Some (replicate SERIALIZED_SIZE 0)) of
        (True, Some buf) \<Rightarrow>
          (sha256_Transform
             [0x6a09e667, 0xbb67ae85, 0x3c6ef372, 0xa54ff53a, 0x510e527f, 0x9b05688c, 0x1f83d9ab, 0x5be0cd19]
             (map (be_word buf) [0..<16]),
           map (\<lambda>i. be_word buf (16 + i)) [0..<14] @ [0x80000000, 0],
           replicate 15 0 @ [of_nat (SERIALIZED_SIZE * 8)])
      | _ \<Rightarrow> old)"

definition nonce_word :: "u32 \<Rightarrow> u32" where
  "nonce_word nonce = push_bit 24 (nonce AND 0x000000FF) OR push_bit 8 (nonce AND 0x0000FF00) OR
     drop_bit 8 (nonce AND 0x00FF0000) OR drop_bit 24 (nonce AND 0xFF000000)"

definition mining_words :: "mining_blocks \<Rightarrow> u32 \<Rightarrow> u32 list" where
  "mining_words = (\<lambda>(midstate, block2, block3) nonce.
     sha256_Transform (sha256_Transform midstate (block2[13 := nonce_word nonce])) block3)"

definition words_hash :: "u32 list \<Rightarrow> bytes32" where
  "words_hash hw = concat (map (\<lambda>i.
     [ucast (drop_bit 24 (hw ! i)), ucast (drop_bit 16 (hw ! i)), ucast (drop_bit 8 (hw ! i)), ucast (hw ! i)])
     [0..<8])"

definition uint_le :: "base_uint \<Rightarrow> base_uint \<Rightarrow> bool" where
  "uint_le a b \<longleftrightarrow> CompareTo a b \<le> 0"

definition target_top :: "base_uint \<Rightarrow> u32" where
  "target_top target =
     (let tb = ArithToBytes32 target
      in push_bit 24 (ucast (tb ! 0)) OR push_bit 16 (ucast (tb ! 1)) OR push_bit 8 (ucast (tb ! 2)) OR
         ucast (tb ! 3))"

section \<open>The loop on the processor\<close>

text \<open>
  What one pass of the loop sees of the outside: whether mining goes on, the best block
  of the chain, and the clocks it reads. \<open>env i\<close> belongs to pass \<open>i\<close>.
\<close>

record mine_obs =
  obRunning :: bool
  obTip :: bytes32
  obMillis :: u64
  obSeconds :: u64
  obWrapSeconds :: u64

definition TEMPLATE_REFRESH_MS :: u64 where
  "TEMPLATE_REFRESH_MS = 15000"

text \<open>
  Every 65536 hashes the loop looks whether its template is stale or old and moves the
  time on. \<open>None\<close> is a template to give up.
\<close>

definition nonce_check ::
  "mine_obs \<Rightarrow> bytes32 \<Rightarrow> u64 \<Rightarrow> u64 \<Rightarrow> BlockHeader \<Rightarrow> mining_blocks \<Rightarrow> (BlockHeader \<times> mining_blocks) option" where
  "nonce_check ob builtOn startMs localHashes hdr blocks =
     (if localHashes AND 0xFFFF = 0 then
        if obTip ob \<noteq> builtOn then None
        else if obMillis ob - startMs > TEMPLATE_REFRESH_MS then None
        else if obSeconds ob > mTimestamp hdr + 60
        then let hdr = SetTimestamp (obSeconds ob) hdr in Some (hdr, BuildMiningBlocks hdr blocks)
        else Some (hdr, blocks)
      else Some (hdr, blocks))"

definition nonce_hit :: "base_uint \<Rightarrow> u32 \<Rightarrow> mining_blocks \<Rightarrow> u32 \<Rightarrow> bool" where
  "nonce_hit target targetTop blocks nonce =
     (let hw = mining_words blocks nonce
      in hw ! 0 \<le> targetTop \<and> uint_le (ArithFromBytes32 (words_hash hw)) target)"

partial_function (option) nonce_loop ::
  "(nat \<Rightarrow> mine_obs) \<Rightarrow> base_uint \<Rightarrow> u32 \<Rightarrow> bytes32 \<Rightarrow> u64 \<Rightarrow> nat \<Rightarrow> BlockHeader \<Rightarrow> mining_blocks \<Rightarrow> u32 \<Rightarrow>
   (bool \<times> BlockHeader) option" where
  "nonce_loop env target targetTop builtOn startMs i hdr blocks nonce =
     (if \<not> obRunning (env i) then Some (False, hdr)
      else case nonce_check (env i) builtOn startMs (of_nat (Suc i)) hdr blocks of
        None \<Rightarrow> Some (False, hdr)
      | Some (hdr, blocks) \<Rightarrow>
          if nonce_hit target targetTop blocks nonce then Some (True, SetNonce nonce hdr)
          else if nonce = 0xFFFFFFFF
          then let hdr = SetTimestamp (obWrapSeconds (env i)) hdr
               in nonce_loop env target targetTop builtOn startMs (Suc i) hdr (BuildMiningBlocks hdr blocks) 0
          else nonce_loop env target targetTop builtOn startMs (Suc i) hdr blocks (nonce + 1))"

text \<open>\<open>junk\<close> is what the uninitialised arrays hold.\<close>

definition RunNonceLoop ::
  "(nat \<Rightarrow> mine_obs) \<Rightarrow> u64 \<Rightarrow> mining_blocks \<Rightarrow> Block \<Rightarrow> (bool \<times> Block) option" where
  "RunNonceLoop env startMs junk block =
     (let hdr = mHeader block
      in case SetCompact (mBits hdr) of (target, neg, over) \<Rightarrow>
           if neg \<or> over \<or> EqualTo target 0 then Some (False, block)
           else map_option (\<lambda>(found, hdr). (found, block\<lparr>mHeader := hdr\<rparr>))
             (nonce_loop env target (target_top target) (mPrevBlockHash hdr) startMs 0 hdr
                (BuildMiningBlocks hdr junk) (mNonce hdr)))"

section \<open>The loop on a graphics card\<close>

text \<open>
  The search itself runs in a driver: \<open>search i\<close> is its answer in pass \<open>i\<close>, a nonce if
  it reports one and an error text. A reported nonce is hashed again here. The first
  component of the result is the flag \<open>mUseGpu\<close> afterwards, cleared by an error.
\<close>

partial_function (option) gpu_loop ::
  "(nat \<Rightarrow> mine_obs) \<Rightarrow> (nat \<Rightarrow> mining_blocks \<Rightarrow> u32 \<Rightarrow> u32 \<Rightarrow> u32 option \<times> string) \<Rightarrow> base_uint \<Rightarrow> bytes32 \<Rightarrow>
   u64 \<Rightarrow> nat \<Rightarrow> BlockHeader \<Rightarrow> mining_blocks \<Rightarrow> u64 \<Rightarrow> (bool \<times> bool \<times> BlockHeader) option" where
  "gpu_loop env search target builtOn startMs i hdr blocks nonceBase =
     (if \<not> obRunning (env i) then Some (True, False, hdr)
      else if obTip (env i) \<noteq> builtOn then Some (True, False, hdr)
      else if obMillis (env i) - startMs > TEMPLATE_REFRESH_MS then Some (True, False, hdr)
      else let cnt = (if nonceBase + 0x100000 > 0x100000000 then ucast (0x100000000 - nonceBase) else 0x100000 :: u32)
      in case search i blocks (ucast nonceBase) cnt of (hit, reason) \<Rightarrow>
        if reason \<noteq> [] then Some (False, False, hdr)
        else if (case hit of None \<Rightarrow> False
                 | Some n \<Rightarrow> uint_le (ArithFromBytes32 (words_hash (mining_words blocks n))) target)
        then Some (True, True, SetNonce (the hit) hdr)
        else let nonceBase = (case hit of None \<Rightarrow> nonceBase + ucast cnt | Some n \<Rightarrow> ucast n + 1)
        in if nonceBase \<ge> 0x100000000
           then let hdr = SetTimestamp (obWrapSeconds (env i)) hdr
                in gpu_loop env search target builtOn startMs (Suc i) hdr (BuildMiningBlocks hdr blocks) 0
           else gpu_loop env search target builtOn startMs (Suc i) hdr blocks nonceBase)"

definition RunNonceLoopGpu ::
  "(nat \<Rightarrow> mine_obs) \<Rightarrow> (nat \<Rightarrow> mining_blocks \<Rightarrow> u32 \<Rightarrow> u32 \<Rightarrow> u32 option \<times> string) \<Rightarrow> u64 \<Rightarrow> mining_blocks \<Rightarrow>
   Block \<Rightarrow> (bool \<times> bool \<times> Block) option" where
  "RunNonceLoopGpu env search startMs junk block =
     (let hdr = mHeader block
      in case SetCompact (mBits hdr) of (target, neg, over) \<Rightarrow>
           if neg \<or> over \<or> EqualTo target 0 then Some (True, False, block)
           else map_option (\<lambda>(useGpu, found, hdr). (useGpu, found, block\<lparr>mHeader := hdr\<rparr>))
             (gpu_loop env search target (mPrevBlockHash hdr) startMs 0 hdr (BuildMiningBlocks hdr junk) 0))"

section \<open>The kernel text\<close>

text \<open>
  The OpenCL kernel keeps the whole message schedule and rotates the registers; its
  macros are those of the C file. One work item tests one nonce against the top word of
  the target.
\<close>

definition kernel_schedule :: "u32 list \<Rightarrow> u32 list" where
  "kernel_schedule blk = fold (\<lambda>i w. w @ [sigma1_256 (w ! (i - 2)) + w ! (i - 7) + sigma0_256 (w ! (i - 15)) + w ! (i - 16)])
     [16..<64] (map (\<lambda>i. blk ! i) [0..<16])"

definition kernel_transform :: "u32 list \<Rightarrow> u32 list \<Rightarrow> u32 list" where
  "kernel_transform state blk =
     (let w = kernel_schedule blk
      in add_regs state (fold (\<lambda>i. sha_step (K256 ! i) (w ! i)) [0..<64] (regs_of state)))"

definition kernel_hit :: "mining_blocks \<Rightarrow> u32 \<Rightarrow> u32 \<Rightarrow> bool" where
  "kernel_hit = (\<lambda>(midstate, block2, block3) targetTop nonce.
     kernel_transform (kernel_transform midstate (block2[13 := nonce_word nonce])) block3 ! 0 \<le> targetTop)"

section \<open>The short cut is the block hash\<close>

lemma be_word_cong: "(\<And>i. i < 4 \<Longrightarrow> a ! (4 * j + i) = b ! (4 * k + i)) \<Longrightarrow> be_word a j = be_word b k"
  unfolding be_word_def using add_0_right [of "4 * j"] add_0_right [of "4 * k"]
  by (metis numeral_less_iff one_less_numeral_iff semiring_norm(76,78,81) zero_less_numeral)

lemma bit_nonce_word:
  assumes "t < 8" and "q < 4"
  shows "bit (nonce_word n) (8 * q + t) = bit n (8 * (3 - q) + t)"
proof -
  have "q = 0 \<or> q = 1 \<or> q = 2 \<or> q = 3" using assms(2) by auto
  moreover have m: "(0xFF :: u32) = mask 8" "(0xFF00 :: u32) = push_bit 8 (mask 8)"
      "(0xFF0000 :: u32) = push_bit 16 (mask 8)" "(0xFF000000 :: u32) = push_bit 24 (mask 8)"
    by (simp_all add: mask_eq_exp_minus_1 push_bit_eq_mult)
  ultimately show ?thesis
    unfolding nonce_word_def using assms(1)
    by (elim disjE) (auto simp: m bit_or_iff bit_and_iff bit_push_bit_iff bit_drop_bit_eq bit_mask_iff)
qed

lemma nonce_word_REVERSE32: "nonce_word n = REVERSE32 n"
  by (rule word32_eqI) (simp add: bit_nonce_word bit_REVERSE32)

lemma be_bytes_nonce_word: "be_bytes (nonce_word n) = WriteLE32 n"
proof -
  have "REVERSE32 (REVERSE32 n) = n" by (rule word32_eqI) (simp add: bit_REVERSE32)
  then show ?thesis using WriteLE32_REVERSE32 [of "REVERSE32 n"] by (simp add: nonce_word_REVERSE32)
qed

lemma words_hash_eq: "length hw = 8 \<Longrightarrow> words_hash hw = concat (map be_bytes hw)"
proof -
  assume "length hw = 8"
  then have "map be_bytes hw = map (\<lambda>i. be_bytes (hw ! i)) [0..<8]" by (intro nth_equalityI) simp_all
  then show ?thesis by (simp only: words_hash_def be_bytes_def)
qed

lemma BuildMiningBlocks_eq:
  assumes "wf_BlockHeader h"
  shows "BuildMiningBlocks h old =
    (sha256_Transform sha256_initial_hash_value (map (be_word (BlockHeader_Serialize h)) [0..<16]),
     map (\<lambda>i. be_word (BlockHeader_Serialize h) (16 + i)) [0..<14] @ [0x80000000, 0], replicate 15 0 @ [960])"
proof -
  have "put32 (hVersion h) @ mPrevBlockHash h @ mMerkleRoot h @ mLeafRoot h @ put64 (mTimestamp h) @
      put32 (mHeight h) @ put32 (mBits h) @ put32 (mNonce h) = BlockHeader_Serialize h"
    by (simp add: put32_eq put64_eq BlockHeader_Serialize_def)
  moreover have "length (BlockHeader_Serialize h) = SERIALIZED_SIZE" using assms by simp
  ultimately have "BlockHeader_SerializeTo h (Some (replicate SERIALIZED_SIZE 0)) = (True, Some (BlockHeader_Serialize h))"
    by (simp add: BlockHeader_SerializeTo_def Let_def)
  then show ?thesis
    by (simp add: BuildMiningBlocks_def sha256_initial_hash_value_def SERIALIZED_SIZE_def)
qed

text \<open>The header with another nonce differs only in its last four bytes.\<close>

lemma Serialize_nonce:
  assumes "wf_BlockHeader h"
  shows "BlockHeader_Serialize (SetNonce n h) = take 116 (BlockHeader_Serialize h) @ WriteLE32 n"
  using assms by (simp add: BlockHeader_Serialize_def SetNonce_def wf_BlockHeader_def)

lemma second_block:
  assumes wf: "wf_BlockHeader h"
  shows "map (be_word (drop 64 (take 116 (BlockHeader_Serialize h)) @ WriteLE32 n @ 0x80 # replicate 7 0)) [0..<16] =
    (map (\<lambda>i. be_word (BlockHeader_Serialize h) (16 + i)) [0..<14] @ [0x80000000, 0])[13 := nonce_word n]"
    (is "map (be_word ?b) _ = ?w")
proof (rule nth_equalityI)
  let ?s = "BlockHeader_Serialize h"
  have ls: "length ?s = 120" using wf by (simp add: SERIALIZED_SIZE_def)
  fix j assume "j < length (map (be_word ?b) [0..<16])"
  then have j: "j < 16" by simp
  have "be_word ?b j = ?w ! j"
  proof -
    consider "j < 13" | "j = 13" | "j = 14" | "j = 15" using j by linarith
    then show ?thesis
    proof cases
      case 1
      have "be_word ?b j = be_word ?s (16 + j)"
        by (rule be_word_cong) (use 1 ls in \<open>simp add: nth_append algebra_simps\<close>)
      then show ?thesis using 1 by (simp add: nth_append nth_list_update)
    next
      case 2
      have "be_word ?b j = nonce_word n"
        by (rule be_word_be_bytes) (use 2 ls in \<open>simp add: nth_append be_bytes_nonce_word\<close>)
      then show ?thesis using 2 by (simp add: nth_list_update)
    next
      case 3
      have "be_word ?b j = 0x80000000" unfolding be_word_def using 3 ls by (simp add: nth_append)
      then show ?thesis using 3 by (simp add: nth_append nth_list_update)
    next
      case 4
      have "be_word ?b j = 0" unfolding be_word_def using 4 ls by (simp add: nth_append)
      then show ?thesis using 4 by (simp add: nth_append nth_list_update)
    qed
  qed
  then show "map (be_word ?b) [0..<16] ! j = ?w ! j" using j by simp
qed simp

lemma be_length_120: "be_length 120 = [0, 0, 0, 0, 0, 0, 3, 0xC0]"
  by (simp add: be_length_def be_bytes_def)

lemma third_block: "map (be_word (replicate 56 0 @ be_length 120)) [0..<16] = replicate 15 0 @ [960]"
proof (rule nth_equalityI)
  fix j assume "j < length (map (be_word (replicate 56 0 @ be_length 120)) [0..<16])"
  then consider "j < 14" | "j = 14" | "j = 15" by force
  then show "map (be_word (replicate 56 0 @ be_length 120)) [0..<16] ! j = (replicate 15 0 @ [960]) ! j"
    by cases (simp_all add: be_length_120 be_word_def nth_append)
qed simp

lemma last_block:
  "hash_blocks s (replicate 56 0 @ be_length 120) = sha_compress s (replicate 15 0 @ [960])"
  using hash_blocks_block [of "replicate 56 0 @ be_length 120" s "[]"] third_block
  by (simp add: be_length_120 compress_block_def hash_blocks_short)

lemma header_blocks:
  assumes wf: "wf_BlockHeader h"
  shows "sha_pad (BlockHeader_Serialize (SetNonce n h)) = take 64 (BlockHeader_Serialize h) @
    (drop 64 (take 116 (BlockHeader_Serialize h)) @ WriteLE32 n @ 0x80 # replicate 7 0) @
    replicate 56 0 @ be_length 120"
proof -
  let ?s = "BlockHeader_Serialize h"
  have ls: "length ?s = 120" using wf by (simp add: SERIALIZED_SIZE_def)
  have "take 116 ?s = take 64 ?s @ drop 64 (take 116 ?s)"
    using append_take_drop_id [of 64 "take 116 ?s"] by simp
  moreover have "replicate 63 (0 :: byte) = replicate 7 0 @ replicate 56 0" by (simp flip: replicate_add)
  ultimately show ?thesis
    by (simp add: sha_pad_def Serialize_nonce [OF wf] ls)
qed

lemma mining_words_hash:
  assumes wf: "wf_BlockHeader h"
  shows "words_hash (mining_words (BuildMiningBlocks h old) n) = BlockHeader_GetHash (SetNonce n h)"
proof -
  let ?s = "BlockHeader_Serialize h"
  have ls: "length ?s = 120" using wf by (simp add: SERIALIZED_SIZE_def)
  have first: "map (be_word (take 64 ?s)) [0..<16] = map (be_word ?s) [0..<16]"
    by (intro map_cong refl be_word_cong) (use ls in simp)
  have "hash_blocks sha256_initial_hash_value (sha_pad (BlockHeader_Serialize (SetNonce n h))) =
      mining_words (BuildMiningBlocks h old) n"
    unfolding header_blocks [OF wf]
    using ls by (simp add: hash_blocks_block last_block compress_block_def first second_block [OF wf]
        BuildMiningBlocks_eq [OF wf] mining_words_def sha256_Transform_eq del: append_assoc)
  moreover have "length (BlockHeader_Serialize (SetNonce n h)) < 2 ^ 61"
    using ls by (simp add: Serialize_nonce [OF wf])
  ultimately show ?thesis
    using sha256_Raw_spec [of "BlockHeader_Serialize (SetNonce n h)"]
    by (simp add: BlockHeader_GetHash_def BlockHeader_GetHash_st_def BlockHeader_ComputeHash_def Let_def
        sha256_Raw_def sha256_spec_def words_hash_eq mining_words_def split_def) (simp add: SetNonce_def)
qed

section \<open>The top-word filter loses nothing\<close>

lemma be_limb_top:
  assumes "is_bytes32 b"
  shows "unat (be_limb b 0) = be_val b div 256 ^ 28"
proof -
  obtain a1 a2 a3 a4 r where b: "b = a1 # a2 # a3 # a4 # r" "length r = 28"
    using assms by (auto simp: length_Suc_conv numeral_eq_Suc)
  have "be_val b = unat (be_limb b 0) * 256 ^ 28 + be_val r"
    using b(2) by (simp add: be_limb_unat b(1) be_val_Cons algebra_simps)
  then show ?thesis using be_val_lt [of r] b(2) by simp
qed

lemma be_limb_words_hash: "be_limb (words_hash hw) 0 = hw ! 0"
  using be_limb_join [of "hw ! 0"] by (simp add: words_hash_def be_limb_def upt_rec)

lemma words_hash_length [simp]: "length (words_hash hw) = 32"
  by (simp add: words_hash_def upt_rec)

lemma nonce_hit_iff:
  assumes "is_uint target"
  shows "nonce_hit target (target_top target) blocks n \<longleftrightarrow>
    be_val (words_hash (mining_words blocks n)) \<le> uval target"
proof -
  let ?h = "words_hash (mining_words blocks n)"
  have top: "target_top target = be_limb (ArithToBytes32 target) 0"
    by (simp add: target_top_def be_limb_def Let_def numeral_2_eq_2)
  have "mining_words blocks n ! 0 \<le> target_top target"
    if le: "be_val ?h \<le> uval target"
  proof -
    have "unat (mining_words blocks n ! 0) \<le> unat (target_top target)"
      using le div_le_mono [OF le, of "256 ^ 28"] be_limb_top [of ?h] be_limb_top [of "ArithToBytes32 target"]
      by (simp add: be_limb_words_hash top be_val_ArithToBytes32 assms)
    then show ?thesis by (simp add: word_le_nat_alt)
  qed
  moreover have "uint_le (ArithFromBytes32 ?h) target \<longleftrightarrow> be_val ?h \<le> uval target"
    using assms by (simp add: uint_le_def CompareTo_le ArithFromBytes32_uval)
  ultimately show ?thesis by (auto simp: nonce_hit_def Let_def)
qed

section \<open>What the loops return\<close>

text \<open>
  \<open>same_work h h'\<close>: the headers differ at most in time, nonce and cached hash, the
  fields a search may change.
\<close>

definition same_work :: "BlockHeader \<Rightarrow> BlockHeader \<Rightarrow> bool" where
  "same_work h h' \<longleftrightarrow> hVersion h' = hVersion h \<and> mPrevBlockHash h' = mPrevBlockHash h \<and>
     mMerkleRoot h' = mMerkleRoot h \<and> mLeafRoot h' = mLeafRoot h \<and> mHeight h' = mHeight h \<and> mBits h' = mBits h"

definition blocks_for :: "BlockHeader \<Rightarrow> mining_blocks \<Rightarrow> bool" where
  "blocks_for h blocks \<longleftrightarrow> wf_BlockHeader h \<and>
     (\<forall>n. words_hash (mining_words blocks n) = BlockHeader_GetHash (SetNonce n h))"

lemma blocks_for_Build: "wf_BlockHeader h \<Longrightarrow> blocks_for h (BuildMiningBlocks h old)"
  by (simp add: blocks_for_def mining_words_hash)

lemma wf_SetTimestamp [simp]: "wf_BlockHeader (SetTimestamp s h) = wf_BlockHeader h"
  by (simp add: wf_BlockHeader_def SetTimestamp_def)

lemma same_work_intros [simp]:
  "same_work h h" "same_work h (SetTimestamp s h') = same_work h h'" "same_work h (SetNonce n h') = same_work h h'"
  by (simp_all add: same_work_def SetTimestamp_def SetNonce_def)

lemma same_work_trans: "same_work a b \<Longrightarrow> same_work b c \<Longrightarrow> same_work a c"
  by (simp add: same_work_def)

lemma nonce_check_keeps:
  assumes "nonce_check ob builtOn startMs l hdr blocks = Some (hdr', blocks')" and "blocks_for hdr blocks"
  shows "blocks_for hdr' blocks' \<and> same_work hdr hdr'"
  using assms by (auto simp: nonce_check_def Let_def blocks_for_def mining_words_hash split: if_splits)

text \<open>
  What a search leaves: a header for the same work, and after a success one whose hash
  is at most the target.
\<close>

definition loop_post :: "base_uint \<Rightarrow> BlockHeader \<Rightarrow> bool \<times> BlockHeader \<Rightarrow> bool" where
  "loop_post target hdr r \<longleftrightarrow> same_work hdr (snd r) \<and>
     (fst r \<longrightarrow> is_bytes32 (BlockHeader_GetHash (snd r)) \<and> uint_le (ArithFromBytes32 (BlockHeader_GetHash (snd r))) target)"

lemma blocks_for_length: "blocks_for h blocks \<Longrightarrow> length (BlockHeader_GetHash (SetNonce n h)) = 32"
  by (metis blocks_for_def words_hash_length)

lemma loop_post_trans: "same_work h h' \<Longrightarrow> loop_post target h' r \<Longrightarrow> loop_post target h r"
  using same_work_trans by (auto simp: loop_post_def)

lemma nonce_hit_post:
  assumes "blocks_for h blocks" and "nonce_hit target tt blocks n"
  shows "loop_post target h (True, SetNonce n h)"
  using assms blocks_for_length [OF assms(1), of n] by (simp add: loop_post_def nonce_hit_def Let_def blocks_for_def)

lemma nonce_loop_sound:
  assumes "nonce_loop env target targetTop builtOn startMs i hdr blocks nonce = Some r"
  shows "blocks_for hdr blocks \<longrightarrow> loop_post target hdr r"
proof (rule nonce_loop.raw_induct [where P = "\<lambda>env target targetTop builtOn startMs i hdr blocks nonce r.
    blocks_for hdr blocks \<longrightarrow> loop_post target hdr r", OF _ assms], rule impI)
  fix f env target targetTop builtOn startMs i hdr blocks nonce r
  assume IH: "\<And>env target targetTop builtOn startMs i hdr blocks nonce y.
      f env target targetTop builtOn startMs i hdr blocks nonce = Some y \<Longrightarrow>
      blocks_for hdr blocks \<longrightarrow> loop_post target hdr y"
    and run: "(if \<not> obRunning (env i) then Some (False, hdr)
      else case nonce_check (env i) builtOn startMs (of_nat (Suc i)) hdr blocks of
        None \<Rightarrow> Some (False, hdr)
      | Some (hdr, blocks) \<Rightarrow>
          if nonce_hit target targetTop blocks nonce then Some (True, SetNonce nonce hdr)
          else if nonce = 0xFFFFFFFF
          then let hdr = SetTimestamp (obWrapSeconds (env i)) hdr
               in f env target targetTop builtOn startMs (Suc i) hdr (BuildMiningBlocks hdr blocks) 0
          else f env target targetTop builtOn startMs (Suc i) hdr blocks (nonce + 1)) = Some r"
    and b: "blocks_for hdr blocks"
  have give_up: "loop_post target hdr (False, hdr)" by (simp add: loop_post_def)
  show "loop_post target hdr r"
  proof (cases "nonce_check (env i) builtOn startMs (of_nat (Suc i)) hdr blocks")
    case None
    then show ?thesis using run give_up by (auto split: if_splits)
  next
    case (Some a)
    obtain h bs where hb: "nonce_check (env i) builtOn startMs (of_nat (Suc i)) hdr blocks = Some (h, bs)"
      using Some by (cases a) auto
    have k: "blocks_for h bs" "same_work hdr h" using nonce_check_keeps [OF hb b] by auto
    then have w: "wf_BlockHeader h" by (simp add: blocks_for_def)
    show ?thesis
    proof (cases "obRunning (env i) \<and> \<not> nonce_hit target targetTop bs nonce")
      case False
      then show ?thesis
        using run hb give_up nonce_hit_post [OF k(1)] loop_post_trans [OF k(2)] by (auto split: if_splits)
    next
      case True
      let ?h = "SetTimestamp (obWrapSeconds (env i)) h"
      have s: "same_work hdr ?h" and wrap: "blocks_for ?h (BuildMiningBlocks ?h bs)"
        using k(2) w by (simp_all add: blocks_for_Build)
      show ?thesis
      proof (cases "nonce = 0xFFFFFFFF")
        case wrapped: True
        then have "f env target targetTop builtOn startMs (Suc i) ?h (BuildMiningBlocks ?h bs) 0 = Some r"
          using run hb True by (simp add: Let_def)
        from IH [OF this] wrap show ?thesis using loop_post_trans [OF s] by blast
      next
        case False
        then have "f env target targetTop builtOn startMs (Suc i) h bs (nonce + 1) = Some r"
          using run hb True by simp
        from IH [OF this] k(1) show ?thesis using loop_post_trans [OF k(2)] by blast
      qed
    qed
  qed
qed

lemma gpu_loop_sound:
  assumes "gpu_loop env search target builtOn startMs i hdr blocks nonceBase = Some r"
  shows "blocks_for hdr blocks \<longrightarrow> loop_post target hdr (snd r)"
proof (rule gpu_loop.raw_induct [where P = "\<lambda>env search target builtOn startMs i hdr blocks nonceBase r.
    blocks_for hdr blocks \<longrightarrow> loop_post target hdr (snd r)", OF _ assms], rule impI)
  fix f env and search :: "nat \<Rightarrow> mining_blocks \<Rightarrow> u32 \<Rightarrow> u32 \<Rightarrow> u32 option \<times> string"
    and target builtOn startMs and i :: nat and hdr and blocks :: mining_blocks and nonceBase :: u64 and r
  assume IH: "\<And>env search target builtOn startMs i hdr blocks nonceBase y.
      f env search target builtOn startMs i hdr blocks nonceBase = Some y \<Longrightarrow>
      blocks_for hdr blocks \<longrightarrow> loop_post target hdr (snd y)"
    and run: "(if \<not> obRunning (env i) then Some (True, False, hdr)
      else if obTip (env i) \<noteq> builtOn then Some (True, False, hdr)
      else if obMillis (env i) - startMs > TEMPLATE_REFRESH_MS then Some (True, False, hdr)
      else let cnt = (if nonceBase + 0x100000 > 0x100000000 then ucast (0x100000000 - nonceBase) else 0x100000 :: u32)
      in case search i blocks (ucast nonceBase) cnt of (hit, reason) \<Rightarrow>
        if reason \<noteq> [] then Some (False, False, hdr)
        else if (case hit of None \<Rightarrow> False
                 | Some n \<Rightarrow> uint_le (ArithFromBytes32 (words_hash (mining_words blocks n))) target)
        then Some (True, True, SetNonce (the hit) hdr)
        else let nonceBase = (case hit of None \<Rightarrow> nonceBase + ucast cnt | Some n \<Rightarrow> ucast n + 1)
        in if nonceBase \<ge> 0x100000000
           then let hdr = SetTimestamp (obWrapSeconds (env i)) hdr
                in f env search target builtOn startMs (Suc i) hdr (BuildMiningBlocks hdr blocks) 0
           else f env search target builtOn startMs (Suc i) hdr blocks nonceBase) = Some r"
    and b: "blocks_for hdr blocks"
  let ?h = "SetTimestamp (obWrapSeconds (env i)) hdr"
  define cnt :: u32 where
    "cnt = (if nonceBase + 0x100000 > (0x100000000 :: u64) then ucast (0x100000000 - nonceBase) else 0x100000)"
  define hit reason where "hit = fst (search i blocks (ucast nonceBase) cnt)"
    and "reason = snd (search i blocks (ucast nonceBase) cnt)"
  define base where "base = (case hit of None \<Rightarrow> nonceBase + ucast cnt | Some n \<Rightarrow> ucast n + 1)"
  have give_up: "loop_post target hdr (False, hdr)" by (simp add: loop_post_def)
  have w: "wf_BlockHeader hdr" using b by (simp add: blocks_for_def)
  have "snd r = (False, hdr) \<or>
      (\<exists>n. hit = Some n \<and> uint_le (ArithFromBytes32 (words_hash (mining_words blocks n))) target \<and>
        snd r = (True, SetNonce n hdr)) \<or>
      f env search target builtOn startMs (Suc i) ?h (BuildMiningBlocks ?h blocks) 0 = Some r \<or>
      f env search target builtOn startMs (Suc i) hdr blocks base = Some r"
    using run unfolding cnt_def [symmetric] Let_def split_def hit_def [symmetric] reason_def [symmetric]
    unfolding base_def
    by (cases hit) (auto split: if_splits)
  then show "loop_post target hdr (snd r)"
  proof (elim disjE exE conjE)
    fix n assume "uint_le (ArithFromBytes32 (words_hash (mining_words blocks n))) target" "snd r = (True, SetNonce n hdr)"
    then show ?thesis using b blocks_for_length [OF b, of n] by (simp add: loop_post_def blocks_for_def)
  next
    assume "f env search target builtOn startMs (Suc i) ?h (BuildMiningBlocks ?h blocks) 0 = Some r"
    from IH [OF this] show ?thesis using w loop_post_trans [of hdr ?h] by (simp add: blocks_for_Build)
  next
    assume "f env search target builtOn startMs (Suc i) hdr blocks base = Some r"
    from IH [OF this] show ?thesis using b by blast
  qed (simp add: give_up)
qed

section \<open>When the loops end\<close>

text \<open>
  \<open>undisturbed\<close>: mining goes on, the tip is the one the template was built on, the template is
  not old, and the time in the header is at most a minute behind.
\<close>

definition undisturbed :: "mine_obs \<Rightarrow> bytes32 \<Rightarrow> u64 \<Rightarrow> BlockHeader \<Rightarrow> bool" where
  "undisturbed ob builtOn startMs hdr \<longleftrightarrow> obRunning ob \<and> obTip ob = builtOn \<and>
     obMillis ob - startMs \<le> TEMPLATE_REFRESH_MS \<and> obSeconds ob \<le> mTimestamp hdr + 60"

lemma nonce_check_quiet: "undisturbed ob builtOn startMs hdr \<Longrightarrow> nonce_check ob builtOn startMs l hdr blocks = Some (hdr, blocks)"
  by (auto simp: undisturbed_def nonce_check_def dest: leD)

lemma nonce_loop_finds:
  assumes "blocks_for hdr blocks" and "is_uint target" and "targetTop = target_top target"
    and "\<And>j. j \<le> k \<Longrightarrow> undisturbed (env (i + j)) builtOn startMs hdr"
    and "unat nonce + k < 2 ^ 32"
    and "be_val (BlockHeader_GetHash (SetNonce (nonce + of_nat k) hdr)) \<le> uval target"
    and "\<And>j. j < k \<Longrightarrow> uval target < be_val (BlockHeader_GetHash (SetNonce (nonce + of_nat j) hdr))"
  shows "nonce_loop env target targetTop builtOn startMs i hdr blocks nonce =
    Some (True, SetNonce (nonce + of_nat k) hdr)"
  using assms(4-)
proof (induction k arbitrary: i nonce)
  case 0
  then show ?case
    using nonce_check_quiet [OF "0.prems"(1) [of 0]] nonce_hit_iff [OF assms(2)] assms(1,3)
    by (subst nonce_loop.simps) (simp add: undisturbed_def blocks_for_def)
next
  case (Suc k)
  have nw: "nonce \<noteq> 0xFFFFFFFF" "unat (nonce + 1) = unat nonce + 1"
    using Suc.prems(2) by (auto simp: unat_word_ariths)
  have "\<not> nonce_hit target targetTop blocks nonce"
    using Suc.prems(4) [of 0] nonce_hit_iff [OF assms(2)] assms(1,3) by (simp add: blocks_for_def not_le)
  then have "nonce_loop env target targetTop builtOn startMs i hdr blocks nonce =
      nonce_loop env target targetTop builtOn startMs (Suc i) hdr blocks (nonce + 1)"
    using Suc.prems(1) [of 0] nonce_check_quiet [OF Suc.prems(1) [of 0]] nw
    by (subst nonce_loop.simps) (simp add: undisturbed_def)
  also have "\<dots> = Some (True, SetNonce (nonce + 1 + of_nat k) hdr)"
  proof (rule Suc.IH)
    show "undisturbed (env (Suc i + j)) builtOn startMs hdr" if "j \<le> k" for j
      using Suc.prems(1) [of "Suc j"] that by simp
    show "uval target < be_val (BlockHeader_GetHash (SetNonce (nonce + 1 + of_nat j) hdr))" if "j < k" for j
      using Suc.prems(4) [of "Suc j"] that by (simp add: add.assoc)
  qed (use Suc.prems nw in \<open>simp_all add: add.assoc\<close>)
  finally show ?case by (simp add: add.assoc)
qed

text \<open>
  \<open>ends_at\<close>: in pass \<open>i\<close> mining has stopped, or the pass looks at its template and finds
  it stale or old.
\<close>

definition ends_at :: "(nat \<Rightarrow> mine_obs) \<Rightarrow> bytes32 \<Rightarrow> u64 \<Rightarrow> nat \<Rightarrow> bool" where
  "ends_at env builtOn startMs i \<longleftrightarrow> \<not> obRunning (env i) \<or>
     (of_nat (Suc i) :: u64) AND 0xFFFF = 0 \<and>
     (obTip (env i) \<noteq> builtOn \<or> obMillis (env i) - startMs > TEMPLATE_REFRESH_MS)"

lemma nonce_loop_returns:
  assumes "ends_at env builtOn startMs (i + k)"
  shows "nonce_loop env target targetTop builtOn startMs i hdr blocks nonce \<noteq> None"
  using assms
proof (induction k arbitrary: i hdr blocks nonce)
  case 0
  then show ?case by (subst nonce_loop.simps) (auto simp: ends_at_def nonce_check_def)
next
  case (Suc k)
  then have "nonce_loop env target targetTop builtOn startMs (Suc i) h b n \<noteq> None" for h b n
    using Suc.IH [of "Suc i"] by simp
  then show ?case by (subst nonce_loop.simps) (simp add: Let_def del: not_None_eq split: option.split prod.split)
qed

lemma gpu_loop_returns:
  assumes "\<not> obRunning (env (i + k)) \<or> obTip (env (i + k)) \<noteq> builtOn \<or>
    obMillis (env (i + k)) - startMs > TEMPLATE_REFRESH_MS"
  shows "gpu_loop env search target builtOn startMs i hdr blocks nonceBase \<noteq> None"
  using assms
proof (induction k arbitrary: i hdr blocks nonceBase)
  case 0
  then show ?case by (subst gpu_loop.simps) auto
next
  case (Suc k)
  then have "gpu_loop env search target builtOn startMs (Suc i) h b n \<noteq> None" for h b n
    using Suc.IH [of "Suc i"] by simp
  then show ?case by (subst gpu_loop.simps) (simp add: Let_def split_def del: not_None_eq)
qed

end
