(* ===== verification/Genesis_Block.thy ===== *)
theory Genesis_Block
  imports Genesis Sha256_Eval Pow
begin

text \<open>
  The first block computed: \<open>BuildGenesisBlock\<close> is evaluated, its coinbase and its header
  are hashed by rewriting, six and three compressions, and the result is the hash that
  \<open>GetGenesisHash\<close> returns.
\<close>

section \<open>The coinbase and its hash\<close>

definition genesis_coinbase :: Transaction where
  "genesis_coinbase = \<lparr>mVersion = CURRENT_VERSION,
     mInputs = [TxInput_init\<lparr>mPrevTxHash := zero32, mOutputIndex := 0xFFFFFFFF\<rparr>],
     mOutputs = [mk_TxOutput GENESIS_REWARD (HexToBytes32 GENESIS_REWARD_PUBKEYHASH_HEX),
       \<lparr>mValue = 0, mScriptPubKey = CreateNullData (map of_char GENESIS_MESSAGE)\<rparr>],
     mLocktime = 0, mTxHash = zero32, mHashCached = False\<rparr>"

definition coinbase_words :: "u32 list list" where
  "coinbase_words = [
    [0x1000000, 0x1000000, 0, 0, 0, 0, 0, 0,
     0, 0, 0xffffffff, 0, 0, 0, 0, 0],
    [0, 0, 0, 0, 0, 0, 0, 0,
     0, 0, 0, 0, 0, 0, 0, 0],
    [0, 0, 0, 0, 0, 0, 0, 0,
     0, 0, 0, 0x2000000, 0xadf4ca, 0x1000000, 0x2576a820, 0x8fb311b4],
    [0xe4a09e77, 0x5d0e9910, 0xe2ff5532, 0x5469e8b7, 0xa0b7085b, 0xd2fd1b0c, 0x80a316c5, 0x88ac0000,
     0, 0x856a, 0x4c823534, 0x36383635, 0x32303437, 0x37353631, 0x37323634, 0x36393631],
    [0x36653230, 0x35373635, 0x36353662, 0x36633739, 0x32303331, 0x33343266, 0x34313735, 0x36373266,
     0x33323330, 0x33323336, 0x32303437, 0x36663665, 0x36353230, 0x37323666, 0x36373735, 0x36353361],
    [0x32303431, 0x34393230, 0x37343732, 0x36393633, 0x36623733, 0x32303639, 0x37343733, 0x32303734,
     0x36353733, 0x37343635, 0x37323733, 0, 0, 0x80000000, 0, 0xba0]]"

lemma coinbase_step_1:
  "sha_compress [0x6a09e667, 0xbb67ae85, 0x3c6ef372, 0xa54ff53a, 0x510e527f, 0x9b05688c, 0x1f83d9ab, 0x5be0cd19]
     [0x1000000, 0x1000000, 0, 0, 0, 0, 0, 0,
      0, 0, 0xffffffff, 0, 0, 0, 0, 0] =
     [0x1d68ff08, 0xe8992dd, 0x3e2c8585, 0xe5e3dd63, 0xb0745223, 0x618e295a, 0x658d71f2, 0xcac8ab86]"
  by (simp only: sha_setup, simp only: sha_run cong: sha_congs, simp add: sha_read)

lemma coinbase_step_2:
  "sha_compress [0x1d68ff08, 0xe8992dd, 0x3e2c8585, 0xe5e3dd63, 0xb0745223, 0x618e295a, 0x658d71f2, 0xcac8ab86]
     [0, 0, 0, 0, 0, 0, 0, 0,
      0, 0, 0, 0, 0, 0, 0, 0] =
     [0x9545a23b, 0x443f452f, 0xc7accde2, 0x32777a81, 0x319a8b86, 0x32ffe0e, 0x8a40db7e, 0xff664e20]"
  by (simp only: sha_setup, simp only: sha_run cong: sha_congs, simp add: sha_read)

lemma coinbase_step_3:
  "sha_compress [0x9545a23b, 0x443f452f, 0xc7accde2, 0x32777a81, 0x319a8b86, 0x32ffe0e, 0x8a40db7e, 0xff664e20]
     [0, 0, 0, 0, 0, 0, 0, 0,
      0, 0, 0, 0x2000000, 0xadf4ca, 0x1000000, 0x2576a820, 0x8fb311b4] =
     [0x5095fe0c, 0x914674f5, 0x3fc7ade9, 0x5c25acbe, 0x657a5a4f, 0x91c06b62, 0x5eb92642, 0xfc0c14ee]"
  by (simp only: sha_setup, simp only: sha_run cong: sha_congs, simp add: sha_read)

lemma coinbase_step_4:
  "sha_compress [0x5095fe0c, 0x914674f5, 0x3fc7ade9, 0x5c25acbe, 0x657a5a4f, 0x91c06b62, 0x5eb92642, 0xfc0c14ee]
     [0xe4a09e77, 0x5d0e9910, 0xe2ff5532, 0x5469e8b7, 0xa0b7085b, 0xd2fd1b0c, 0x80a316c5, 0x88ac0000,
      0, 0x856a, 0x4c823534, 0x36383635, 0x32303437, 0x37353631, 0x37323634, 0x36393631] =
     [0x80e1b2d, 0xcbdf00f1, 0x360307b1, 0x5ddad394, 0x5a4eb26f, 0x40f6cde9, 0x4707c258, 0x97709121]"
  by (simp only: sha_setup, simp only: sha_run cong: sha_congs, simp add: sha_read)

lemma coinbase_step_5:
  "sha_compress [0x80e1b2d, 0xcbdf00f1, 0x360307b1, 0x5ddad394, 0x5a4eb26f, 0x40f6cde9, 0x4707c258, 0x97709121]
     [0x36653230, 0x35373635, 0x36353662, 0x36633739, 0x32303331, 0x33343266, 0x34313735, 0x36373266,
      0x33323330, 0x33323336, 0x32303437, 0x36663665, 0x36353230, 0x37323666, 0x36373735, 0x36353361] =
     [0x16e34f5b, 0xc390ca24, 0x2d5ac175, 0xd04e6544, 0x348741fc, 0xb927d474, 0xdee90f5b, 0x4cbd4671]"
  by (simp only: sha_setup, simp only: sha_run cong: sha_congs, simp add: sha_read)

lemma coinbase_step_6:
  "sha_compress [0x16e34f5b, 0xc390ca24, 0x2d5ac175, 0xd04e6544, 0x348741fc, 0xb927d474, 0xdee90f5b, 0x4cbd4671]
     [0x32303431, 0x34393230, 0x37343732, 0x36393633, 0x36623733, 0x32303639, 0x37343733, 0x32303734,
      0x36353733, 0x37343635, 0x37323733, 0, 0, 0x80000000, 0, 0xba0] =
     [0x43396588, 0x49b5e2e, 0x5b9e5272, 0xf1930d3, 0xeeef64de, 0x59e431e1, 0x820a0a39, 0xbc3a2164]"
  by (simp only: sha_setup, simp only: sha_run cong: sha_congs, simp add: sha_read)

lemma reward_hash:
  "HexToBytes32 GENESIS_REWARD_PUBKEYHASH_HEX =
     [0x8f, 0xb3, 0x11, 0xb4, 0xe4, 0xa0, 0x9e, 0x77, 0x5d, 0xe, 0x99, 0x10, 0xe2, 0xff, 0x55, 0x32, 0x54, 0x69, 0xe8, 0xb7, 0xa0, 0xb7, 0x8, 0x5b, 0xd2, 0xfd, 0x1b, 0xc, 0x80, 0xa3, 0x16, 0xc5]"
  by (simp add: HexToBytes32_def GENESIS_REWARD_PUBKEYHASH_HEX_def char_to_nibble_def upt_rec)

lemma coinbase_serialized:
  "sha_pad (Transaction_Serialize False genesis_coinbase) = concat (map be_bytes (concat coinbase_words))"
  by (simp add: genesis_coinbase_def reward_hash Transaction_Serialize_def TxInput_Serialize_def TxOutput_Serialize_def
      TxInput_init_def mk_TxOutput_def CreatePayToPubkeyHash_def CreateNullData_def PushData_def GENESIS_MESSAGE_def
      GENESIS_REWARD_def CURRENT_VERSION_def WriteCompactSize_def WriteLE32_def WriteLE64_def Let_def sha_pad_def
      coinbase_words_def be_bytes_def be_length_def OP_DUP_def OP_SHA256_def OP_EQUALVERIFY_def OP_CHECKSIG_def
      OP_RETURN_def OP_PUSHDATA1_def upt_rec zero32_def zero64_def replicate_literal)

definition coinbase_hash :: bytes32 where
  "coinbase_hash =
     [0x43, 0x39, 0x65, 0x88, 0x4, 0x9b, 0x5e, 0x2e, 0x5b, 0x9e, 0x52, 0x72, 0xf, 0x19, 0x30, 0xd3, 0xee,
      0xef, 0x64, 0xde, 0x59, 0xe4, 0x31, 0xe1, 0x82, 0xa, 0xa, 0x39, 0xbc, 0x3a, 0x21, 0x64]"

lemma GetHash_genesis_coinbase: "GetHash genesis_coinbase = coinbase_hash"
proof -
  have "GetHash genesis_coinbase =
      sha256_Final (sha256_Update sha256_Init (Transaction_Serialize False genesis_coinbase))"
    by (simp add: GetHash_def GetHash_st_def ComputeHash_def genesis_coinbase_def)
  also have "\<dots> = concat (map be_bytes (fold (\<lambda>w s. sha_compress s w) coinbase_words sha256_initial_hash_value))"
    by (intro sha256_chunks [OF coinbase_serialized]) (simp_all add: coinbase_words_def)
  also have "\<dots> = coinbase_hash"
    by (simp add: coinbase_words_def sha256_initial_hash_value_def coinbase_step_1 coinbase_step_2 coinbase_step_3
        coinbase_step_4 coinbase_step_5 coinbase_step_6 coinbase_hash_def be_bytes_def)
  finally show ?thesis .
qed

section \<open>The header and its hash\<close>

definition genesis_header :: BlockHeader where
  "genesis_header = \<lparr>hVersion = GENESIS_VERSION, mPrevBlockHash = zero32, mMerkleRoot = coinbase_hash,
     mLeafRoot = zero32, mTimestamp = GENESIS_TIMESTAMP, mHeight = 0, mBits = POW_LIMIT_COMPACT,
     mNonce = GENESIS_NONCE, mBlockHash = zero32, hHashCached = False\<rparr>"

definition genesis_block :: Block where
  "genesis_block = \<lparr>mHeader = genesis_header, mTransactions = [genesis_coinbase]\<rparr>"

definition header_words :: "u32 list list" where
  "header_words = [
    [0x1000000, 0, 0, 0, 0, 0, 0, 0,
     0, 0x43396588, 0x49b5e2e, 0x5b9e5272, 0xf1930d3, 0xeeef64de, 0x59e431e1, 0x820a0a39],
    [0xbc3a2164, 0, 0, 0, 0, 0, 0, 0,
     0, 0xab3f7f6a, 0, 0, 0xffff001d, 0x604bcf65, 0x80000000, 0],
    [0, 0, 0, 0, 0, 0, 0, 0,
     0, 0, 0, 0, 0, 0, 0, 0x3c0]]"

lemma header_step_1:
  "sha_compress [0x6a09e667, 0xbb67ae85, 0x3c6ef372, 0xa54ff53a, 0x510e527f, 0x9b05688c, 0x1f83d9ab, 0x5be0cd19]
     [0x1000000, 0, 0, 0, 0, 0, 0, 0,
      0, 0x43396588, 0x49b5e2e, 0x5b9e5272, 0xf1930d3, 0xeeef64de, 0x59e431e1, 0x820a0a39] =
     [0x3238095a, 0x34b353b6, 0x2f183e3f, 0xdd10e776, 0x93fcf60, 0xa71e1b83, 0x5053f555, 0x513daf96]"
  by (simp only: sha_setup, simp only: sha_run cong: sha_congs, simp add: sha_read)

lemma header_step_2:
  "sha_compress [0x3238095a, 0x34b353b6, 0x2f183e3f, 0xdd10e776, 0x93fcf60, 0xa71e1b83, 0x5053f555, 0x513daf96]
     [0xbc3a2164, 0, 0, 0, 0, 0, 0, 0,
      0, 0xab3f7f6a, 0, 0, 0xffff001d, 0x604bcf65, 0x80000000, 0] =
     [0x8bda5b57, 0x10509f56, 0x7d230b28, 0xf67eccc6, 0xd2f73c89, 0x980c961c, 0xe826647e, 0x63037c11]"
  by (simp only: sha_setup, simp only: sha_run cong: sha_congs, simp add: sha_read)

lemma header_step_3:
  "sha_compress [0x8bda5b57, 0x10509f56, 0x7d230b28, 0xf67eccc6, 0xd2f73c89, 0x980c961c, 0xe826647e, 0x63037c11]
     [0, 0, 0, 0, 0, 0, 0, 0,
      0, 0, 0, 0, 0, 0, 0, 0x3c0] =
     [0, 0xa03ce5fa, 0xf3e74612, 0xdc86207a, 0xf4b317a8, 0x40cbeb0a, 0x2bb67247, 0x5a04a9ea]"
  by (simp only: sha_setup, simp only: sha_run cong: sha_congs, simp add: sha_read)

lemma header_serialized:
  "sha_pad (BlockHeader_Serialize genesis_header) = concat (map be_bytes (concat header_words))"
  by (simp add: genesis_header_def BlockHeader_Serialize_def coinbase_hash_def WriteLE32_def WriteLE64_def
      GENESIS_VERSION_def GENESIS_TIMESTAMP_def GENESIS_NONCE_def POW_LIMIT_COMPACT_def sha_pad_def
      header_words_def be_bytes_def be_length_def zero32_def replicate_literal)

lemma genesis_header_hash: "BlockHeader_GetHash genesis_header = GetGenesisHash"
proof -
  have "BlockHeader_GetHash genesis_header =
      sha256_Final (sha256_Update sha256_Init (BlockHeader_Serialize genesis_header))"
    by (simp add: BlockHeader_GetHash_def BlockHeader_GetHash_st_def BlockHeader_ComputeHash_def genesis_header_def)
  also have "\<dots> = concat (map be_bytes (fold (\<lambda>w s. sha_compress s w) header_words sha256_initial_hash_value))"
    by (intro sha256_chunks [OF header_serialized]) (simp_all add: header_words_def)
  also have "\<dots> = GetGenesisHash"
    by (simp add: header_words_def sha256_initial_hash_value_def header_step_1 header_step_2 header_step_3
        be_bytes_def GetGenesisHash_def HexToBytes32_def char_to_nibble_def upt_rec)
  finally show ?thesis .
qed

lemma IsCoinbase_genesis: "IsCoinbase genesis_coinbase"
  by (simp add: IsCoinbase_def genesis_coinbase_def TxInput_init_def all_zero_def zero32_def list_all_iff)

lemma BuildGenesisBlock_eq: "BuildGenesisBlock = Inr genesis_block"
proof -
  note cb = IsCoinbase_genesis
  have "BuildGenesisBlock = rbind (AddCoinbase genesis_coinbase
      \<lparr>mHeader = genesis_header\<lparr>mMerkleRoot := zero32\<rparr>, mTransactions = []\<rparr>) (\<lambda>b. Inr (BlockBuilder_Build b))"
    by (simp add: BuildGenesisBlock_def genesis_coinbase_def genesis_header_def AddInput_def AddOutput_def Let_def
        Transaction_init_def MAX_INPUTS_def MAX_OUTPUTS_def BlockBuilder_init_def Block_init_def BlockHeader_init_def
        SetHeaderVersion_def SetPrevBlockHash_def SetTimestamp_def SetHeight_def SetBits_def SetNonce_def)
  also have "\<dots> = Inr (UpdateRoots \<lparr>mHeader = genesis_header\<lparr>mMerkleRoot := zero32\<rparr>, mTransactions = [genesis_coinbase]\<rparr>)"
    using cb by (simp add: AddCoinbase_def AddTransaction_def MAX_TRANSACTIONS_def BlockBuilder_Build_def)
  also have "\<dots> = Inr genesis_block"
    using cb by (simp add: UpdateRoots_def UpdateLeafRoot_def UpdateMerkleRoot_def Block_ComputeMerkleRoot_def
        ComputeLeafRoot_def leaf_commitments_def ComputeMerkleRoot_def GetHash_genesis_coinbase SetMerkleRoot_def
        SetLeafRoot_def genesis_block_def genesis_header_def)
  finally show ?thesis .
qed

lemma genesis_pow: "CheckProofOfWork GetGenesisHash POW_LIMIT_COMPACT"
proof -
  have "be_val GetGenesisHash \<le> target_of POW_LIMIT_COMPACT"
    by (simp add: GetGenesisHash_def HexToBytes32_def char_to_nibble_def be_val_def upt_rec [of _ 32]
        target_of_def SetCompact_large POW_LIMIT_fields)
  then show ?thesis
    using CheckProofOfWork_spec [of GetGenesisHash POW_LIMIT_COMPACT] valid_pow_limit
    by (simp add: GetGenesisHash_def target_of_pow_limit)
qed

lemma genesis_valid: "Block_IsValid genesis_block = Inr True"
proof -
  have roots: "Block_ComputeMerkleRoot genesis_block = coinbase_hash" "ComputeLeafRoot genesis_block = zero32"
    by (simp_all add: genesis_block_def Block_ComputeMerkleRoot_def ComputeLeafRoot_def leaf_commitments_def
        ComputeMerkleRoot_def GetHash_genesis_coinbase IsCoinbase_genesis)
  have len: "length (HexToBytes32 GENESIS_REWARD_PUBKEYHASH_HEX) = 32" "length GENESIS_MESSAGE = 130"
    by (simp_all add: GENESIS_MESSAGE_def)
  have tx_size: "Transaction_GetSerializedSize True genesis_coinbase = 376"
    by (simp add: Transaction_GetSerializedSize_def genesis_coinbase_def TxInput_GetSerializedSize_def TxInput_init_def
        TxOutput_GetSerializedSize_def mk_TxOutput_def CreatePayToPubkeyHash_def CreateNullData_def PushData_def
        CompactSizeLen_def len)
  have size: "Block_GetSerializedSize genesis_block \<le> MAX_BLOCK_SIZE"
    by (simp add: Block_GetSerializedSize_def genesis_block_def tx_size SERIALIZED_SIZE_def MAX_BLOCK_SIZE_def)
  have total: "GetValueOut genesis_coinbase = Inr 7700000000"
    by (simp add: GetValueOut_def genesis_coinbase_def mk_TxOutput_def GENESIS_REWARD_def INT64_MAX_def)
  have parts: "list_all TxInput_IsValid (mInputs genesis_coinbase)" "list_all TxOutput_IsValid (mOutputs genesis_coinbase)"
    by (simp_all add: genesis_coinbase_def TxInput_IsValid_def TxInput_init_def TxOutput_IsValid_def mk_TxOutput_def
        CreatePayToPubkeyHash_def CreateNullData_def PushData_def MAX_SCRIPT_SIZE_def len GENESIS_REWARD_def
        all_zero_def zero32_def list_all_iff)
  have "length (mInputs genesis_coinbase) = 1" "length (mOutputs genesis_coinbase) = 2"
    by (simp_all add: genesis_coinbase_def)
  then have tx: "Transaction_IsValid genesis_coinbase = Inr True"
    using tx_size IsCoinbase_genesis parts
    by (auto simp: Transaction_IsValid_def MAX_TX_SIZE_def MAX_INPUTS_def MAX_OUTPUTS_def total)
  have "BlockHeader_IsValid genesis_header"
    by (simp add: BlockHeader_IsValid_def genesis_header_def GENESIS_VERSION_def GENESIS_TIMESTAMP_def
        POW_LIMIT_COMPACT_def coinbase_hash_def all_zero_def)
  then show ?thesis
    using size by (simp add: Block_IsValid_def roots IsCoinbaseValid_def) (simp add: genesis_block_def genesis_header_def tx IsCoinbase_genesis)
qed

text \<open>
  C20. The first block is the one the client names: \<open>BuildGenesisBlock\<close> does not throw, the
  block it builds hashes to \<open>GetGenesisHash\<close>, which is also the checkpoint at height zero,
  the hash meets the proof of work for its bits, the block passes its own validity check,
  and its coinbase pays exactly the subsidy of height zero.
\<close>

theorem genesis_identity:
  "\<exists>b. BuildGenesisBlock = Inr b \<and> BlockHeader_GetHash (mHeader b) = GetGenesisHash \<and>
     GetCheckpointHash 0 = GetGenesisHash \<and> CheckProofOfWork (BlockHeader_GetHash (mHeader b)) (mBits (mHeader b)) \<and>
     Block_IsValid b = Inr True \<and>
     (\<Sum>out \<leftarrow> concat (map mOutputs (mTransactions b)). mValue out) = uint (GetBlockSubsidy 0)"
proof (intro exI conjI)
  show "BuildGenesisBlock = Inr genesis_block" by (rule BuildGenesisBlock_eq)
  show "GetCheckpointHash 0 = GetGenesisHash"
    by (simp add: GetCheckpointHash_def MAINNET_CHECKPOINTS_def GetGenesisHash_def)
  show "(\<Sum>out \<leftarrow> concat (map mOutputs (mTransactions genesis_block)). mValue out) = uint (GetBlockSubsidy 0)"
    by (simp add: genesis_block_def genesis_coinbase_def mk_TxOutput_def GENESIS_REWARD_def GetBlockSubsidy_def
        INITIAL_SUBSIDY_def COIN_def)
  show "BlockHeader_GetHash (mHeader genesis_block) = GetGenesisHash"
    by (simp add: genesis_block_def genesis_header_hash)
  then show "CheckProofOfWork (BlockHeader_GetHash (mHeader genesis_block)) (mBits (mHeader genesis_block))"
    by (simp add: genesis_pow) (simp add: genesis_block_def genesis_header_def genesis_pow)
qed (rule genesis_valid)

end
