(* ===== verification/Mining_Search.thy ===== *)
theory Mining_Search
  imports Mining_Kernel Genesis_Block
begin

text \<open>
  What the nonce searches of the miner deliver: a block they return passes the
  proof-of-work check and carries the same work, a search left in peace finds the first
  nonce that solves the block, a search whose template went stale ends, and the kernel for
  graphics cards computes the same words as the processor. The first block of the chain is
  the witness: its nonce is found.
\<close>

section \<open>The two searches as one\<close>

lemma target_cases:
  obtains t neg over where "SetCompact bits = (t, neg, over)" "is_uint t" "uval t = target_of bits"
    "neg \<or> over \<or> EqualTo t 0 \<longleftrightarrow> \<not> valid_bits bits"
  by (rule SetCompact_cases [of bits]) (auto simp: EqualTo_iff)

lemma RunNonceLoop_eq:
  assumes "SetCompact (mBits (mHeader block)) = (t, neg, over)"
    and "neg \<or> over \<or> EqualTo t 0 \<longleftrightarrow> \<not> valid_bits (mBits (mHeader block))"
  shows "RunNonceLoop env startMs junk block =
      (if \<not> valid_bits (mBits (mHeader block)) then Some (False, block)
       else map_option (\<lambda>(found, hdr). (found, block\<lparr>mHeader := hdr\<rparr>))
         (nonce_loop env t (target_top t) (mPrevBlockHash (mHeader block)) startMs 0 (mHeader block)
            (BuildMiningBlocks (mHeader block) junk) (mNonce (mHeader block))))"
    and "RunNonceLoopGpu env search startMs junk block =
      (if \<not> valid_bits (mBits (mHeader block)) then Some (True, False, block)
       else map_option (\<lambda>(useGpu, found, hdr). (useGpu, found, block\<lparr>mHeader := hdr\<rparr>))
         (gpu_loop env search t (mPrevBlockHash (mHeader block)) startMs 0 (mHeader block)
            (BuildMiningBlocks (mHeader block) junk) 0))"
  using assms by (simp_all add: RunNonceLoop_def RunNonceLoopGpu_def Let_def)

lemma loop_post_pow:
  assumes "loop_post t h (True, h')" and "valid_bits (mBits h)" and "is_uint t" and "uval t = target_of (mBits h)"
    and "target_of (mBits h) \<le> pow_limit_val"
  shows "same_work h h' \<and> CheckProofOfWork (BlockHeader_GetHash h') (mBits h')"
  using assms by (auto simp: loop_post_def same_work_def CheckProofOfWork_spec uint_le_def CompareTo_le ArithFromBytes32_uval)

lemma RunNonceLoop_first:
  assumes "wf_BlockHeader (mHeader block)" and "valid_bits (mBits (mHeader block))"
    and "\<forall>j \<le> k. undisturbed (env j) (mPrevBlockHash (mHeader block)) startMs (mHeader block)"
    and "unat (mNonce (mHeader block)) + k < 2 ^ 32"
    and "be_val (BlockHeader_GetHash (SetNonce (mNonce (mHeader block) + of_nat k) (mHeader block)))
      \<le> target_of (mBits (mHeader block))"
    and "\<forall>j < k. target_of (mBits (mHeader block))
      < be_val (BlockHeader_GetHash (SetNonce (mNonce (mHeader block) + of_nat j) (mHeader block)))"
  shows "RunNonceLoop env startMs junk block =
    Some (True, block\<lparr>mHeader := SetNonce (mNonce (mHeader block) + of_nat k) (mHeader block)\<rparr>)"
proof -
  let ?h = "mHeader block"
  obtain t neg over where t: "SetCompact (mBits ?h) = (t, neg, over)" "is_uint t" "uval t = target_of (mBits ?h)"
    "neg \<or> over \<or> EqualTo t 0 \<longleftrightarrow> \<not> valid_bits (mBits ?h)"
    by (rule target_cases)
  show ?thesis
    using assms t(2,3) nonce_loop_finds [OF blocks_for_Build [OF assms(1)] t(2) refl, of k env 0 "mPrevBlockHash ?h" startMs "mNonce ?h"]
    by (simp add: RunNonceLoop_eq [OF t(1,4)])
qed

text \<open>The first block under observation: the tip is what it was built on and the clocks stand still.\<close>

definition still :: "nat \<Rightarrow> mine_obs" where
  "still i = \<lparr>obRunning = True, obTip = zero32, obMillis = 0, obSeconds = GENESIS_TIMESTAMP,
     obWrapSeconds = GENESIS_TIMESTAMP\<rparr>"

lemma genesis_header_wf [simp]: "wf_BlockHeader genesis_header"
  by (simp add: wf_BlockHeader_def genesis_header_def coinbase_hash_def)

lemma genesis_header_fields [simp]:
  "mBits genesis_header = POW_LIMIT_COMPACT" "mPrevBlockHash genesis_header = zero32"
  "mNonce genesis_header = GENESIS_NONCE" "mHeader genesis_block = genesis_header"
  "SetNonce GENESIS_NONCE genesis_header = genesis_header" "genesis_block\<lparr>mHeader := genesis_header\<rparr> = genesis_block"
  by (simp_all add: genesis_header_def genesis_block_def SetNonce_def)

lemma still_quiet: "undisturbed (still i) zero32 0 genesis_header"
  by (simp add: undisturbed_def still_def TEMPLATE_REFRESH_MS_def genesis_header_def GENESIS_TIMESTAMP_def)

lemma genesis_hash_low: "be_val (BlockHeader_GetHash genesis_header) \<le> target_of POW_LIMIT_COMPACT"
  using genesis_pow CheckProofOfWork_spec [of GetGenesisHash POW_LIMIT_COMPACT]
  by (simp add: genesis_header_hash) (simp add: GetGenesisHash_def)

lemma genesis_found: "RunNonceLoop still 0 junk genesis_block = Some (True, genesis_block)"
  using RunNonceLoop_first [of genesis_block 0 still 0 junk] genesis_hash_low unsigned_less [of GENESIS_NONCE, where 'a = nat]
  by (simp add: still_quiet valid_pow_limit)

section \<open>A returned block solves its own puzzle\<close>

text \<open>
  C18. A block that either search reports as found carries the transactions it was given,
  its header differs from the given one at most in time and nonce, and its hash passes the
  proof-of-work check of the validation code, whatever the driver of the graphics card
  answered and whatever the clocks and the chain did meanwhile. The search of the
  processor hashes only from the prepared midstate; the check hashes the whole header.
\<close>

theorem mined_block_sound:
  assumes "wf_BlockHeader (mHeader block)" and "target_of (mBits (mHeader block)) \<le> pow_limit_val"
    and "RunNonceLoop env startMs junk block = Some (True, block') \<or>
      RunNonceLoopGpu env search startMs junk block = Some (useGpu, True, block')"
  shows "mTransactions block' = mTransactions block \<and> same_work (mHeader block) (mHeader block') \<and>
    CheckProofOfWork (BlockHeader_GetHash (mHeader block')) (mBits (mHeader block'))"
proof -
  let ?h = "mHeader block"
  obtain t neg over where t: "SetCompact (mBits ?h) = (t, neg, over)" "is_uint t" "uval t = target_of (mBits ?h)"
    "neg \<or> over \<or> EqualTo t 0 \<longleftrightarrow> \<not> valid_bits (mBits ?h)"
    by (rule target_cases)
  have b: "blocks_for ?h (BuildMiningBlocks ?h junk)" using assms(1) by (rule blocks_for_Build)
  have v: "valid_bits (mBits ?h)"
    using assms(3) by (auto simp: RunNonceLoop_eq [OF t(1,4)] split: if_splits)
  obtain h' where h': "block' = block\<lparr>mHeader := h'\<rparr>" and
    "nonce_loop env t (target_top t) (mPrevBlockHash ?h) startMs 0 ?h (BuildMiningBlocks ?h junk) (mNonce ?h) = Some (True, h') \<or>
     gpu_loop env search t (mPrevBlockHash ?h) startMs 0 ?h (BuildMiningBlocks ?h junk) 0 = Some (useGpu, True, h')"
    using assms(3) v by (auto simp: RunNonceLoop_eq [OF t(1,4)])
  then have "loop_post t ?h (True, h')"
    using b by (auto dest!: nonce_loop_sound gpu_loop_sound)
  then show ?thesis using loop_post_pow [OF _ v t(2,3) assms(2)] h' by simp
qed

theorem mined_block_sound_witness:
  "RunNonceLoop still 0 ([], [], []) genesis_block = Some (True, genesis_block) \<and>
   CheckProofOfWork (BlockHeader_GetHash (mHeader genesis_block)) (mBits (mHeader genesis_block))"
  using mined_block_sound [of genesis_block still 0 "([], [], [])" genesis_block] genesis_found
  by (simp add: target_of_pow_limit)

section \<open>An undisturbed search finds the first solution\<close>

text \<open>
  C19. The search of the processor is complete and in order: when mining goes on, the tip
  stays and the template stays young, the loop returns exactly the first nonce, counted
  from the one it starts with, for which the hash of the header is at most the target;
  neither the midstate nor the early test on the top word of the hash skips a solution.
\<close>

theorem RunNonceLoop_complete:
  assumes "wf_BlockHeader (mHeader block)" and "valid_bits (mBits (mHeader block))"
    and "\<forall>j \<le> k. undisturbed (env j) (mPrevBlockHash (mHeader block)) startMs (mHeader block)"
    and "unat (mNonce (mHeader block)) + k < 2 ^ 32"
    and "be_val (BlockHeader_GetHash (SetNonce (mNonce (mHeader block) + of_nat k) (mHeader block)))
      \<le> target_of (mBits (mHeader block))"
    and "\<forall>j < k. target_of (mBits (mHeader block))
      < be_val (BlockHeader_GetHash (SetNonce (mNonce (mHeader block) + of_nat j) (mHeader block)))"
  shows "RunNonceLoop env startMs junk block =
    Some (True, block\<lparr>mHeader := SetNonce (mNonce (mHeader block) + of_nat k) (mHeader block)\<rparr>)"
  using assms by (rule RunNonceLoop_first)

theorem RunNonceLoop_complete_witness:
  "RunNonceLoop still 0 ([], [], []) genesis_block = Some (True, genesis_block)"
  using RunNonceLoop_complete [of genesis_block 0 still 0 "([], [], [])"] genesis_hash_low unsigned_less [of GENESIS_NONCE, where 'a = nat]
  by (simp add: still_quiet valid_pow_limit)

section \<open>A stale search ends\<close>

text \<open>Of 65536 passes in a row, one looks at the template.\<close>

lemma check_pass: "\<exists>k. (of_nat (Suc (N + k)) :: u64) AND 0xFFFF = 0"
proof -
  define m where "m = N div 65536 + 1"
  have "N < 65536 * m" unfolding m_def by (simp add: dividend_less_times_div)
  then have k: "Suc (N + (65536 * m - Suc N)) = 65536 * m" by simp
  have "take_bit 16 (of_nat (65536 * m) :: u64) = of_nat (take_bit 16 (65536 * m))"
    by (rule take_bit_of_nat)
  also have "take_bit 16 (65536 * m) = 0" by (simp add: take_bit_eq_mod)
  finally have "(of_nat (65536 * m) :: u64) AND 0xFFFF = 0"
    by (simp add: take_bit_eq_mask mask_eq_exp_minus_1)
  then show ?thesis using k by metis
qed

text \<open>
  A search whose template went stale comes back. If from some pass on mining has
  stopped, the tip is another block, or more than fifteen seconds have passed, then both
  searches return; in the meantime the answers of the driver and the clocks may be
  anything. A header whose bits are no target is given back at once.
\<close>

theorem stale_search_returns:
  assumes "\<forall>i \<ge> N. \<not> obRunning (env i) \<or> obTip (env i) \<noteq> mPrevBlockHash (mHeader block) \<or>
    obMillis (env i) - startMs > TEMPLATE_REFRESH_MS"
  shows "(\<exists>r. RunNonceLoop env startMs junk block = Some r) \<and>
    (\<exists>r. RunNonceLoopGpu env search startMs junk block = Some r) \<and>
    (\<not> valid_bits (mBits (mHeader block)) \<longrightarrow> RunNonceLoop env startMs junk block = Some (False, block))"
proof -
  let ?h = "mHeader block"
  obtain t neg over where t: "SetCompact (mBits ?h) = (t, neg, over)" "is_uint t" "uval t = target_of (mBits ?h)"
    "neg \<or> over \<or> EqualTo t 0 \<longleftrightarrow> \<not> valid_bits (mBits ?h)"
    by (rule target_cases)
  obtain k where "(of_nat (Suc (N + k)) :: u64) AND 0xFFFF = 0" using check_pass by blast
  then have e: "ends_at env (mPrevBlockHash ?h) startMs (0 + (N + k))"
    using assms by (simp add: ends_at_def)
  show ?thesis
    using nonce_loop_returns [OF e] gpu_loop_returns [of env 0 N "mPrevBlockHash ?h" startMs] assms
    by (auto simp: RunNonceLoop_eq [OF t(1,4)])
qed

theorem stale_search_returns_witness:
  "\<exists>r. RunNonceLoop (\<lambda>i. still i\<lparr>obTip := GetGenesisHash\<rparr>) 0 ([], [], []) genesis_block = Some r"
proof -
  have "GetGenesisHash ! 4 \<noteq> 0"
    by (simp add: GetGenesisHash_def HexToBytes32_def char_to_nibble_def)
  moreover have "zero32 ! 4 = 0" by (simp add: zero32_def)
  ultimately have "GetGenesisHash \<noteq> zero32" by metis
  then show ?thesis
    using stale_search_returns [of 0 "\<lambda>i. still i\<lparr>obTip := GetGenesisHash\<rparr>" genesis_block 0 "([], [], [])"]
    by (simp add: still_def)
qed

section \<open>The kernel computes the same words\<close>

lemma kernel_schedule_prefix:
  assumes "length blk = 16" and "n \<le> 48"
  shows "fold (\<lambda>i w. w @ [sigma1_256 (w ! (i - 2)) + w ! (i - 7) + sigma0_256 (w ! (i - 15)) + w ! (i - 16)])
     [16..<16 + n] (map (\<lambda>i. blk ! i) [0..<16]) = map (sched blk) [0..<16 + n]"
  using assms(2)
proof (induction n)
  case 0
  show ?case by (simp add: sched.simps)
next
  case (Suc n)
  let ?w = "map (sched blk) [0..<16 + n]"
  have s: "sched blk (16 + n) = sigma1_256 (?w ! (16 + n - 2)) + ?w ! (16 + n - 7) + sigma0_256 (?w ! (16 + n - 15)) +
      ?w ! (16 + n - 16)"
    by (subst sched.simps) (simp del: upt_rec_numeral)
  have up: "[k..<16 + Suc n] = [k..<16 + n] @ [16 + n]" if "k \<le> 16" for k
    using that upt_Suc_append [of k "16 + n"] by (simp only: add_Suc_right trans_le_add1)
  show ?case
    unfolding up [OF order_refl] up [OF zero_le] fold_append comp_def Suc.IH [OF Suc_leD [OF Suc.prems]] map_append
    by (simp only: fold_simps s list.map)
qed

lemma kernel_schedule_nth:
  assumes "length blk = 16" and "i < 64"
  shows "kernel_schedule blk ! i = sched blk i"
proof -
  have e: "[16..<64] = [16..<16 + 48]"
    by (rule arg_cong [of _ _ "upt 16"]) simp
  have "kernel_schedule blk = map (sched blk) [0..<16 + 48]"
    unfolding kernel_schedule_def e by (rule kernel_schedule_prefix [OF assms(1) order_refl])
  then show ?thesis using nth_map_upt [of i "16 + 48" 0 "sched blk"] assms(2) by simp
qed

lemma kernel_transform_eq:
  assumes "length blk = 16"
  shows "kernel_transform state blk = sha_compress state blk"
proof -
  have "fold (\<lambda>i. sha_step (K256 ! i) (kernel_schedule blk ! i)) [0..<64] r =
      fold (\<lambda>i. sha_step (K256 ! i) (sched blk i)) [0..<64] r" for r
    by (rule fold_cong [OF refl refl]) (simp only: set_upt atLeastLessThan_iff kernel_schedule_nth [OF assms])
  then show ?thesis by (simp only: kernel_transform_def sha_compress_def Let_def)
qed

text \<open>
  The kernel text for graphics cards and the processor agree. Its transform is the one
  of the C file, its test is the test on the top word that the loop on the processor
  makes, and it reports every nonce that solves the block: when the hash of the header
  with that nonce is at most the target, the work item of the nonce is a hit.
\<close>

theorem kernel_agrees:
  assumes "wf_BlockHeader h"
  shows "(length blk = 16 \<longrightarrow> kernel_transform state blk = sha256_Transform state blk) \<and>
    (kernel_hit (BuildMiningBlocks h junk) top_word n \<longleftrightarrow> mining_words (BuildMiningBlocks h junk) n ! 0 \<le> top_word) \<and>
    (be_val (BlockHeader_GetHash (SetNonce n h)) \<le> target_of (mBits h) \<longrightarrow>
      kernel_hit (BuildMiningBlocks h junk) (target_top (fst (SetCompact (mBits h)))) n)"
proof -
  obtain t neg over where t: "SetCompact (mBits h) = (t, neg, over)" "is_uint t" "uval t = target_of (mBits h)"
    by (rule target_cases)
  have hit: "kernel_hit (BuildMiningBlocks h junk) w n \<longleftrightarrow> mining_words (BuildMiningBlocks h junk) n ! 0 \<le> w" for w
    by (simp add: kernel_hit_def mining_words_def BuildMiningBlocks_eq [OF assms] kernel_transform_eq sha256_Transform_eq)
  have "nonce_hit t (target_top t) (BuildMiningBlocks h junk) n"
    if "be_val (BlockHeader_GetHash (SetNonce n h)) \<le> target_of (mBits h)"
    using that by (simp add: nonce_hit_iff [OF t(2)] t(3) mining_words_hash [OF assms])
  then show ?thesis
    by (simp add: hit kernel_transform_eq sha256_Transform_eq t(1)) (simp add: nonce_hit_def Let_def)
qed

theorem kernel_agrees_witness:
  "kernel_hit (BuildMiningBlocks genesis_header ([], [], [])) (target_top (fst (SetCompact POW_LIMIT_COMPACT))) GENESIS_NONCE"
  using kernel_agrees [of genesis_header "[]" "[]" "([], [], [])" 0 GENESIS_NONCE] genesis_hash_low by simp

end
