(* ===== verification/Block_Template.thy ===== *)
theory Block_Template
  imports Chain_Progress Money_Supply Pool_Policy Mining_Search
begin

text \<open>
  Block templates (\<open>BuildCoinbase\<close>, \<open>ComputeTxFee\<close>, \<open>BuildBlockTemplate\<close> of
  \<open>miner.cpp\<close>): the coinbase, the fees, the choice of transactions from the memory pool
  under the size limit, and the header on top of the best block. The two readings of the
  clock are arguments.
\<close>

section \<open>The template\<close>

definition HEADER_VERSION :: u32 where
  "HEADER_VERSION = 1"

definition coinbase_marker :: "u32 \<Rightarrow> u64 \<Rightarrow> bytes32" where
  "coinbase_marker ht extraNonce =
     fold (\<lambda>i marker. marker[4 + i := ucast (drop_bit (8 * i) extraNonce AND 0xFF)]) [0..<8]
       (zero32[0 := ucast (ht AND 0xFF), 1 := ucast (drop_bit 8 ht AND 0xFF),
               2 := ucast (drop_bit 16 ht AND 0xFF), 3 := ucast (drop_bit 24 ht AND 0xFF)])"

definition BuildCoinbase :: "u32 \<Rightarrow> u64 \<Rightarrow> bytes32 \<Rightarrow> u64 \<Rightarrow> Transaction result" where
  "BuildCoinbase ht value coinbaseOutputHash extraNonce =
     (let tx = Transaction_init CURRENT_VERSION;
          inp = TxInput_init\<lparr>mPrevTxHash := zero32, mOutputIndex := 0xFFFFFFFF, mPubkey := coinbase_marker ht extraNonce\<rparr> in
      rbind (AddInput inp tx) (\<lambda>tx.
      AddOutput (mk_TxOutput (sint value) coinbaseOutputHash) tx))"

fun fee_in :: "UTXOSet \<Rightarrow> u64 \<Rightarrow> TxInput list \<Rightarrow> u64 option" where
  "fee_in u totalIn [] = Some totalIn"
| "fee_in u totalIn (input # inputs) =
     (case GetCoin (input_outpoint input) u of
        None \<Rightarrow> None
      | Some coin \<Rightarrow>
          let newIn = totalIn + of_int (cValue coin)
          in if newIn < totalIn then None else fee_in u newIn inputs)"

fun fee_out :: "u64 \<Rightarrow> TxOutput list \<Rightarrow> u64 option" where
  "fee_out totalOut [] = Some totalOut"
| "fee_out totalOut (out # outs) =
     (let newOut = totalOut + of_int (mValue out)
      in if newOut < totalOut then None else fee_out newOut outs)"

definition ComputeTxFee :: "Transaction \<Rightarrow> ChainState \<Rightarrow> u64 option" where
  "ComputeTxFee tx cs =
     (if IsCoinbase tx then Some 0
      else Option.bind (fee_in (csUTXOSet cs) 0 (mInputs tx)) (\<lambda>totalIn.
           Option.bind (fee_out 0 (mOutputs tx)) (\<lambda>totalOut.
             if totalIn < totalOut then None else Some (totalIn - totalOut))))"

fun add_all :: "Transaction list \<Rightarrow> Block \<Rightarrow> Block result" where
  "add_all [] b = Inr b"
| "add_all (tx # txs) b = rbind (AddTransaction tx b) (add_all txs)"

text \<open>
  The loop over the pending transactions. The block that overflows is rebuilt from what was
  included before the loop is left; it is not used again, but adding to it could throw.
\<close>

fun template_loop ::
  "ChainState \<Rightarrow> Transaction result \<Rightarrow> Transaction list \<Rightarrow> Block \<Rightarrow> u64 \<Rightarrow> Transaction list \<Rightarrow> (u64 \<times> Transaction list) result" where
  "template_loop cs coinbase [] sizeProbe totalFees body = Inr (totalFees, body)"
| "template_loop cs coinbase (tx # pending) sizeProbe totalFees body =
     (case ComputeTxFee tx cs of
        None \<Rightarrow> template_loop cs coinbase pending sizeProbe totalFees body
      | Some fee \<Rightarrow>
          rbind (AddTransaction tx sizeProbe) (\<lambda>sizeProbe.
          if Block_GetSerializedSize sizeProbe > MAX_BLOCK_SIZE then
            rbind coinbase (\<lambda>cb.
            rbind (add_all (cb # body) (ClearTransactions sizeProbe)) (\<lambda>_. Inr (totalFees, body)))
          else
            let newTotalFees = totalFees + fee
            in if newTotalFees < totalFees then Inr (totalFees, body)
               else template_loop cs coinbase pending sizeProbe newTotalFees (body @ [tx])))"

definition template_time :: "u64 \<Rightarrow> ChainState \<Rightarrow> u64" where
  "template_time now cs =
     (let mtp = GetMedianTimePast cs;
          mtp = (if mtp < GENESIS_TIMESTAMP then GENESIS_TIMESTAMP else mtp)
      in if now \<le> mtp then mtp + 1 else now)"

definition template_header :: "u32 \<Rightarrow> u64 \<Rightarrow> ChainState \<Rightarrow> BlockHeader" where
  "template_header nbits now cs =
     (let hdr = mHeader Block_init;
          hdr = SetHeaderVersion HEADER_VERSION hdr;
          hdr = SetPrevBlockHash (tip_hash cs) hdr;
          hdr = SetHeight (tip_height cs + 1) hdr;
          hdr = SetBits nbits hdr;
          hdr = SetNonce 0 hdr
      in SetTimestamp (template_time now cs) hdr)"

definition BuildBlockTemplate ::
  "u64 \<Rightarrow> u64 \<Rightarrow> bytes32 \<Rightarrow> Mempool option \<Rightarrow> ChainState \<Rightarrow> Block result" where
  "BuildBlockTemplate nowMillis nowSeconds coinbaseOutputHash mempool cs =
     (let ht = tip_height cs + 1; subsidy = GetBlockSubsidy (ucast ht);
          probeCoinbase = BuildCoinbase ht subsidy coinbaseOutputHash nowMillis in
      rbind (GetNextBits cs) (\<lambda>nbits.
      let block = Block_init\<lparr>mHeader := template_header nbits nowSeconds cs\<rparr> in
      rbind (case mempool of
          None \<Rightarrow> Inr (0, [])
        | Some pool \<Rightarrow>
            let pending = GetTransactions MAX_TRANSACTIONS pool in
            rbind probeCoinbase (\<lambda>cb.
            rbind (AddTransaction cb (Block_init\<lparr>mHeader := mHeader block\<rparr>)) (\<lambda>sizeProbe.
            template_loop cs probeCoinbase pending sizeProbe 0 []))) (\<lambda>(totalFees, body).
      rbind (BuildCoinbase ht (subsidy + MinerFeesAtHeight ht totalFees) coinbaseOutputHash nowMillis) (\<lambda>cb.
      rbind (AddTransaction cb block) (\<lambda>block.
      rbind (add_all body block) (\<lambda>block.
        Inr (UpdateRoots block)))))))"

section \<open>The coinbase\<close>

definition coinbase_of :: "u32 \<Rightarrow> u64 \<Rightarrow> bytes32 \<Rightarrow> u64 \<Rightarrow> Transaction" where
  "coinbase_of ht v dest x = (Transaction_init CURRENT_VERSION)\<lparr>
     mInputs := [TxInput_init\<lparr>mPrevTxHash := zero32, mOutputIndex := 0xFFFFFFFF, mPubkey := coinbase_marker ht x\<rparr>],
     mOutputs := [mk_TxOutput (sint v) dest]\<rparr>"

lemma BuildCoinbase_eq: "BuildCoinbase ht v dest x = Inr (coinbase_of ht v dest x)"
  by (simp add: BuildCoinbase_def coinbase_of_def AddInput_def AddOutput_def Transaction_init_def MAX_INPUTS_def
      MAX_OUTPUTS_def Let_def)

lemma coinbase_of_facts:
  "IsCoinbase (coinbase_of ht v dest x)" "mOutputs (coinbase_of ht v dest x) = [mk_TxOutput (sint v) dest]"
  "value_out (coinbase_of ht v dest x) = sint v"
  "0 \<le> sint v \<Longrightarrow> GetValueOut (coinbase_of ht v dest x) = Inr (sint v)"
proof -
  show "IsCoinbase (coinbase_of ht v dest x)"
    by (simp add: IsCoinbase_def coinbase_of_def all_zero_def zero32_def list_all_iff)
  show o: "mOutputs (coinbase_of ht v dest x) = [mk_TxOutput (sint v) dest]" by (simp add: coinbase_of_def)
  show "value_out (coinbase_of ht v dest x) = sint v" by (simp add: value_out_def o mk_TxOutput_def)
  have "sint v \<le> INT64_MAX" using sint_lt [of v] by (simp add: INT64_MAX_def)
  then show "0 \<le> sint v \<Longrightarrow> GetValueOut (coinbase_of ht v dest x) = Inr (sint v)"
    by (simp add: GetValueOut_def o mk_TxOutput_def)
qed

lemma coinbase_of_size:
  "Transaction_GetSerializedSize w (coinbase_of ht v dest x) = Transaction_GetSerializedSize w (coinbase_of ht v' dest x)"
  by (simp add: Transaction_GetSerializedSize_def coinbase_of_def TxOutput_GetSerializedSize_def mk_TxOutput_def)

section \<open>Fees\<close>

lemma fee_in_loop: "fee_in u t ins = Some r \<longleftrightarrow> tx_in_loop u k t ins = Accepts r"
  by (induction ins arbitrary: t) (auto simp: Let_def split: option.split)

lemma fee_out_exact:
  assumes "\<forall>out \<in> set outs. 0 \<le> mValue out" and "uint t + (\<Sum>out \<leftarrow> outs. mValue out) < 2 ^ 64"
  shows "\<exists>r. fee_out t outs = Some r \<and> uint r = uint t + (\<Sum>out \<leftarrow> outs. mValue out)"
  using assms
proof (induction outs arbitrary: t)
  case (Cons out outs)
  have "0 \<le> (\<Sum>out \<leftarrow> outs. mValue out)" using Cons.prems(1) by (intro sum_list_nonneg) auto
  then have e: "uint (t + of_int (mValue out)) = uint t + mValue out"
    using Cons.prems by (intro uint_add_exact) auto
  then have "\<not> t + of_int (mValue out) < t" using Cons.prems(1) by (simp add: word_less_def)
  then show ?case using Cons.IH [of "t + of_int (mValue out)"] Cons.prems e by (simp add: Let_def algebra_simps)
qed simp

lemma uint_diff_exact: "\<not> a < b \<Longrightarrow> uint (a - b :: u64) = uint a - uint b"
  by (simp add: uint_minus_simple_alt [THEN iffD1] word_less_def word_le_def uint_sub_lem not_less)

lemma checks_bounds:
  assumes "utxo_checks_ok tx u ht"
  shows "\<forall>i \<in> set (mInputs tx). spendable u ht i" "\<forall>out \<in> set (mOutputs tx). 0 \<le> mValue out"
    "value_in u tx \<le> MAX_MONEY" "value_out tx \<le> value_in u tx" "0 \<le> value_out tx" "MAX_MONEY < 2 ^ 63"
proof -
  show o: "\<forall>out \<in> set (mOutputs tx). 0 \<le> mValue out"
    using assms by (auto simp: utxo_checks_ok_def context_free_ok_def output_ok_def)
  then show "0 \<le> value_out tx" unfolding value_out_def by (intro sum_list_nonneg) auto
qed (use assms in \<open>auto simp: utxo_checks_ok_def MAX_MONEY_def COIN_def\<close>)

lemma ComputeTxFee_exact:
  assumes "\<not> IsCoinbase tx" and ok: "utxo_checks_ok tx (csUTXOSet cs) ht"
  shows "\<exists>fee. ComputeTxFee tx cs = Some fee \<and> uint fee = value_in (csUTXOSet cs) tx - value_out tx"
proof -
  note b = checks_bounds [OF ok]
  obtain ri where ri: "fee_in (csUTXOSet cs) 0 (mInputs tx) = Some ri" "uint ri = value_in (csUTXOSet cs) tx"
    using tx_in_loop_exact [OF b(1), of 0 0] b(3,6) fee_in_loop by (fastforce simp: value_in_def)
  obtain ro where ro: "fee_out 0 (mOutputs tx) = Some ro" "uint ro = value_out tx"
    using fee_out_exact [OF b(2), of 0] b by (auto simp: value_out_def)
  have "\<not> ri < ro" using b(4) ri ro by (simp add: word_less_def)
  then show ?thesis using assms(1) ri ro uint_diff_exact [of ri ro] by (simp add: ComputeTxFee_def)
qed

section \<open>A verified payment is large\<close>

lemma NoiseProof_Deserialize_size:
  "NoiseProof_Deserialize data off = Inr (p, off') \<Longrightarrow> off' = off + 72 + 33 * length (merklePath p)"
  unfolding NoiseProof_Deserialize_def
  by (auto simp: Let_def rbind_eq_Inr_iff not_less dec_n_rd_hash dec_n_rd_dir dest!: ReadLE32_off)

lemma noise_depth: "expected_depth (unat NOISE_LEAF_COUNT) = 20"
  by (simp add: NOISE_LEAF_COUNT_def expected_depth.simps)

lemma dec_n_end: "dec_n NoiseProof_Deserialize n data off = Inr (ps, off') \<Longrightarrow> off \<le> off'"
proof (induction n arbitrary: off ps)
  case (Suc n)
  then obtain p off1 qs where p: "NoiseProof_Deserialize data off = Inr (p, off1)"
    "dec_n NoiseProof_Deserialize n data off1 = Inr (qs, off')" by (auto simp: rbind_eq_Inr_iff)
  show ?case using NoiseProof_Deserialize_bounds [OF p(1)] Suc.IH [OF p(2)] by simp
qed simp

lemma input_valid_size:
  assumes "input_valid verify tx u (k, input)"
  shows "732 \<le> length (mNoiseProof input)"
proof -
  obtain ps where ps: "dec_n NoiseProof_Deserialize (length ps) (mNoiseProof input) 0 = Inr (ps, length (mNoiseProof input))"
    "map leafIndex ps = wanted_leaves tx (k, input)"
    "\<forall>p \<in> set ps. VerifyProof (mKps input) (GetHash tx) p NOISE_LEAF_COUNT = Inr True"
    using assms by (auto simp: input_valid_def)
  have "length ps = 4"
    using arg_cong [OF ps(2), of length]
    by (simp add: wanted_leaves_def DeriveLeafIndices_def NOISE_LEAF_COUNT_def NOISE_PROOFS_PER_INPUT_def)
  then obtain p qs where q: "ps = p # qs" by (cases ps) auto
  obtain off1 where o: "NoiseProof_Deserialize (mNoiseProof input) 0 = Inr (p, off1)"
    "dec_n NoiseProof_Deserialize (length qs) (mNoiseProof input) off1 = Inr (qs, length (mNoiseProof input))"
    using ps(1) by (auto simp: q rbind_eq_Inr_iff)
  have "length (merklePath p) = 20" using VerifyProof_True(3) [of "mKps input" "GetHash tx" p NOISE_LEAF_COUNT] ps(3) noise_depth by (simp add: q)
  then show ?thesis using NoiseProof_Deserialize_size [OF o(1)] dec_n_end [OF o(2)] by simp
qed

text \<open>What the pool promises for a transaction that can be paid at the next height.\<close>

definition good_payment :: "(bytes32 \<Rightarrow> bytes64 \<Rightarrow> byte list \<Rightarrow> bool) \<Rightarrow> UTXOSet \<Rightarrow> u32 \<Rightarrow> Transaction \<Rightarrow> bool" where
  "good_payment verify u ht tx \<longleftrightarrow> \<not> IsCoinbase tx \<and> wf_Transaction tx \<and>
     CheckTransactionWithUTXO tx u ht = Accepts () \<and> (\<exists>s. VerifyTransactionSignatures verify tx u {} = Accepts s)"

lemma good_payment_checks: "good_payment verify u ht tx \<Longrightarrow> utxo_checks_ok tx u ht"
  using CheckTransactionWithUTXO_Accepts [of tx u ht] by (simp add: good_payment_def)

lemma good_payment_size:
  assumes "good_payment verify u ht tx"
  shows "732 < Transaction_GetSerializedSize True tx"
proof -
  have nc: "\<not> IsCoinbase tx" using assms by (simp add: good_payment_def)
  have "mInputs tx \<noteq> []"
    using assms by (auto simp: good_payment_def CheckTransactionWithUTXO_Accepts utxo_checks_ok_def context_free_ok_def)
  then obtain i ins where i: "mInputs tx = i # ins" by (cases "mInputs tx") auto
  have "input_valid verify tx u (0, i)"
    using assms by (auto simp: good_payment_def VerifyTransactionSignatures_def i verify_input_Accepts)
  then show ?thesis
    using input_valid_size by (fastforce simp: Transaction_GetSerializedSize_def i TxInput_GetSerializedSize_def)
qed


section \<open>The selection loop\<close>

abbreviation can_pay :: "ChainState \<Rightarrow> Transaction \<Rightarrow> bool" where
  "can_pay cs tx \<equiv> ComputeTxFee tx cs \<noteq> None"

definition fee_total :: "UTXOSet \<Rightarrow> Transaction list \<Rightarrow> int" where
  "fee_total u txs = (\<Sum>tx \<leftarrow> txs. value_in u tx - value_out tx)"

lemma probe_room:
  assumes "Block_GetSerializedSize b \<le> MAX_BLOCK_SIZE" and "mTransactions b = cb # body"
    and "\<forall>tx \<in> set body. 732 < Transaction_GetSerializedSize True tx"
  shows "length (mTransactions b) < MAX_TRANSACTIONS"
proof -
  have "732 * length body \<le> (\<Sum>tx \<leftarrow> body. 4 + Transaction_GetSerializedSize True tx)"
    using assms(3) by (induction body) fastforce+
  then have "732 * length body \<le> MAX_BLOCK_SIZE"
    using assms(1) by (simp add: Block_GetSerializedSize_def assms(2))
  then show ?thesis by (simp add: assms(2) MAX_BLOCK_SIZE_def MAX_TRANSACTIONS_def)
qed

lemma same_transactions: "mTransactions b = txs \<Longrightarrow> b\<lparr>mTransactions := txs\<rparr> = b"
  by (cases b) simp

lemma add_all_eq:
  "length (mTransactions b) + length txs \<le> MAX_TRANSACTIONS \<Longrightarrow>
   add_all txs b = Inr (b\<lparr>mTransactions := mTransactions b @ txs\<rparr>)"
  by (induction txs arbitrary: b) (simp_all add: AddTransaction_def)

lemma template_loop_spec:
  assumes "\<forall>tx \<in> set pending. can_pay cs tx \<longrightarrow> good_payment verify (csUTXOSet cs) ht tx"
    and "Block_GetSerializedSize probe \<le> MAX_BLOCK_SIZE" and "mTransactions probe = cb # body"
    and "\<forall>tx \<in> set body. 732 < Transaction_GetSerializedSize True tx"
    and "uint totalFees + fee_total (csUTXOSet cs) (filter (can_pay cs) pending) < 2 ^ 64"
  shows "\<exists>n fees. template_loop cs (Inr cb) pending probe totalFees body =
      Inr (fees, body @ take n (filter (can_pay cs) pending)) \<and>
    uint fees = uint totalFees + fee_total (csUTXOSet cs) (take n (filter (can_pay cs) pending)) \<and>
    Block_GetSerializedSize (probe\<lparr>mTransactions := cb # body @ take n (filter (can_pay cs) pending)\<rparr>) \<le> MAX_BLOCK_SIZE"
  using assms
proof (induction pending arbitrary: probe totalFees body)
  case Nil
  then show ?case by (simp add: fee_total_def same_transactions)
next
  case (Cons tx pending)
  let ?u = "csUTXOSet cs" and ?F = "filter (can_pay cs)"
  show ?case
  proof (cases "ComputeTxFee tx cs")
    case None
    then show ?thesis using Cons.IH [OF _ Cons.prems(2-4), of totalFees] Cons.prems(1,5) by simp
  next
    case (Some fee)
    have good: "good_payment verify ?u ht tx" using Cons.prems(1) Some by simp
    then have ok: "utxo_checks_ok tx ?u ht" by (rule good_payment_checks)
    have fee: "uint fee = value_in ?u tx - value_out tx"
      using ComputeTxFee_exact [OF _ ok] good Some by (auto simp: good_payment_def)
    let ?p = "probe\<lparr>mTransactions := mTransactions probe @ [tx]\<rparr>"
    have room: "length (mTransactions probe) < MAX_TRANSACTIONS" by (rule probe_room [OF Cons.prems(2-4)])
    then have add: "AddTransaction tx probe = Inr ?p" by (simp add: AddTransaction_def)
    show ?thesis
    proof (cases "Block_GetSerializedSize ?p > MAX_BLOCK_SIZE")
      case True
      have "add_all (cb # body) (ClearTransactions ?p) = Inr (?p\<lparr>mTransactions := cb # body\<rparr>)"
        using room add_all_eq [of "ClearTransactions ?p" "cb # body"] Cons.prems(3) by (simp add: ClearTransactions_def)
      then show ?thesis
        using True Some add Cons.prems(2) same_transactions [OF Cons.prems(3)]
        by (intro exI [of _ "0 :: nat"] exI [of _ totalFees]) (simp add: fee_total_def)
    next
      case False
      have nn: "0 \<le> fee_total ?u (?F pending)"
        unfolding fee_total_def
      proof (intro sum_list_nonneg)
        fix x assume "x \<in> set (map (\<lambda>tx. value_in ?u tx - value_out tx) (?F pending))"
        then obtain y where "y \<in> set pending" "can_pay cs y" "x = value_in ?u y - value_out y" by auto
        then show "0 \<le> x"
          using Cons.prems(1) checks_bounds(4) [OF good_payment_checks, of verify ?u ht y] by auto
      qed
      have total: "fee_total ?u (?F (tx # pending)) = uint fee + fee_total ?u (?F pending)"
        using Some by (simp add: fee_total_def fee)
      have sum: "uint (totalFees + fee) = uint totalFees + uint fee"
        using uint_add_exact [of "uint fee" totalFees] Cons.prems(5) nn total by simp
      then have no: "\<not> totalFees + fee < totalFees" by (simp add: word_less_def)
      have "\<exists>n fees. template_loop cs (Inr cb) pending ?p (totalFees + fee) (body @ [tx]) =
          Inr (fees, (body @ [tx]) @ take n (?F pending)) \<and>
        uint fees = uint (totalFees + fee) + fee_total ?u (take n (?F pending)) \<and>
        Block_GetSerializedSize (?p\<lparr>mTransactions := cb # (body @ [tx]) @ take n (?F pending)\<rparr>) \<le> MAX_BLOCK_SIZE"
        by (rule Cons.IH) (use Cons.prems False good_payment_size [OF good] sum total in auto)
      then obtain n fees where n: "template_loop cs (Inr cb) pending ?p (totalFees + fee) (body @ [tx]) =
          Inr (fees, (body @ [tx]) @ take n (?F pending))"
        "uint fees = uint (totalFees + fee) + fee_total ?u (take n (?F pending))"
        "Block_GetSerializedSize (?p\<lparr>mTransactions := cb # (body @ [tx]) @ take n (?F pending)\<rparr>) \<le> MAX_BLOCK_SIZE"
        by blast
      show ?thesis
        by (rule exI [of _ "Suc n"], rule exI [of _ fees])
          (use n Some add False no sum fee in \<open>simp add: Let_def fee_total_def\<close>)
    qed
  qed
qed

section \<open>Validation accepts good payments\<close>

lemma block_outpoints_fresh:
  assumes "distinct (map input_outpoint ins)" and "input_outpoint ` set ins \<inter> op_of ` S = {}"
  shows "\<exists>S'. block_outpoints i S ins = Accepts S'"
  using assms
proof (induction ins arbitrary: S)
  case (Cons input ins)
  let ?p = "(mPrevTxHash input, mOutputIndex input)"
  have e: "op_of ?p = input_outpoint input" by (simp add: op_of_def input_outpoint_def)
  then have "?p \<notin> S" using Cons.prems(2) by (metis Int_iff empty_iff imageI list.set_intros(1))
  moreover have "input_outpoint ` set ins \<inter> op_of ` insert ?p S = {}" using Cons.prems e by auto
  ultimately show ?case using Cons.IH [of "insert ?p S"] Cons.prems(1) by (simp add: Let_def)
qed simp

definition tx_leaf_ids :: "Transaction \<Rightarrow> (bytes32 \<times> u32) list" where
  "tx_leaf_ids tx = leaf_ids tx (enumerate 0 (mInputs tx))"

lemma signatures_in_scope:
  assumes "good_payment verify u ht tx" and "set (tx_leaf_ids tx) \<inter> scope = {}"
  shows "VerifyTransactionSignatures verify tx u scope = Accepts (scope \<union> set (tx_leaf_ids tx))"
proof -
  have "\<not> IsCoinbase tx" "\<forall>kin \<in> set (enumerate 0 (mInputs tx)). input_valid verify tx u kin" "distinct (tx_leaf_ids tx)"
    "\<forall>l \<in> set (tx_leaf_ids tx). claimable u {} l"
    using assms(1) by (auto simp: good_payment_def VerifyTransactionSignatures_def sig_loop_Accepts tx_leaf_ids_def)
  moreover have "\<forall>l \<in> set (tx_leaf_ids tx). claimable u scope l"
    using calculation(4) assms(2) by (auto simp only: claimable_def)
  ultimately show ?thesis by (simp add: VerifyTransactionSignatures_def sig_loop_Accepts flip: tx_leaf_ids_def)
qed

lemma fees_loop_complete:
  assumes "\<forall>tx \<in> set txs. good_payment verify u ht tx"
    and "distinct (concat (map (\<lambda>tx. map input_outpoint (mInputs tx)) txs))"
    and "(\<Union>tx \<in> set txs. spends tx) \<inter> op_of ` ops = {}"
    and "distinct (concat (map tx_leaf_ids txs))" and "(\<Union>tx \<in> set txs. set (tx_leaf_ids tx)) \<inter> lvs = {}"
    and "uint f + fee_total u txs < 2 ^ 64"
  shows "\<exists>f'. fees_loop verify u ht i txs ops lvs f = Accepts f' \<and> uint f' = uint f + fee_total u txs"
  using assms
proof (induction txs arbitrary: i ops lvs f)
  case Nil
  then show ?case by (simp add: fee_total_def)
next
  case (Cons tx txs)
  let ?out = "fold (\<lambda>out txOut. txOut + of_int (mValue out)) (mOutputs tx) (0 :: u64)"
  have good: "good_payment verify u ht tx" using Cons.prems(1) by simp
  note b = checks_bounds [OF good_payment_checks [OF good]]
  obtain ops' where O: "block_outpoints i ops (mInputs tx) = Accepts ops'"
    using block_outpoints_fresh [of "mInputs tx" ops i] Cons.prems(2,3) by (auto simp: spends_def)
  have ops': "op_of ` ops' = op_of ` ops \<union> spends tx"
    using block_outpoints_Accepts [OF O] by (simp add: spends_def)
  have V: "VerifyTransactionSignatures verify tx u lvs = Accepts (lvs \<union> set (tx_leaf_ids tx))"
    using signatures_in_scope [OF good] Cons.prems(5) by auto
  obtain txIn where I: "tx_in_loop u i 0 (mInputs tx) = Accepts txIn" "uint txIn = value_in u tx"
    using tx_in_loop_exact [OF b(1), of 0 i] b(3,6) by (auto simp: value_in_def)
  have out: "uint ?out = value_out tx" using out_fold_exact [OF b(2), of 0] b(3-6) by (simp add: value_out_def)
  then have le: "\<not> txIn < ?out" using I(2) b(4) by (simp add: word_less_def)
  then have fee: "uint (txIn - ?out) = value_in u tx - value_out tx" using uint_diff_exact I(2) out by simp
  have nn: "0 \<le> fee_total u txs"
    unfolding fee_total_def
    by (rule sum_list_nonneg) (use Cons.prems(1) checks_bounds(4) [OF good_payment_checks] in force)
  have "uint (f + of_int (uint (txIn - ?out))) = uint f + uint (txIn - ?out)"
    using nn Cons.prems(6) fee b(4) by (intro uint_add_exact) (simp_all add: fee_total_def)
  then have "uint (f + (txIn - ?out)) = uint f + uint (txIn - ?out)" by (simp only: word_of_int_uint)
  then have sum: "uint (f + (txIn - ?out)) = uint f + (value_in u tx - value_out tx)" by (simp only: fee)
  then have no: "\<not> f + (txIn - ?out) < f" using b(4) by (simp add: word_less_def)
  have "spends tx \<inter> (\<Union>tx \<in> set txs. spends tx) = {}"
    using Cons.prems(2) by (simp add: spends_def)
  then have disjoint: "(\<Union>tx \<in> set txs. spends tx) \<inter> op_of ` ops' = {}"
    using Cons.prems(3) unfolding ops' by auto
  have "\<exists>f'. fees_loop verify u ht (i + 1) txs ops' (lvs \<union> set (tx_leaf_ids tx)) (f + (txIn - ?out)) = Accepts f' \<and>
      uint f' = uint (f + (txIn - ?out)) + fee_total u txs"
  proof (rule Cons.IH)
    show "(\<Union>tx \<in> set txs. spends tx) \<inter> op_of ` ops' = {}" by (rule disjoint)
    show "(\<Union>tx \<in> set txs. set (tx_leaf_ids tx)) \<inter> (lvs \<union> set (tx_leaf_ids tx)) = {}"
      using Cons.prems(4,5) by auto
    show "uint (f + (txIn - ?out)) + fee_total u txs < 2 ^ 64" using Cons.prems(6) sum by (simp add: fee_total_def)
  qed (use Cons.prems(1,2,4) in auto)
  then show ?case
    using O V I(1) le no sum good by (auto simp: good_payment_def Let_def fee_total_def)
qed

section \<open>Fees and the supply\<close>

lemma distinct_concat_map:
  assumes "distinct xs" and "\<And>x. x \<in> set xs \<Longrightarrow> distinct (f x)"
    and "\<And>x y. x \<in> set xs \<Longrightarrow> y \<in> set xs \<Longrightarrow> x \<noteq> y \<Longrightarrow> set (f x) \<inter> set (f y) = {}"
  shows "distinct (concat (map f xs))"
  using assms by (induction xs) fastforce+

lemma fee_total_supply:
  assumes "\<forall>tx \<in> set txs. good_payment verify u ht tx" and "coins_nonneg (coin_view u)"
    and "distinct (concat (map (\<lambda>tx. map input_outpoint (mInputs tx)) txs))"
  shows "0 \<le> fee_total u txs" and "fee_total u txs \<le> total_supply (coin_view u)"
proof -
  let ?as = "concat (map (\<lambda>tx. map input_outpoint (mInputs tx)) txs)"
  have view: "\<forall>tx \<in> set txs. \<forall>i \<in> set (mInputs tx).
      coin_view u (input_outpoint i) = GetCoin (input_outpoint i) u \<and> coin_view u (input_outpoint i) \<noteq> None"
  proof
    fix tx assume "tx \<in> set txs"
    then obtain s where "VerifyTransactionSignatures verify tx u {} = Accepts s" "\<not> IsCoinbase tx" "wf_Transaction tx"
      using assms(1) by (auto simp: good_payment_def)
    from verified_payment(1) [OF this] show "\<forall>i \<in> set (mInputs tx).
      coin_view u (input_outpoint i) = GetCoin (input_outpoint i) u \<and> coin_view u (input_outpoint i) \<noteq> None" by blast
  qed
  then have "(\<Sum>a \<leftarrow> ?as. cValue (the (coin_view u a))) = (\<Sum>tx \<leftarrow> txs. value_in u tx)"
  proof (induction txs)
    case (Cons tx txs)
    have "map (\<lambda>i. cValue (the (coin_view u (input_outpoint i)))) (mInputs tx) = map (input_value u) (mInputs tx)"
      by (rule map_cong [OF refl]) (use Cons.prems in \<open>simp add: input_value_def\<close>)
    then have "(\<Sum>i \<leftarrow> mInputs tx. cValue (the (coin_view u (input_outpoint i)))) = value_in u tx"
      by (simp only: value_in_def)
    moreover have "(\<Sum>a \<leftarrow> concat (map (\<lambda>tx. map input_outpoint (mInputs tx)) txs). cValue (the (coin_view u a))) =
        (\<Sum>tx \<leftarrow> txs. value_in u tx)"
      by (rule Cons.IH) (use Cons.prems in \<open>simp only: list.set ball_simps, blast\<close>)
    ultimately show ?case by (simp add: comp_def)
  qed simp
  moreover have "total_supply (coin_view u |` (- set ?as)) = total_supply (coin_view u) - (\<Sum>a \<leftarrow> ?as. cValue (the (coin_view u a)))"
    by (rule supply_spend [OF finite_coin_view _ assms(3)]) (use view in auto)
  moreover have "0 \<le> total_supply (coin_view u |` (- set ?as))"
    unfolding total_supply_def
  proof (rule sum_nonneg)
    fix a assume "a \<in> dom (coin_view u |` (- set ?as))"
    then obtain c where "(coin_view u |` (- set ?as)) a = Some c" by blast
    then show "0 \<le> cValue (the ((coin_view u |` (- set ?as)) a))"
      using coins_nonneg_restrict [OF assms(2), of "- set ?as"] by (simp add: coins_nonneg_def)
  qed
  moreover have "fee_total u txs \<le> (\<Sum>tx \<leftarrow> txs. value_in u tx)"
    unfolding fee_total_def
    by (rule sum_list_mono) (use assms(1) checks_bounds(5) [OF good_payment_checks] in force)
  ultimately show "fee_total u txs \<le> total_supply (coin_view u)" by simp
  show "0 \<le> fee_total u txs"
    unfolding fee_total_def by (rule sum_list_nonneg) (use assms(1) checks_bounds(4) [OF good_payment_checks] in force)
qed

section \<open>Transactions of a consistent pool\<close>

lemma pool_leaf_ids:
  assumes "good_payment verify u ht tx"
  shows "snd (ExtractLeafKeys tx) = map (\<lambda>(kps, i). leaf_key kps i) (tx_leaf_ids tx)"
proof -
  have iv: "\<forall>kin \<in> set (enumerate 0 (mInputs tx)). input_valid verify tx u kin"
    using assms by (auto simp: good_payment_def VerifyTransactionSignatures_def sig_loop_Accepts)
  have "\<forall>i \<in> set ins. proofs_parse i" and
    "concat (map (\<lambda>i. map (leaf_key (mKps i)) (snd (idx_list (mNoiseProof i) 0))) ins) =
      map (\<lambda>(kps, i). leaf_key kps i) (leaf_ids tx (enumerate k ins))"
    if "\<forall>kin \<in> set (enumerate k ins). input_valid verify tx u kin" for k ins
    using that
  proof (induction ins arbitrary: k)
    case (Cons i ins)
    {
      case 1
      then show ?case using Cons.IH(1) input_valid_leaves(2) by (auto simp: enumerate_simps)
    next
      case 2
      have "snd (idx_list (mNoiseProof i) 0) = wanted_leaves tx (k, i)"
        using input_valid_leaves(1) [of verify tx u k i] 2 inj_on_map_eq_map [of "NoiseLeafKey (mKps i)"]
        by (simp add: enumerate_simps leaf_keys_def inj_on_def)
      then show ?case using Cons.IH(2) [of "Suc k"] 2 by (simp add: enumerate_simps leaf_ids_def comp_def)
    }
  qed (simp_all add: leaf_ids_def)
  from this [OF iv] show ?thesis
    by (simp add: ExtractLeafKeys_def extract_inputs_leaves tx_leaf_ids_def)
qed

lemma pool_disjoint:
  assumes "mempool_ok p" and "x \<in> set (mIndex p)" and "y \<in> set (mIndex p)" and "x \<noteq> y"
  shows "spends (eTx (snd x)) \<inter> spends (eTx (snd y)) = {}"
    and "set (eLeafKeys (snd x)) \<inter> set (eLeafKeys (snd y)) = {}"
    and "GetHash (eTx (snd x)) \<noteq> GetHash (eTx (snd y))"
proof -
  have u: "\<not> (fst x = fst y \<or> spent_keys (snd x) \<inter> spent_keys (snd y) \<noteq> {} \<or>
      set (eLeafKeys (snd x)) \<inter> set (eLeafKeys (snd y)) \<noteq> {})"
    using pool_entry_unique [OF assms(1), of "fst x" "snd x" "fst y" "snd y"] assms(2-4) by (auto simp: prod_eq_iff)
  then show "set (eLeafKeys (snd x)) \<inter> set (eLeafKeys (snd y)) = {}" by blast
  show "spends (eTx (snd x)) \<inter> spends (eTx (snd y)) = {}"
  proof (rule ccontr)
    assume "spends (eTx (snd x)) \<inter> spends (eTx (snd y)) \<noteq> {}"
    then obtain i j where i: "i \<in> set (mInputs (eTx (snd x)))" "j \<in> set (mInputs (eTx (snd y)))"
      "input_outpoint i = input_outpoint j" by (auto simp: spends_def)
    then have "input_key i = input_key j" by (simp add: input_key_def input_outpoint_def)
    then have "input_key i \<in> spent_keys (snd x) \<inter> spent_keys (snd y)" using i(1,2) unfolding spent_keys_def by (metis IntI imageI)
    then show False using u by blast
  qed
  have "fst x = HashToKey (GetHash (eTx (snd x)))" "fst y = HashToKey (GetHash (eTx (snd y)))"
    using mempool_okD(2) [OF assms(1), of "fst x" "snd x"] mempool_okD(2) [OF assms(1), of "fst y" "snd y"] assms(2,3)
    by (simp_all add: pool_entry_ok_def)
  then show "GetHash (eTx (snd x)) \<noteq> GetHash (eTx (snd y))" using u by auto
qed

text \<open>The pool is current: what can be paid from the coins of the tip is valid in the next block.\<close>

definition pool_current :: "(bytes32 \<Rightarrow> bytes64 \<Rightarrow> byte list \<Rightarrow> bool) \<Rightarrow> Mempool \<Rightarrow> ChainState \<Rightarrow> bool" where
  "pool_current verify p cs \<longleftrightarrow> (\<forall>(k, e) \<in> set (mIndex p). can_pay cs (eTx e) \<longrightarrow>
     good_payment verify (csUTXOSet cs) (tip_height cs + 1) (eTx e))"

lemma pool_body:
  assumes ok: "mempool_ok p" and es: "distinct es" "set es \<subseteq> set (mIndex p)"
    and good: "\<forall>x \<in> set es. good_payment verify u ht (eTx (snd x))"
  shows "distinct (concat (map (\<lambda>tx. map input_outpoint (mInputs tx)) (map (\<lambda>x. eTx (snd x)) es)))"
    and "distinct (concat (map tx_leaf_ids (map (\<lambda>x. eTx (snd x)) es)))"
    and "distinct (map GetHash (map (\<lambda>x. eTx (snd x)) es))"
proof -
  have d: "distinct (map input_outpoint (mInputs (eTx (snd x))))" "distinct (tx_leaf_ids (eTx (snd x)))"
    if "x \<in> set es" for x
    using good that good_payment_checks [of verify u ht "eTx (snd x)"]
    by (auto simp: good_payment_def utxo_checks_ok_def context_free_ok_def VerifyTransactionSignatures_def
        sig_loop_Accepts tx_leaf_ids_def)
  have keys: "set (eLeafKeys (snd x)) = (\<lambda>(kps, i). leaf_key kps i) ` set (tx_leaf_ids (eTx (snd x)))" if "x \<in> set es" for x
  proof -
    have "eLeafKeys (snd x) = snd (ExtractLeafKeys (eTx (snd x)))"
      using mempool_okD(2) [OF ok, of "fst x" "snd x"] that es(2) by (auto simp: pool_entry_ok_def)
    then show ?thesis using pool_leaf_ids [of verify u ht "eTx (snd x)"] good that by simp
  qed
  show "distinct (concat (map (\<lambda>tx. map input_outpoint (mInputs tx)) (map (\<lambda>x. eTx (snd x)) es)))"
    unfolding map_map comp_def
  proof (rule distinct_concat_map [OF es(1) d(1)])
    fix x y assume "x \<in> set es" "y \<in> set es" "x \<noteq> y"
    then have "spends (eTx (snd x)) \<inter> spends (eTx (snd y)) = {}" using pool_disjoint(1) [OF ok] es(2) by blast
    then show "set (map input_outpoint (mInputs (eTx (snd x)))) \<inter> set (map input_outpoint (mInputs (eTx (snd y)))) = {}"
      by (simp add: spends_def)
  qed
  show "distinct (concat (map tx_leaf_ids (map (\<lambda>x. eTx (snd x)) es)))"
    unfolding map_map comp_def
  proof (rule distinct_concat_map [OF es(1) d(2)])
    fix x y assume x: "x \<in> set es" "y \<in> set es" "x \<noteq> y"
    then have "set (eLeafKeys (snd x)) \<inter> set (eLeafKeys (snd y)) = {}" using pool_disjoint(2) [OF ok] es(2) by blast
    then show "set (tx_leaf_ids (eTx (snd x))) \<inter> set (tx_leaf_ids (eTx (snd y))) = {}"
      unfolding keys [OF x(1)] keys [OF x(2)] by blast
  qed
  show "distinct (map GetHash (map (\<lambda>x. eTx (snd x)) es))"
    unfolding map_map distinct_map comp_def inj_on_def using es pool_disjoint(3) [OF ok] by blast
qed

section \<open>The template, in closed form\<close>

definition template_block :: "u64 \<Rightarrow> u64 \<Rightarrow> bytes32 \<Rightarrow> ChainState \<Rightarrow> u32 \<Rightarrow> u64 \<Rightarrow> Transaction list \<Rightarrow> Block" where
  "template_block ms now dest cs nbits fees body =
     (let ht = tip_height cs + 1 in
      UpdateRoots \<lparr>mHeader = template_header nbits now cs,
        mTransactions = coinbase_of ht (GetBlockSubsidy (ucast ht) + MinerFeesAtHeight ht fees) dest ms # body\<rparr>)"

lemma filter_take_map: "take n (filter P (map f xs)) = map f (take n (filter (P \<circ> f) xs))"
  by (simp add: filter_map take_map)

lemma coinbase_block_size:
  "Block_GetSerializedSize \<lparr>mHeader = h, mTransactions = coinbase_of ht v dest x # body\<rparr> =
   Block_GetSerializedSize \<lparr>mHeader = h', mTransactions = coinbase_of ht v' dest x # body\<rparr>"
  using coinbase_of_size [of True ht v dest x v'] by (simp add: Block_GetSerializedSize_def)

lemma coinbase_size:
  assumes "is_bytes32 dest"
  shows "Transaction_GetSerializedSize True (coinbase_of ht v dest x) = 234"
  using assms by (simp add: Transaction_GetSerializedSize_def coinbase_of_def TxInput_GetSerializedSize_def TxInput_init_def
      TxOutput_GetSerializedSize_def mk_TxOutput_def CreatePayToPubkeyHash_def PushData_def CompactSizeLen_def)

lemma BuildBlockTemplate_spec:
  assumes dest: "is_bytes32 dest" and ok: "mempool_ok p" and cur: "pool_current verify p cs" and bits: "GetNextBits cs = Inr nbits"
    and nn: "coins_nonneg (coin_view (csUTXOSet cs))" and cap: "total_supply (coin_view (csUTXOSet cs)) \<le> MAX_MONEY"
  shows "\<exists>es fees. BuildBlockTemplate ms now dest (Some p) cs =
      Inr (template_block ms now dest cs nbits fees (map (\<lambda>x. eTx (snd x)) es)) \<and>
    distinct es \<and> set es \<subseteq> set (mIndex p) \<and>
    (\<forall>x \<in> set es. good_payment verify (csUTXOSet cs) (tip_height cs + 1) (eTx (snd x))) \<and>
    uint fees = fee_total (csUTXOSet cs) (map (\<lambda>x. eTx (snd x)) es) \<and>
    Block_GetSerializedSize (template_block ms now dest cs nbits fees (map (\<lambda>x. eTx (snd x)) es)) \<le> MAX_BLOCK_SIZE"
proof -
  let ?tx = "\<lambda>x :: string \<times> Entry. eTx (snd x)" and ?u = "csUTXOSet cs" and ?ht = "tip_height cs + 1"
  let ?pend = "take MAX_TRANSACTIONS (rev (by_rate p))" and ?h = "template_header nbits now cs"
  let ?cb = "\<lambda>v. coinbase_of ?ht v dest ms" and ?s = "GetBlockSubsidy (ucast ?ht)"
  define F where "F = filter (can_pay cs \<circ> ?tx) ?pend"
  have pend: "GetTransactions MAX_TRANSACTIONS p = map ?tx ?pend" by (rule GetTransactions_by_rate [OF ok])
  have sub: "set ?pend \<subseteq> set (mIndex p)" using set_by_rate [OF ok] set_take_subset by fastforce
  have good: "good_payment verify ?u ?ht (?tx x)" if "x \<in> set ?pend" "can_pay cs (?tx x)" for x
    using cur sub that by (cases x) (auto simp: pool_current_def)
  have F: "distinct F" "set F \<subseteq> set (mIndex p)" "\<forall>x \<in> set F. good_payment verify ?u ?ht (?tx x)"
    using by_rate_distinct [OF ok] sub good by (auto simp: F_def)
  have "MAX_MONEY < 2 ^ 64" by (simp add: MAX_MONEY_def COIN_def)
  then have small: "fee_total ?u (map ?tx F) < 2 ^ 64"
    using fee_total_supply(2) [of "map ?tx F" verify ?u ?ht] F(3) nn cap pool_body(1) [OF ok F] by fastforce
  have probe: "AddTransaction (?cb ?s) (Block_init\<lparr>mHeader := ?h\<rparr>) = Inr \<lparr>mHeader = ?h, mTransactions = [?cb ?s]\<rparr>"
    by (simp add: AddTransaction_def Block_init_def MAX_TRANSACTIONS_def)
  have size: "Block_GetSerializedSize \<lparr>mHeader = ?h, mTransactions = [?cb ?s]\<rparr> \<le> MAX_BLOCK_SIZE"
    using dest by (simp add: Block_GetSerializedSize_def coinbase_size SERIALIZED_SIZE_def MAX_BLOCK_SIZE_def)
  have filt: "filter (can_pay cs) (map ?tx ?pend) = map ?tx F" by (simp add: F_def filter_map)
  have "\<exists>n fees. template_loop cs (Inr (?cb ?s)) (map ?tx ?pend) \<lparr>mHeader = ?h, mTransactions = [?cb ?s]\<rparr> 0 [] =
      Inr (fees, [] @ take n (filter (can_pay cs) (map ?tx ?pend))) \<and>
    uint fees = uint (0 :: u64) + fee_total ?u (take n (filter (can_pay cs) (map ?tx ?pend))) \<and>
    Block_GetSerializedSize (\<lparr>mHeader = ?h, mTransactions = [?cb ?s]\<rparr>\<lparr>mTransactions := ?cb ?s # [] @ take n (filter (can_pay cs) (map ?tx ?pend))\<rparr>) \<le> MAX_BLOCK_SIZE"
  proof (rule template_loop_spec)
    show "uint (0 :: u64) + fee_total ?u (filter (can_pay cs) (map ?tx ?pend)) < 2 ^ 64" unfolding filt using small by simp
  qed (use good size in auto)
  then obtain n fees where loop: "template_loop cs (Inr (?cb ?s)) (map ?tx ?pend) \<lparr>mHeader = ?h, mTransactions = [?cb ?s]\<rparr> 0 [] =
      Inr (fees, map ?tx (take n F))" "uint fees = fee_total ?u (map ?tx (take n F))"
    "Block_GetSerializedSize \<lparr>mHeader = ?h, mTransactions = ?cb ?s # map ?tx (take n F)\<rparr> \<le> MAX_BLOCK_SIZE"
    unfolding filt take_map by auto
  let ?v = "?s + MinerFeesAtHeight ?ht fees" and ?body = "map ?tx (take n F)"
  have g: "\<forall>x \<in> set (take n F). good_payment verify ?u ?ht (?tx x)" using F(3) by (auto dest: in_set_takeD)
  have room: "length (?cb ?s # ?body) < MAX_TRANSACTIONS"
    using probe_room [OF loop(3), of "?cb ?s" ?body] g good_payment_size [of verify ?u ?ht] by simp
  have built: "BuildBlockTemplate ms now dest (Some p) cs = Inr (template_block ms now dest cs nbits fees ?body)"
    using loop(1) probe room
    by (simp add: BuildBlockTemplate_def Let_def bits BuildCoinbase_eq pend AddTransaction_def Block_init_def
        add_all_eq template_block_def)
  have "Block_GetSerializedSize (template_block ms now dest cs nbits fees ?body) =
      Block_GetSerializedSize \<lparr>mHeader = ?h, mTransactions = ?cb ?s # ?body\<rparr>"
    using coinbase_of_size [of True ?ht ?v dest ms ?s]
    by (simp add: template_block_def Let_def UpdateRoots_def UpdateLeafRoot_def UpdateMerkleRoot_def Block_GetSerializedSize_def)
  then show ?thesis
    using built loop(2,3) F(1,2) g by (intro exI [of _ "take n F"] exI [of _ fees]) (auto dest: in_set_takeD)
qed

end
