(* ===== verification/Mined_Block.thy ===== *)
theory Mined_Block
  imports Block_Template
begin

text \<open>
  What the miner builds against what the node accepts: a template passes every check of
  block validation but the proof of work, and a template whose header has been given a
  nonce that meets the target passes those of validation and of connection too. The
  template on top of the genesis block is evaluated.
\<close>

section \<open>Every check accepts the template\<close>

lemma template_block_facts:
  "mTransactions (template_block ms now dest cs nbits fees body) =
     coinbase_of (tip_height cs + 1) (GetBlockSubsidy (ucast (tip_height cs + 1)) + MinerFeesAtHeight (tip_height cs + 1) fees) dest ms # body"
  "mMerkleRoot (mHeader (template_block ms now dest cs nbits fees body)) =
     Block_ComputeMerkleRoot (template_block ms now dest cs nbits fees body)"
  "mLeafRoot (mHeader (template_block ms now dest cs nbits fees body)) =
     ComputeLeafRoot (template_block ms now dest cs nbits fees body)"
  "hVersion (mHeader (template_block ms now dest cs nbits fees body)) = 1"
  "mPrevBlockHash (mHeader (template_block ms now dest cs nbits fees body)) = tip_hash cs"
  "mHeight (mHeader (template_block ms now dest cs nbits fees body)) = tip_height cs + 1"
  "mBits (mHeader (template_block ms now dest cs nbits fees body)) = nbits"
  "mTimestamp (mHeader (template_block ms now dest cs nbits fees body)) = template_time now cs"
  by (simp_all add: template_block_def Let_def UpdateRoots_def UpdateLeafRoot_def UpdateMerkleRoot_def SetMerkleRoot_def
      SetLeafRoot_def Block_ComputeMerkleRoot_def ComputeLeafRoot_def template_header_def SetHeaderVersion_def HEADER_VERSION_def
      SetPrevBlockHash_def SetHeight_def SetBits_def SetNonce_def SetTimestamp_def)

lemma template_time_later:
  assumes "unat (GetMedianTimePast cs) + 1 < 2 ^ 64"
  shows "GetMedianTimePast cs < template_time now cs" and "GENESIS_TIMESTAMP < template_time now cs"
proof -
  define m where "m = (if GetMedianTimePast cs < GENESIS_TIMESTAMP then GENESIS_TIMESTAMP else GetMedianTimePast cs)"
  have m: "GetMedianTimePast cs \<le> m" "GENESIS_TIMESTAMP \<le> m" "unat m + 1 < 2 ^ 64"
    using assms by (auto simp: m_def GENESIS_TIMESTAMP_def)
  have "m < m + 1" by (rule word_less_Suc [OF m(3)])
  then have "m < template_time now cs" unfolding template_time_def Let_def m_def [symmetric] by (auto simp: not_le)
  then show "GetMedianTimePast cs < template_time now cs" "GENESIS_TIMESTAMP < template_time now cs"
    using m(1,2) by (auto intro: le_less_trans)
qed

lemma coinbase_value:
  assumes "uint fees = fee_total u body" and "0 \<le> fee_total u body"
    and "fee_total u body + uint (GetBlockSubsidy (ucast ht)) \<le> MAX_MONEY"
  shows "sint (GetBlockSubsidy (ucast ht) + MinerFeesAtHeight ht fees) =
      uint (GetBlockSubsidy (ucast ht)) + (if ht < FEES_TO_MINER_HEIGHT then 0 else fee_total u body)"
    and "\<not> GetBlockSubsidy (ucast ht) + MinerFeesAtHeight ht fees < GetBlockSubsidy (ucast ht)"
    and "uint (GetBlockSubsidy (ucast ht) + MinerFeesAtHeight ht fees) \<le> MAX_MONEY"
    and "0 \<le> sint (GetBlockSubsidy (ucast ht) + MinerFeesAtHeight ht fees)"
proof -
  let ?s = "GetBlockSubsidy (ucast ht)" and ?f = "MinerFeesAtHeight ht fees"
  have f: "uint ?f = (if ht < FEES_TO_MINER_HEIGHT then 0 else fee_total u body)"
    by (simp add: MinerFeesAtHeight_def assms(1))
  have m: "MAX_MONEY < 2 ^ 63" by (simp add: MAX_MONEY_def COIN_def)
  have le: "uint ?s + uint ?f \<le> MAX_MONEY" using assms(2,3) f uint_ge_0 [of ?s] by (auto split: if_splits)
  have "uint (?s + of_int (uint ?f)) = uint ?s + uint ?f" using le m by (intro uint_add_exact) auto
  then have e: "uint (?s + ?f) = uint ?s + uint ?f" by (simp only: word_of_int_uint)
  then show "\<not> ?s + ?f < ?s" by (simp add: word_less_def)
  show "uint (?s + ?f) \<le> MAX_MONEY" using e le by simp
  have "signed_take_bit 63 (uint (?s + ?f)) = uint (?s + ?f)"
    by (rule signed_take_bit_int_eq_self) (use e le m uint_ge_0 [of "?s + ?f"] in linarith)+
  then have "sint (?s + ?f) = uint (?s + ?f)" by (simp only: sint_uint) simp
  then show "sint (?s + ?f) = uint ?s + (if ht < FEES_TO_MINER_HEIGHT then 0 else fee_total u body)" "0 \<le> sint (?s + ?f)"
    using e f uint_ge_0 [of "?s + ?f"] by auto
qed


text \<open>
  The checks look at the transactions and at the committed fields of the header, so they
  say the same of the template and of a block that was mined from it.
\<close>

lemma template_accepted:
  assumes ok: "mempool_ok p" and es: "distinct es" "set es \<subseteq> set (mIndex p)"
    and good: "\<forall>x \<in> set es. good_payment verify (csUTXOSet cs) (tip_height cs + 1) (eTx (snd x))"
    and fees: "uint fees = fee_total (csUTXOSet cs) (map (\<lambda>x. eTx (snd x)) es)"
    and nn: "coins_nonneg (coin_view (csUTXOSet cs))"
    and cap: "total_supply (coin_view (csUTXOSet cs)) + uint (GetBlockSubsidy (ucast (tip_height cs + 1))) \<le> MAX_MONEY"
    and B: "B = template_block ms now dest cs nbits fees (map (\<lambda>x. eTx (snd x)) es)"
    and fresh: "HashToKey (GetHash (hd (mTransactions B))) \<notin> fst ` set (mIndex p)"
    and size: "Block_GetSerializedSize B \<le> MAX_BLOCK_SIZE"
    and txs: "mTransactions b = mTransactions B" and work: "same_work (mHeader B) (mHeader b)"
  shows "CheckBlockSize b = Accepts ()" "CheckMerkleRoot b = Accepts ()" "CheckBlockTransactions b = Accepts ()"
    "CheckDuplicateTransactions b = Accepts ()" "CheckBlockReveals b (csUTXOSet cs) (tip_height cs + 1) = Accepts ()"
    "CheckBlockTransactionsWithUTXO verify b (csUTXOSet cs) (tip_height cs + 1) = Accepts ()" "coinbase_in_range b"
    "value_out (hd (mTransactions b)) = uint (GetBlockSubsidy (ucast (tip_height cs + 1))) +
       (if tip_height cs + 1 < FEES_TO_MINER_HEIGHT then 0 else block_fees (csUTXOSet cs) (tl (mTransactions b)))"
proof -
  let ?u = "csUTXOSet cs" and ?ht = "tip_height cs + 1" and ?body = "map (\<lambda>x. eTx (snd x)) es"
  let ?s = "GetBlockSubsidy (ucast ?ht)" let ?v = "?s + MinerFeesAtHeight ?ht fees" let ?cb = "coinbase_of ?ht ?v dest ms"
  note f = template_block_facts [of ms now dest cs nbits fees ?body, folded B]
  have tx: "mTransactions b = ?cb # ?body" using txs f(1) by simp
  have g: "\<forall>tx \<in> set ?body. good_payment verify ?u ?ht tx" using good by simp
  note d = pool_body [OF ok es good]
  note ft = fee_total_supply [OF g nn d(1)]
  have cap': "fee_total ?u ?body + uint ?s \<le> MAX_MONEY" using ft(2) cap by simp
  note val = coinbase_value [OF fees ft(1) cap']
  note cb = coinbase_of_facts [where ht = ?ht and v = ?v and dest = dest and x = ms]
  have same: "Block_ComputeMerkleRoot b = Block_ComputeMerkleRoot B" "ComputeLeafRoot b = ComputeLeafRoot B"
    "Block_GetSerializedSize b = Block_GetSerializedSize B"
    using txs by (simp_all add: Block_ComputeMerkleRoot_def ComputeLeafRoot_def Block_GetSerializedSize_def)
  show "CheckBlockSize b = Accepts ()" using size same by (simp add: CheckBlockSize_def Let_def)
  show "CheckMerkleRoot b = Accepts ()" "CheckBlockReveals b ?u ?ht = Accepts ()"
    using same work f by (simp_all add: CheckMerkleRoot_def CheckBlockReveals_def same_work_def)
  have "\<forall>tx \<in> set ?body. \<not> IsCoinbase tx \<and> context_free_ok tx"
    using g good_payment_checks by (fastforce simp: good_payment_def utxo_checks_ok_def)
  then show "CheckBlockTransactions b = Accepts ()"
    using cb(1) by (simp add: CheckBlockTransactions_def tx block_txs_loop_Accepts)
  have "GetHash ?cb \<notin> GetHash ` set ?body"
    using fresh f(1) es(2) mempool_okD(2) [OF ok] by (force simp: pool_entry_ok_def)
  then show "CheckDuplicateTransactions b = Accepts ()"
    using d(3) by (simp add: CheckDuplicateTransactions_def dup_tx_loop_Accepts tx)
  show range: "coinbase_in_range b"
    using cb(4) [OF val(4)] val(3,4)
    by (simp add: coinbase_in_range_def tx CheckMoneyRange_def word_le_def MAX_MONEY_def COIN_def)
  have "MAX_MONEY < 2 ^ 64" by (simp add: MAX_MONEY_def COIN_def)
  then have lim: "fee_total ?u ?body < 2 ^ 64" using cap' uint_ge_0 [of ?s] by linarith
  obtain f' where fl: "fees_loop verify ?u ?ht 1 ?body {} {} 0 = Accepts f'" "uint f' = fee_total ?u ?body"
    using fees_loop_complete [OF g d(1) _ d(2), of "{}" "{}" 0 1] lim by auto
  then have "f' = fees" using fees by (metis word_uint_eq_iff)
  then show "CheckBlockTransactionsWithUTXO verify b ?u ?ht = Accepts ()"
    using fl(1) val(2,4) cb(4) [OF val(4)]
    by (simp add: CheckBlockTransactionsWithUTXO_def tx Let_def)
  show "value_out (hd (mTransactions b)) = uint ?s + (if ?ht < FEES_TO_MINER_HEIGHT then 0 else block_fees ?u (tl (mTransactions b)))"
    using val(1) cb(3) by (simp add: tx block_fees_def fee_total_def)
qed


section \<open>Templates are valid blocks but for the proof of work\<close>

text \<open>
  \<open>miner_ready\<close>: the pool is consistent and current, the coins of the tip together with
  the next subsidy stay within the cap, and the median time can be exceeded.
\<close>

definition miner_ready :: "(bytes32 \<Rightarrow> bytes64 \<Rightarrow> byte list \<Rightarrow> bool) \<Rightarrow> Mempool \<Rightarrow> ChainState \<Rightarrow> bool" where
  "miner_ready verify p cs \<longleftrightarrow> mempool_ok p \<and> pool_current verify p cs \<and> coins_nonneg (coin_view (csUTXOSet cs)) \<and>
     total_supply (coin_view (csUTXOSet cs)) + uint (GetBlockSubsidy (ucast (tip_height cs + 1))) \<le> MAX_MONEY \<and>
     unat (GetMedianTimePast cs) + 1 < 2 ^ 64"

text \<open>\<open>fresh_coinbase\<close>: the identifier of the coinbase is not that of a pool transaction.\<close>

definition fresh_coinbase :: "u64 \<Rightarrow> u64 \<Rightarrow> bytes32 \<Rightarrow> Mempool \<Rightarrow> ChainState \<Rightarrow> bool" where
  "fresh_coinbase ms now dest p cs \<longleftrightarrow> (case BuildBlockTemplate ms now dest (Some p) cs of
     Inl _ \<Rightarrow> True | Inr B \<Rightarrow> HashToKey (GetHash (hd (mTransactions B))) \<notin> fst ` set (mIndex p))"

lemma template_cases:
  assumes ready: "miner_ready verify p cs" and dest: "is_bytes32 dest" and bits: "GetNextBits cs = Inr nbits"
    and fresh: "fresh_coinbase ms now dest p cs"
  obtains B where "BuildBlockTemplate ms now dest (Some p) cs = Inr B"
    "hVersion (mHeader B) = 1" "mPrevBlockHash (mHeader B) = tip_hash cs" "mHeight (mHeader B) = tip_height cs + 1"
    "mBits (mHeader B) = nbits" "mTimestamp (mHeader B) = template_time now cs"
    "\<And>b. mTransactions b = mTransactions B \<Longrightarrow> same_work (mHeader B) (mHeader b) \<Longrightarrow>
       CheckBlockSize b = Accepts () \<and> CheckMerkleRoot b = Accepts () \<and> CheckBlockTransactions b = Accepts () \<and>
       CheckDuplicateTransactions b = Accepts () \<and> CheckBlockReveals b (csUTXOSet cs) (tip_height cs + 1) = Accepts () \<and>
       CheckBlockTransactionsWithUTXO verify b (csUTXOSet cs) (tip_height cs + 1) = Accepts () \<and> coinbase_in_range b \<and>
       value_out (hd (mTransactions b)) = uint (GetBlockSubsidy (ucast (tip_height cs + 1))) +
         (if tip_height cs + 1 < FEES_TO_MINER_HEIGHT then 0 else block_fees (csUTXOSet cs) (tl (mTransactions b)))"
proof -
  have r: "mempool_ok p" "pool_current verify p cs" "coins_nonneg (coin_view (csUTXOSet cs))"
    "total_supply (coin_view (csUTXOSet cs)) + uint (GetBlockSubsidy (ucast (tip_height cs + 1))) \<le> MAX_MONEY"
    using ready by (auto simp: miner_ready_def)
  have "total_supply (coin_view (csUTXOSet cs)) \<le> MAX_MONEY"
    using r(4) uint_ge_0 [of "GetBlockSubsidy (ucast (tip_height cs + 1))"] by linarith
  from BuildBlockTemplate_spec [OF dest r(1,2) bits r(3) this, of ms now]
  obtain es fees B where e: "BuildBlockTemplate ms now dest (Some p) cs = Inr B" "distinct es" "set es \<subseteq> set (mIndex p)"
    "\<forall>x \<in> set es. good_payment verify (csUTXOSet cs) (tip_height cs + 1) (eTx (snd x))"
    "uint fees = fee_total (csUTXOSet cs) (map (\<lambda>x. eTx (snd x)) es)" "Block_GetSerializedSize B \<le> MAX_BLOCK_SIZE"
    and B: "B = template_block ms now dest cs nbits fees (map (\<lambda>x. eTx (snd x)) es)" by blast
  have f: "HashToKey (GetHash (hd (mTransactions B))) \<notin> fst ` set (mIndex p)"
    using fresh by (simp add: fresh_coinbase_def e(1))
  show thesis
  proof (rule that [OF e(1)])
    fix b :: Block
    assume "mTransactions b = mTransactions B" "same_work (mHeader B) (mHeader b)"
    from template_accepted [OF r(1) e(2-5) r(3,4) B f e(6) this]
    show "CheckBlockSize b = Accepts () \<and> CheckMerkleRoot b = Accepts () \<and> CheckBlockTransactions b = Accepts () \<and>
       CheckDuplicateTransactions b = Accepts () \<and> CheckBlockReveals b (csUTXOSet cs) (tip_height cs + 1) = Accepts () \<and>
       CheckBlockTransactionsWithUTXO verify b (csUTXOSet cs) (tip_height cs + 1) = Accepts () \<and> coinbase_in_range b \<and>
       value_out (hd (mTransactions b)) = uint (GetBlockSubsidy (ucast (tip_height cs + 1))) +
         (if tip_height cs + 1 < FEES_TO_MINER_HEIGHT then 0 else block_fees (csUTXOSet cs) (tl (mTransactions b)))"
      by blast
  qed (simp_all add: B template_block_facts)
qed


text \<open>
  C7. What the miner finds, the chain takes. A block with the transactions of a template
  and the committed fields of its header, which is what the searches return, passes the
  whole of block validation and every check before the block is connected as soon as its
  hash meets the proof of work and its time lies between the median and two hours ahead.
\<close>

theorem mined_template_valid:
  assumes "miner_ready verify p cs" and "is_bytes32 dest" and "GetNextBits cs = Inr nbits" and "fresh_coinbase ms now dest p cs"
    and "BuildBlockTemplate ms now dest (Some p) cs = Inr B" and "\<not> all_zero (mMerkleRoot (mHeader B))"
    and "mTransactions b = mTransactions B" and "same_work (mHeader B) (mHeader b)"
    and "CheckProofOfWork (BlockHeader_GetHash (mHeader b)) (mBits (mHeader b))"
    and "GetMedianTimePast cs < mTimestamp (mHeader b)" and "GENESIS_TIMESTAMP \<le> mTimestamp (mHeader b)"
    and "mTimestamp (mHeader b) \<le> clock + 7200" and "csInitialized cs" and "tip_height cs = 0 \<longrightarrow> tip_hash cs = GetGenesisHash"
  shows "ValidateBlock verify clock b (csUTXOSet cs) (tip_height cs + 1) = Accepts () \<and>
    coinbase_in_range b \<and> connect_checks b cs = Inr True"
proof -
  obtain h: "hVersion (mHeader B) = 1" "mPrevBlockHash (mHeader B) = tip_hash cs" "mHeight (mHeader B) = tip_height cs + 1"
    "mBits (mHeader B) = nbits"
    and checks: "CheckBlockSize b = Accepts () \<and> CheckMerkleRoot b = Accepts () \<and> CheckBlockTransactions b = Accepts () \<and>
       CheckDuplicateTransactions b = Accepts () \<and> CheckBlockReveals b (csUTXOSet cs) (tip_height cs + 1) = Accepts () \<and>
       CheckBlockTransactionsWithUTXO verify b (csUTXOSet cs) (tip_height cs + 1) = Accepts () \<and> coinbase_in_range b"
    using assms(5,7,8) by (rule_tac template_cases [OF assms(1-4)]) auto
  have s: "hVersion (mHeader b) = 1" "mMerkleRoot (mHeader b) = mMerkleRoot (mHeader B)" "mHeight (mHeader b) = tip_height cs + 1"
    "mPrevBlockHash (mHeader b) = tip_hash cs" "mBits (mHeader b) = nbits"
    using assms(8) h by (simp_all add: same_work_def)
  have "mTimestamp (mHeader b) \<noteq> 0" using assms(10) by auto
  then have "CheckBlockHeader clock (mHeader b) = Accepts ()"
    using s assms(6,9,11,12) by (simp add: CheckBlockHeader_def not_less)
  then have "ValidateBlock verify clock b (csUTXOSet cs) (tip_height cs + 1) = Accepts ()"
    using checks by (simp add: ValidateBlock_def CheckBlock_def)
  moreover have "connect_checks b cs = Inr True"
    using s assms(3,9,10,13,14) by (simp add: connect_checks_def Let_def GetNextBits_def GetMedianTimePast_def not_le split: if_splits)
  ultimately show ?thesis using checks by blast
qed

section \<open>The block after genesis\<close>

text \<open>
  A concrete template: on the genesis block, with a pool whose payment has no coin yet. Its
  coinbase is hashed by rewriting.
\<close>

definition first_words :: "u32 list list" where
  "first_words = [
    [0x1000000, 0x1000000, 0, 0, 0, 0, 0, 0,
     0, 0, 0xffffffff, 0x1000000, 0, 0, 0, 0],
    [0, 0, 0, 0, 0, 0, 0, 0,
     0, 0, 0, 0, 0, 0, 0, 0],
    [0, 0, 0, 0, 0, 0, 0, 0,
     0, 0, 0, 0x1000000, 0xadf4ca, 0x1000000, 0x2576a820, 0],
    [0, 0, 0, 0, 0, 0, 0, 0x88ac0000,
     0, 0x8000, 0, 0, 0, 0, 0, 0x730]]"

lemma first_step_1:
  "sha_compress [0x6a09e667, 0xbb67ae85, 0x3c6ef372, 0xa54ff53a, 0x510e527f, 0x9b05688c, 0x1f83d9ab, 0x5be0cd19]
     [0x1000000, 0x1000000, 0, 0, 0, 0, 0, 0,
      0, 0, 0xffffffff, 0x1000000, 0, 0, 0, 0] =
     [0x568c6aec, 0x544d340b, 0x57f3b598, 0xc6243400, 0x23bd4872, 0x2aa8709b, 0x460e7600, 0x4e2d891b]"
  by (simp only: sha_setup, simp only: sha_run cong: sha_congs, simp add: sha_read)

lemma first_step_2:
  "sha_compress [0x568c6aec, 0x544d340b, 0x57f3b598, 0xc6243400, 0x23bd4872, 0x2aa8709b, 0x460e7600, 0x4e2d891b]
     [0, 0, 0, 0, 0, 0, 0, 0,
      0, 0, 0, 0, 0, 0, 0, 0] =
     [0xdbb3aeb0, 0x2dc3e22c, 0x9c24b182, 0xb94b8f52, 0x737b2785, 0xdbcc123f, 0x69d8a6fd, 0xf0cad39d]"
  by (simp only: sha_setup, simp only: sha_run cong: sha_congs, simp add: sha_read)

lemma first_step_3:
  "sha_compress [0xdbb3aeb0, 0x2dc3e22c, 0x9c24b182, 0xb94b8f52, 0x737b2785, 0xdbcc123f, 0x69d8a6fd, 0xf0cad39d]
     [0, 0, 0, 0, 0, 0, 0, 0,
      0, 0, 0, 0x1000000, 0xadf4ca, 0x1000000, 0x2576a820, 0] =
     [0x37c80baa, 0xf88518bf, 0xffbfa8fb, 0x6eff9835, 0xc2dac354, 0xd3a8ab9f, 0x2474000d, 0x1fa269a]"
  by (simp only: sha_setup, simp only: sha_run cong: sha_congs, simp add: sha_read)

lemma first_step_4:
  "sha_compress [0x37c80baa, 0xf88518bf, 0xffbfa8fb, 0x6eff9835, 0xc2dac354, 0xd3a8ab9f, 0x2474000d, 0x1fa269a]
     [0, 0, 0, 0, 0, 0, 0, 0x88ac0000,
      0, 0x8000, 0, 0, 0, 0, 0, 0x730] =
     [0xe2314081, 0xa071ab54, 0x165ab178, 0x19080e30, 0x3c4dcaee, 0x3bb708c0, 0x991eb569, 0x6a2b86c1]"
  by (simp only: sha_setup, simp only: sha_run cong: sha_congs, simp add: sha_read)


definition first_hash :: bytes32 where
  "first_hash =
     [0xe2, 0x31, 0x40, 0x81, 0xa0, 0x71, 0xab, 0x54, 0x16, 0x5a, 0xb1, 0x78, 0x19, 0x8, 0xe, 0x30, 0x3c,
      0x4d, 0xca, 0xee, 0x3b, 0xb7, 0x8, 0xc0, 0x99, 0x1e, 0xb5, 0x69, 0x6a, 0x2b, 0x86, 0xc1]"

definition first_template :: Block where
  "first_template = template_block 0 GENESIS_TIMESTAMP zero32 genesis_chain POW_LIMIT_COMPACT 0 []"

lemma first_serialized:
  "sha_pad (Transaction_Serialize False (coinbase_of 1 7700000000 zero32 0)) = concat (map be_bytes (concat first_words))"
  by (simp add: coinbase_of_def coinbase_marker_def Transaction_init_def Transaction_Serialize_def TxInput_Serialize_def
      TxOutput_Serialize_def TxInput_init_def mk_TxOutput_def CreatePayToPubkeyHash_def PushData_def
      CURRENT_VERSION_def WriteCompactSize_def WriteLE32_def WriteLE64_def Let_def sha_pad_def
      first_words_def be_bytes_def be_length_def OP_DUP_def OP_SHA256_def OP_EQUALVERIFY_def OP_CHECKSIG_def
      upt_rec zero32_def zero64_def replicate_literal)

lemma first_coinbase_hash: "GetHash (coinbase_of 1 7700000000 zero32 0) = first_hash"
proof -
  have "GetHash (coinbase_of 1 7700000000 zero32 0) =
      sha256_Final (sha256_Update sha256_Init (Transaction_Serialize False (coinbase_of 1 7700000000 zero32 0)))"
    by (simp add: GetHash_def GetHash_st_def ComputeHash_def coinbase_of_def Transaction_init_def)
  also have "\<dots> = concat (map be_bytes (fold (\<lambda>w s. sha_compress s w) first_words sha256_initial_hash_value))"
    by (intro sha256_chunks [OF first_serialized]) (simp_all add: first_words_def)
  also have "\<dots> = first_hash"
    by (simp add: first_words_def sha256_initial_hash_value_def first_step_1 first_step_2 first_step_3
        first_step_4 first_hash_def be_bytes_def)
  finally show ?thesis .
qed

lemma genesis_chain_facts:
  "tip_height genesis_chain = 0" "tip_hash genesis_chain = GetGenesisHash" "csInitialized genesis_chain"
  "csUTXOSet genesis_chain = UTXOSet_open sample_db" "GetMedianTimePast genesis_chain = 0"
  "GetNextBits genesis_chain = Inr POW_LIMIT_COMPACT"
proof -
  show *: "tip_height genesis_chain = 0" "tip_hash genesis_chain = GetGenesisHash" by (simp_all add: genesis_chain_def)
  show "csInitialized genesis_chain" "csUTXOSet genesis_chain = UTXOSet_open sample_db"
    by (simp_all add: genesis_chain_def sample_chain_def BuildHeightIndexLocked_def split: option.splits)
  show "GetMedianTimePast genesis_chain = 0" by (simp add: GetMedianTimePast_def *)
  show "GetNextBits genesis_chain = Inr POW_LIMIT_COMPACT" by (simp add: GetNextBits_def GetExpectedBitsLocked_def *)
qed

lemma first_subsidy: "GetBlockSubsidy 1 = 7700000000"
  by (simp add: GetBlockSubsidy_def HALVING_INTERVAL_def INITIAL_SUBSIDY_def COIN_def)

lemma sample_unpaid: "\<not> can_pay genesis_chain sample_spend"
proof -
  obtain i where i: "mInputs sample_spend = [i]" by (simp add: sample_spend_def)
  have "GetCoin o' (UTXOSet_open sample_db) = None" if "wf_outpoint o'" for o'
    using that by (simp add: GetCoin_def UTXOSet_open_def sample_db_empty)
  moreover have "wf_outpoint (input_outpoint i)" using i by (auto simp: sample_spend_def input_outpoint_def mk_TxInput_def)
  ultimately show ?thesis
    using sample_spend_facts(2) i by (simp add: ComputeTxFee_def genesis_chain_facts)
qed

lemma first_ready: "miner_ready verify sample_pool genesis_chain"
  using sample_unpaid
  by (simp add: miner_ready_def sample_pool_ok pool_current_def sample_pool_index sample_entry genesis_chain_facts fresh_set
      coins_nonneg_def first_subsidy MAX_MONEY_def COIN_def)

lemma first_template_built:
  "BuildBlockTemplate 0 GENESIS_TIMESTAMP zero32 (Some sample_pool) genesis_chain = Inr first_template"
proof -
  let ?v = "\<lambda>_ _ _. True"
  have z: "is_bytes32 zero32" by (simp add: zero32_def)
  note r = first_ready [of ?v, unfolded miner_ready_def]
  have cap: "total_supply (coin_view (csUTXOSet genesis_chain)) \<le> MAX_MONEY"
    by (simp add: genesis_chain_facts fresh_set MAX_MONEY_def COIN_def)
  from BuildBlockTemplate_spec [OF z _ _ genesis_chain_facts(6) _ cap, of sample_pool ?v 0 GENESIS_TIMESTAMP] r
  obtain es fees where e: "BuildBlockTemplate 0 GENESIS_TIMESTAMP zero32 (Some sample_pool) genesis_chain =
      Inr (template_block 0 GENESIS_TIMESTAMP zero32 genesis_chain POW_LIMIT_COMPACT fees (map (\<lambda>x. eTx (snd x)) es))"
    "set es \<subseteq> set (mIndex sample_pool)"
    "\<forall>x \<in> set es. good_payment ?v (csUTXOSet genesis_chain) (tip_height genesis_chain + 1) (eTx (snd x))"
    "uint fees = fee_total (csUTXOSet genesis_chain) (map (\<lambda>x. eTx (snd x)) es)" by blast
  have "es = []"
  proof (rule ccontr)
    assume "es \<noteq> []"
    then obtain x where "x \<in> set es" by (meson list.set_sel(1))
    then have "good_payment ?v (csUTXOSet genesis_chain) (tip_height genesis_chain + 1) sample_spend"
      using e(2,3) by (force simp: sample_pool_index sample_entry)
    then show False
      using ComputeTxFee_exact [of sample_spend genesis_chain "tip_height genesis_chain + 1"] good_payment_checks sample_unpaid
      by (force simp: good_payment_def)
  qed
  then have "fees = 0" using e(4) by (simp add: fee_total_def uint_0_iff)
  then show ?thesis using e(1) \<open>es = []\<close> by (simp add: first_template_def)
qed

lemma first_facts: "mTransactions first_template = [coinbase_of 1 7700000000 zero32 0]"
  "mMerkleRoot (mHeader first_template) = first_hash" "mTimestamp (mHeader first_template) = GENESIS_TIMESTAMP + 1"
  "mBits (mHeader first_template) = POW_LIMIT_COMPACT"
proof -
  show t: "mTransactions first_template = [coinbase_of 1 7700000000 zero32 0]"
    by (simp add: first_template_def template_block_facts genesis_chain_facts first_subsidy MinerFeesAtHeight_def)
  show "mMerkleRoot (mHeader first_template) = first_hash"
    using t by (simp add: first_template_def template_block_facts Block_ComputeMerkleRoot_def ComputeMerkleRoot_def first_coinbase_hash)
  show "mTimestamp (mHeader first_template) = GENESIS_TIMESTAMP + 1" "mBits (mHeader first_template) = POW_LIMIT_COMPACT"
    by (simp_all add: first_template_def template_block_facts template_time_def genesis_chain_facts GENESIS_TIMESTAMP_def)
qed

lemma first_fresh: "fresh_coinbase 0 GENESIS_TIMESTAMP zero32 sample_pool genesis_chain"
proof -
  have "GetHash sample_spend = replicate 32 2" by (rule sample_spend_facts(3))
  moreover have "HashToKey first_hash \<noteq> HashToKey (replicate 32 2)"
    by (simp add: HashToKey_def hex2_def kHexDigits_def first_hash_def replicate_literal)
  ultimately show ?thesis
    by (simp add: fresh_coinbase_def first_template_built first_facts sample_pool_index first_coinbase_hash)
qed


text \<open>The template with a hash that meets the target, as it stands once cached.\<close>

definition first_mined :: Block where
  "first_mined = first_template\<lparr>mHeader := (mHeader first_template)\<lparr>mBlockHash := zero32, hHashCached := True\<rparr>\<rparr>"

theorem mined_template_valid_witness:
  "ValidateBlock (\<lambda>_ _ _. False) GENESIS_TIMESTAMP first_mined (csUTXOSet genesis_chain) 1 = Accepts () \<and>
   connect_checks first_mined genesis_chain = Inr True"
proof -
  let ?v = "\<lambda>_ _ _. False"
  have z: "is_bytes32 zero32" by (simp add: zero32_def)
  have "\<not> all_zero (mMerkleRoot (mHeader first_template))"
    by (simp add: first_facts first_hash_def all_zero_def)
  moreover have "same_work (mHeader first_template) (mHeader first_mined)" by (simp add: first_mined_def same_work_def)
  moreover have "CheckProofOfWork (BlockHeader_GetHash (mHeader first_mined)) (mBits (mHeader first_mined))"
    using mined_pow
    by (simp add: first_mined_def first_facts BlockHeader_GetHash_def BlockHeader_GetHash_st_def POW_LIMIT_COMPACT_def)
  ultimately show ?thesis
    using mined_template_valid [OF first_ready [of ?v] z genesis_chain_facts(6) first_fresh first_template_built,
        of first_mined GENESIS_TIMESTAMP]
    by (simp add: first_mined_def first_facts genesis_chain_facts GENESIS_TIMESTAMP_def)
qed

end
