(* ===== verification/Node_Pool.thy ===== *)
theory Node_Pool
  imports Mined_Block Chain_Tip
begin

text \<open>
  The pool of a running node (\<open>AcceptToMempool\<close> and \<open>SyncMempoolWithChain\<close> of \<open>main.cpp\<close>,
  \<open>ReleaseOutpointsFor\<close> of \<open>node/wallet_manager.cpp\<close>): how payments enter it and how it
  follows the chain, and that what it holds stays valid for the next block while blocks
  extend the tip. The clocks and the signature library are arguments.
\<close>

section \<open>Admission and synchronisation\<close>

fun input_sum :: "UTXOSet \<Rightarrow> int \<Rightarrow> TxInput list \<Rightarrow> int option" where
  "input_sum u totalIn [] = Some totalIn"
| "input_sum u totalIn (input # inputs) =
     (case GetCoin (input_outpoint input) u of
        None \<Rightarrow> None
      | Some coin \<Rightarrow> input_sum u (totalIn + cValue coin) inputs)"

text \<open>A check that throws leaves the pool as it is, and so does one that rejects.\<close>

definition admit_if :: "('s, 'a) verdict \<Rightarrow> Mempool \<Rightarrow> (bool result \<times> Mempool) option \<Rightarrow> (bool result \<times> Mempool) option" where
  "admit_if v p k = (case v of Throws e \<Rightarrow> Some (Inl e, p) | Rejects _ \<Rightarrow> Some (Inr False, p) | Accepts _ \<Rightarrow> k)"

definition AcceptToMempool ::
  "(bytes32 \<Rightarrow> bytes64 \<Rightarrow> byte list \<Rightarrow> bool) \<Rightarrow> doubles \<Rightarrow> int \<Rightarrow> Transaction \<Rightarrow> ChainState \<Rightarrow> Mempool \<Rightarrow>
   (bool result \<times> Mempool) option" where
  "AcceptToMempool verify fp now tx cs p =
     admit_if (CheckTransaction tx) p (
     if IsCoinbase tx then Some (Inr False, p)
     else let nextHeight = tip_height cs + 1 in
     admit_if (CheckTransactionWithUTXO tx (csUTXOSet cs) nextHeight) p (
     admit_if (VerifyTransactionSignatures verify tx (csUTXOSet cs) {}) p (
     case input_sum (csUTXOSet cs) 0 (mInputs tx) of
       None \<Rightarrow> Some (Inr False, p)
     | Some totalIn \<Rightarrow>
         (case GetValueOut tx of
            Inl e \<Rightarrow> Some (Inl e, p)
          | Inr valueOut \<Rightarrow> Mempool_AddTransaction fp now tx (totalIn - valueOut) p))))"

text \<open>What the wallet holds back for payments in flight, by outpoint.\<close>

type_synonym held = "(string \<times> bytes32) list"

definition ReleaseOutpointsFor :: "bytes32 \<Rightarrow> held \<Rightarrow> held" where
  "ReleaseOutpointsFor txid h = filter (\<lambda>x. snd x \<noteq> txid) h"

record Node =
  nChain :: "ChainState option"
  nPool :: "Mempool option"
  nHeld :: "held option"

fun resurrect ::
  "(bytes32 \<Rightarrow> bytes64 \<Rightarrow> byte list \<Rightarrow> bool) \<Rightarrow> doubles \<Rightarrow> (nat \<Rightarrow> int) \<Rightarrow> nat \<Rightarrow> ChainState \<Rightarrow> Transaction list \<Rightarrow> Mempool \<Rightarrow>
   (unit result \<times> Mempool) option" where
  "resurrect verify fp clock i cs [] p = Some (Inr (), p)"
| "resurrect verify fp clock i cs (tx # txs) p =
     (case AcceptToMempool verify fp (clock i) tx cs p of
        None \<Rightarrow> None
      | Some (Inl e, p) \<Rightarrow> Some (Inl e, p)
      | Some (Inr _, p) \<Rightarrow> resurrect verify fp clock (Suc i) cs txs p)"

definition SyncMempoolWithChain ::
  "(bytes32 \<Rightarrow> bytes64 \<Rightarrow> byte list \<Rightarrow> bool) \<Rightarrow> doubles \<Rightarrow> (nat \<Rightarrow> int) \<Rightarrow> Node \<Rightarrow> (unit result \<times> Node) option" where
  "SyncMempoolWithChain verify fp clock node =
     (case (nChain node, nPool node) of
        (Some cs, Some p) \<Rightarrow>
          (case TakeMempoolSync cs of (conn, disc, cs) \<Rightarrow>
            let p = (if conn \<noteq> [] then RemoveForBlock conn p else p);
                h = map_option (fold (\<lambda>tx. ReleaseOutpointsFor (GetHash tx)) conn) (nHeld node);
                h = map_option (fold (\<lambda>tx. ReleaseOutpointsFor (GetHash tx)) disc) h
            in map_option (\<lambda>(r, p). (r, node\<lparr>nChain := Some cs, nPool := Some p, nHeld := h\<rparr>))
                 (resurrect verify fp clock 0 cs disc p))
      | _ \<Rightarrow> Some (Inr (), node))"

section \<open>A good payment stays good\<close>

lemma good_payment_kept:
  assumes g: "good_payment verify u ht tx" and coins: "\<forall>o' \<in> spends tx. coin_view u' o' = coin_view u o'"
    and leaves: "set (tx_leaf_keys tx) \<inter> leaf_view u' = {}" and ht: "ht \<le> ht'"
  shows "good_payment verify u' ht' tx"
proof -
  obtain s where nc: "\<not> IsCoinbase tx" and wf: "wf_Transaction tx" and c: "utxo_checks_ok tx u ht"
    and v: "VerifyTransactionSignatures verify tx u {} = Accepts s"
    using g good_payment_checks [OF g] by (auto simp: good_payment_def)
  have wfo: "wf_outpoint (input_outpoint i)" "wf_TxInput i" if "i \<in> set (mInputs tx)" for i
    using wf that by (auto simp: wf_Transaction_def wf_TxInput_def input_outpoint_def)
  have same: "GetCoin (input_outpoint i) u' = GetCoin (input_outpoint i) u" if "i \<in> set (mInputs tx)" for i
    using coins wfo(1) [OF that] that by (auto simp: spends_def coin_view_def)
  have "value_in u' tx = value_in u tx"
    unfolding value_in_def by (intro arg_cong [of _ _ sum_list] map_cong) (simp_all add: input_value_def same)
  moreover have "spendable u' ht' i" if "i \<in> set (mInputs tx)" for i
    using c that ht by (fastforce simp: utxo_checks_ok_def spendable_def same)
  ultimately have c': "utxo_checks_ok tx u' ht'" using c by (simp add: utxo_checks_ok_def)
  have iv: "\<forall>kin \<in> set (enumerate 0 (mInputs tx)). input_valid verify tx u kin"
    and d: "distinct (leaf_ids tx (enumerate 0 (mInputs tx)))"
    using v nc by (auto simp: VerifyTransactionSignatures_def sig_loop_Accepts)
  have "\<forall>kin \<in> set (enumerate 0 (mInputs tx)). input_valid verify tx u' kin"
  proof
    fix kin assume k: "kin \<in> set (enumerate 0 (mInputs tx))"
    then have "snd kin \<in> set (mInputs tx)" by (metis set_map image_eqI map_snd_enumerate)
    then show "input_valid verify tx u' kin" using iv k same by (fastforce simp: input_valid_def)
  qed
  moreover have "claimable u' {} l" if l: "l \<in> set (leaf_ids tx (enumerate 0 (mInputs tx)))" for l
  proof -
    have "key_of l \<in> set (tx_leaf_keys tx)" using l by (simp add: tx_leaf_keys_ids [OF iv])
    moreover have "wf_leaf (key_of l)" if "key_of l \<in> set (tx_leaf_keys tx)"
      using that wfo(2) by (auto simp: tx_leaf_keys_def leaf_keys_def wf_TxInput_def)
    ultimately show ?thesis using leaves by (auto simp: claimable_def leaf_view_def key_of_def)
  qed
  ultimately have "\<exists>s. VerifyTransactionSignatures verify tx u' {} = Accepts s"
    using d nc by (simp add: VerifyTransactionSignatures_def sig_loop_Accepts)
  then show ?thesis using nc wf c' CheckTransactionWithUTXO_Accepts [OF nc] by (simp add: good_payment_def)
qed

text \<open>Coins that no connected transaction spends survive, and only its leaves become spent.\<close>

lemma log_views_coin:
  "log_views m0 L0 lg m L \<Longrightarrow> m0 o' = Some c \<Longrightarrow> \<forall>(tx, s) \<in> set lg. IsCoinbase tx \<or> o' \<notin> spends tx \<Longrightarrow> m o' = Some c"
proof (induction lg arbitrary: m L)
  case (Cons x lg)
  obtain tx s where x: "x = (tx, s)" by (cases x)
  obtain m' L' ht where v: "log_views m0 L0 lg m' L'" "fresh_outputs tx m'"
    "ledger_apply tx ht (IsCoinbase tx) m' L' = Some (s, m, L)" using Cons.prems(1) by (auto simp: x)
  have m': "m' o' = Some c" using Cons.IH [OF v(1)] Cons.prems(2,3) by simp
  then have "created tx ht (IsCoinbase tx) o' = None"
    using v(2) dom_created [of tx ht "IsCoinbase tx"] by (auto simp: fresh_outputs_def)
  then show ?case
    using v(3) m' Cons.prems(3) by (auto simp: x ledger_apply_def map_add_def split: if_splits option.splits)
qed simp

lemma log_views_parse:
  "log_views m0 L0 lg m L \<Longrightarrow> (tx, s) \<in> set lg \<Longrightarrow> \<not> IsCoinbase tx \<Longrightarrow> i \<in> set (mInputs tx) \<Longrightarrow> proofs_parse i"
proof (induction lg arbitrary: m L)
  case (Cons x lg)
  obtain tx' s' where x: "x = (tx', s')" by (cases x)
  obtain m' L' ht where v: "log_views m0 L0 lg m' L'" "ledger_apply tx' ht (IsCoinbase tx') m' L' = Some (s', m, L)"
    using Cons.prems(1) by (auto simp: x)
  show ?case using Cons.IH [OF v(1)] Cons.prems ledger_apply_spent [OF v(2)] by (auto simp: x)
qed simp

lemma pool_leaf_keys:
  assumes "\<forall>i \<in> set (mInputs tx). proofs_parse i"
  shows "ExtractLeafKeys tx = (True, map (\<lambda>l. leaf_key (lk_kps l) (lk_leafIndex l)) (tx_leaf_keys tx))"
  using extract_inputs_leaves [OF assms, of "[]"]
  by (simp add: ExtractLeafKeys_def tx_leaf_keys_def leaf_keys_def map_concat comp_def)


section \<open>Everything in the pool can be mined\<close>

definition pool_minable :: "(bytes32 \<Rightarrow> bytes64 \<Rightarrow> byte list \<Rightarrow> bool) \<Rightarrow> Mempool \<Rightarrow> ChainState \<Rightarrow> bool" where
  "pool_minable verify p cs \<longleftrightarrow> mempool_ok p \<and>
     (\<forall>(k, e) \<in> set (mIndex p). good_payment verify (csUTXOSet cs) (tip_height cs + 1) (eTx e))"

lemma added_entries:
  assumes ok: "mempool_ok p" and room: "unat (mSequenceCounter p) + 1 < 2 ^ 64"
    and add: "Mempool_AddTransaction fp now tx fee p = Some (r, p')" and e: "(k, e) \<in> set (mIndex p')"
  shows "(k, e) \<in> set (mIndex p) \<or> eTx e = tx"
proof -
  obtain n q where ex: "ExpireLocked now p = Some (n, q)" and w: "without (stale (now - MEMPOOL_EXPIRY_SECONDS) p) p q"
    using expire_loop_returns [OF ok] unfolding ExpireLocked_def by blast
  have q: "mempool_ok q" "mSequenceCounter q = mSequenceCounter p" "set (mIndex q) \<subseteq> set (mIndex p)"
    using w without_subpool [OF w] by (simp_all add: without_def subpool_def)
  obtain v q' where pol: "pool_policy fp now tx fee q = (v, q')" by (cases "pool_policy fp now tx fee q")
  have s: "mIndex q' = mIndex q" using same_tablesD [OF pool_policy_same [of fp now tx fee q]] pol by simp
  show ?thesis
  proof (cases "v = Inr True")
    case True
    let ?p = "insert_entry (HashToKey (GetHash tx)) (new_entry now tx fee q') q'"
    note i = insert_new_entry [OF q(1) pol [unfolded True] room [folded q(2)]]
    obtain p'' where "TrimLocked fp now ?p = Some p''" "subpool p'' ?p" using TrimLocked_returns [OF i(1)] by blast
    then have "set (mIndex p') \<subseteq> set (mIndex ?p)"
      using True ex pol add by (auto simp: Mempool_AddTransaction_def Let_def subpool_def)
    then show ?thesis using e i(2) q(3) by (auto simp: sample_entry)
  next
    case False
    then have "p' = q'" using ex pol add by (auto simp: Mempool_AddTransaction_def split: sum.splits bool.splits)
    then show ?thesis using e s q(3) by auto
  qed
qed

lemma AcceptToMempool_keeps:
  assumes pool: "pool_minable verify p cs" and room: "unat (mSequenceCounter p) + 1 < 2 ^ 64" and wf: "wf_Transaction tx"
  shows "\<exists>r p'. AcceptToMempool verify fp now tx cs p = Some (r, p') \<and> pool_minable verify p' cs"
proof (cases "good_payment verify (csUTXOSet cs) (tip_height cs + 1) tx")
  case True
  have ok: "mempool_ok p" using pool by (simp add: pool_minable_def)
  have "\<exists>r p'. Mempool_AddTransaction fp now tx fee p = Some (r, p') \<and> pool_minable verify p' cs" for fee
  proof -
    obtain r p' where a: "Mempool_AddTransaction fp now tx fee p = Some (r, p')" "mempool_ok p'"
      using Mempool_AddTransaction_returns [OF ok room] by blast
    then show ?thesis
      using added_entries [OF ok room a(1)] pool True by (fastforce simp: pool_minable_def)
  qed
  then show ?thesis
    using pool by (auto simp: AcceptToMempool_def admit_if_def Let_def split: verdict.splits option.splits sum.splits)
next
  case False
  then have "AcceptToMempool verify fp now tx cs p \<in> {Some (r, p) | r. True}"
    using wf by (auto simp: AcceptToMempool_def admit_if_def good_payment_def Let_def split: verdict.splits)
  then show ?thesis using pool by auto
qed

lemma connect_finish_queues:
  "csSyncConnected (connect_finish block work cs) =
     csSyncConnected cs @ filter (\<lambda>tx. \<not> IsCoinbase tx) (mTransactions block)"
  "csSyncDisconnected (connect_finish block work cs) = csSyncDisconnected cs"
  by (simp_all add: connect_finish_def Let_def QueueConnectedLocked_def write_genesis_def commit_utxo_def write_best_def
      push_height_def set_tip_def)

lemma clash_spends:
  assumes "o' \<in> spends tx" and "o' \<in> spends (eTx e)"
  shows "ruled_out tx k e"
proof -
  obtain i j where ij: "i \<in> set (mInputs tx)" "j \<in> set (mInputs (eTx e))" "input_outpoint i = input_outpoint j"
    using assms by (auto simp: spends_def)
  have "input_key i = input_key j" using ij(3) by (simp add: input_outpoint_def input_key_def)
  moreover have "input_key i \<in> input_key ` set (mInputs tx)" "input_key j \<in> spent_keys e"
    using ij(1,2) unfolding spent_keys_def by blast+
  ultimately have "input_key ` set (mInputs tx) \<inter> spent_keys e \<noteq> {}" by (metis disjoint_iff)
  then show ?thesis by (simp add: ruled_out_def)
qed

lemma clash_leaves:
  assumes "pool_entry_ok k e" and "\<forall>i \<in> set (mInputs (eTx e)). proofs_parse i" and "\<forall>i \<in> set (mInputs tx). proofs_parse i"
    and l: "l \<in> set (tx_leaf_keys tx)" "l \<in> set (tx_leaf_keys (eTx e))"
  shows "ruled_out tx k e"
proof -
  have "leaf_key (lk_kps l) (lk_leafIndex l) \<in> set (snd (ExtractLeafKeys tx)) \<inter> set (eLeafKeys e)"
    using assms pool_leaf_keys [of tx] pool_leaf_keys [of "eTx e"] by (simp add: pool_entry_ok_def)
  then show ?thesis using pool_leaf_keys [OF assms(3)] by (auto simp: ruled_out_def)
qed

text \<open>An entry that a connected block leaves in the pool is a good payment on top of it.\<close>

lemma entry_survives:
  assumes g: "good_payment verify u ht (eTx e)" and pe: "pool_entry_ok k e" and ht: "ht \<le> ht'"
    and v: "log_views (coin_view u) (leaf_view u) lg (coin_view u') (leaf_view u')"
    and clear: "\<And>tx s. (tx, s) \<in> set lg \<Longrightarrow> \<not> IsCoinbase tx \<Longrightarrow> \<not> ruled_out tx k e"
  shows "good_payment verify u' ht' (eTx e)"
proof (rule good_payment_kept [OF g _ _ ht])
  obtain s where V: "VerifyTransactionSignatures verify (eTx e) u {} = Accepts s" "\<not> IsCoinbase (eTx e)" "wf_Transaction (eTx e)"
    using g by (auto simp: good_payment_def)
  note P = verified_payment [OF V]
  show "\<forall>o' \<in> spends (eTx e). coin_view u' o' = coin_view u o'"
  proof
    fix o' assume o: "o' \<in> spends (eTx e)"
    then obtain co where co: "coin_view u o' = Some co" using P(1) by (fastforce simp: spends_def)
    have "\<forall>(tx, s) \<in> set lg. IsCoinbase tx \<or> o' \<notin> spends tx" using clear clash_spends [OF _ o] by blast
    then show "coin_view u' o' = coin_view u o'" using log_views_coin [OF v co] co by simp
  qed
  have "l \<notin> set (log_leaves lg)" if l: "l \<in> set (tx_leaf_keys (eTx e))" for l
  proof
    assume "l \<in> set (log_leaves lg)"
    then obtain tx s where t: "(tx, s) \<in> set lg" "\<not> IsCoinbase tx" "l \<in> set (tx_leaf_keys tx)"
      by (auto simp: log_leaves_def split: if_splits)
    have "\<forall>i \<in> set (mInputs tx). proofs_parse i" using log_views_parse [OF v t(1,2)] by blast
    with clash_leaves [OF pe _ _ t(3) l] P(1) clear [OF t(1,2)] show False by blast
  qed
  then show "set (tx_leaf_keys (eTx e)) \<inter> leaf_view u' = {}"
    using P(3) log_views_leaves [OF v] by blast
qed

lemma connect_keeps_pool:
  assumes inv: "utxo_inv (csUTXOSet cs)" and b: "connectable block cs" and c: "ConnectBlockLocked block cs = (Inr True, cs1)"
    and ht: "unat (tip_height cs) + 2 < 2 ^ 32" and pool: "pool_minable verify p cs"
    and p': "mempool_ok p'" "set (mIndex p') \<subseteq> set (mIndex p)"
    and clear: "\<And>tx k e. tx \<in> set (mTransactions block) \<Longrightarrow> \<not> IsCoinbase tx \<Longrightarrow> (k, e) \<in> set (mIndex p') \<Longrightarrow> \<not> ruled_out tx k e"
  shows "pool_minable verify p' cs1" and "utxo_inv (csUTXOSet cs1)" and "tip_height cs1 = tip_height cs + 1"
    and "csSyncConnected cs1 = csSyncConnected cs @ filter (\<lambda>tx. \<not> IsCoinbase tx) (mTransactions block)"
    and "csSyncDisconnected cs1 = csSyncDisconnected cs"
proof -
  let ?u = "csUTXOSet cs" and ?n = "tip_height cs + 1"
  have B: "storable block" "block_shape block" "block_fresh block (coin_view ?u)" using b by (auto simp: connectable_def)
  obtain undo u work io padR padW pos bd where C: "connect_checks block cs = Inr True"
    "ApplyBlockTwoPhase block ?n ?u = (Inr True, undo, u)" "AddChainWork (chainWork (csBestChain cs)) (mBits (mHeader block)) = Inr work"
    "WriteBlockConnected io padR padW block ?n work undo (csBlockData cs) = (Inr pos, bd)"
    "cs1 = connect_finish block work (cs\<lparr>csUTXOSet := u, csBlockData := bd, csDisk := stl (csDisk cs)\<rparr>)"
    by (rule ConnectBlockLocked_True [OF c])
  obtain cb txs spents where S: "mTransactions block = cb # txs" "IsCoinbase cb" "length spents = length txs"
    "undo = \<lparr>txUndo = map (\<lambda>s. \<lparr>spentCoins = s\<rparr>) spents\<rparr>" "utxo_run ?u (rev (zip txs spents) @ [(cb, [])]) u"
    "wf_BlockUndo undo" "length (BlockUndo_Serialize undo) < 2 ^ 32"
    by (rule connect_undo [OF inv B C(2)])
  note F = connect_finish_fields [of block work "cs\<lparr>csUTXOSet := u, csBlockData := bd, csDisk := stl (csDisk cs)\<rparr>", folded C(5)]
  define lg where "lg = rev (zip txs spents) @ [(cb, [])]"
  have v: "utxo_inv u" "log_views (coin_view ?u) (leaf_view ?u) lg (coin_view u) (leaf_view u)"
    using utxo_run_views [OF S(5) inv] by (simp_all add: lg_def)
  have views: "coin_view (csUTXOSet cs1) = coin_view u" "leaf_view (csUTXOSet cs1) = leaf_view u"
    using F(4) v(1) by (simp_all add: FlushCache_views)
  show "utxo_inv (csUTXOSet cs1)" using F(4) v(1) by (simp add: FlushCache_inv)
  show tip: "tip_height cs1 = ?n" using F(1) by simp
  show "csSyncConnected cs1 = csSyncConnected cs @ filter (\<lambda>tx. \<not> IsCoinbase tx) (mTransactions block)"
    "csSyncDisconnected cs1 = csSyncDisconnected cs"
    using connect_finish_queues by (simp_all add: C(5))
  have le: "?n \<le> ?n + 1" using ht by (simp add: word_le_nat_alt unat_word_ariths)
  have lv: "log_views (coin_view ?u) (leaf_view ?u) lg (coin_view (csUTXOSet cs1)) (leaf_view (csUTXOSet cs1))"
    using v(2) by (simp only: views)
  have mem: "tx \<in> set (mTransactions block)" if "(tx, s) \<in> set lg" for tx s
    using that S(1) by (auto simp: lg_def dest: set_zip_leftD)
  have good: "\<forall>x \<in> set (mIndex p). good_payment verify ?u ?n (eTx (snd x))"
    using pool by (simp add: pool_minable_def case_prod_beta)
  have "good_payment verify (csUTXOSet cs1) (?n + 1) (eTx e)" if e: "(k, e) \<in> set (mIndex p')" for k e
  proof (rule entry_survives [where k = k, OF _ _ le lv])
    from bspec [OF good subsetD [OF p'(2) e]] show "good_payment verify ?u ?n (eTx e)" by simp
    show "pool_entry_ok k e" using p'(1) e by (rule mempool_okD(2))
    show "\<not> ruled_out tx k e" if "(tx, s) \<in> set lg" "\<not> IsCoinbase tx" for tx s using clear [OF mem [OF that(1)] that(2) e] .
  qed
  then show "pool_minable verify p' cs1" using p'(1) unfolding pool_minable_def tip by blast
qed

section \<open>A running node\<close>

text \<open>
  What a node does between reorganisations: payments arrive, from peers or from the
  wallet, and blocks extend the tip, after each of which the pool is synchronised.
\<close>

inductive node_run :: "(bytes32 \<Rightarrow> bytes64 \<Rightarrow> byte list \<Rightarrow> bool) \<Rightarrow> doubles \<Rightarrow> Node \<Rightarrow> Node \<Rightarrow> bool" for verify fp n0 where
  start: "node_run verify fp n0 n0"
| submit: "node_run verify fp n0 node \<Longrightarrow> nChain node = Some cs \<Longrightarrow> nPool node = Some p \<Longrightarrow> wf_Transaction tx \<Longrightarrow>
    unat (mSequenceCounter p) + 1 < 2 ^ 64 \<Longrightarrow> AcceptToMempool verify fp now tx cs p = Some (r, p') \<Longrightarrow>
    node_run verify fp n0 (node\<lparr>nPool := Some p'\<rparr>)"
| block: "node_run verify fp n0 node \<Longrightarrow> nChain node = Some cs \<Longrightarrow> connectable block cs \<Longrightarrow>
    unat (tip_height cs) + 2 < 2 ^ 32 \<Longrightarrow> ConnectBlockLocked block cs = (Inr True, cs1) \<Longrightarrow>
    SyncMempoolWithChain verify fp clock (node\<lparr>nChain := Some cs1\<rparr>) = Some (r, node') \<Longrightarrow>
    node_run verify fp n0 node'"

definition node_good :: "(bytes32 \<Rightarrow> bytes64 \<Rightarrow> byte list \<Rightarrow> bool) \<Rightarrow> Node \<Rightarrow> bool" where
  "node_good verify node \<longleftrightarrow> (\<exists>cs p. nChain node = Some cs \<and> nPool node = Some p \<and> utxo_inv (csUTXOSet cs) \<and>
     pool_minable verify p cs \<and> csSyncConnected cs = [] \<and> csSyncDisconnected cs = [])"

lemma sync_after_block:
  assumes good: "node_good verify node" and cs: "nChain node = Some cs" and b: "connectable block cs"
    and ht: "unat (tip_height cs) + 2 < 2 ^ 32" and c: "ConnectBlockLocked block cs = (Inr True, cs1)"
  shows "\<exists>node'. SyncMempoolWithChain verify fp clock (node\<lparr>nChain := Some cs1\<rparr>) = Some (Inr (), node') \<and>
    node_good verify node' \<and> (\<exists>cs2. nChain node' = Some cs2 \<and> tip_height cs2 = tip_height cs + 1)"
proof -
  obtain p where p: "nPool node = Some p" "utxo_inv (csUTXOSet cs)" "pool_minable verify p cs"
    "csSyncConnected cs = []" "csSyncDisconnected cs = []" using good cs by (auto simp: node_good_def)
  define conn where "conn = filter (\<lambda>tx. \<not> IsCoinbase tx) (mTransactions block)"
  define p' where "p' = (if conn \<noteq> [] then RemoveForBlock conn p else p)"
  define cs2 where "cs2 = snd (snd (TakeMempoolSync cs1))"
  have ok: "mempool_ok p" using p(3) by (simp add: pool_minable_def)
  note R = RemoveForBlock_spec [OF ok, of conn]
  have p': "mempool_ok p'" "set (mIndex p') \<subseteq> set (mIndex p)"
    using R ok by (auto simp: p'_def spares_def subpool_def)
  have "\<not> ruled_out tx k e"
    if "tx \<in> set (mTransactions block)" "\<not> IsCoinbase tx" "(k, e) \<in> set (mIndex p')" for tx k e
  proof -
    have "tx \<in> set conn" using that by (simp add: conn_def)
    then show ?thesis using R that(2,3) by (auto simp: p'_def split: if_splits)
  qed
  note K = connect_keeps_pool [OF p(2) b c ht p(3) p' this]
  have q: "csSyncConnected cs1 = conn" "csSyncDisconnected cs1 = []" using K(4,5) p(4,5) by (simp_all add: conn_def)
  have f: "csUTXOSet cs2 = csUTXOSet cs1" "tip_height cs2 = tip_height cs1" "csSyncConnected cs2 = []" "csSyncDisconnected cs2 = []"
    by (simp_all add: cs2_def TakeMempoolSync_def)
  have "node_good verify (node\<lparr>nChain := Some cs2, nPool := Some p', nHeld := h\<rparr>)" for h
    using K(1,2) f by (simp add: node_good_def pool_minable_def)
  then show ?thesis
    using q p(1) f(2) K(3) by (auto simp: SyncMempoolWithChain_def TakeMempoolSync_def cs2_def p'_def Let_def)
qed

lemma node_run_good:
  assumes "node_run verify fp n0 node" and "node_good verify n0"
  shows "node_good verify node"
  using assms
proof (induction rule: node_run.induct)
  case (submit node cs p tx now r p')
  then have g: "utxo_inv (csUTXOSet cs)" "pool_minable verify p cs" "csSyncConnected cs = []" "csSyncDisconnected cs = []"
    by (auto simp: node_good_def)
  have "pool_minable verify p' cs" using AcceptToMempool_keeps [OF g(2) submit.hyps(5,4), of fp now] submit.hyps(6) by auto
  then show ?case using g submit.hyps(2) by (simp add: node_good_def)
next
  case (block node cs block cs1 clock r node')
  then show ?case using sync_after_block [OF _ block.hyps(2-5), of verify fp clock] by auto
qed

text \<open>
  C8. Everything in the pool can be mined. Start from a node whose pool holds only payments
  that are valid for the next block, such as the empty pool, and let payments be admitted
  and blocks extend the tip in any order, synchronising after each block. Then the tables of
  the pool agree, every payment in it passes, against the coins of the current tip, the checks
  of value, maturity and fee and those of its signatures and noise proofs for the next block,
  and so does everything block assembly is offered.
\<close>

theorem pool_always_minable:
  assumes "node_run verify fp n0 node" and "node_good verify n0"
  shows "\<exists>cs p. nChain node = Some cs \<and> nPool node = Some p \<and> mempool_ok p \<and> pool_current verify p cs \<and>
    (\<forall>tx \<in> set (GetTransactions n p). CheckTransactionWithUTXO tx (csUTXOSet cs) (tip_height cs + 1) = Accepts () \<and>
       (\<exists>scope. VerifyTransactionSignatures verify tx (csUTXOSet cs) {} = Accepts scope))"
proof -
  obtain cs p where g: "nChain node = Some cs" "nPool node = Some p" "pool_minable verify p cs"
    using node_run_good [OF assms] by (auto simp: node_good_def)
  have ok: "mempool_ok p" and good: "\<forall>x \<in> set (mIndex p). good_payment verify (csUTXOSet cs) (tip_height cs + 1) (eTx (snd x))"
    using g(3) by (simp_all add: pool_minable_def case_prod_beta)
  have "pool_current verify p cs" using good by (simp add: pool_current_def case_prod_beta)
  moreover have "good_payment verify (csUTXOSet cs) (tip_height cs + 1) tx" if "tx \<in> set (GetTransactions n p)" for tx
  proof -
    have "set (GetTransactions n p) \<subseteq> (\<lambda>x. eTx (snd x)) ` set (mIndex p)"
      using GetTransactions_by_rate [OF ok, of n] set_by_rate [OF ok] set_take_subset [of n "rev (by_rate p)"] by auto
    then show ?thesis using good that by blast
  qed
  ultimately show ?thesis using g ok by (auto simp: good_payment_def)
qed

theorem pool_always_minable_witness:
  "\<exists>node cs p. node_run (\<lambda>_ _ _. True) exact_doubles
      \<lparr>nChain = Some genesis_chain, nPool = Some (Mempool_init 1000), nHeld = None\<rparr> node \<and>
    nChain node = Some cs \<and> tip_height cs = 1 \<and> nPool node = Some p \<and> pool_current (\<lambda>_ _ _. True) p cs"
proof -
  let ?v = "\<lambda>_ _ _. True" and ?n0 = "\<lparr>nChain = Some genesis_chain, nPool = Some (Mempool_init 1000), nHeld = None\<rparr>"
  have "csSyncConnected genesis_chain = []" "csSyncDisconnected genesis_chain = []"
    by (simp_all add: genesis_chain_def sample_chain_def BuildHeightIndexLocked_def split: option.splits)
  moreover have "mIndex (Mempool_init 1000) = []" by (simp add: Mempool_init_def)
  ultimately have g: "node_good ?v ?n0"
    using genesis_chain_ok by (simp add: node_good_def pool_minable_def node_ok_def)
  obtain cs1 where c: "ConnectBlockLocked tip_block genesis_chain = (Inr True, cs1)" using tip_block_connects by blast
  have h: "unat (tip_height genesis_chain) + 2 < 2 ^ 32" by (simp add: genesis_chain_facts(1))
  obtain node' cs2 where s: "SyncMempoolWithChain ?v exact_doubles (\<lambda>_. 1000) (?n0\<lparr>nChain := Some cs1\<rparr>) = Some (Inr (), node')"
    "nChain node' = Some cs2" "tip_height cs2 = 1"
    using sync_after_block [OF g _ tip_block_connectable h c, of exact_doubles "\<lambda>_. 1000"] by (auto simp: genesis_chain_facts(1))
  have run: "node_run ?v exact_doubles ?n0 node'"
    by (rule node_run.block [OF node_run.start _ tip_block_connectable h c s(1)]) simp
  obtain p where "nPool node' = Some p" "pool_current ?v p cs2"
    using pool_always_minable [OF run g, of 0] s(2) by auto
  then show ?thesis using run s(2,3) by blast
qed

end
