(* ===== verification/Spec2Isabelle.thy ===== *)
theory Spec2Isabelle
  imports Pow Script Noise_Tree Utxo_Query Money_Supply Chain_Tip Pool_File Node_Pool
begin

text \<open>
  A verification development for MONEU, a proof-of-work cryptocurrency node whose payments
  are authorised by a signature and by one-time leaves of a hash tree over random noise.
  The sources are under \<open>src/src/\<close>.

  \<^bold>\<open>The program and how its parts interact\<close>

  A payment spends unspent outputs. It is checked by \<open>validation/tx_validation.cpp\<close> against
  the UTXO set of \<open>storage/utxo_set.cpp\<close>, which caches a key-value store
  (\<open>storage/db_wrapper.cpp\<close>), and waits in the pool of \<open>consensus/mempool.cpp\<close>. The miner
  (\<open>miner.cpp\<close>) takes payments from the pool, builds a block on the best block and searches a
  nonce. A block is checked by \<open>validation/block_validation.cpp\<close> and \<open>consensus/pow.cpp\<close>,
  stored by \<open>storage/block_data.cpp\<close> and connected by \<open>storage/chain_state.cpp\<close>, which
  disconnects and reconnects blocks when a branch with more work appears. Data types and
  wire formats are in \<open>primitives/\<close>, hashes and big integers in \<open>crypto/\<close>, noise proofs in
  \<open>wallet/noise_otp.cpp\<close> and \<open>wallet/noise_tree.cpp\<close>, constants in \<open>chainparams.cpp\<close>.

  \<^bold>\<open>Conventions\<close>

  Machine integers are words of their width, \<open>int64_t\<close> amounts are integers where the code
  guards their range; byte arrays and vectors are lists of bytes, classes are records, and an
  exception is \<open>Inl\<close> of a fault in \<open>'a result\<close>. A validation routine returns \<open>Accepts\<close> or
  the reason of the rejection. State is passed explicitly. Clocks, the disk, the random
  source and Ed25519 are arguments of the operations that use them. Cached hashes are fields
  of the records, as in the code.

  \<^bold>\<open>Theories\<close>

  \<^item> \<open>Moneu_Prelude\<close>: word types, faults, the result monad, bounds-checked reads, the
    little-endian codecs and the contract \<open>codec\<close>, which every wire format interprets.
  \<^item> \<open>Uint256_Spec\<close>, \<open>Arith_Uint256\<close>, \<open>Arith_Compact\<close>: \<open>crypto/arith_uint256\<close>; the contract
    \<open>uint256\<close> (arithmetic modulo \<open>2 ^ 256\<close>) is interpreted on the limb operators, and the
    compact encoding of targets rounds down and is stable.
  \<^item> \<open>Chain_Params\<close>, \<open>Genesis\<close>: \<open>chainparams.cpp\<close>; the subsidies sum to at most the cap.
  \<^item> \<open>Pow\<close>: the hash check, both difficulty rules and chain work.
  \<^item> \<open>Sha256\<close>, \<open>Sha256_Eval\<close>: \<open>crypto/sha2.c\<close>, both transforms and the streaming interface
    against the standard hash, and a way to compute it by rewriting.
  \<^item> \<open>Script\<close>, \<open>Keys\<close>, \<open>Transaction\<close>, \<open>Block\<close>: \<open>primitives/\<close>; wire formats are inverse to
    parsing, parsing is memory safe, sums do not overflow, signing and verifying fit
    together, the verification cache (contract \<open>signature_check\<close>) does not change a verdict,
    and hashes commit to what they cover or exhibit a collision.
  \<^item> \<open>Noise_Otp\<close>, \<open>Noise_Tree\<close>: \<open>wallet/noise_otp.cpp\<close> and the streaming builder
    \<open>wallet/noise_tree.cpp\<close>; proofs are sound, complete and one-time, and both builders
    compute the same root.
  \<^item> \<open>Db_Wrapper\<close>: \<open>storage/db_wrapper\<close> over LevelDB as an ordered map with atomic batches;
    contracts \<open>record_store\<close> and \<open>record_codec\<close>.
  \<^item> \<open>Utxo_Set\<close>, \<open>Utxo_Ledger\<close>, \<open>Utxo_Flush\<close>, \<open>Utxo_Query\<close>: \<open>storage/utxo_set.cpp\<close>; the
    contract \<open>utxo_ledger\<close> is an abstract ledger of coins and consumed leaves that applying
    and undoing implement, flushing is durable, a crash inside a flush is recovered by
    replay, and the queries are exact.
  \<^item> \<open>Block_Undo\<close>, \<open>Block_Data\<close>: undo records and block files; storing is all or nothing in
    the index and loses no earlier block.
  \<^item> \<open>Tx_Validation\<close>, \<open>Block_Validation\<close>: \<open>validation/\<close>; acceptance is characterised exactly.
  \<^item> \<open>Block_Connect\<close>, \<open>Chain_Index\<close>, \<open>Chain_State\<close>, \<open>Chain_Progress\<close>, \<open>Chain_Tip\<close>:
    \<open>storage/chain_state.cpp\<close>; connecting is atomic on the coins, accepting a block always
    returns, and disconnecting the tip undoes connecting it.
  \<^item> \<open>Money_Supply\<close>: along every chain of accepted blocks the coins stay within the cap.
  \<^item> \<open>Tx_Pool\<close>, \<open>Pool_Invariant\<close>, \<open>Pool_Policy\<close>, \<open>Pool_File\<close>: \<open>consensus/mempool.cpp\<close>; the
    tables agree after any run of operations, eviction is an auction, connected blocks clear
    exactly the conflicts, and the pool file is read back as written. The two searches
    through the pool share the contract \<open>worklist\<close>.
  \<^item> \<open>Genesis_Block\<close>: \<open>BuildGenesisBlock\<close> evaluated; its computed hash is the one the client
    names and meets the proof of work.
  \<^item> \<open>Mining_Kernel\<close>, \<open>Mining_Search\<close>: the nonce searches of \<open>miner.cpp\<close> and the kernel text
    of \<open>node/miner_kernel.h\<close>; what they return solves the block, an undisturbed search finds
    the first solution, and a stale search ends.
  \<^item> \<open>Block_Template\<close>, \<open>Mined_Block\<close>: the templates of \<open>miner.cpp\<close>; they pass the checks of
    block validation, and with a nonce that meets the target those of connection too.
  \<^item> \<open>Node_Pool\<close>: \<open>AcceptToMempool\<close> and \<open>SyncMempoolWithChain\<close> of \<open>main.cpp\<close>; while payments
    arrive and blocks extend the tip, everything in the pool stays valid for the next block.

  \<^bold>\<open>Loops and bounds\<close>

  Loops over containers are structural recursion. Loops that may run forever are partial
  functions into \<open>option\<close>, without fuel: trimming and expiry of the pool, the block
  locator, the branch walk and the rewind of a reorganisation, and the nonce searches. For
  each there is a theorem that it returns, the last under the condition that the template
  eventually goes stale or a solution is met. The two searches through the pool terminate
  because no transaction is queued twice. Walks over the block index that the code
  bounds by a step count have the same count here.

  \<^bold>\<open>Hypotheses\<close>

  The results about templates assume that a payment of the pool whose coins exist is still
  a valid payment for the next block (\<open>pool_current\<close>), which \<open>Node_Pool\<close> shows of a node between
  reorganisations, and that the identifier of the new coinbase is not that of a pool
  transaction (\<open>fresh_coinbase\<close>). Results about signatures assume that the library verifies
  what it signs. Results about hashes hold for every input, with an exhibited collision as
  the alternative.

  \<^bold>\<open>Not modelled\<close>

  The network (\<open>net/\<close>), the RPC server and command line client, node start-up (the rest of \<open>main.cpp\<close>),
  configuration, logging and the lock-order checker: sockets, threads, text and process
  management around the modelled operations. The wallet manager, key derivation, mnemonics,
  address text, wallet encryption, noise generation and storage: they produce payments and
  noise files, which are inputs here, and no consensus rule depends on how. Of the miner, the
  thread loops, the submission of a found block and the counters. SHA-1, SHA-384 and SHA-512
  of \<open>crypto/sha2.c\<close>. The vendored LevelDB and Ed25519 are used through their documented
  behaviour. Mutexes are left out: an operation that the code runs under one
  lock is one function here.
\<close>

end
